(* ===== verification/Prelude.thy ===== *)
theory Prelude
  imports Main "HOL-Library.Word"
begin

text \<open>
  Shared vocabulary of the development: the C integer types, error codes, the memory image of
  integers (the host is little endian, as x86-64 and AArch64 are), byte order conversion, and
  block copies on byte lists.

  Conventions used by every component theory.
  \<^item> An argument of record type stands for a pointer that is not NULL; the leading
    \<^verbatim>\<open>if (!mb) return EINVAL;\<close> guard on such an argument has no counterpart. A pointer
    for which the code gives NULL a meaning of its own is an \<open>option\<close>.
  \<^item> \<^verbatim>\<open>int\<close> error codes are natural numbers, 0 is success, so that the code's
    \<^verbatim>\<open>err |= f()\<close> is the bitwise \<open>OR\<close> of the codes.
  \<^item> \<^verbatim>\<open>size_t\<close> values are natural numbers and the wrap-around at \<open>2 ^ 64\<close> is written
    out with \<open>szt\<close>; the fixed width integers are words.
\<close>

unbundle bit_operations_syntax

section \<open>Types and error codes\<close>

type_synonym u8 = "8 word"
type_synonym u16 = "16 word"
type_synonym u32 = "32 word"
type_synonym u64 = "64 word"
type_synonym bytes = "u8 list"
type_synonym errno = nat

text \<open>The bytes of a C string literal, without the terminating NUL.\<close>

definition str_bytes :: "string \<Rightarrow> bytes" where
  "str_bytes s = map of_char s"

named_theorems errno_defs \<open>numeric values of the error codes (Linux)\<close>

definition ENOENT :: errno where [errno_defs]: "ENOENT = 2"
definition ENOMEM :: errno where [errno_defs]: "ENOMEM = 12"
definition EACCES :: errno where [errno_defs]: "EACCES = 13"
definition EINVAL :: errno where [errno_defs]: "EINVAL = 22"
definition ERANGE :: errno where [errno_defs]: "ERANGE = 34"
definition ENOSR :: errno where [errno_defs]: "ENOSR = 63"
definition EPROTO :: errno where [errno_defs]: "EPROTO = 71"
definition EBADMSG :: errno where [errno_defs]: "EBADMSG = 74"
definition EOVERFLOW :: errno where [errno_defs]: "EOVERFLOW = 75"
definition ENOTSUP :: errno where [errno_defs]: "ENOTSUP = 95"
definition EAFNOSUPPORT :: errno where [errno_defs]: "EAFNOSUPPORT = 97"
definition ETIMEDOUT :: errno where [errno_defs]: "ETIMEDOUT = 110"
definition EALREADY :: errno where [errno_defs]: "EALREADY = 114"
definition EAUTH :: errno where [errno_defs]: "EAUTH = 217"

section \<open>The width of size\_t\<close>

definition szt :: "nat \<Rightarrow> nat" where
  "szt n = n mod 2 ^ 64"

lemma szt_id [simp]: "n < 2 ^ 64 \<Longrightarrow> szt n = n"
  by (simp add: szt_def)

lemma szt_bound: "szt n < 2 ^ 64"
  by (simp add: szt_def)

text \<open>Subtraction of \<^verbatim>\<open>size_t\<close> values.\<close>

definition sz_sub :: "nat \<Rightarrow> nat \<Rightarrow> nat" where
  "sz_sub a b = szt (a + (2 ^ 64 - szt b))"

lemma sz_sub_eq: "b \<le> a \<Longrightarrow> a < 2 ^ 64 \<Longrightarrow> sz_sub a b = a - b"
proof -
  assume "b \<le> a" "a < 2 ^ 64"
  then have "a + (2 ^ 64 - szt b) = (a - b) + 2 ^ 64" by simp
  then have "sz_sub a b = szt ((a - b) + 2 ^ 64)" by (simp only: sz_sub_def)
  also have "\<dots> = a - b" using \<open>a < 2 ^ 64\<close> by (simp only: szt_def mod_add_self2) simp
  finally show ?thesis .
qed

text \<open>The bytes missing to a multiple of four.\<close>

definition pad_len :: "nat \<Rightarrow> nat" where
  "pad_len n = (4 - n mod 4) mod 4"

lemma pad_len_simps: "pad_len n < 4" "(n + pad_len n) mod 4 = 0" "n mod 4 = 0 \<longleftrightarrow> pad_len n = 0"
  "n mod 4 \<noteq> 0 \<Longrightarrow> pad_len (Suc n) = pad_len n - 1"
proof -
  define r where "r = n mod 4"
  have r: "r < 4" by (simp add: r_def)
  have s: "(n + k) mod 4 = (r + k) mod 4" for k by (simp add: r_def mod_add_left_eq)
  have "r = 0 \<or> r = 1 \<or> r = 2 \<or> r = 3" using r by linarith
  then show "pad_len n < 4" "(n + pad_len n) mod 4 = 0" "n mod 4 = 0 \<longleftrightarrow> pad_len n = 0"
    "n mod 4 \<noteq> 0 \<Longrightarrow> pad_len (Suc n) = pad_len n - 1"
    unfolding pad_len_def s using s [of 1] by (auto simp: r_def [symmetric])
qed

section \<open>Accumulated error codes\<close>

text \<open>
  \<open>err_or r f\<close> is the idiom \<^verbatim>\<open>err |= f(mb)\<close>: the next call is made whatever the
  earlier ones returned, and the codes are combined bitwise.
\<close>

definition err_or :: "errno \<times> 's \<Rightarrow> ('s \<Rightarrow> errno \<times> 's) \<Rightarrow> errno \<times> 's" where
  "err_or r f = (case r of (e, s) \<Rightarrow> (case f s of (e', s') \<Rightarrow> (e OR e', s')))"

lemma err_or_ok:
  "err_or r f = (0, s') \<longleftrightarrow> (\<exists>s. r = (0, s) \<and> f s = (0, s'))"
  by (auto simp: err_or_def or_eq_0_iff split: prod.splits)

lemma err_or_assoc: "err_or (err_or r f) g = err_or r (\<lambda>s. err_or (f s) g)"
  by (simp add: err_or_def or.assoc split: prod.splits)

section \<open>Block copies\<close>

text \<open>
  \<open>mem_put off src dst\<close> is \<^verbatim>\<open>memcpy(dst + off, src, len)\<close> for a block \<open>src\<close> of
  \<open>len\<close> bytes. A copy that stays within \<open>dst\<close> keeps its length, and only such a
  copy does: \<open>length_mem_put_iff\<close> is how out of bounds writes would show.
\<close>

definition mem_put :: "nat \<Rightarrow> 'a list \<Rightarrow> 'a list \<Rightarrow> 'a list" where
  "mem_put off src dst = take off dst @ src @ drop (off + length src) dst"

lemma length_mem_put [simp]:
  "off + length src \<le> length dst \<Longrightarrow> length (mem_put off src dst) = length dst"
  by (simp add: mem_put_def)

lemma length_mem_put_iff:
  "src \<noteq> [] \<Longrightarrow> off \<le> length dst \<Longrightarrow>
     length (mem_put off src dst) = length dst \<longleftrightarrow> off + length src \<le> length dst"
  by (cases src) (auto simp: mem_put_def)

lemma take_mem_put [simp]:
  "off + length src \<le> length dst \<Longrightarrow> take off (mem_put off src dst) = take off dst"
  by (simp add: mem_put_def)

lemma take_mem_put_le:
  "n \<le> off \<Longrightarrow> off + length src \<le> length dst \<Longrightarrow> take n (mem_put off src dst) = take n dst"
  by (simp add: mem_put_def min_def)

lemma take_mem_put_end:
  "off + length src \<le> length dst \<Longrightarrow>
     take (off + length src) (mem_put off src dst) = take off dst @ src"
  by (simp add: mem_put_def)

lemma drop_mem_put_end:
  "off + length src \<le> length dst \<Longrightarrow>
     drop (off + length src) (mem_put off src dst) = drop (off + length src) dst"
  by (simp add: mem_put_def)

lemma slice_mem_put:
  "off + length src \<le> length dst \<Longrightarrow> take (length src) (drop off (mem_put off src dst)) = src"
  by (simp add: mem_put_def)

lemma mem_put_Nil [simp]: "mem_put off [] dst = dst"
  by (simp add: mem_put_def)

lemma mem_put_all [simp]: "length src = length dst \<Longrightarrow> mem_put 0 src dst = src"
  by (simp add: mem_put_def)

lemma mem_put_mem_put:
  assumes "off + length xs + length ys \<le> length dst"
  shows "mem_put (off + length xs) ys (mem_put off xs dst) = mem_put off (xs @ ys) dst"
proof -
  have "off \<le> length dst" using assms by simp
  then show ?thesis
    by (simp add: mem_put_def min_def ac_simps)
qed

section \<open>Memory image of integers and byte order\<close>

text \<open>
  \<open>word_to_le n v\<close> is the memory image of the \<open>n\<close> byte integer \<open>v\<close>
  (\<^verbatim>\<open>(uint8_t *)&v\<close>), \<open>word_of_le\<close> reads it back. \<open>htons\<close>, \<open>htonl\<close>
  reverse the image, as they do on a little endian host; \<open>ntohs\<close> and \<open>ntohl\<close> are
  the same functions. \<open>be16\<close>, \<open>be32\<close> and \<open>be64\<close> name the network order images.
\<close>

fun word_of_le :: "bytes \<Rightarrow> 'a::len word" where
  "word_of_le [] = 0"
| "word_of_le (b # bs) = ucast b OR push_bit 8 (word_of_le bs)"

definition word_to_le :: "nat \<Rightarrow> 'a::len word \<Rightarrow> bytes" where
  "word_to_le n v = map (\<lambda>i. ucast (drop_bit (8 * i) v)) [0..<n]"

definition htons :: "u16 \<Rightarrow> u16" where
  "htons v = word_of_le (rev (word_to_le 2 v))"

definition htonl :: "u32 \<Rightarrow> u32" where
  "htonl v = word_of_le (rev (word_to_le 4 v))"

abbreviation ntohs :: "u16 \<Rightarrow> u16" where
  "ntohs \<equiv> htons"

abbreviation ntohl :: "u32 \<Rightarrow> u32" where
  "ntohl \<equiv> htonl"

definition be16 :: "u16 \<Rightarrow> bytes" where
  "be16 v = rev (word_to_le 2 v)"

definition be32 :: "u32 \<Rightarrow> bytes" where
  "be32 v = rev (word_to_le 4 v)"

definition be64 :: "u64 \<Rightarrow> bytes" where
  "be64 v = rev (word_to_le 8 v)"

lemma length_word_to_le [simp]: "length (word_to_le n v) = n"
  by (simp add: word_to_le_def)

lemma length_be [simp]: "length (be16 a) = 2" "length (be32 b) = 4" "length (be64 c) = 8"
  by (simp_all add: be16_def be32_def be64_def)

lemma bit_word_of_le:
  "bit (word_of_le bs :: 'a::len word) k \<longleftrightarrow>
     k < LENGTH('a) \<and> k div 8 < length bs \<and> bit (bs ! (k div 8)) (k mod 8)"
proof (induction bs arbitrary: k)
  case Nil
  then show ?case by simp
next
  case (Cons b bs)
  show ?case
  proof (cases "k < 8")
    case True
    then have "k div 8 = 0" "k mod 8 = k" by simp_all
    with True show ?thesis
      by (auto simp: bit_or_iff bit_ucast_iff bit_push_bit_iff)
  next
    case False
    then have "k div 8 = Suc ((k - 8) div 8)" "(k - 8) mod 8 = k mod 8"
      by (simp_all add: le_div_geq le_mod_geq)
    moreover have "\<not> bit b k"
      using False bit_imp_le_length [of b k] by auto
    ultimately show ?thesis
      using False Cons.IH [of "k - 8"]
      by (auto simp: bit_or_iff bit_ucast_iff bit_push_bit_iff)
  qed
qed

lemma word_of_to_le [simp]:
  assumes "LENGTH('a) = 8 * n"
  shows "word_of_le (word_to_le n v) = (v :: 'a::len word)"
proof (rule bit_word_eqI)
  fix k assume "k < LENGTH('a)"
  moreover from this have "k div 8 < n" using assms by simp
  ultimately show "bit (word_of_le (word_to_le n v) :: 'a word) k = bit v k"
    by (simp add: bit_word_of_le word_to_le_def bit_simps)
qed

lemma word_to_of_le:
  assumes "LENGTH('a) = 8 * n" and "length bs = n"
  shows "word_to_le n (word_of_le bs :: 'a::len word) = bs"
proof (rule nth_equalityI)
  fix i assume i: "i < length (word_to_le n (word_of_le bs :: 'a word))"
  show "word_to_le n (word_of_le bs :: 'a word) ! i = bs ! i"
  proof (rule bit_word_eqI)
    fix k assume k: "k < LENGTH(8)"
    with i assms have "8 * i + k < LENGTH('a)" by simp
    with i k show "bit (word_to_le n (word_of_le bs :: 'a word) ! i) k = bit (bs ! i) k"
      using assms by (simp add: bit_word_of_le word_to_le_def bit_simps)
  qed
qed (simp add: assms)

lemma word_to_le_htons [simp]: "word_to_le 2 (htons v) = be16 v"
  by (simp add: htons_def be16_def word_to_of_le)

lemma word_to_le_htonl [simp]: "word_to_le 4 (htonl v) = be32 v"
  by (simp add: htonl_def be32_def word_to_of_le)

lemma ntohs_be16 [simp]: "ntohs (word_of_le (be16 v)) = v"
  by (simp add: htons_def be16_def word_to_of_le)

lemma ntohl_be32 [simp]: "ntohl (word_of_le (be32 v)) = v"
  by (simp add: htonl_def be32_def word_to_of_le)

lemma htons_htons [simp]: "htons (htons v) = v"
  by (simp add: htons_def word_to_of_le)

lemma htonl_htonl [simp]: "htonl (htonl v) = v"
  by (simp add: htonl_def word_to_of_le)

lemma be16_ntohs: "length bs = 2 \<Longrightarrow> be16 (ntohs (word_of_le bs)) = bs"
  by (simp add: be16_def htons_def word_to_of_le)

lemma be32_ntohl: "length bs = 4 \<Longrightarrow> be32 (ntohl (word_of_le bs)) = bs"
  by (simp add: be32_def htonl_def word_to_of_le)

lemma word_to_le_1 [simp]: "word_to_le 1 (v :: u8) = [v]" "word_to_le (Suc 0) (v :: u8) = [v]"
  by (simp_all add: word_to_le_def)

lemma word_of_le_1 [simp]: "word_of_le [v] = (v :: u8)"
  by simp

text \<open>The signed value of a word.\<close>

lemma sint_cases:
  fixes w :: "'a::len word"
  shows "sint w = (if unat w < 2 ^ (LENGTH('a) - 1) then int (unat w) else int (unat w) - 2 ^ LENGTH('a))"
proof -
  let ?h = "2 ^ (LENGTH('a) - 1) :: int"
  have p: "(2 :: int) ^ LENGTH('a) = 2 * ?h" by (metis len_gt_0 power_minus_mult mult.commute)
  have lt: "int (unat w) < 2 * ?h" using unsigned_less [of w, where ?'a = nat]
    by (metis p of_nat_less_iff of_nat_numeral of_nat_power)
  have s: "sint w = (int (unat w) + ?h) mod (2 * ?h) - ?h"
    using int_word_sint [of "uint w", where ?'a = 'a] by (simp add: p)
  have c: "unat w < 2 ^ (LENGTH('a) - 1) \<longleftrightarrow> int (unat w) < ?h"
    by (metis of_nat_less_iff of_nat_numeral of_nat_power)
  show ?thesis
  proof (cases "int (unat w) < ?h")
    case True
    then have "(int (unat w) + ?h) mod (2 * ?h) = int (unat w) + ?h" by (intro mod_pos_pos_trivial) auto
    then show ?thesis using s True c by simp
  next
    case False
    have "(int (unat w) + ?h) mod (2 * ?h) = (int (unat w) + ?h - 2 * ?h) mod (2 * ?h)" by (rule minus_mod_self2 [symmetric])
    also have "\<dots> = int (unat w) - ?h" using False lt by (subst mod_pos_pos_trivial) auto
    finally show ?thesis using s False c by (simp add: p)
  qed
qed

lemma sint_of_int_id:
  "- (2 ^ (LENGTH('a) - 1)) \<le> k \<Longrightarrow> k < 2 ^ (LENGTH('a) - 1) \<Longrightarrow>
     sint (word_of_int k :: 'a::len word) = k"
  by (simp add: signed_of_int signed_take_bit_int_eq_self)

text \<open>Shifts, masks and conversions on the natural number a word stands for.\<close>

lemma unat_take_bit: "unat (take_bit n w) = unat w mod 2 ^ n" for w :: "'a::len word"
  by (simp only: unsigned_take_bit_eq) (simp add: take_bit_eq_mod)

lemma unat_drop_bit: "unat (drop_bit n w) = unat w div 2 ^ n" for w :: "'a::len word"
  by (simp only: unsigned_drop_bit_eq) (simp add: drop_bit_eq_div take_bit_nat_eq_self)

lemma unat_push_bit: "unat (push_bit n w) = (unat w * 2 ^ n) mod 2 ^ LENGTH('a)" for w :: "'a::len word"
  by (simp only: unsigned_push_bit_eq) (simp add: push_bit_eq_mult take_bit_eq_mod)

lemma and_masks:
  "w AND 0x01 = take_bit 1 w" "w AND 0x03 = take_bit 2 w" "w AND 0x07 = take_bit 3 w"
  "w AND 0x0f = take_bit 4 w" "w AND 0x1f = take_bit 5 w" "w AND 0x3f = take_bit 6 w" "w AND 0x7f = take_bit 7 w"
  "w AND 0xff = take_bit 8 w" "w AND 0x3fff = take_bit 14 w" "w AND 0xffff = take_bit 16 w"
  "w AND 0xffffff = take_bit 24 w"
  for w :: "'a::len word"
  by (simp_all add: take_bit_eq_mask mask_eq_exp_minus_1)

lemma unat_ucast: "unat (ucast w :: 'b::len word) = unat w mod 2 ^ LENGTH('b)" for w :: "'a::len word"
  by (simp only: unsigned_ucast_eq) (simp add: take_bit_eq_mod)

lemma unat_ucast_up: "LENGTH('a) \<le> LENGTH('b) \<Longrightarrow> unat (ucast w :: 'b::len word) = unat w"
  for w :: "'a::len word"
proof -
  assume "LENGTH('a) \<le> LENGTH('b)"
  then have "(2 :: nat) ^ LENGTH('a) \<le> 2 ^ LENGTH('b)" by simp
  moreover have "unat w < 2 ^ LENGTH('a)" by simp
  ultimately have "unat w < 2 ^ LENGTH('b)" by (rule order_less_le_trans [rotated])
  then show ?thesis by (simp add: unat_ucast)
qed

lemma unat_uminus: "unat (- w) = (if w = 0 then 0 else 2 ^ LENGTH('a) - unat w)" for w :: "'a::len word"
proof (cases "w = 0")
  case False
  have "unat (- w + w) = (unat (- w) + unat w) mod 2 ^ LENGTH('a)" by (rule unat_word_ariths)
  then have d: "2 ^ LENGTH('a) dvd unat (- w) + unat w" by (simp add: mod_eq_0_iff_dvd)
  have "unat w \<noteq> 0" using False by (simp add: unat_eq_0)
  moreover have "unat (- w) < 2 ^ LENGTH('a)" "unat w < 2 ^ LENGTH('a)" by simp_all
  ultimately have "unat (- w) + unat w = 2 ^ LENGTH('a)"
  proof -
    from d obtain k where k: "unat (- w) + unat w = 2 ^ LENGTH('a) * k" by (auto elim: dvdE)
    assume a: "unat w \<noteq> 0" "unat (- w) < 2 ^ LENGTH('a)" "unat w < 2 ^ LENGTH('a)"
    have "0 < 2 ^ LENGTH('a) * k" using k a by linarith
    moreover have "2 ^ LENGTH('a) * k < 2 ^ LENGTH('a) * 2" using k a by linarith
    ultimately have "k = 1" by simp
    with k show ?thesis by simp
  qed
  then show ?thesis using False by simp
qed simp

section \<open>src/sys/endian.c\<close>

definition sys_htols :: "u16 \<Rightarrow> u16" where
  "sys_htols v = (let p = word_to_le 2 v in
     push_bit 0 (ucast (p ! 0)) OR push_bit 8 (ucast (p ! 1)))"

definition sys_htoll :: "u32 \<Rightarrow> u32" where
  "sys_htoll v = (let p = word_to_le 4 v in
     push_bit 0 (ucast (p ! 0)) OR push_bit 8 (ucast (p ! 1)) OR
     push_bit 16 (ucast (p ! 2)) OR push_bit 24 (ucast (p ! 3)))"

definition sys_ltohs :: "u16 \<Rightarrow> u16" where
  "sys_ltohs v = word_of_le
     [ucast (drop_bit 0 v AND 0xff), ucast (drop_bit 8 v AND 0xff)]"

definition sys_ltohl :: "u32 \<Rightarrow> u32" where
  "sys_ltohl v = word_of_le
     [ucast (drop_bit 0 v AND 0xff), ucast (drop_bit 8 v AND 0xff),
      ucast (drop_bit 16 v AND 0xff), ucast (drop_bit 24 v AND 0xff)]"

definition sys_htonll :: "u64 \<Rightarrow> u64" where
  "sys_htonll v = (let p = word_to_le 8 v in
     push_bit 56 (ucast (p ! 0)) OR push_bit 48 (ucast (p ! 1)) OR
     push_bit 40 (ucast (p ! 2)) OR push_bit 32 (ucast (p ! 3)) OR
     push_bit 24 (ucast (p ! 4)) OR push_bit 16 (ucast (p ! 5)) OR
     push_bit 8 (ucast (p ! 6)) OR push_bit 0 (ucast (p ! 7)))"

definition sys_ntohll :: "u64 \<Rightarrow> u64" where
  "sys_ntohll v = word_of_le
     [ucast (drop_bit 56 v AND 0xff), ucast (drop_bit 48 v AND 0xff),
      ucast (drop_bit 40 v AND 0xff), ucast (drop_bit 32 v AND 0xff),
      ucast (drop_bit 24 v AND 0xff), ucast (drop_bit 16 v AND 0xff),
      ucast (drop_bit 8 v AND 0xff), ucast (drop_bit 0 v AND 0xff)]"

lemma ucast_and_ff: "ucast (w AND 0xff) = (ucast w :: u8)" for w :: "'a::len word"
proof -
  have "w AND 0xff = take_bit 8 w" by (simp add: take_bit_eq_mask mask_eq_exp_minus_1)
  then show ?thesis by (simp add: unsigned_take_bit_eq take_bit_word_eq_self)
qed

lemma sys_htonll_rev: "sys_htonll v = word_of_le (rev (word_to_le 8 v))"
  by (simp add: sys_htonll_def word_to_le_def upt_rec push_bit_or Let_def ac_simps)

lemma sys_ntohll_rev: "sys_ntohll v = word_of_le (rev (word_to_le 8 v))"
  by (simp add: sys_ntohll_def ucast_and_ff word_to_le_def upt_rec)

lemma word_to_le_htonll [simp]: "word_to_le 8 (sys_htonll v) = be64 v"
  by (simp add: sys_htonll_rev be64_def word_to_of_le)

lemma ntohll_be64 [simp]: "sys_ntohll (word_of_le (be64 v)) = v"
  by (simp add: sys_ntohll_rev be64_def word_to_of_le)

lemma sys_htols_id: "sys_htols v = v"
proof -
  have "sys_htols v = word_of_le (word_to_le 2 v)"
    by (simp add: sys_htols_def word_to_le_def upt_rec Let_def)
  then show ?thesis by simp
qed

lemma sys_htoll_id: "sys_htoll v = v"
proof -
  have "sys_htoll v = word_of_le (word_to_le 4 v)"
    by (simp add: sys_htoll_def word_to_le_def upt_rec push_bit_or Let_def ac_simps)
  then show ?thesis by simp
qed

lemma sys_ltohl_htoll: "sys_ltohl (sys_htoll v) = v"
proof -
  have "sys_ltohl v = word_of_le (word_to_le 4 v)"
    by (simp add: sys_ltohl_def ucast_and_ff word_to_le_def upt_rec)
  then show ?thesis by (simp add: sys_htoll_id)
qed

lemma sys_ltohs_htols: "sys_ltohs (sys_htols v) = v"
proof -
  have "sys_ltohs v = word_of_le (word_to_le 2 v)"
    by (simp add: sys_ltohs_def ucast_and_ff word_to_le_def upt_rec)
  then show ?thesis by (simp add: sys_htols_id)
qed

lemma sys_ntohll_htonll: "sys_ntohll (sys_htonll v) = v"
  by (simp add: sys_ntohll_rev sys_htonll_rev word_to_of_le)

end
