(* ===== verification/Mbuf.thy ===== *)
theory Mbuf
  imports Prelude
begin

text \<open>
  Memory buffers: \<^verbatim>\<open>src/src/mbuf/mbuf.c\<close> and the inline functions of
  \<^verbatim>\<open>src/include/re_mbuf.h\<close>, with the two allocation functions of
  \<^verbatim>\<open>src/src/mem/mem.c\<close> they call, seen from the contents of the block.

  A \<open>malloc_env\<close> answers for the C library's allocator: which requests it can serve, and
  the indeterminate bytes of a fresh block. Every result below holds for all such answers.

  The section on refinement relates a buffer to the abstract one a caller has in mind: a byte
  string and a cursor.
\<close>

section \<open>Allocation\<close>

record malloc_env =
  avail :: "nat \<Rightarrow> bool"
  junk :: "nat \<Rightarrow> u8"

definition MEM_SIZE_MAX :: nat where
  "MEM_SIZE_MAX = 2 ^ 32 - 1"

definition malloc :: "malloc_env \<Rightarrow> nat \<Rightarrow> bytes option" where
  "malloc al n = (if avail al n then Some (map (junk al) [0..<n]) else None)"

definition mem_alloc :: "malloc_env \<Rightarrow> nat \<Rightarrow> bytes option" where
  "mem_alloc al n = (if n > MEM_SIZE_MAX then None else malloc al n)"

definition mem_zalloc :: "malloc_env \<Rightarrow> nat \<Rightarrow> bytes option" where
  "mem_zalloc al n = (case mem_alloc al n of None \<Rightarrow> None | Some _ \<Rightarrow> Some (replicate n 0))"

definition mem_realloc :: "malloc_env \<Rightarrow> bytes \<Rightarrow> nat \<Rightarrow> bytes option" where
  "mem_realloc al data n =
     (if n > MEM_SIZE_MAX then None
      else case malloc al n of None \<Rightarrow> None
           | Some b \<Rightarrow> Some (take n data @ drop (length data) b))"

lemma length_malloc [simp]: "malloc al n = Some b \<Longrightarrow> length b = n"
  by (auto simp: malloc_def split: if_splits)

lemma mem_alloc_length: "mem_alloc al n = Some b \<Longrightarrow> length b = n \<and> n \<le> MEM_SIZE_MAX"
  by (auto simp: mem_alloc_def split: if_splits)

lemma mem_realloc_length:
  "mem_realloc al d n = Some b \<Longrightarrow> length b = n \<and> n \<le> MEM_SIZE_MAX"
  by (auto simp: mem_realloc_def split: if_splits option.splits)

lemma mem_realloc_keeps:
  "mem_realloc al d n = Some b \<Longrightarrow> k \<le> length d \<Longrightarrow> k \<le> n \<Longrightarrow> take k b = take k d"
  by (auto simp: mem_realloc_def min_def split: if_splits option.splits)

section \<open>The buffer and its operations\<close>

record mbuf =
  mb_buf :: "bytes option"
  mb_size :: nat
  mb_pos :: nat
  mb_end :: nat

definition DEFAULT_SIZE :: nat where
  "DEFAULT_SIZE = 512"

definition sizeof_mbuf :: nat where
  "sizeof_mbuf = 32"

definition mbuf_init :: "mbuf \<Rightarrow> mbuf" where
  "mbuf_init mb = mb\<lparr>mb_buf := None, mb_size := 0, mb_pos := 0, mb_end := 0\<rparr>"

definition mbuf_reset :: "mbuf \<Rightarrow> mbuf" where
  "mbuf_reset mb = mbuf_init (mb\<lparr>mb_buf := None\<rparr>)"

definition mbuf_resize :: "malloc_env \<Rightarrow> mbuf \<Rightarrow> nat \<Rightarrow> errno \<times> mbuf" where
  "mbuf_resize al mb n =
     (case (case mb_buf mb of Some b \<Rightarrow> mem_realloc al b n | None \<Rightarrow> mem_alloc al n) of
        None \<Rightarrow> (ENOMEM, mb)
      | Some b \<Rightarrow> (0, mb\<lparr>mb_buf := Some b, mb_size := n\<rparr>))"

definition mbuf_zero :: mbuf where
  "mbuf_zero = \<lparr>mb_buf = None, mb_size = 0, mb_pos = 0, mb_end = 0\<rparr>"

definition mbuf_alloc :: "malloc_env \<Rightarrow> nat \<Rightarrow> mbuf option" where
  "mbuf_alloc al n =
     (case mem_zalloc al sizeof_mbuf of None \<Rightarrow> None
      | Some _ \<Rightarrow>
         (case mbuf_resize al mbuf_zero (if n \<noteq> 0 then n else DEFAULT_SIZE) of
            (err, mb) \<Rightarrow> if err \<noteq> 0 then None else Some mb))"

text \<open>\<^verbatim>\<open>mbuf_alloc_ref\<close> makes a second handle on the same block; the blocks of the model
  are values, so writes through one handle are not seen through the other. The decoders that
  use it only read.\<close>

definition mbuf_alloc_ref :: "malloc_env \<Rightarrow> mbuf \<Rightarrow> mbuf option" where
  "mbuf_alloc_ref al mbr = (case mem_zalloc al sizeof_mbuf of None \<Rightarrow> None
     | Some _ \<Rightarrow> Some \<lparr>mb_buf = mb_buf mbr, mb_size = mb_size mbr, mb_pos = mb_pos mbr, mb_end = mb_end mbr\<rparr>)"

definition mbuf_dup :: "malloc_env \<Rightarrow> mbuf option \<Rightarrow> mbuf option" where
  "mbuf_dup al mbdp =
     (case mbdp of None \<Rightarrow> None
      | Some mbd \<Rightarrow>
         (case mbuf_alloc al (mb_size mbd) of None \<Rightarrow> None
          | Some mb \<Rightarrow> Some (mb\<lparr>
              mb_size := mb_size mbd, mb_pos := mb_pos mbd, mb_end := mb_end mbd,
              mb_buf := map_option (mem_put 0 (case mb_buf mbd of None \<Rightarrow> []
                          | Some b \<Rightarrow> take (mb_size mbd) b)) (mb_buf mb)\<rparr>)))"

definition mbuf_get_left :: "mbuf \<Rightarrow> nat" where
  "mbuf_get_left mb = (if mb_end mb > mb_pos mb then mb_end mb - mb_pos mb else 0)"

definition mbuf_get_space :: "mbuf \<Rightarrow> nat" where
  "mbuf_get_space mb = (if mb_size mb > mb_pos mb then mb_size mb - mb_pos mb else 0)"

definition mbuf_set_pos :: "mbuf \<Rightarrow> nat \<Rightarrow> mbuf" where
  "mbuf_set_pos mb p = mb\<lparr>mb_pos := p\<rparr>"

definition mbuf_set_end :: "mbuf \<Rightarrow> nat \<Rightarrow> mbuf" where
  "mbuf_set_end mb e = mb\<lparr>mb_end := e\<rparr>"

definition mbuf_advance :: "mbuf \<Rightarrow> int \<Rightarrow> mbuf" where
  "mbuf_advance mb n = mb\<lparr>mb_pos := nat ((int (mb_pos mb) + n) mod 2 ^ 64)\<rparr>"

definition mbuf_rewind :: "mbuf \<Rightarrow> mbuf" where
  "mbuf_rewind mb = mb\<lparr>mb_pos := 0, mb_end := 0\<rparr>"

definition mbuf_skip_to_end :: "mbuf \<Rightarrow> mbuf" where
  "mbuf_skip_to_end mb = mb\<lparr>mb_pos := mb_end mb\<rparr>"

definition mbuf_set_posend :: "mbuf \<Rightarrow> nat \<Rightarrow> nat \<Rightarrow> mbuf" where
  "mbuf_set_posend mb p e =
     (if p > e then mb else if e > mb_size mb then mb else mb\<lparr>mb_pos := p, mb_end := e\<rparr>)"

text \<open>\<open>mbuf_bytes mb\<close> is the block behind \<^verbatim>\<open>mb->buf\<close>; NULL reads as no bytes.\<close>

definition mbuf_bytes :: "mbuf \<Rightarrow> bytes" where
  "mbuf_bytes mb = (case mb_buf mb of None \<Rightarrow> [] | Some b \<Rightarrow> b)"

definition mbuf_trim :: "malloc_env \<Rightarrow> mbuf \<Rightarrow> mbuf" where
  "mbuf_trim al mb =
     (if mb_end mb = 0 \<or> mb_end mb = mb_size mb then mb
      else snd (mbuf_resize al mb (mb_end mb)))"

definition mbuf_shift :: "malloc_env \<Rightarrow> mbuf \<Rightarrow> int \<Rightarrow> errno \<times> mbuf" where
  "mbuf_shift al mb shift =
     (if int (mb_pos mb) + shift < 0 \<or> int (mb_end mb) + shift < 0 then (ERANGE, mb)
      else
        (let rsize = nat (int (mb_end mb) + shift) in
         case (if rsize > mb_size mb then mbuf_resize al mb rsize else (0, mb)) of
           (err, mb1) \<Rightarrow>
             if err \<noteq> 0 then (err, mb1)
             else (0, mb1\<lparr>
               mb_buf := map_option (mem_put (nat (int (mb_pos mb1) + shift))
                           (take (mbuf_get_left mb1) (drop (mb_pos mb1) (mbuf_bytes mb1))))
                           (mb_buf mb1),
               mb_pos := nat (int (mb_pos mb1) + shift),
               mb_end := nat (int (mb_end mb1) + shift)\<rparr>)))"

definition mbuf_grow :: "malloc_env \<Rightarrow> mbuf \<Rightarrow> nat \<Rightarrow> errno \<times> mbuf" where
  "mbuf_grow al mb rsize =
     (if rsize > mb_size mb then
        mbuf_resize al mb
          (max rsize (if mb_size mb \<noteq> 0 then szt (mb_size mb * 2) else DEFAULT_SIZE))
      else (0, mb))"

definition mbuf_write_mem :: "malloc_env \<Rightarrow> mbuf \<Rightarrow> bytes option \<Rightarrow> errno \<times> mbuf" where
  "mbuf_write_mem al mb data =
     (case data of None \<Rightarrow> (EINVAL, mb)
      | Some bs \<Rightarrow>
         (case mbuf_grow al mb (szt (mb_pos mb + length bs)) of
            (err, mb1) \<Rightarrow>
              if err \<noteq> 0 then (err, mb1)
              else
                let pos' = szt (mb_pos mb1 + length bs) in
                (0, mb1\<lparr>mb_buf := map_option (mem_put (mb_pos mb1) bs) (mb_buf mb1),
                        mb_pos := pos', mb_end := max (mb_end mb1) pos'\<rparr>)))"

definition mbuf_fill :: "malloc_env \<Rightarrow> mbuf \<Rightarrow> u8 \<Rightarrow> nat \<Rightarrow> errno \<times> mbuf" where
  "mbuf_fill al mb c n =
     (if n = 0 then (EINVAL, mb)
      else
        (case mbuf_grow al mb (szt (mb_pos mb + n)) of
           (err, mb1) \<Rightarrow>
             if err \<noteq> 0 then (err, mb1)
             else
               let pos' = szt (mb_pos mb1 + n) in
               (0, mb1\<lparr>mb_buf := map_option (mem_put (mb_pos mb1) (replicate n c)) (mb_buf mb1),
                       mb_pos := pos', mb_end := max (mb_end mb1) pos'\<rparr>)))"

definition mbuf_write_u8 :: "malloc_env \<Rightarrow> mbuf \<Rightarrow> u8 \<Rightarrow> errno \<times> mbuf" where
  "mbuf_write_u8 al mb v = mbuf_write_mem al mb (Some (word_to_le 1 v))"

definition mbuf_write_u16 :: "malloc_env \<Rightarrow> mbuf \<Rightarrow> u16 \<Rightarrow> errno \<times> mbuf" where
  "mbuf_write_u16 al mb v = mbuf_write_mem al mb (Some (word_to_le 2 v))"

definition mbuf_write_u32 :: "malloc_env \<Rightarrow> mbuf \<Rightarrow> u32 \<Rightarrow> errno \<times> mbuf" where
  "mbuf_write_u32 al mb v = mbuf_write_mem al mb (Some (word_to_le 4 v))"

definition mbuf_write_u64 :: "malloc_env \<Rightarrow> mbuf \<Rightarrow> u64 \<Rightarrow> errno \<times> mbuf" where
  "mbuf_write_u64 al mb v = mbuf_write_mem al mb (Some (word_to_le 8 v))"

definition mbuf_write_ptr :: "malloc_env \<Rightarrow> mbuf \<Rightarrow> u64 \<Rightarrow> errno \<times> mbuf" where
  "mbuf_write_ptr al mb v = mbuf_write_mem al mb (Some (word_to_le 8 v))"

text \<open>A C string argument is the list of its bytes without the terminating NUL.\<close>

definition mbuf_write_str :: "malloc_env \<Rightarrow> mbuf \<Rightarrow> bytes option \<Rightarrow> errno \<times> mbuf" where
  "mbuf_write_str al mb str = (case str of None \<Rightarrow> (EINVAL, mb)
                               | Some s \<Rightarrow> mbuf_write_mem al mb (Some s))"

definition mbuf_read_mem :: "mbuf \<Rightarrow> nat \<Rightarrow> errno + bytes \<times> mbuf" where
  "mbuf_read_mem mb n =
     (if n > mbuf_get_left mb then Inl EOVERFLOW
      else Inr (take n (drop (mb_pos mb) (mbuf_bytes mb)), mb\<lparr>mb_pos := szt (mb_pos mb + n)\<rparr>))"

definition mbuf_read_int :: "nat \<Rightarrow> mbuf \<Rightarrow> 'a::len word \<times> mbuf" where
  "mbuf_read_int n mb = (case mbuf_read_mem mb n of
                            Inl _ \<Rightarrow> (0, mb) | Inr (bs, mb') \<Rightarrow> (word_of_le bs, mb'))"

definition mbuf_read_u8 :: "mbuf \<Rightarrow> u8 \<times> mbuf" where
  "mbuf_read_u8 mb = mbuf_read_int 1 mb"

definition mbuf_read_u16 :: "mbuf \<Rightarrow> u16 \<times> mbuf" where
  "mbuf_read_u16 mb = mbuf_read_int 2 mb"

definition mbuf_read_u32 :: "mbuf \<Rightarrow> u32 \<times> mbuf" where
  "mbuf_read_u32 mb = mbuf_read_int 4 mb"

definition mbuf_read_u64 :: "mbuf \<Rightarrow> u64 \<times> mbuf" where
  "mbuf_read_u64 mb = mbuf_read_int 8 mb"

definition mbuf_read_ptr :: "mbuf \<Rightarrow> u64 \<times> mbuf" where
  "mbuf_read_ptr mb = mbuf_read_int 8 mb"

text \<open>The bytes stored through \<^verbatim>\<open>str\<close>, at most \<open>size\<close> of them.\<close>

fun mbuf_read_str :: "mbuf \<Rightarrow> nat \<Rightarrow> bytes \<times> mbuf" where
  "mbuf_read_str mb 0 = ([], mb)"
| "mbuf_read_str mb (Suc n) =
     (case mbuf_read_u8 mb of (c, mb1) \<Rightarrow>
        if c = 0 then ([c], mb1)
        else case mbuf_read_str mb1 n of (s, mb2) \<Rightarrow> (c # s, mb2))"

definition mbuf_strdup :: "malloc_env \<Rightarrow> mbuf \<Rightarrow> nat \<Rightarrow> errno + bytes \<times> mbuf" where
  "mbuf_strdup al mb len =
     (case mem_alloc al (szt (len + 1)) of None \<Rightarrow> Inl ENOMEM
      | Some str \<Rightarrow>
         (case mbuf_read_mem mb len of Inl err \<Rightarrow> Inl err
          | Inr (bs, mb') \<Rightarrow> Inr (mem_put len [0] (mem_put 0 bs str), mb')))"

text \<open>
  Pointer-length strings are sections of one text: \<open>pl_o\<close> is the offset of
  \<^verbatim>\<open>pl->p\<close> in \<open>txt\<close>, \<open>pl_l\<close> is \<^verbatim>\<open>pl->l\<close>.
\<close>

definition mbuf_write_pl ::
  "malloc_env \<Rightarrow> mbuf \<Rightarrow> bytes \<Rightarrow> (nat \<times> nat) option \<Rightarrow> errno \<times> mbuf" where
  "mbuf_write_pl al mb txt plp =
     (case plp of None \<Rightarrow> (EINVAL, mb)
      | Some (pl_o, pl_l) \<Rightarrow> mbuf_write_mem al mb (Some (take pl_l (drop pl_o txt))))"

definition mbuf_write_pl_skip ::
  "malloc_env \<Rightarrow> mbuf \<Rightarrow> bytes \<Rightarrow> nat \<times> nat \<Rightarrow> nat \<times> nat \<Rightarrow> errno \<times> mbuf" where
  "mbuf_write_pl_skip al mb txt pl skip =
     (case (pl, skip) of ((pl_o, pl_l), (sk_o, sk_l)) \<Rightarrow>
       if pl_o > sk_o \<or> sk_o + sk_l > pl_o + pl_l then (ERANGE, mb)
       else
         (case mbuf_write_mem al mb (Some (take (sk_o - pl_o) (drop pl_o txt))) of
            (err, mb1) \<Rightarrow>
              if err \<noteq> 0 then (err, mb1)
              else mbuf_write_mem al mb1
                     (Some (take (pl_o + pl_l - (sk_o + sk_l)) (drop (sk_o + sk_l) txt)))))"


section \<open>Well-formed buffers\<close>

text \<open>
  The fields of a buffer are consistent: the data ends within the allocated block, which
  \<^verbatim>\<open>mem_alloc\<close> limits to \<open>2 ^ 32 - 1\<close> bytes. \<open>mbuf_content\<close> is the data,
  \<open>mbuf_left\<close> what a reader has in front of it.
\<close>

definition mbuf_wf :: "mbuf \<Rightarrow> bool" where
  "mbuf_wf mb \<longleftrightarrow> mb_end mb \<le> mb_size mb \<and> mb_size mb \<le> length (mbuf_bytes mb) \<and>
     mb_size mb \<le> MEM_SIZE_MAX \<and> mb_pos mb < 2 ^ 64"

definition mbuf_content :: "mbuf \<Rightarrow> bytes" where
  "mbuf_content mb = take (mb_end mb) (mbuf_bytes mb)"

definition mbuf_left :: "mbuf \<Rightarrow> bytes" where
  "mbuf_left mb = take (mbuf_get_left mb) (drop (mb_pos mb) (mbuf_bytes mb))"

lemma length_mbuf_left: "mbuf_wf mb \<Longrightarrow> length (mbuf_left mb) = mbuf_get_left mb"
  by (auto simp: mbuf_left_def mbuf_wf_def mbuf_get_left_def)

lemma length_mbuf_content [simp]: "mbuf_wf mb \<Longrightarrow> length (mbuf_content mb) = mb_end mb"
  by (auto simp: mbuf_content_def mbuf_wf_def)

lemma mbuf_left_content: "mbuf_left mb = drop (mb_pos mb) (mbuf_content mb)"
  by (simp add: mbuf_left_def mbuf_content_def mbuf_get_left_def drop_take)

lemma mbuf_resize_ok:
  assumes "mbuf_resize al mb n = (0, mb')"
  shows "mb_size mb' = n" "n \<le> MEM_SIZE_MAX" "length (mbuf_bytes mb') = n"
    "mb_pos mb' = mb_pos mb" "mb_end mb' = mb_end mb"
    "\<And>k. k \<le> length (mbuf_bytes mb) \<Longrightarrow> k \<le> n \<Longrightarrow> take k (mbuf_bytes mb') = take k (mbuf_bytes mb)"
    "mb_buf mb' \<noteq> None"
  using assms
  by (auto simp: mbuf_resize_def mbuf_bytes_def ENOMEM_def mem_realloc_keeps
      dest: mem_realloc_length mem_alloc_length split: option.splits)

lemma mbuf_resize_err: "mbuf_resize al mb n = (e, mb') \<Longrightarrow> e \<noteq> 0 \<Longrightarrow> e = ENOMEM \<and> mb' = mb"
  by (auto simp: mbuf_resize_def split: option.splits)

lemma mbuf_grow_err: "mbuf_grow al mb n = (e, mb') \<Longrightarrow> e \<noteq> 0 \<Longrightarrow> e = ENOMEM \<and> mb' = mb"
  by (auto simp: mbuf_grow_def dest: mbuf_resize_err split: if_splits)

lemma mbuf_grow_ok:
  assumes "mbuf_grow al mb n = (0, mb')" "mbuf_wf mb"
  shows "n \<le> mb_size mb'" "mb_size mb \<le> mb_size mb'" "mbuf_wf mb'"
    "mb_pos mb' = mb_pos mb" "mb_end mb' = mb_end mb"
    "\<And>k. k \<le> mb_size mb \<Longrightarrow> take k (mbuf_bytes mb') = take k (mbuf_bytes mb)"
    "0 < n \<Longrightarrow> mb_buf mb' \<noteq> None"
proof -
  have "n \<le> mb_size mb' \<and> mb_size mb \<le> mb_size mb' \<and> mbuf_wf mb' \<and> mb_pos mb' = mb_pos mb \<and> mb_end mb' = mb_end mb
     \<and> (\<forall>k. k \<le> mb_size mb \<longrightarrow> take k (mbuf_bytes mb') = take k (mbuf_bytes mb)) \<and>
     (0 < n \<longrightarrow> mb_buf mb' \<noteq> None)"
  proof (cases "n > mb_size mb")
    case True
    then have r: "mbuf_resize al mb (max n (if mb_size mb \<noteq> 0 then szt (mb_size mb * 2) else DEFAULT_SIZE)) = (0, mb')"
      using assms by (simp add: mbuf_grow_def)
    note rs = mbuf_resize_ok [OF r]
    show ?thesis using rs True assms(2) by (auto simp: mbuf_wf_def)
  next
    case False
    with assms have [simp]: "mb' = mb" by (simp add: mbuf_grow_def)
    have "mb_buf mb \<noteq> None" if "0 < n"
      using False that assms(2) by (cases "mb_buf mb") (auto simp: mbuf_wf_def mbuf_bytes_def)
    with False assms(2) show ?thesis by simp
  qed
  then show "n \<le> mb_size mb'" "mb_size mb \<le> mb_size mb'" "mbuf_wf mb'"
    "mb_pos mb' = mb_pos mb" "mb_end mb' = mb_end mb"
    "\<And>k. k \<le> mb_size mb \<Longrightarrow> take k (mbuf_bytes mb') = take k (mbuf_bytes mb)"
    "0 < n \<Longrightarrow> mb_buf mb' \<noteq> None" by auto
qed

lemma mbuf_write_mem_err:
  "mbuf_write_mem al mb d = (e, mb') \<Longrightarrow> e \<noteq> 0 \<Longrightarrow> mb' = mb \<and> (e = (if d = None then EINVAL else ENOMEM))"
  by (auto simp: mbuf_write_mem_def Let_def dest: mbuf_grow_err split: option.splits prod.splits if_splits)

lemma mbuf_write_mem_ok:
  assumes w: "mbuf_write_mem al mb (Some bs) = (0, mb')" and wf: "mbuf_wf mb"
    and lt: "mb_pos mb + length bs < 2 ^ 64"
  shows "mbuf_wf mb'" "mb_pos mb' = mb_pos mb + length bs"
    "mb_end mb' = max (mb_end mb) (mb_pos mb + length bs)" "mb_size mb \<le> mb_size mb'"
    "\<And>k. k \<le> mb_pos mb \<Longrightarrow> k \<le> mb_size mb \<Longrightarrow> take k (mbuf_bytes mb') = take k (mbuf_bytes mb)"
    "take (length bs) (drop (mb_pos mb) (mbuf_bytes mb')) = bs"
    "\<And>k. mb_pos mb + length bs \<le> k \<Longrightarrow> k \<le> mb_size mb \<Longrightarrow> 
        take (k - (mb_pos mb + length bs)) (drop (mb_pos mb + length bs) (mbuf_bytes mb')) = 
        take (k - (mb_pos mb + length bs)) (drop (mb_pos mb + length bs) (mbuf_bytes mb))"
proof -
  obtain e mb1 where g: "mbuf_grow al mb (mb_pos mb + length bs) = (e, mb1)" by fastforce
  from w g lt have e: "e = 0" by (auto simp: mbuf_write_mem_def split: if_splits)
  note gr = mbuf_grow_ok [OF g [unfolded e] wf]
  from w g e lt have mb': "mb' = mb1\<lparr>mb_buf := map_option (mem_put (mb_pos mb1) bs) (mb_buf mb1),
                        mb_pos := mb_pos mb + length bs, mb_end := max (mb_end mb1) (mb_pos mb + length bs)\<rparr>"
    by (simp add: mbuf_write_mem_def gr Let_def)
  have fit: "mb_pos mb + length bs \<le> length (mbuf_bytes mb1)"
    using gr(1,3) by (simp add: mbuf_wf_def)
  have by': "mbuf_bytes mb' = mem_put (mb_pos mb) bs (mbuf_bytes mb1)"
    using gr(4,7) fit by (auto simp: mb' mbuf_bytes_def split: option.splits)
  show "mbuf_wf mb'" using gr fit lt by (auto simp: mbuf_wf_def by') (simp_all add: mb')
  show "mb_pos mb' = mb_pos mb + length bs" by (simp add: mb')
  show "mb_end mb' = max (mb_end mb) (mb_pos mb + length bs)" by (simp add: mb' gr)
  show "mb_size mb \<le> mb_size mb'" by (simp add: mb' gr)
  show "take k (mbuf_bytes mb') = take k (mbuf_bytes mb)" if "k \<le> mb_pos mb" "k \<le> mb_size mb" for k
    using that gr(6) [of k] fit by (simp add: by' take_mem_put_le)
  show "take (length bs) (drop (mb_pos mb) (mbuf_bytes mb')) = bs"
    using fit by (simp add: by' slice_mem_put)
  show "take (k - (mb_pos mb + length bs)) (drop (mb_pos mb + length bs) (mbuf_bytes mb')) = 
        take (k - (mb_pos mb + length bs)) (drop (mb_pos mb + length bs) (mbuf_bytes mb))"
    if "mb_pos mb + length bs \<le> k" "k \<le> mb_size mb" for k
    using that gr(6) [of k] fit by (simp add: by' drop_mem_put_end  flip: drop_take)
qed

section \<open>Writers and readers\<close>

text \<open>
  \<open>adds bs f\<close>: whenever \<open>f\<close> succeeds on a buffer whose cursor is within the data, it
  has overwritten the bytes at the cursor with \<open>bs\<close>, growing the data where needed, and
  moved the cursor behind them.
\<close>

definition mbuf_skip :: "mbuf \<Rightarrow> nat \<Rightarrow> mbuf" where
  "mbuf_skip mb n = mb\<lparr>mb_pos := mb_pos mb + n\<rparr>"

definition mbuf_ready :: "mbuf \<Rightarrow> bool" where
  "mbuf_ready mb \<longleftrightarrow> mbuf_wf mb \<and> mb_pos mb \<le> mb_end mb"

definition adds :: "bytes \<Rightarrow> (mbuf \<Rightarrow> errno \<times> mbuf) \<Rightarrow> bool" where
  "adds bs f \<longleftrightarrow> (\<forall>mb mb'. mbuf_ready mb \<longrightarrow> f mb = (0, mb') \<longrightarrow>
     mbuf_ready mb' \<and> mb_pos mb' = mb_pos mb + length bs \<and>
     mbuf_content mb' = mem_put (mb_pos mb) bs (mbuf_content mb))"

lemma addsD:
  assumes "adds bs f" "mbuf_ready mb" "f mb = (0, mb')"
  shows "mbuf_ready mb'" "mb_pos mb' = mb_pos mb + length bs"
    "mbuf_content mb' = mem_put (mb_pos mb) bs (mbuf_content mb)"
  using assms unfolding adds_def by blast+

named_theorems adds_intros \<open>rules for writers that put a given byte string\<close>

lemma mbuf_content_write:
  assumes w: "mbuf_write_mem al mb (Some bs) = (0, mb')" and rd: "mbuf_ready mb"
    and lt: "mb_pos mb + length bs < 2 ^ 64"
  shows "mbuf_content mb' = mem_put (mb_pos mb) bs (mbuf_content mb)"
proof -
  have wf: "mbuf_wf mb" and pe: "mb_pos mb \<le> mb_end mb" and es: "mb_end mb \<le> mb_size mb"
    and sl: "mb_size mb \<le> length (mbuf_bytes mb)"
    using rd by (auto simp: mbuf_ready_def mbuf_wf_def)
  note r = mbuf_write_mem_ok [OF w wf lt]
  let ?p = "mb_pos mb" and ?q = "mb_pos mb + length bs" and ?B = "mbuf_bytes mb" and ?B' = "mbuf_bytes mb'"
  have pre: "take ?p ?B' = take ?p ?B" using r(5) [of ?p] pe es by simp
  have "take ?q ?B' = take ?p ?B' @ take (length bs) (drop ?p ?B')"
    by (simp add: take_add)
  then have mid: "take ?q ?B' = take ?p ?B @ bs" by (simp add: r(6) pre)
  show ?thesis
  proof (cases "mb_end mb \<le> ?q")
    case True
    then show ?thesis using mid pe
      by (simp add: mbuf_content_def r(3) max_def mem_put_def)
  next
    case False
    have "take (mb_end mb) ?B' = take ?q ?B' @ take (mb_end mb - ?q) (drop ?q ?B')"
      using False take_add [of ?q "mb_end mb - ?q" ?B'] by simp
    also have "\<dots> = take ?p ?B @ bs @ take (mb_end mb - ?q) (drop ?q ?B)"
      using r(7) [of "mb_end mb"] False es by (simp add: mid)
    finally show ?thesis using False pe
      by (simp add: mbuf_content_def r(3) max_def mem_put_def drop_take)
  qed
qed

lemma adds_write [adds_intros]:
  assumes "length bs < 2 ^ 32"
  shows "adds bs (\<lambda>mb. mbuf_write_mem al mb (Some bs))"
  unfolding adds_def
proof (intro allI impI)
  fix mb mb' assume rd: "mbuf_ready mb" and w: "mbuf_write_mem al mb (Some bs) = (0, mb')"
  have "mb_pos mb \<le> MEM_SIZE_MAX" using rd by (simp add: mbuf_ready_def mbuf_wf_def)
  then have lt: "mb_pos mb + length bs < 2 ^ 64" using assms by (simp add: MEM_SIZE_MAX_def)
  have wf: "mbuf_wf mb" using rd by (simp add: mbuf_ready_def)
  from mbuf_write_mem_ok [OF w wf lt] mbuf_content_write [OF w rd lt]
  show "mbuf_ready mb' \<and> mb_pos mb' = mb_pos mb + length bs \<and>
     mbuf_content mb' = mem_put (mb_pos mb) bs (mbuf_content mb)"
    by (simp add: mbuf_ready_def)
qed

lemma mem_put_append:
  "off \<le> length dst \<Longrightarrow> mem_put (off + length xs) ys (mem_put off xs dst) = mem_put off (xs @ ys) dst"
  by (simp add: mem_put_def min_def ac_simps)

lemma adds_seq [adds_intros]:
  assumes f: "adds xs f" and g: "adds ys g"
  shows "adds (xs @ ys) (\<lambda>mb. err_or (f mb) g)"
  unfolding adds_def
proof (intro allI impI)
  fix mb mb' assume rd: "mbuf_ready mb" and w: "err_or (f mb) g = (0, mb')"
  from w obtain mb1 where 1: "f mb = (0, mb1)" and 2: "g mb1 = (0, mb')"
    by (auto simp: err_or_ok)
  note m1 = addsD [OF f rd 1]
  note m2 = addsD [OF g m1(1) 2]
  have "mb_pos mb \<le> length (mbuf_content mb)" using rd by (simp add: mbuf_ready_def)
  then show "mbuf_ready mb' \<and> mb_pos mb' = mb_pos mb + length (xs @ ys) \<and>
     mbuf_content mb' = mem_put (mb_pos mb) (xs @ ys) (mbuf_content mb)"
    using m2 m1 mem_put_append by simp
qed

lemma adds_nil [adds_intros]: "adds [] (\<lambda>mb. (0, mb))"
  by (simp add: adds_def)

lemma adds_ints [adds_intros]:
  "adds [a] (\<lambda>mb. mbuf_write_u8 al mb a)"
  "adds (be16 b) (\<lambda>mb. mbuf_write_u16 al mb (htons b))"
  "adds (be32 c) (\<lambda>mb. mbuf_write_u32 al mb (htonl c))"
  "adds (be64 d) (\<lambda>mb. mbuf_write_u64 al mb (sys_htonll d))"
  "length s < 2 ^ 32 \<Longrightarrow> adds s (\<lambda>mb. mbuf_write_str al mb (Some s))"
  using adds_write [of "[a]"] adds_write [of "be16 b"] adds_write [of "be32 c"] adds_write [of "be64 d"]
    adds_write [of s]
  by (simp_all add: mbuf_write_u8_def mbuf_write_u16_def mbuf_write_u32_def mbuf_write_u64_def mbuf_write_str_def)

lemma mbuf_read_mem_left:
  assumes "mbuf_wf mb" "mbuf_left mb = bs @ rest"
  shows "mbuf_read_mem mb (length bs) = Inr (bs, mbuf_skip mb (length bs))"
    and "mbuf_left (mbuf_skip mb (length bs)) = rest"
    and "mbuf_wf (mbuf_skip mb (length bs))"
proof -
  have l: "mbuf_get_left mb = length bs + length rest"
    using assms length_mbuf_left by fastforce
  have p: "mb_pos mb + length bs < 2 ^ 64"
    using assms(1) l by (auto simp: mbuf_get_left_def mbuf_wf_def MEM_SIZE_MAX_def split: if_splits)
  have t: "take (length bs) (drop (mb_pos mb) (mbuf_bytes mb)) = bs"
  proof -
    have "take (length bs) (mbuf_left mb) = bs" using assms by simp
    then show ?thesis using l by (simp add: mbuf_left_def min_def)
  qed
  show "mbuf_read_mem mb (length bs) = Inr (bs, mbuf_skip mb (length bs))"
    using l t p by (simp add: mbuf_read_mem_def mbuf_skip_def)
  show "mbuf_wf (mbuf_skip mb (length bs))"
    using assms p by (simp add: mbuf_wf_def mbuf_skip_def mbuf_bytes_def)
  have "mbuf_left (mbuf_skip mb (length bs)) = drop (length bs) (mbuf_left mb)"
    by (simp add: mbuf_left_content mbuf_skip_def mbuf_content_def mbuf_bytes_def ac_simps)
  then show "mbuf_left (mbuf_skip mb (length bs)) = rest" using assms by simp
qed

lemma mbuf_skip_simps [simp]:
  "mb_pos (mbuf_skip mb n) = mb_pos mb + n" "mb_end (mbuf_skip mb n) = mb_end mb"
  "mb_size (mbuf_skip mb n) = mb_size mb" "mbuf_bytes (mbuf_skip mb n) = mbuf_bytes mb"
  "mbuf_content (mbuf_skip mb n) = mbuf_content mb"
  "mbuf_skip (mbuf_skip mb n) m = mbuf_skip mb (n + m)" "mbuf_skip mb 0 = mb"
  by (simp_all add: mbuf_skip_def mbuf_bytes_def mbuf_content_def)

lemma mbuf_read_ints:
  assumes "mbuf_wf mb"
  shows "mbuf_left mb = a # rest \<Longrightarrow> mbuf_read_u8 mb = (a, mbuf_skip mb 1)"
    and "mbuf_left mb = be16 b @ rest \<Longrightarrow> mbuf_read_u16 mb = (htons b, mbuf_skip mb 2)"
    and "mbuf_left mb = be32 c @ rest \<Longrightarrow> mbuf_read_u32 mb = (htonl c, mbuf_skip mb 4)"
    and "mbuf_left mb = be64 d @ rest \<Longrightarrow> mbuf_read_u64 mb = (sys_htonll d, mbuf_skip mb 8)"
proof -
  show "mbuf_left mb = a # rest \<Longrightarrow> mbuf_read_u8 mb = (a, mbuf_skip mb 1)"
    using mbuf_read_mem_left(1) [OF assms, of "[a]" rest]
    by (simp add: mbuf_read_u8_def mbuf_read_int_def)
  show "mbuf_left mb = be16 b @ rest \<Longrightarrow> mbuf_read_u16 mb = (htons b, mbuf_skip mb 2)"
    using mbuf_read_mem_left(1) [OF assms, of "be16 b" rest] 
    by (simp add: mbuf_read_u16_def mbuf_read_int_def htons_def be16_def)
  show "mbuf_left mb = be32 c @ rest \<Longrightarrow> mbuf_read_u32 mb = (htonl c, mbuf_skip mb 4)"
    using mbuf_read_mem_left(1) [OF assms, of "be32 c" rest]
    by (simp add: mbuf_read_u32_def mbuf_read_int_def htonl_def be32_def)
  show "mbuf_left mb = be64 d @ rest \<Longrightarrow> mbuf_read_u64 mb = (sys_htonll d, mbuf_skip mb 8)"
    using mbuf_read_mem_left(1) [OF assms, of "be64 d" rest]
    by (simp add: mbuf_read_u64_def mbuf_read_int_def sys_htonll_rev be64_def)
qed

lemma mbuf_skip_left:
  assumes "mbuf_wf mb" "mbuf_left mb = bs @ rest" "length bs = n"
  shows "mbuf_left (mbuf_skip mb n) = rest" "mbuf_wf (mbuf_skip mb n)"
  using mbuf_read_mem_left(2,3) [OF assms(1,2)] assms(3) by simp_all

lemma mbuf_left_le: "mbuf_wf mb \<Longrightarrow> mbuf_left mb = bs @ rest \<Longrightarrow> length bs \<le> mbuf_get_left mb"
  using length_mbuf_left [of mb] by simp

lemma mbuf_left_after_add:
  assumes "mbuf_ready mb" "mb_pos mb = mb_end mb" "adds bs f" "f mb = (0, mb')"
  shows "mbuf_wf (mb'\<lparr>mb_pos := mb_pos mb\<rparr>)" "mbuf_left (mb'\<lparr>mb_pos := mb_pos mb\<rparr>) = bs"
    "mbuf_skip (mb'\<lparr>mb_pos := mb_pos mb\<rparr>) (length bs) = mb'" "mb_pos mb' = mb_end mb'"
proof -
  note m = addsD [OF assms(3,1,4)]
  have l: "length (mbuf_content mb) = mb_pos mb" using assms(1,2) by (simp add: mbuf_ready_def)
  have c: "mbuf_content mb' = mbuf_content mb @ bs" using m(3) l by (simp add: mem_put_def)
  show "mbuf_wf (mb'\<lparr>mb_pos := mb_pos mb\<rparr>)"
    using m by (auto simp: mbuf_ready_def mbuf_wf_def mbuf_bytes_def)
  have "mbuf_content (mb'\<lparr>mb_pos := mb_pos mb\<rparr>) = mbuf_content mb'"
    by (simp add: mbuf_content_def mbuf_bytes_def)
  then show "mbuf_left (mb'\<lparr>mb_pos := mb_pos mb\<rparr>) = bs"
    by (simp add: mbuf_left_content c l)
  show "mbuf_skip (mb'\<lparr>mb_pos := mb_pos mb\<rparr>) (length bs) = mb'"
    by (simp add: mbuf_skip_def m(2) [symmetric])
  show "mb_pos mb' = mb_end mb'"
    using m(1,2) c l length_mbuf_content [of mb'] by (simp add: mbuf_ready_def)
qed

lemma adds_at_end:
  assumes "mbuf_ready mb" "mb_pos mb = mb_end mb" "adds bs f" "f mb = (0, mb')"
  shows "mbuf_ready mb'" "mb_pos mb' = mb_end mb'" "mb_end mb' = mb_end mb + length bs"
    "mbuf_content mb' = mbuf_content mb @ bs"
proof -
  note m = addsD [OF assms(3,1,4)]
  have l: "length (mbuf_content mb) = mb_pos mb" using assms(1,2) by (simp add: mbuf_ready_def)
  show "mbuf_ready mb'" by (rule m(1))
  show "mb_pos mb' = mb_end mb'" by (rule mbuf_left_after_add(4) [OF assms])
  then show "mb_end mb' = mb_end mb + length bs" using m(2) assms(2) by simp
  show "mbuf_content mb' = mbuf_content mb @ bs" using m(3) l by (simp add: mem_put_def)
qed

text \<open>
  Readers in terms of what is in front of the cursor: with these a decoder evaluates
  symbolically on a buffer whose remaining bytes are known. The condition on a reader is that
  it finds enough bytes, otherwise it leaves the cursor and returns 0.
\<close>

named_theorems mbuf_rd \<open>evaluation of readers on the bytes in front of the cursor\<close>

lemma mbuf_left_skip [mbuf_rd]: "mbuf_left (mbuf_skip mb n) = drop n (mbuf_left mb)"
  by (simp add: mbuf_left_content ac_simps)

lemma mbuf_get_left_rd [mbuf_rd]: "mbuf_wf mb \<Longrightarrow> mbuf_get_left mb = length (mbuf_left mb)"
  by (simp add: length_mbuf_left)

lemma mbuf_wf_skip [mbuf_rd]: "mbuf_wf mb \<Longrightarrow> n \<le> length (mbuf_left mb) \<Longrightarrow> mbuf_wf (mbuf_skip mb n)"
  using mbuf_read_mem_left(3) [of mb "take n (mbuf_left mb)" "drop n (mbuf_left mb)"]
  by (simp add: min_def split: if_splits)

lemma mbuf_read_mem_rd [mbuf_rd]:
  "mbuf_wf mb \<Longrightarrow> n \<le> length (mbuf_left mb) \<Longrightarrow>
     mbuf_read_mem mb n = Inr (take n (mbuf_left mb), mbuf_skip mb n)"
  using mbuf_read_mem_left(1) [of mb "take n (mbuf_left mb)" "drop n (mbuf_left mb)"]
  by (simp add: min_def split: if_splits)

lemma mbuf_read_mem_short [mbuf_rd]:
  "mbuf_wf mb \<Longrightarrow> length (mbuf_left mb) < n \<Longrightarrow> mbuf_read_mem mb n = Inl EOVERFLOW"
  by (simp add: mbuf_read_mem_def length_mbuf_left)

lemma mbuf_read_ints_rd [mbuf_rd]:
  assumes "mbuf_wf mb"
  shows "1 \<le> length (mbuf_left mb) \<Longrightarrow> mbuf_read_u8 mb = (hd (mbuf_left mb), mbuf_skip mb 1)"
    and "2 \<le> length (mbuf_left mb) \<Longrightarrow> mbuf_read_u16 mb = (word_of_le (take 2 (mbuf_left mb)), mbuf_skip mb 2)"
    and "4 \<le> length (mbuf_left mb) \<Longrightarrow> mbuf_read_u32 mb = (word_of_le (take 4 (mbuf_left mb)), mbuf_skip mb 4)"
    and "8 \<le> length (mbuf_left mb) \<Longrightarrow> mbuf_read_u64 mb = (word_of_le (take 8 (mbuf_left mb)), mbuf_skip mb 8)"
proof -
  show "mbuf_read_u8 mb = (hd (mbuf_left mb), mbuf_skip mb 1)" if "1 \<le> length (mbuf_left mb)"
    using mbuf_read_mem_rd [OF assms that] that
    by (cases "mbuf_left mb") (simp_all add: mbuf_read_u8_def mbuf_read_int_def)
qed (use assms in \<open>simp_all add: mbuf_read_u16_def mbuf_read_u32_def mbuf_read_u64_def mbuf_read_int_def mbuf_read_mem_rd\<close>)

lemma mbuf_read_ints_short [mbuf_rd]:
  assumes "mbuf_wf mb"
  shows "length (mbuf_left mb) = 0 \<Longrightarrow> mbuf_read_u8 mb = (0, mb)"
    and "length (mbuf_left mb) < 2 \<Longrightarrow> mbuf_read_u16 mb = (0, mb)"
    and "length (mbuf_left mb) < 4 \<Longrightarrow> mbuf_read_u32 mb = (0, mb)"
    and "length (mbuf_left mb) < 8 \<Longrightarrow> mbuf_read_u64 mb = (0, mb)"
  using assms
  by (simp_all add: mbuf_read_u8_def mbuf_read_u16_def mbuf_read_u32_def mbuf_read_u64_def
      mbuf_read_int_def mbuf_read_mem_short)

lemma adds_fold [adds_intros]:
  assumes "adds bs f0" "\<And>x. x \<in> set xs \<Longrightarrow> adds (img x) (f x)"
  shows "adds (bs @ concat (map img xs)) (\<lambda>mb. foldl (\<lambda>r x. err_or r (f x)) (f0 mb) xs)"
  using assms
proof (induction xs arbitrary: bs f0)
  case (Cons x xs)
  have "adds (bs @ img x) (\<lambda>mb. err_or (f0 mb) (f x))" using Cons.prems by (simp add: adds_seq)
  from Cons.IH [OF this] Cons.prems(2) show ?case by simp
qed simp

text \<open>
  \<open>fits n f\<close>: where the block has room for \<open>n\<close> more bytes, \<open>f\<close> succeeds, whatever
  the allocator would answer, and moves the cursor by \<open>n\<close>.
\<close>

definition fits :: "nat \<Rightarrow> (mbuf \<Rightarrow> errno \<times> mbuf) \<Rightarrow> bool" where
  "fits n f \<longleftrightarrow> (\<forall>mb. mb_pos mb + n \<le> mb_size mb \<longrightarrow> mb_size mb < 2 ^ 64 \<longrightarrow>
     (\<exists>mb'. f mb = (0, mb') \<and> mb_size mb' = mb_size mb \<and> mb_pos mb' = mb_pos mb + n))"

lemma fitsD:
  assumes "fits n f" "mb_pos mb + n \<le> mb_size mb" "mb_size mb < 2 ^ 64"
  obtains mb' where "f mb = (0, mb')" "mb_size mb' = mb_size mb" "mb_pos mb' = mb_pos mb + n"
  using assms unfolding fits_def by blast

named_theorems fits_intros \<open>rules for writers that succeed in a block with room\<close>

lemma fits_write [fits_intros]: "n = length bs \<Longrightarrow> fits n (\<lambda>mb. mbuf_write_mem al mb (Some bs))"
  by (simp add: fits_def mbuf_write_mem_def mbuf_grow_def Let_def)

lemma fits_seq [fits_intros]: "fits n f \<Longrightarrow> fits m g \<Longrightarrow> fits (n + m) (\<lambda>mb. err_or (f mb) g)"
  unfolding fits_def
proof (intro allI impI)
  fix mb :: mbuf
  assume f: "\<forall>mb. mb_pos mb + n \<le> mb_size mb \<longrightarrow> mb_size mb < 2 ^ 64 \<longrightarrow>
     (\<exists>mb'. f mb = (0, mb') \<and> mb_size mb' = mb_size mb \<and> mb_pos mb' = mb_pos mb + n)"
    and g: "\<forall>mb. mb_pos mb + m \<le> mb_size mb \<longrightarrow> mb_size mb < 2 ^ 64 \<longrightarrow>
     (\<exists>mb'. g mb = (0, mb') \<and> mb_size mb' = mb_size mb \<and> mb_pos mb' = mb_pos mb + m)"
    and mb: "mb_pos mb + (n + m) \<le> mb_size mb" "mb_size mb < 2 ^ 64"
  have "mb_pos mb + n \<le> mb_size mb" using mb by simp
  with f mb(2) obtain mb1 where 1: "f mb = (0, mb1)" "mb_size mb1 = mb_size mb" "mb_pos mb1 = mb_pos mb + n"
    by blast
  have "mb_pos mb1 + m \<le> mb_size mb1" "mb_size mb1 < 2 ^ 64" using mb 1 by simp_all
  with g obtain mb2 where 2: "g mb1 = (0, mb2)" "mb_size mb2 = mb_size mb1" "mb_pos mb2 = mb_pos mb1 + m"
    by blast
  show "\<exists>mb'. err_or (f mb) g = (0, mb') \<and> mb_size mb' = mb_size mb \<and> mb_pos mb' = mb_pos mb + (n + m)"
    using 1 2 by (simp add: err_or_def)
qed

lemma fits_nil [fits_intros]: "fits 0 (\<lambda>mb. (0, mb))"
  by (simp add: fits_def)

lemma fits_ints [fits_intros]:
  "fits 1 (\<lambda>mb. mbuf_write_u8 al mb a)" "fits 2 (\<lambda>mb. mbuf_write_u16 al mb b)"
  "fits 4 (\<lambda>mb. mbuf_write_u32 al mb c)" "fits 8 (\<lambda>mb. mbuf_write_u64 al mb d)"
  "n = length s \<Longrightarrow> fits n (\<lambda>mb. mbuf_write_str al mb (Some s))"
  by (simp_all add: mbuf_write_u8_def mbuf_write_u16_def mbuf_write_u32_def mbuf_write_u64_def
      mbuf_write_str_def fits_write)

lemma fits_fold [fits_intros]:
  assumes "fits n f0" "\<And>x. x \<in> set xs \<Longrightarrow> fits (sz x) (f x)"
  shows "fits (n + sum_list (map sz xs)) (\<lambda>mb. foldl (\<lambda>r x. err_or r (f x)) (f0 mb) xs)"
  using assms
proof (induction xs arbitrary: n f0)
  case (Cons x xs)
  have "fits (n + sz x) (\<lambda>mb. err_or (f0 mb) (f x))" using Cons.prems by (simp add: fits_seq)
  from Cons.IH [OF this] Cons.prems(2) show ?case by (simp add: ac_simps)
qed simp

text \<open>What a decoder may do to a buffer: move the cursor forward within the data.\<close>

definition mbuf_fwd :: "mbuf \<Rightarrow> mbuf \<Rightarrow> bool" where
  "mbuf_fwd mb mb' \<longleftrightarrow> (\<exists>n\<le>length (mbuf_left mb). mb' = mbuf_skip mb n)"

lemma mbuf_fwd_refl [simp]: "mbuf_fwd mb mb"
  unfolding mbuf_fwd_def by (rule exI [of _ 0]) simp

lemma mbuf_fwd_trans: "mbuf_fwd a b \<Longrightarrow> mbuf_fwd b c \<Longrightarrow> mbuf_fwd a c"
proof -
  assume "mbuf_fwd a b" "mbuf_fwd b c"
  then obtain n m where "n \<le> length (mbuf_left a)" "b = mbuf_skip a n" "m \<le> length (mbuf_left b)"
    "c = mbuf_skip b m" unfolding mbuf_fwd_def by blast
  then have "n + m \<le> length (mbuf_left a)" "c = mbuf_skip a (n + m)" by (simp_all add: mbuf_left_skip)
  then show ?thesis unfolding mbuf_fwd_def by blast
qed

lemma mbuf_fwd_wf: "mbuf_fwd a b \<Longrightarrow> mbuf_wf a \<Longrightarrow> mbuf_wf b"
  unfolding mbuf_fwd_def using mbuf_wf_skip by blast

lemma mbuf_fwd_skip: "n \<le> length (mbuf_left mb) \<Longrightarrow> mbuf_fwd mb (mbuf_skip mb n)"
  unfolding mbuf_fwd_def by blast

lemma mbuf_fwd_reads:
  assumes "mbuf_wf mb"
  shows "mbuf_fwd mb (snd (mbuf_read_u8 mb))" "mbuf_fwd mb (snd (mbuf_read_u16 mb))"
    "mbuf_fwd mb (snd (mbuf_read_u32 mb))" "mbuf_fwd mb (snd (mbuf_read_u64 mb))"
    "mbuf_read_mem mb n = Inr (bs, mb') \<Longrightarrow> mbuf_fwd mb mb'"
proof -
  show "mbuf_fwd mb (snd (mbuf_read_u8 mb))"
    using assms by (cases "1 \<le> length (mbuf_left mb)") (simp_all add: mbuf_rd mbuf_fwd_skip not_le)
  show "mbuf_fwd mb (snd (mbuf_read_u16 mb))"
    using assms by (cases "2 \<le> length (mbuf_left mb)") (simp_all add: mbuf_rd mbuf_fwd_skip not_le)
  show "mbuf_fwd mb (snd (mbuf_read_u32 mb))"
    using assms by (cases "4 \<le> length (mbuf_left mb)") (simp_all add: mbuf_rd mbuf_fwd_skip not_le)
  show "mbuf_fwd mb (snd (mbuf_read_u64 mb))"
    using assms by (cases "8 \<le> length (mbuf_left mb)") (simp_all add: mbuf_rd mbuf_fwd_skip not_le)
  show "mbuf_fwd mb mb'" if "mbuf_read_mem mb n = Inr (bs, mb')"
    using assms that by (cases "n \<le> length (mbuf_left mb)") (auto simp: mbuf_rd mbuf_fwd_skip not_le)
qed

section \<open>Buffers by content and cursor\<close>

text \<open>\<open>mb_at mb X n\<close>: the data of \<open>mb\<close> is \<open>X\<close> and its cursor is at \<open>n\<close>.\<close>

definition mb_at :: "mbuf \<Rightarrow> bytes \<Rightarrow> nat \<Rightarrow> bool" where
  "mb_at mb X n \<longleftrightarrow> mbuf_ready mb \<and> mbuf_content mb = X \<and> mb_pos mb = n"

named_theorems mb_at_intros \<open>moving the cursor and the end of a buffer\<close>

lemma mb_at_start: "mbuf_ready mb \<Longrightarrow> mb_at mb (mbuf_content mb) (mb_pos mb)"
  by (simp add: mb_at_def)

lemma mb_atD:
  assumes "mb_at mb X n"
  shows "mbuf_ready mb" "mbuf_wf mb" "mb_end mb = length X" "mb_pos mb = n" "n \<le> length X"
    "mbuf_left mb = drop n X" "mbuf_get_left mb = length X - n" "mb_end mb \<le> mb_size mb" "mb_size mb < 2 ^ 64"
proof -
  have r: "mbuf_ready mb" "mbuf_content mb = X" "mb_pos mb = n" using assms by (simp_all add: mb_at_def)
  then have w: "mbuf_wf mb" by (simp add: mbuf_ready_def)
  have e: "mb_end mb = length X" using length_mbuf_content [OF w] r(2) by simp
  show "mbuf_ready mb" "mbuf_wf mb" "mb_end mb = length X" "mb_pos mb = n" by (fact r w e)+
  show "n \<le> length X" using r e by (simp add: mbuf_ready_def)
  then show "mbuf_get_left mb = length X - n" by (auto simp: mbuf_get_left_def e r(3))
  show "mbuf_left mb = drop n X" by (simp add: mbuf_left_content r)
  show "mb_end mb \<le> mb_size mb" "mb_size mb < 2 ^ 64" using w by (simp_all add: mbuf_wf_def MEM_SIZE_MAX_def)
qed

lemma mb_at_bytes: "mb_at mb X n \<Longrightarrow> b + a \<le> length X \<Longrightarrow> take a (drop b (mbuf_bytes mb)) = take a (drop b X)"
proof -
  assume a: "mb_at mb X n" and le: "b + a \<le> length X"
  have "X = take (mb_end mb) (mbuf_bytes mb)" using a by (simp add: mb_at_def mbuf_content_def)
  then have "take a (drop b X) = take a (take (mb_end mb - b) (drop b (mbuf_bytes mb)))" by (simp add: drop_take)
  also have "\<dots> = take a (drop b (mbuf_bytes mb))" using mb_atD(3) [OF a] le by (simp add: min_def)
  finally show ?thesis ..
qed

lemma mb_at_pos [mb_at_intros]:
  assumes "mb_at mb X n" "m \<le> length X"
  shows "mb_at (mb\<lparr>mb_pos := m\<rparr>) X m"
proof -
  have "m < 2 ^ 64" using mb_atD(3,8,9) [OF assms(1)] assms(2) by simp
  then show ?thesis using assms mb_atD(3) [OF assms(1)]
    by (auto simp: mb_at_def mbuf_ready_def mbuf_wf_def mbuf_content_def mbuf_bytes_def)
qed

lemma mb_at_end [mb_at_intros]:
  assumes "mb_at mb (X @ Y) n" "e = length X" "n \<le> e"
  shows "mb_at (mb\<lparr>mb_end := e\<rparr>) X n"
proof -
  have "mb_end mb = e + length Y" using mb_atD(3) [OF assms(1)] assms(2) by simp
  moreover have "take e (mbuf_bytes mb) = X"
  proof -
    have "take (mb_end mb) (mbuf_bytes mb) = X @ Y" using assms(1) by (simp add: mb_at_def mbuf_content_def)
    then have "take e (take (mb_end mb) (mbuf_bytes mb)) = X" using assms(2) by simp
    then show ?thesis using \<open>mb_end mb = e + length Y\<close> by (simp add: min_def)
  qed
  ultimately show ?thesis using assms
    by (auto simp: mb_at_def mbuf_ready_def mbuf_wf_def mbuf_content_def mbuf_bytes_def)
qed

lemma mb_at_pos_end [mb_at_intros]:
  assumes "mb_at mb (X @ Y) n" "e = length X" "m \<le> e"
  shows "mb_at (mb\<lparr>mb_pos := m, mb_end := e\<rparr>) X m"
  using mb_at_end [OF mb_at_pos [OF assms(1), of m] assms(2,3)] assms(2,3) by simp

lemma mb_at_append:
  assumes "mb_at mb X (length X)" "mbuf_write_mem al mb (Some bs) = (0, mb')" "length bs < 2 ^ 32"
  shows "mb_at mb' (X @ bs) (length X + length bs)"
proof -
  have r: "mbuf_ready mb" "mb_pos mb = mb_end mb" using mb_atD [OF assms(1)] by simp_all
  from adds_at_end [OF r adds_write [OF assms(3)] assms(2)] show ?thesis
    using assms(1) mb_atD(3) [OF assms(1)] by (simp add: mb_at_def)
qed

lemma mb_at_append_room:
  assumes "mb_at mb X (length X)" "length X + length bs \<le> mb_size mb" "length bs < 2 ^ 32"
  obtains mb' where "mbuf_write_mem al mb (Some bs) = (0, mb')" "mb_at mb' (X @ bs) (length X + length bs)"
proof -
  have "mb_pos mb + length bs \<le> mb_size mb" "mb_size mb < 2 ^ 64"
    using mb_atD(4,9) [OF assms(1)] assms(2) by simp_all
  from fitsD [OF fits_write [OF refl] this] obtain mb' where w: "mbuf_write_mem al mb (Some bs) = (0, mb')" .
  from that [OF w mb_at_append [OF assms(1) w assms(3)]] show thesis .
qed

lemma take_mem_put_inside:
  assumes "off + length src \<le> e" "e \<le> length dst"
  shows "take e (mem_put off src dst) = mem_put off src (take e dst)"
proof -
  have "take e (mem_put off src dst) = take off dst @ src @ take (e - (off + length src)) (drop (off + length src) dst)"
    using assms by (simp add: mem_put_def)
  also have "\<dots> = mem_put off src (take e dst)" using assms by (simp add: mem_put_def drop_take)
  finally show ?thesis .
qed

section \<open>Progress and shifting\<close>

lemma mbuf_resize_succeeds:
  "(\<And>n. avail al n) \<Longrightarrow> n \<le> MEM_SIZE_MAX \<Longrightarrow> fst (mbuf_resize al mb n) = 0"
  by (simp add: mbuf_resize_def mem_realloc_def mem_alloc_def malloc_def split: option.split)

lemma mbuf_grow_succeeds:
  assumes "\<And>n. avail al n" "n \<le> MEM_SIZE_MAX" "2 * mb_size mb \<le> MEM_SIZE_MAX"
  shows "fst (mbuf_grow al mb n) = 0"
proof -
  have "szt (mb_size mb * 2) = mb_size mb * 2" using assms(3)
    by (intro szt_id) (simp add: MEM_SIZE_MAX_def)
  then have "(if mb_size mb \<noteq> 0 then szt (mb_size mb * 2) else DEFAULT_SIZE) \<le> MEM_SIZE_MAX"
    using assms(3) by (simp add: DEFAULT_SIZE_def MEM_SIZE_MAX_def)
  then show ?thesis using assms(1,2) by (simp add: mbuf_grow_def mbuf_resize_succeeds)
qed

lemma mbuf_write_mem_succeeds:
  assumes "\<And>n. avail al n" "mb_pos mb + length bs \<le> MEM_SIZE_MAX"
    "2 * mb_size mb \<le> MEM_SIZE_MAX"
  shows "fst (mbuf_write_mem al mb (Some bs)) = 0"
proof -
  have "szt (mb_pos mb + length bs) = mb_pos mb + length bs"
    using assms(2) by (intro szt_id) (simp add: MEM_SIZE_MAX_def)
  then show ?thesis using mbuf_grow_succeeds [OF assms]
    by (auto simp: mbuf_write_mem_def Let_def split: prod.split)
qed

lemma mbuf_resize_if_ok:
  assumes "(if n > mb_size mb then mbuf_resize al mb n else (0, mb)) = (0, mb1)" "mbuf_ready mb"
  shows "mb_pos mb1 = mb_pos mb" "mb_end mb1 = mb_end mb" "n \<le> mb_size mb1" "mbuf_wf mb1"
    "mbuf_left mb1 = mbuf_left mb"
proof -
  have wf: "mb_end mb \<le> mb_size mb" "mb_size mb \<le> length (mbuf_bytes mb)" "mbuf_wf mb"
    "mb_pos mb < 2 ^ 64"
    using assms(2) by (simp_all add: mbuf_ready_def mbuf_wf_def)
  have "mb_pos mb1 = mb_pos mb \<and> mb_end mb1 = mb_end mb \<and> n \<le> mb_size mb1 \<and> mbuf_wf mb1 \<and>
    take (mb_end mb) (mbuf_bytes mb1) = take (mb_end mb) (mbuf_bytes mb)"
  proof (cases "n > mb_size mb")
    case True
    then have r: "mbuf_resize al mb n = (0, mb1)" using assms(1) by simp
    note rs = mbuf_resize_ok [OF r]
    have "take (mb_end mb) (mbuf_bytes mb1) = take (mb_end mb) (mbuf_bytes mb)"
      by (rule rs(6)) (use wf True in simp_all)
    with rs(1-5) wf True show ?thesis by (simp add: mbuf_wf_def)
  next
    case False
    then have "mb1 = mb" using assms(1) by simp
    with False wf(3) show ?thesis by simp
  qed
  then show "mb_pos mb1 = mb_pos mb" "mb_end mb1 = mb_end mb" "n \<le> mb_size mb1" "mbuf_wf mb1"
    "mbuf_left mb1 = mbuf_left mb"
    by (simp_all add: mbuf_left_content mbuf_content_def)
qed

lemma mbuf_shift_ok:
  assumes sh: "mbuf_shift al mb k = (0, mb')" and rd: "mbuf_ready mb"
  shows "mbuf_ready mb' \<and> int (mb_pos mb') = int (mb_pos mb) + k \<and> mbuf_left mb' = mbuf_left mb"
proof -
  have g: "0 \<le> int (mb_pos mb) + k" "0 \<le> int (mb_end mb) + k"
    using sh by (simp_all add: mbuf_shift_def ERANGE_def split: if_splits)
  let ?p = "nat (int (mb_pos mb) + k)" and ?e = "nat (int (mb_end mb) + k)" and ?L = "mbuf_left mb"
  obtain e mb1 where r: "(if ?e > mb_size mb then mbuf_resize al mb ?e else (0, mb)) = (e, mb1)"
    by fastforce
  have e0: "e = 0" using sh r g by (simp add: mbuf_shift_def Let_def split: if_splits)
  note m1 = mbuf_resize_if_ok [OF r [unfolded e0] rd]
  have mb': "mb' = mb1\<lparr>mb_buf := map_option (mem_put ?p ?L) (mb_buf mb1),
               mb_pos := ?p, mb_end := ?e\<rparr>"
    using sh g r e0 m1(5) by (simp add: mbuf_shift_def Let_def m1(1,2) mbuf_left_def)
  have pe: "mb_pos mb \<le> mb_end mb" and wf: "mbuf_wf mb" using rd by (simp_all add: mbuf_ready_def)
  have len: "length ?L = mb_end mb - mb_pos mb"
    using pe length_mbuf_left [OF wf] by (simp add: mbuf_get_left_def)
  have le1: "?e \<le> length (mbuf_bytes mb1)" "mb_size mb1 \<le> length (mbuf_bytes mb1)"
    "mb_size mb1 \<le> MEM_SIZE_MAX"
    using m1(3,4) by (simp_all add: mbuf_wf_def)
  have fit: "?p + length ?L = ?e" using len pe g by simp
  then have l2: "?p + length ?L \<le> length (mbuf_bytes mb1)" using le1 by simp
  have B: "mbuf_bytes mb' = mem_put ?p ?L (mbuf_bytes mb1)"
    using l2 by (cases "mb_buf mb1") (simp_all add: mb' mbuf_bytes_def)
  have "mb_end mb' = mb_pos mb' + length ?L" using fit by (simp add: mb')
  then have "mbuf_get_left mb' = length ?L" by (simp add: mbuf_get_left_def)
  moreover have "mb_pos mb' = ?p" by (simp add: mb')
  ultimately have L: "mbuf_left mb' = ?L"
    using slice_mem_put [OF l2] by (simp add: mbuf_left_def [of mb'] B)
  have "mb_end mb' \<le> mb_size mb'" "mb_size mb' = mb_size mb1" "mb_pos mb' \<le> mb_end mb'"
    using m1(3) fit by (simp_all add: mb')
  moreover have "length (mbuf_bytes mb') = length (mbuf_bytes mb1)" using l2 by (simp add: B)
  ultimately have "mbuf_ready mb'"
    using le1 by (simp add: mbuf_ready_def mbuf_wf_def MEM_SIZE_MAX_def)
  with L g show ?thesis by (simp add: mb')
qed

section \<open>Reachable buffers\<close>

text \<open>
  What a caller can make of a fresh buffer with the operations of the module, provided it keeps
  the cursor within the data and the end within the block when it moves them by hand
  (\<^verbatim>\<open>mbuf_set_pos\<close>, \<^verbatim>\<open>mbuf_set_end\<close>, \<^verbatim>\<open>mbuf_advance\<close> and
  \<^verbatim>\<open>mbuf_resize\<close> take any value). Objects are smaller than \<open>2 ^ 63\<close> bytes.
\<close>

inductive mbuf_step :: "malloc_env \<Rightarrow> mbuf \<Rightarrow> mbuf \<Rightarrow> bool" for al where
  init: "mbuf_step al mb (mbuf_init mb)"
| reset: "mbuf_step al mb (mbuf_reset mb)"
| rewind: "mbuf_step al mb (mbuf_rewind mb)"
| skip_to_end: "mbuf_step al mb (mbuf_skip_to_end mb)"
| set_posend: "mbuf_step al mb (mbuf_set_posend mb p e)"
| set_pos: "p \<le> mb_end mb \<Longrightarrow> mbuf_step al mb (mbuf_set_pos mb p)"
| set_end: "mb_pos mb \<le> e \<Longrightarrow> e \<le> mb_size mb \<Longrightarrow> mbuf_step al mb (mbuf_set_end mb e)"
| advance: "0 \<le> int (mb_pos mb) + n \<Longrightarrow> int (mb_pos mb) + n \<le> int (mb_end mb) \<Longrightarrow>
    mbuf_step al mb (mbuf_advance mb n)"
| resize: "mb_end mb \<le> n \<Longrightarrow> mbuf_step al mb (snd (mbuf_resize al mb n))"
| trim: "mbuf_step al mb (mbuf_trim al mb)"
| shift: "mbuf_step al mb (snd (mbuf_shift al mb k))"
| write_mem: "length bs < 2 ^ 63 \<Longrightarrow> mbuf_step al mb (snd (mbuf_write_mem al mb (Some bs)))"
| fill: "n < 2 ^ 63 \<Longrightarrow> mbuf_step al mb (snd (mbuf_fill al mb c n))"
| read_mem: "mbuf_read_mem mb n = Inr (bs, mb') \<Longrightarrow> mbuf_step al mb mb'"

inductive_cases mbuf_stepE: "mbuf_step al mb mb'"

inductive mbuf_reach :: "malloc_env \<Rightarrow> mbuf \<Rightarrow> bool" for al where
  alloc: "mbuf_alloc al n = Some mb \<Longrightarrow> mbuf_reach al mb"
| dup: "mbuf_reach al mb \<Longrightarrow> mbuf_dup al (Some mb) = Some mb' \<Longrightarrow> mbuf_reach al mb'"
| step: "mbuf_reach al mb \<Longrightarrow> mbuf_step al mb mb' \<Longrightarrow> mbuf_reach al mb'"

lemma mbuf_resize_wf: "mbuf_ready mb \<Longrightarrow> mb_end mb \<le> n \<Longrightarrow> mbuf_ready (snd (mbuf_resize al mb n))"
proof (cases "fst (mbuf_resize al mb n) = 0")
  case True
  assume a: "mbuf_ready mb" "mb_end mb \<le> n"
  from True have r: "mbuf_resize al mb n = (0, snd (mbuf_resize al mb n))" by (metis prod.collapse)
  show ?thesis using mbuf_resize_ok [OF r] a by (simp add: mbuf_ready_def mbuf_wf_def)
next
  case False
  then have "snd (mbuf_resize al mb n) = mb" using mbuf_resize_err by (metis prod.collapse)
  then show "mbuf_ready mb \<Longrightarrow> ?thesis" by simp
qed

lemma mbuf_write_mem_ready:
  assumes "mbuf_ready mb" "length bs < 2 ^ 63"
  shows "mbuf_ready (snd (mbuf_write_mem al mb (Some bs)))"
proof (cases "fst (mbuf_write_mem al mb (Some bs)) = 0")
  case True
  then have w: "mbuf_write_mem al mb (Some bs) = (0, snd (mbuf_write_mem al mb (Some bs)))"
    by (metis prod.collapse)
  have "mbuf_wf mb" "mb_pos mb + length bs < 2 ^ 64"
    using assms by (auto simp: mbuf_ready_def mbuf_wf_def MEM_SIZE_MAX_def)
  from mbuf_write_mem_ok [OF w this] show ?thesis by (simp add: mbuf_ready_def)
next
  case False
  then have "snd (mbuf_write_mem al mb (Some bs)) = mb"
    using mbuf_write_mem_err by (metis prod.collapse)
  then show ?thesis using assms by simp
qed

lemma mbuf_fill_is_write:
  "n \<noteq> 0 \<Longrightarrow> mbuf_fill al mb c n = mbuf_write_mem al mb (Some (replicate n c))"
  by (simp add: mbuf_fill_def mbuf_write_mem_def Let_def split: prod.split)

lemma mbuf_shift_ready: "mbuf_ready mb \<Longrightarrow> mbuf_ready (snd (mbuf_shift al mb k))"
proof (cases "fst (mbuf_shift al mb k) = 0")
  case True
  then have "mbuf_shift al mb k = (0, snd (mbuf_shift al mb k))" by (metis prod.collapse)
  then show "mbuf_ready mb \<Longrightarrow> ?thesis" using mbuf_shift_ok by blast
next
  case False
  then have "snd (mbuf_shift al mb k) = mb"
    by (auto simp: mbuf_shift_def Let_def dest: mbuf_resize_err split: if_splits prod.splits)
  then show "mbuf_ready mb \<Longrightarrow> ?thesis" by simp
qed

lemma mbuf_read_mem_ready:
  assumes "mbuf_ready mb" "mbuf_read_mem mb n = Inr (bs, mb')"
  shows "mbuf_ready mb' \<and> length bs = n"
proof -
  have n: "n \<le> mb_end mb - mb_pos mb"
    using assms by (auto simp: mbuf_read_mem_def mbuf_get_left_def split: if_splits)
  then have "szt (mb_pos mb + n) = mb_pos mb + n" if "n \<noteq> 0"
    using assms(1) that by (auto simp: mbuf_ready_def mbuf_wf_def MEM_SIZE_MAX_def)
  moreover have "szt (mb_pos mb) = mb_pos mb" using assms(1) by (simp add: mbuf_ready_def mbuf_wf_def)
  moreover have "mb_pos mb + n < 2 ^ 64" if "n \<noteq> 0"
    using assms(1) n that by (auto simp: mbuf_ready_def mbuf_wf_def MEM_SIZE_MAX_def)
  ultimately show ?thesis using assms n
    by (cases "n = 0") (auto simp: mbuf_read_mem_def mbuf_ready_def mbuf_wf_def mbuf_bytes_def split: if_splits)
qed

lemma mbuf_alloc_ready: "mbuf_alloc al n = Some mb \<Longrightarrow> mbuf_ready mb \<and> mb_buf mb \<noteq> None"
proof -
  assume "mbuf_alloc al n = Some mb"
  then have r: "mbuf_resize al mbuf_zero (if n \<noteq> 0 then n else DEFAULT_SIZE) = (0, mb)"
    by (auto simp: mbuf_alloc_def split: option.splits prod.splits if_splits)
  show ?thesis using mbuf_resize_ok [OF r] by (simp add: mbuf_ready_def mbuf_wf_def mbuf_zero_def)
qed

lemma mbuf_alloc_size: "mbuf_alloc al n = Some mb \<Longrightarrow> length (mbuf_bytes mb) = (if n \<noteq> 0 then n else DEFAULT_SIZE)"
  by (auto simp: mbuf_alloc_def dest: mbuf_resize_ok split: option.splits prod.splits if_splits)

lemma mbuf_dup_ready:
  assumes "mbuf_ready mb" "mbuf_dup al (Some mb) = Some mb'"
  shows "mbuf_ready mb' \<and> mbuf_content mb' = mbuf_content mb \<and> mb_pos mb' = mb_pos mb"
proof -
  let ?src = "take (mb_size mb) (mbuf_bytes mb)"
  have src: "(case mb_buf mb of None \<Rightarrow> [] | Some b \<Rightarrow> take (mb_size mb) b) = ?src"
    by (simp add: mbuf_bytes_def split: option.split)
  from assms(2) obtain m where a: "mbuf_alloc al (mb_size mb) = Some m"
    and mb': "mb' = m\<lparr>mb_size := mb_size mb, mb_pos := mb_pos mb, mb_end := mb_end mb,
                mb_buf := map_option (mem_put 0 ?src) (mb_buf m)\<rparr>"
    by (auto simp: mbuf_dup_def src split: option.splits)
  have wf: "mb_end mb \<le> mb_size mb" "mb_size mb \<le> length (mbuf_bytes mb)" "mb_size mb \<le> MEM_SIZE_MAX"
    "mb_pos mb < 2 ^ 64" "mb_pos mb \<le> mb_end mb"
    using assms(1) by (auto simp: mbuf_ready_def mbuf_wf_def)
  have len: "mb_size mb \<le> length (mbuf_bytes m)" using mbuf_alloc_size [OF a] by auto
  have B: "mbuf_bytes mb' = ?src @ drop (mb_size mb) (mbuf_bytes m)"
    using mbuf_alloc_ready [OF a] wf by (auto simp: mb' mbuf_bytes_def mem_put_def min_def)
  have "mbuf_content mb' = mbuf_content mb"
    using wf by (simp add: mbuf_content_def B) (simp add: mb' min_def)
  then show ?thesis using wf len by (simp add: mbuf_ready_def mbuf_wf_def B) (simp add: mb')
qed

lemma mbuf_step_ready: "mbuf_step al mb mb' \<Longrightarrow> mbuf_ready mb \<Longrightarrow> mbuf_ready mb'"
proof (induction rule: mbuf_step.induct)
  case (trim mb)
  then show ?case by (simp add: mbuf_trim_def mbuf_resize_wf)
next
  case (fill n mb c)
  then show ?case
    by (cases "n = 0") (simp_all add: mbuf_fill_is_write mbuf_write_mem_ready, simp add: mbuf_fill_def)
next
  case (read_mem mb n bs mb')
  then show ?case using mbuf_read_mem_ready by blast
next
  case (advance mb n)
  then have "(int (mb_pos mb) + n) mod 2 ^ 64 = int (mb_pos mb) + n"
    by (intro mod_pos_pos_trivial) (auto simp: mbuf_ready_def mbuf_wf_def MEM_SIZE_MAX_def)
  with advance show ?case
    by (auto simp: mbuf_advance_def mbuf_ready_def mbuf_wf_def mbuf_bytes_def MEM_SIZE_MAX_def)
qed (simp_all add: mbuf_resize_wf mbuf_shift_ready mbuf_write_mem_ready mbuf_init_def mbuf_reset_def
      mbuf_rewind_def mbuf_skip_to_end_def mbuf_set_posend_def mbuf_set_pos_def mbuf_set_end_def,
      auto simp: mbuf_ready_def mbuf_wf_def mbuf_bytes_def MEM_SIZE_MAX_def)

lemma mbuf_reach_ready: "mbuf_reach al mb \<Longrightarrow> mbuf_ready mb"
proof (induction rule: mbuf_reach.induct)
  case (alloc n mb)
  then show ?case using mbuf_alloc_ready by blast
next
  case (dup mb mb')
  then show ?case using mbuf_dup_ready by blast
next
  case (step mb mb')
  then show ?case using mbuf_step_ready by blast
qed

section \<open>Properties\<close>

text \<open>C19: in every buffer that a sequence of the module's operations makes of a fresh one, whatever
  the allocator answers, the cursor is within the data, the data within the block and the block
  within the allocator's limit; a read of \<open>n\<close> bytes that succeeds returns \<open>n\<close> bytes of
  the block.\<close>

theorem mbuf_reachable:
  assumes "mbuf_reach al mb"
  shows "mb_pos mb \<le> mb_end mb \<and> mb_end mb \<le> mb_size mb \<and> mb_size mb \<le> length (mbuf_bytes mb) \<and>
         mb_size mb \<le> MEM_SIZE_MAX \<and>
         (\<forall>n bs mb'. mbuf_read_mem mb n = Inr (bs, mb') \<longrightarrow> length bs = n)"
proof -
  have r: "mbuf_ready mb" by (rule mbuf_reach_ready [OF assms])
  then have "\<forall>n bs mb'. mbuf_read_mem mb n = Inr (bs, mb') \<longrightarrow> length bs = n"
    using mbuf_read_mem_ready by blast
  with r show ?thesis by (simp add: mbuf_ready_def mbuf_wf_def)
qed

definition al_all :: malloc_env where
  "al_all = \<lparr>avail = (\<lambda>_. True), junk = (\<lambda>_. 0)\<rparr>"

lemma al_all_simps [simp]: "avail al_all n" "junk al_all n = 0"
  by (simp_all add: al_all_def)

definition mbuf_wit :: mbuf where
  "mbuf_wit = \<lparr>mb_buf = Some [1, 2, 0, 0], mb_size = 4, mb_pos = 2, mb_end = 2\<rparr>"

lemma mbuf_wit_reach: "mbuf_reach al_all mbuf_wit"
proof -
  have "mbuf_alloc al_all 4 = Some \<lparr>mb_buf = Some [0, 0, 0, 0], mb_size = 4, mb_pos = 0, mb_end = 0\<rparr>"
    by (simp add: mbuf_alloc_def mbuf_resize_def mbuf_zero_def mem_alloc_def mem_zalloc_def malloc_def
        sizeof_mbuf_def MEM_SIZE_MAX_def upt_rec)
  then have r: "mbuf_reach al_all \<lparr>mb_buf = Some [0, 0, 0, 0], mb_size = 4, mb_pos = 0, mb_end = 0\<rparr>"
    by (rule mbuf_reach.alloc)
  have "mbuf_write_mem al_all \<lparr>mb_buf = Some [0, 0, 0, 0], mb_size = 4, mb_pos = 0, mb_end = 0\<rparr>
      (Some [1, 2]) = (0, mbuf_wit)"
    by (simp add: mbuf_write_mem_def mbuf_grow_def mem_put_def mbuf_wit_def)
  with mbuf_reach.step [OF r mbuf_step.write_mem, of "[1, 2]"] show ?thesis by simp
qed

theorem mbuf_reachable_witness:
  "mbuf_reach al_all mbuf_wit \<and> mb_pos mbuf_wit \<le> mb_end mbuf_wit \<and>
     mb_end mbuf_wit \<le> mb_size mbuf_wit"
  using mbuf_reachable [OF mbuf_wit_reach] mbuf_wit_reach by simp

definition mbuf_empty :: mbuf where
  "mbuf_empty = \<lparr>mb_buf = Some (replicate 64 0), mb_size = 64, mb_pos = 0, mb_end = 0\<rparr>"

lemma mbuf_empty_ready: "mbuf_ready mbuf_empty" "mb_pos mbuf_empty = 0" "mb_end mbuf_empty = 0"
  "mb_size mbuf_empty = 64"
  by (simp_all add: mbuf_empty_def mbuf_ready_def mbuf_wf_def mbuf_bytes_def MEM_SIZE_MAX_def)

text \<open>C20: what is written is read back: after a successful \<^verbatim>\<open>mbuf_write_mem\<close> the bytes before
  the cursor are unchanged, and reading from the old position returns the written bytes and ends
  where the write ended.\<close>

theorem mbuf_write_read:
  assumes "mbuf_ready mb" "length bs < 2 ^ 32" "mbuf_write_mem al mb (Some bs) = (0, mb')"
  shows "take (mb_pos mb) (mbuf_content mb') = take (mb_pos mb) (mbuf_content mb) \<and>
         mbuf_read_mem (mbuf_set_pos mb' (mb_pos mb)) (length bs) = Inr (bs, mb')"
proof -
  note m = addsD [OF adds_write [OF assms(2)] assms(1,3)]
  let ?r = "mb'\<lparr>mb_pos := mb_pos mb\<rparr>"
  have p: "mb_pos mb \<le> length (mbuf_content mb)" using assms(1) by (simp add: mbuf_ready_def)
  have "mbuf_wf ?r" using m(1,2) by (auto simp: mbuf_ready_def mbuf_wf_def mbuf_bytes_def)
  moreover have "mbuf_left ?r = bs @ drop (mb_pos mb + length bs) (mbuf_content mb)"
    using m(3) p by (simp add: mbuf_left_content mbuf_content_def mbuf_bytes_def mem_put_def)
  moreover have "mbuf_skip ?r (length bs) = mb'" using m(2) by (simp add: mbuf_skip_def)
  ultimately have "mbuf_read_mem ?r (length bs) = Inr (bs, mb')" using mbuf_read_mem_left(1) by metis
  then show ?thesis using m(3) p by (simp add: mbuf_set_pos_def mem_put_def)
qed

theorem mbuf_write_read_witness:
  "mbuf_ready mbuf_wit \<and>
   mbuf_read_mem (mbuf_set_pos (snd (mbuf_write_mem al_all mbuf_wit (Some [7, 8, 9]))) 2) 3 =
     Inr ([7, 8, 9], snd (mbuf_write_mem al_all mbuf_wit (Some [7, 8, 9])))"
proof -
  have r: "mbuf_ready mbuf_wit" using mbuf_reach_ready mbuf_wit_reach by blast
  have "fst (mbuf_write_mem al_all mbuf_wit (Some [7, 8, 9])) = 0"
    by (rule mbuf_write_mem_succeeds) (simp_all add: mbuf_wit_def MEM_SIZE_MAX_def)
  then have w: "mbuf_write_mem al_all mbuf_wit (Some [7, 8, 9]) =
      (0, snd (mbuf_write_mem al_all mbuf_wit (Some [7, 8, 9])))" by (metis prod.collapse)
  have "mb_pos mbuf_wit = 2" "length [7 :: u8, 8, 9] = 3" by (simp_all add: mbuf_wit_def)
  with mbuf_write_read [OF r _ w] r show ?thesis by (simp add: numeral_3_eq_3)
qed

text \<open>A failing \<^verbatim>\<open>mbuf_write_mem\<close> reports ENOMEM and changes nothing, and it does not fail
  while the allocator can serve requests and the doubled block stays within its limit.\<close>

theorem mbuf_write_mem_result:
  "(mbuf_write_mem al mb (Some bs) = (ENOMEM, mb) \<or> fst (mbuf_write_mem al mb (Some bs)) = 0) \<and>
   ((\<forall>n. avail al n) \<longrightarrow> mb_pos mb + length bs \<le> MEM_SIZE_MAX \<longrightarrow> 2 * mb_size mb \<le> MEM_SIZE_MAX \<longrightarrow>
      fst (mbuf_write_mem al mb (Some bs)) = 0)"
proof (intro conjI impI)
  show "mbuf_write_mem al mb (Some bs) = (ENOMEM, mb) \<or> fst (mbuf_write_mem al mb (Some bs)) = 0"
  proof (cases "mbuf_write_mem al mb (Some bs)")
    case (Pair e mb')
    then show ?thesis using mbuf_write_mem_err [OF Pair] by auto
  qed
qed (simp add: mbuf_write_mem_succeeds)

theorem mbuf_write_mem_result_witness:
  "fst (mbuf_write_mem al_all mbuf_wit (Some [7, 8, 9])) = 0"
  using mbuf_write_mem_result [of al_all mbuf_wit "[7, 8, 9]"] by (simp add: mbuf_wit_def MEM_SIZE_MAX_def)

text \<open>Shifting moves the unread bytes and the cursor together, for either direction, and
  refuses to move the data in front of the block.\<close>

theorem mbuf_shift_keeps_data:
  assumes "mbuf_ready mb"
  shows "(int (mb_pos mb) + k < 0 \<longrightarrow> mbuf_shift al mb k = (ERANGE, mb)) \<and>
         (\<forall>mb'. mbuf_shift al mb k = (0, mb') \<longrightarrow>
            mbuf_ready mb' \<and> int (mb_pos mb') = int (mb_pos mb) + k \<and> mbuf_left mb' = mbuf_left mb)"
proof (intro conjI impI allI)
  show "mbuf_shift al mb k = (ERANGE, mb)" if "int (mb_pos mb) + k < 0"
    using that by (simp add: mbuf_shift_def)
qed (use mbuf_shift_ok [OF _ assms] in blast)+

theorem mbuf_shift_keeps_data_witness:
  "mbuf_ready mbuf_wit \<and> mbuf_shift al_all mbuf_wit (- 3) = (ERANGE, mbuf_wit)"
  using mbuf_shift_keeps_data [of mbuf_wit "- 3" al_all] mbuf_reach_ready [OF mbuf_wit_reach]
  by (simp add: mbuf_wit_def)

end
