(* ===== verification/Codec.thy ===== *)
theory Codec
  imports Mbuf
begin

text \<open>
  The idioms of the protocol decoders, as combinators over a memory buffer. A decoder returns an
  error code or a value, and in either case the buffer it leaves:
  \<^verbatim>\<open>if (mbuf_get_left(mb) < n) return EBADMSG;\<close> is \<open>d_need n\<close>,
  \<^verbatim>\<open>x = ntohl(mbuf_read_u32(mb));\<close> is \<open>d_bind d_u32\<close>,
  \<^verbatim>\<open>for (i=0; i<n && !err; i++) err = f(mb, &v[i]);\<close> is \<open>d_rep\<close>.

  \<open>parses d bs x\<close> says that \<open>d\<close> reads \<open>x\<close> from the bytes \<open>bs\<close>, whatever follows
  them; \<open>d_safe d\<close> that on every buffer \<open>d\<close> moves the cursor forward and within the
  data, whatever it returns. Both are closed under the combinators, and the locale at the end
  is the contract between an encoder and a decoder.
\<close>

section \<open>Combinators\<close>

type_synonym 'a dec = "mbuf \<Rightarrow> (errno + 'a) \<times> mbuf"

definition d_ret :: "'a \<Rightarrow> 'a dec" where
  "d_ret x mb = (Inr x, mb)"

definition d_err :: "errno \<Rightarrow> 'a dec" where
  "d_err e mb = (Inl e, mb)"

definition d_bind :: "'a dec \<Rightarrow> ('a \<Rightarrow> 'b dec) \<Rightarrow> 'b dec" where
  "d_bind d f mb = (case d mb of (Inl e, mb') \<Rightarrow> (Inl e, mb') | (Inr x, mb') \<Rightarrow> f x mb')"

definition d_need :: "nat \<Rightarrow> 'a dec \<Rightarrow> 'a dec" where
  "d_need n d mb = (if mbuf_get_left mb < n then (Inl EBADMSG, mb) else d mb)"

definition d_check :: "bool \<Rightarrow> errno \<Rightarrow> 'a dec \<Rightarrow> 'a dec" where
  "d_check b e d = (if b then d else d_err e)"

definition d_alloc :: "malloc_env \<Rightarrow> nat \<Rightarrow> 'a dec \<Rightarrow> 'a dec" where
  "d_alloc al n d = (if mem_alloc al n = None then d_err ENOMEM else d)"

definition d_u8 :: "u8 dec" where
  "d_u8 mb = (case mbuf_read_u8 mb of (v, mb') \<Rightarrow> (Inr v, mb'))"

definition d_u16 :: "u16 dec" where
  "d_u16 mb = (case mbuf_read_u16 mb of (v, mb') \<Rightarrow> (Inr (ntohs v), mb'))"

definition d_u32 :: "u32 dec" where
  "d_u32 mb = (case mbuf_read_u32 mb of (v, mb') \<Rightarrow> (Inr (ntohl v), mb'))"

definition d_u64 :: "u64 dec" where
  "d_u64 mb = (case mbuf_read_u64 mb of (v, mb') \<Rightarrow> (Inr (sys_ntohll v), mb'))"

definition d_mem :: "nat \<Rightarrow> bytes dec" where
  "d_mem n mb = (case mbuf_read_mem mb n of Inl e \<Rightarrow> (Inl e, mb) | Inr (bs, mb') \<Rightarrow> (Inr bs, mb'))"

text \<open>The buffer itself, for code that looks at \<^verbatim>\<open>mb->pos\<close> or at what is left.\<close>

definition d_get :: "mbuf dec" where
  "d_get mb = (Inr mb, mb)"

definition d_advance :: "nat \<Rightarrow> unit dec" where
  "d_advance n mb = (Inr (), mbuf_advance mb (int n))"

fun d_rep :: "nat \<Rightarrow> 'a dec \<Rightarrow> 'a list dec" where
  "d_rep 0 d = d_ret []"
| "d_rep (Suc k) d = d_bind d (\<lambda>x. d_bind (d_rep k d) (\<lambda>xs. d_ret (x # xs)))"

text \<open>A second handle on the buffer (\<^verbatim>\<open>mbuf_alloc_ref\<close>), and a copied string.\<close>

definition d_ref :: "malloc_env \<Rightarrow> mbuf dec" where
  "d_ref al mb = (case mbuf_alloc_ref al mb of None \<Rightarrow> (Inl ENOMEM, mb) | Some m \<Rightarrow> (Inr m, mb))"

definition d_strdup :: "malloc_env \<Rightarrow> nat \<Rightarrow> bytes dec" where
  "d_strdup al n mb = (case mbuf_strdup al mb n of Inl e \<Rightarrow> (Inl e, mb) | Inr (s, mb') \<Rightarrow> (Inr s, mb'))"

section \<open>Reading back\<close>

definition parses :: "'a dec \<Rightarrow> bytes \<Rightarrow> 'a \<Rightarrow> bool" where
  "parses d bs x \<longleftrightarrow> (\<forall>mb rest. mbuf_wf mb \<longrightarrow> mbuf_left mb = bs @ rest \<longrightarrow>
     d mb = (Inr x, mbuf_skip mb (length bs)))"

lemma parsesD: "parses d bs x \<Longrightarrow> mbuf_wf mb \<Longrightarrow> mbuf_left mb = bs @ rest \<Longrightarrow>
   d mb = (Inr x, mbuf_skip mb (length bs))"
  unfolding parses_def by blast

named_theorems parses_intros \<open>what decoders read\<close>

lemma parses_ret [parses_intros]: "parses (d_ret x) [] x"
  by (simp add: parses_def d_ret_def)

lemma parses_bind [parses_intros]:
  assumes "parses d bs x" "parses (f x) cs y"
  shows "parses (d_bind d f) (bs @ cs) y"
  unfolding parses_def
proof (intro allI impI)
  fix mb rest
  assume wf: "mbuf_wf mb" and l: "mbuf_left mb = (bs @ cs) @ rest"
  have l': "mbuf_left mb = bs @ cs @ rest" using l by simp
  have "d mb = (Inr x, mbuf_skip mb (length bs))" by (rule parsesD [OF assms(1) wf l'])
  moreover have "f x (mbuf_skip mb (length bs)) = (Inr y, mbuf_skip (mbuf_skip mb (length bs)) (length cs))"
    using parsesD [OF assms(2)] mbuf_skip_left [OF wf l' refl] by blast
  ultimately show "d_bind d f mb = (Inr y, mbuf_skip mb (length (bs @ cs)))"
    by (simp add: d_bind_def)
qed

lemma parses_bind_Nil: "parses d bs x \<Longrightarrow> parses (f x) [] y \<Longrightarrow> parses (d_bind d f) bs y"
  using parses_bind [of d bs x f "[]" y] by simp

lemma parses_need [parses_intros]: "n \<le> length bs \<Longrightarrow> parses d bs x \<Longrightarrow> parses (d_need n d) bs x"
  by (simp add: parses_def d_need_def mbuf_rd)

lemma parses_check [parses_intros]: "b \<Longrightarrow> parses d bs x \<Longrightarrow> parses (d_check b e d) bs x"
  by (simp add: d_check_def)

lemma parses_alloc [parses_intros]:
  "mem_alloc al n \<noteq> None \<Longrightarrow> parses d bs x \<Longrightarrow> parses (d_alloc al n d) bs x"
  by (auto simp: d_alloc_def)

lemma parses_u8 [parses_intros]: "parses d_u8 [v] v"
  by (simp add: parses_def d_u8_def mbuf_rd)

lemma parses_u16 [parses_intros]: "parses d_u16 (be16 v) v"
  by (simp add: parses_def d_u16_def mbuf_rd)

lemma parses_u32 [parses_intros]: "parses d_u32 (be32 v) v"
  by (simp add: parses_def d_u32_def mbuf_rd)

lemma parses_u64 [parses_intros]: "parses d_u64 (be64 v) v"
  by (simp add: parses_def d_u64_def mbuf_rd)

lemma parses_mem [parses_intros]: "n = length bs \<Longrightarrow> parses (d_mem n) bs bs"
  by (simp add: parses_def d_mem_def mbuf_rd)

lemma mbuf_advance_skip:
  "mbuf_wf mb \<Longrightarrow> n \<le> length (mbuf_left mb) \<Longrightarrow> mbuf_advance mb (int n) = mbuf_skip mb n"
proof -
  assume "mbuf_wf mb" "n \<le> length (mbuf_left mb)"
  then have "mb_pos mb + n < 2 ^ 64" using mbuf_wf_skip [of mb n] by (simp add: mbuf_wf_def)
  then have "(int (mb_pos mb) + int n) mod 2 ^ 64 = int (mb_pos mb + n)"
    by (simp flip: of_nat_add)
  then show ?thesis by (simp add: mbuf_advance_def mbuf_skip_def)
qed

lemma parses_advance [parses_intros]: "n = length bs \<Longrightarrow> parses (d_advance n) bs ()"
  by (simp add: parses_def d_advance_def mbuf_advance_skip)

lemma parses_strdup:
  assumes "n = length s" "mem_alloc al (n + 1) \<noteq> None" "n < 2 ^ 32"
  shows "parses (d_strdup al n) s (s @ [0])"
  unfolding parses_def
proof (intro allI impI)
  fix mb rest assume wf: "mbuf_wf mb" and l: "mbuf_left mb = s @ rest"
  obtain b where b: "mem_alloc al (n + 1) = Some b" using assms(2) by blast
  then have "length b = n + 1" using mem_alloc_length by blast
  then have "mem_put n [0] (mem_put 0 s b) = s @ [0]" using assms(1) by (simp add: mem_put_def)
  then show "d_strdup al n mb = (Inr (s @ [0]), mbuf_skip mb (length s))"
    using wf l b assms by (simp add: d_strdup_def mbuf_strdup_def mbuf_rd)
qed

text \<open>Short strings can be copied.\<close>

definition small_allocs :: "malloc_env \<Rightarrow> bool" where
  "small_allocs al \<longleftrightarrow> (\<forall>n\<le>65536. mem_alloc al n \<noteq> None)"

lemma takeWhile_str: "0 \<notin> set str \<Longrightarrow> takeWhile (\<lambda>c. c \<noteq> 0) (str @ [0]) = (str :: bytes)"
  "0 \<notin> set str \<Longrightarrow> takeWhile (\<lambda>c. c \<noteq> 0) str = (str :: bytes)"
  by (auto simp: takeWhile_append takeWhile_eq_all_conv)

lemma parses_rep [parses_intros]:
  "(\<And>x. x \<in> set xs \<Longrightarrow> parses d (img x) x) \<Longrightarrow> n = length xs \<Longrightarrow>
     parses (d_rep n d) (concat (map img xs)) xs"
proof (induction xs arbitrary: n)
  case Nil
  then show ?case by (simp add: parses_ret)
next
  case (Cons x xs)
  have 1: "parses d (img x) x" using Cons.prems(1) by simp
  have 2: "parses (d_rep (length xs) d) (concat (map img xs)) xs" using Cons by simp
  have 3: "parses (d_bind (d_rep (length xs) d) (\<lambda>xs. d_ret (x # xs))) (concat (map img xs)) (x # xs)"
    by (rule parses_bind_Nil [OF 2]) (rule parses_ret)
  have "parses (d_rep (Suc (length xs)) d) (img x @ concat (map img xs)) (x # xs)"
    unfolding d_rep.simps by (rule parses_bind [OF 1]) (rule 3)
  then show ?case by (simp add: Cons.prems(2))
qed

text \<open>Decoders that look at the cursor: \<open>parses_at p\<close> fixes where it stands at the start.\<close>

definition parses_at :: "nat \<Rightarrow> 'a dec \<Rightarrow> bytes \<Rightarrow> 'a \<Rightarrow> bool" where
  "parses_at p d bs x \<longleftrightarrow> (\<forall>mb rest. mbuf_wf mb \<longrightarrow> mbuf_left mb = bs @ rest \<longrightarrow> mb_pos mb = p \<longrightarrow>
     d mb = (Inr x, mbuf_skip mb (length bs)))"

lemma parses_atI: "parses d bs x \<Longrightarrow> parses_at p d bs x"
  by (simp add: parses_def parses_at_def)

lemma parses_from_at: "(\<And>p. parses_at p d bs x) \<Longrightarrow> parses d bs x"
  by (simp add: parses_def parses_at_def)

lemma parses_at_bind:
  assumes "parses_at p d bs x" "parses_at (p + length bs) (f x) cs y"
  shows "parses_at p (d_bind d f) (bs @ cs) y"
  unfolding parses_at_def
proof (intro allI impI)
  fix mb rest
  assume wf: "mbuf_wf mb" and l: "mbuf_left mb = (bs @ cs) @ rest" and p: "mb_pos mb = p"
  have l': "mbuf_left mb = bs @ cs @ rest" using l by simp
  have "d mb = (Inr x, mbuf_skip mb (length bs))" using assms(1) wf l' p unfolding parses_at_def by blast
  moreover have "f x (mbuf_skip mb (length bs)) = (Inr y, mbuf_skip (mbuf_skip mb (length bs)) (length cs))"
    using assms(2) mbuf_skip_left [OF wf l' refl] p unfolding parses_at_def by simp
  ultimately show "d_bind d f mb = (Inr y, mbuf_skip mb (length (bs @ cs)))"
    by (simp add: d_bind_def)
qed

lemma parses_at_bind_Nil:
  "parses_at p d bs x \<Longrightarrow> parses_at (p + length bs) (f x) [] y \<Longrightarrow> parses_at p (d_bind d f) bs y"
  using parses_at_bind [of p d bs x f "[]" y] by simp

lemma parses_at_get:
  "(\<And>m. mb_pos m = p \<Longrightarrow> length bs \<le> mbuf_get_left m \<Longrightarrow> parses_at p (f m) bs x) \<Longrightarrow>
     parses_at p (d_bind d_get f) bs x"
  by (simp add: parses_at_def d_bind_def d_get_def mbuf_rd)

lemma parses_at_guards:
  "n \<le> length bs \<Longrightarrow> parses_at p d bs x \<Longrightarrow> parses_at p (d_need n d) bs x"
  "b \<Longrightarrow> parses_at p d bs x \<Longrightarrow> parses_at p (d_check b e d) bs x"
  "mem_alloc al k \<noteq> None \<Longrightarrow> parses_at p d bs x \<Longrightarrow> parses_at p (d_alloc al k d) bs x"
  by (auto simp: parses_at_def d_need_def mbuf_rd d_check_def d_alloc_def)

section \<open>Safety on arbitrary input\<close>

definition d_safe :: "'a dec \<Rightarrow> bool" where
  "d_safe d \<longleftrightarrow> (\<forall>mb. mbuf_wf mb \<longrightarrow> mbuf_fwd mb (snd (d mb)))"

named_theorems d_safes \<open>decoders that stay within the data\<close>

lemma d_safeD: "d_safe d \<Longrightarrow> mbuf_wf mb \<Longrightarrow> mbuf_fwd mb (snd (d mb))"
  unfolding d_safe_def by blast

lemma d_safe_basic [d_safes]: "d_safe (d_ret x)" "d_safe (d_err e)" "d_safe d_get"
  by (simp_all add: d_safe_def d_ret_def d_err_def d_get_def)

lemma d_safe_bind [d_safes]: "d_safe d \<Longrightarrow> (\<And>x. d_safe (f x)) \<Longrightarrow> d_safe (d_bind d f)"
  unfolding d_safe_def d_bind_def
proof (intro allI impI)
  fix mb
  assume d: "\<forall>mb. mbuf_wf mb \<longrightarrow> mbuf_fwd mb (snd (d mb))"
    and f: "\<And>x. \<forall>mb. mbuf_wf mb \<longrightarrow> mbuf_fwd mb (snd (f x mb))" and wf: "mbuf_wf mb"
  obtain r mb1 where r: "d mb = (r, mb1)" by fastforce
  have 1: "mbuf_fwd mb mb1" using d wf r by (metis snd_conv)
  show "mbuf_fwd mb (snd (case d mb of (Inl e, mb') \<Rightarrow> (Inl e, mb') | (Inr x, mb') \<Rightarrow> f x mb'))"
    using 1 f [rule_format, OF mbuf_fwd_wf [OF 1 wf]] mbuf_fwd_trans [OF 1]
    by (cases r) (simp_all add: r)
qed

lemma d_safe_guards [d_safes]:
  "d_safe d \<Longrightarrow> d_safe (d_need n d)" "d_safe d \<Longrightarrow> d_safe (d_check b e d)"
  "d_safe d \<Longrightarrow> d_safe (d_alloc al n d)" "d_safe d \<Longrightarrow> d_safe d' \<Longrightarrow> d_safe (if b then d else d')"
  by (simp_all add: d_safe_def d_need_def d_check_def d_alloc_def d_err_def)

lemma d_safe_reads [d_safes]: "d_safe d_u8" "d_safe d_u16" "d_safe d_u32" "d_safe d_u64" "d_safe (d_mem n)"
proof -
  show "d_safe d_u8" "d_safe d_u16" "d_safe d_u32" "d_safe d_u64"
    using mbuf_fwd_reads(1-4)
    by (simp_all add: d_safe_def d_u8_def d_u16_def d_u32_def d_u64_def split: prod.split)
      (metis snd_conv)+
  show "d_safe (d_mem n)"
    using mbuf_fwd_reads(5) by (auto simp: d_safe_def d_mem_def split: sum.split)
qed

lemma d_safe_prod [d_safes]: "(\<And>a b. p = (a, b) \<Longrightarrow> d_safe (f a b)) \<Longrightarrow> d_safe (case p of (a, b) \<Rightarrow> f a b)"
  by (cases p) simp

lemma d_safe_rep [d_safes]: "d_safe d \<Longrightarrow> d_safe (d_rep k d)"
  by (induction k) (simp_all add: d_safes)

lemma d_safe_ref [d_safes]: "d_safe (d_ref al)"
  by (simp add: d_safe_def d_ref_def split: option.split)

lemma d_safe_strdup [d_safes]: "d_safe (d_strdup al n)"
  using mbuf_fwd_reads(5) by (auto simp: d_safe_def d_strdup_def mbuf_strdup_def split: sum.split option.split)

text \<open>Code that relies on an earlier length check: \<open>d_safe_at n d\<close> is safety on buffers with at
  least \<open>n\<close> bytes left.\<close>

definition d_safe_at :: "nat \<Rightarrow> 'a dec \<Rightarrow> bool" where
  "d_safe_at n d \<longleftrightarrow> (\<forall>mb. mbuf_wf mb \<longrightarrow> n \<le> length (mbuf_left mb) \<longrightarrow> mbuf_fwd mb (snd (d mb)))"

lemma d_safe_need_at: "d_safe_at n d \<Longrightarrow> d_safe (d_need n d)"
  by (simp add: d_safe_def d_safe_at_def d_need_def mbuf_rd)

lemma d_safe_at_0: "d_safe d \<Longrightarrow> d_safe_at n d"
  by (simp add: d_safe_def d_safe_at_def)

lemma d_safe_at_bind: "d_safe_at n d \<Longrightarrow> (\<And>x. d_safe (f x)) \<Longrightarrow> d_safe_at n (d_bind d f)"
  unfolding d_safe_at_def
proof (intro allI impI)
  fix mb
  assume d: "\<forall>mb. mbuf_wf mb \<longrightarrow> n \<le> length (mbuf_left mb) \<longrightarrow> mbuf_fwd mb (snd (d mb))"
    and f: "\<And>x. d_safe (f x)" and wf: "mbuf_wf mb" and n: "n \<le> length (mbuf_left mb)"
  obtain r mb1 where r: "d mb = (r, mb1)" by fastforce
  have 1: "mbuf_fwd mb mb1" using d wf n r by (metis snd_conv)
  show "mbuf_fwd mb (snd (d_bind d f mb))"
    using 1 d_safeD [OF f mbuf_fwd_wf [OF 1 wf]] mbuf_fwd_trans [OF 1]
    by (cases r) (simp_all add: r d_bind_def)
qed

lemma d_safe_at_guards:
  "d_safe_at n d \<Longrightarrow> d_safe_at n (d_check b e d)" "d_safe_at n d \<Longrightarrow> d_safe_at n (d_alloc al k d)"
  "(\<And>m. d_safe_at n (f m)) \<Longrightarrow> d_safe_at n (d_bind d_get f)"
  "(\<And>m. d_safe_at n (f m)) \<Longrightarrow> d_safe_at n (d_bind (d_ref al) f)"
  by (simp_all add: d_safe_at_def d_check_def d_alloc_def d_err_def d_bind_def d_get_def d_ref_def
      split: option.split)

text \<open>\<open>d_takes n d\<close>: given \<open>n\<close> bytes, \<open>d\<close> succeeds and consumes exactly these.\<close>

definition d_takes :: "nat \<Rightarrow> 'a dec \<Rightarrow> bool" where
  "d_takes n d \<longleftrightarrow> (\<forall>mb. mbuf_wf mb \<longrightarrow> n \<le> length (mbuf_left mb) \<longrightarrow>
     (\<exists>x. d mb = (Inr x, mbuf_skip mb n)))"

lemma d_takes_reads: "d_takes 1 d_u8" "d_takes 2 d_u16" "d_takes 4 d_u32" "d_takes 8 d_u64"
  "d_takes n (d_mem n)" "d_takes n (d_advance n)" "d_takes 0 (d_ret x)"
  by (simp_all add: d_takes_def d_u8_def d_u16_def d_u32_def d_u64_def d_mem_def d_advance_def d_ret_def
      mbuf_rd mbuf_advance_skip)

lemma d_takes_need: "d_takes n d \<Longrightarrow> k \<le> n \<Longrightarrow> d_takes n (d_need k d)"
  by (simp add: d_takes_def d_need_def mbuf_rd)

lemma d_takes_bind:
  assumes "d_takes n d" "\<And>x. d_takes m (f x)"
  shows "d_takes (n + m) (d_bind d f)"
  unfolding d_takes_def
proof (intro allI impI)
  fix mb assume wf: "mbuf_wf mb" and le: "n + m \<le> length (mbuf_left mb)"
  then obtain x where x: "d mb = (Inr x, mbuf_skip mb n)"
    using assms(1) unfolding d_takes_def by (meson add_leD1)
  have "mbuf_wf (mbuf_skip mb n)" "m \<le> length (mbuf_left (mbuf_skip mb n))"
    using wf le by (simp_all add: mbuf_wf_skip mbuf_left_skip)
  then obtain y where "f x (mbuf_skip mb n) = (Inr y, mbuf_skip (mbuf_skip mb n) m)"
    using assms(2) [of x] unfolding d_takes_def by blast
  then show "\<exists>y. d_bind d f mb = (Inr y, mbuf_skip mb (n + m))" using x by (simp add: d_bind_def)
qed

lemma d_takes_rep: "d_takes n d \<Longrightarrow> d_takes (k * n) (d_rep k d)"
proof (induction k)
  case 0
  then show ?case by (simp add: d_takes_reads)
next
  case (Suc k)
  have "d_takes (k * n + 0) (d_bind (d_rep k d) (\<lambda>xs. d_ret (x # xs)))" for x
    by (rule d_takes_bind) (simp_all add: Suc d_takes_reads)
  from d_takes_bind [OF Suc.prems this] have "d_takes (n + (k * n + 0)) (d_rep (Suc k) d)"
    by simp
  then show ?case by simp
qed

lemma d_takes_safe_at: "d_takes n d \<Longrightarrow> d_safe_at n d"
  unfolding d_takes_def d_safe_at_def using mbuf_fwd_skip by fastforce

lemma d_safe_at_bind_takes:
  assumes "d_takes m d" "\<And>x. d_safe_at (n - m) (f x)" "m \<le> n"
  shows "d_safe_at n (d_bind d f)"
  unfolding d_safe_at_def
proof (intro allI impI)
  fix mb assume wf: "mbuf_wf mb" and le: "n \<le> length (mbuf_left mb)"
  then obtain x where x: "d mb = (Inr x, mbuf_skip mb m)"
    using assms(1,3) unfolding d_takes_def by (meson order_trans)
  have s: "mbuf_wf (mbuf_skip mb m)" "n - m \<le> length (mbuf_left (mbuf_skip mb m))" "mbuf_fwd mb (mbuf_skip mb m)"
    using wf le assms(3) by (simp_all add: mbuf_wf_skip mbuf_left_skip mbuf_fwd_skip)
  then show "mbuf_fwd mb (snd (d_bind d f mb))"
    using assms(2) mbuf_fwd_trans unfolding d_safe_at_def d_bind_def x by fastforce
qed

section \<open>The interface of the message codecs\<close>

text \<open>
  What an encoder and a decoder over memory buffers promise each other: the encoder writes the
  image of a valid value at the cursor, and does so without fail where there is room; the
  decoder reads that image back from whatever follows the cursor and leaves the rest. The
  protocol components provide interpretations.
\<close>

locale mbuf_codec =
  fixes enc :: "malloc_env \<Rightarrow> mbuf \<Rightarrow> 'a \<Rightarrow> errno \<times> mbuf"
    and dec :: "'a dec"
    and img :: "'a \<Rightarrow> bytes"
    and ok :: "'a \<Rightarrow> bool"
  assumes enc_adds: "ok x \<Longrightarrow> adds (img x) (\<lambda>mb. enc al mb x)"
    and enc_fits: "ok x \<Longrightarrow> fits (length (img x)) (\<lambda>mb. enc al mb x)"
    and dec_reads: "ok x \<Longrightarrow> parses dec (img x) x"
begin

lemma roundtrip:
  assumes "ok x" "mbuf_ready mb" "mb_pos mb = mb_end mb" "enc al mb x = (0, mb')"
  shows "dec (mb'\<lparr>mb_pos := mb_pos mb\<rparr>) = (Inr x, mb')"
proof -
  note a = mbuf_left_after_add [OF assms(2,3) enc_adds [OF assms(1)] assms(4)]
  show ?thesis using parsesD [OF dec_reads [OF assms(1)] a(1), of "[]"] a by simp
qed

text \<open>In a block with room the round trip is total.\<close>

lemma roundtrip_total:
  assumes "ok x" "mbuf_ready mb" "mb_pos mb = mb_end mb" "mb_pos mb + length (img x) \<le> mb_size mb"
  shows "\<exists>mb'. enc al mb x = (0, mb') \<and> dec (mb'\<lparr>mb_pos := mb_pos mb\<rparr>) = (Inr x, mb')"
proof -
  have "mb_size mb < 2 ^ 64" using assms(2) by (simp add: mbuf_ready_def mbuf_wf_def MEM_SIZE_MAX_def)
  then obtain mb' where "enc al mb x = (0, mb')" using fitsD [OF enc_fits [OF assms(1)] assms(4)] by blast
  then show ?thesis using roundtrip [OF assms(1-3)] by blast
qed

text \<open>Images are prefix free: values encoded one after the other are told apart.\<close>

lemma img_prefix_free:
  assumes "ok x" "ok y" "img x @ r = img y @ s" "length (img x @ r) \<le> MEM_SIZE_MAX"
  shows "x = y \<and> r = s"
proof -
  let ?mb = "\<lparr>mb_buf = Some (img x @ r), mb_size = length (img x @ r), mb_pos = 0,
               mb_end = length (img x @ r)\<rparr>"
  have wf: "mbuf_wf ?mb" using assms(4) by (simp add: mbuf_wf_def mbuf_bytes_def)
  have l: "mbuf_left ?mb = img x @ r"
    by (simp add: mbuf_left_def mbuf_get_left_def mbuf_bytes_def)
  have "dec ?mb = (Inr x, mbuf_skip ?mb (length (img x)))"
    by (rule parsesD [OF dec_reads [OF assms(1)] wf l])
  moreover have "dec ?mb = (Inr y, mbuf_skip ?mb (length (img y)))"
    using parsesD [OF dec_reads [OF assms(2)] wf, of s] l assms(3) by simp
  ultimately have "x = y" by simp
  with assms(3) show ?thesis by simp
qed

end

end
