(* ===== verification/Str.thy ===== *)
theory Str
  imports Mbuf
begin

text \<open>
  Zero terminated strings (\<^verbatim>\<open>fmt/str.c\<close>, \<^verbatim>\<open>fmt/ch.c\<close>). A string is the list of its bytes
  without the terminating NUL; a \<^verbatim>\<open>char *\<close> that may be NULL is an \<open>option\<close>. The functions of
  the C library they call are written out: \<open>strcmp\<close> and \<open>strcasecmp\<close> return the difference of
  the first bytes that differ, the terminator counting as 0.
\<close>

section \<open>Functions\<close>

definition tolower :: "u8 \<Rightarrow> u8" where
  "tolower c = (if 65 \<le> c \<and> c \<le> 90 then c + 32 else c)"

fun strcmp :: "bytes \<Rightarrow> bytes \<Rightarrow> int" where
  "strcmp [] [] = 0"
| "strcmp (a # as) [] = int (unat a)"
| "strcmp [] (b # bs) = - int (unat b)"
| "strcmp (a # as) (b # bs) = (if a = b then strcmp as bs else int (unat a) - int (unat b))"

definition strcasecmp :: "bytes \<Rightarrow> bytes \<Rightarrow> int" where
  "strcasecmp s t = strcmp (map tolower s) (map tolower t)"

definition ch_hex :: "u8 \<Rightarrow> u8" where
  "ch_hex ch =
     (if 0x30 \<le> ch \<and> ch \<le> 0x39 then ch - 0x30
      else if 0x41 \<le> ch \<and> ch \<le> 0x46 then ch - 0x41 + 10
      else if 0x61 \<le> ch \<and> ch \<le> 0x66 then ch - 0x61 + 10
      else 0)"

definition str_hex :: "nat \<Rightarrow> bytes option \<Rightarrow> errno + bytes" where
  "str_hex len str =
     (case str of None \<Rightarrow> Inl EINVAL
      | Some s \<Rightarrow>
         if length s \<noteq> szt (2 * len) then Inl EINVAL
         else Inr (map (\<lambda>i. push_bit 4 (ch_hex (s ! (2 * i))) + ch_hex (s ! (2 * i + 1))) [0..<len]))"

text \<open>What \<^verbatim>\<open>str_ncpy\<close> leaves at \<open>dst\<close>, as a string, for \<open>n > 0\<close>.\<close>

definition str_ncpy :: "bytes \<Rightarrow> nat \<Rightarrow> bytes" where
  "str_ncpy src n = take (n - 1) src"

definition str_dup :: "malloc_env \<Rightarrow> bytes option \<Rightarrow> errno + bytes" where
  "str_dup al src =
     (case src of None \<Rightarrow> Inl EINVAL
      | Some s \<Rightarrow> (case mem_alloc al (szt (length s + 1)) of None \<Rightarrow> Inl ENOMEM | Some _ \<Rightarrow> Inr s))"

definition str_cmp :: "bytes option \<Rightarrow> bytes option \<Rightarrow> int" where
  "str_cmp s1 s2 = (case (s1, s2) of (Some a, Some b) \<Rightarrow> strcmp a b | _ \<Rightarrow> 1)"

definition str_ncmp :: "bytes option \<Rightarrow> bytes option \<Rightarrow> nat \<Rightarrow> int" where
  "str_ncmp s1 s2 n = (case (s1, s2) of (Some a, Some b) \<Rightarrow> strcmp (take n a) (take n b) | _ \<Rightarrow> 1)"

definition str_casecmp :: "bytes option \<Rightarrow> bytes option \<Rightarrow> int" where
  "str_casecmp s1 s2 =
     (case (s1, s2) of (None, None) \<Rightarrow> 0 | (Some a, Some b) \<Rightarrow> strcasecmp a b | _ \<Rightarrow> 1)"

definition str_len :: "bytes option \<Rightarrow> nat" where
  "str_len s = (case s of None \<Rightarrow> 0 | Some a \<Rightarrow> length a)"

definition str_isset :: "bytes option \<Rightarrow> bool" where
  "str_isset s = (case s of None \<Rightarrow> False | Some a \<Rightarrow> a \<noteq> [])"

definition str_bool :: "bytes option \<Rightarrow> errno + bool" where
  "str_bool str =
     (let is = (\<lambda>w. str_casecmp str (Some (str_bytes w)) = 0) in
      if \<not> str_isset str then Inl EINVAL
      else if is ''0'' then Inr False
      else if is ''1'' then Inr True
      else if is ''false'' then Inr False
      else if is ''true'' then Inr True
      else if is ''disable'' then Inr False
      else if is ''enable'' then Inr True
      else if is ''off'' then Inr False
      else if is ''on'' then Inr True
      else if is ''no'' then Inr False
      else if is ''yes'' then Inr True
      else Inl EINVAL)"

section \<open>Comparison\<close>

lemma strcmp_eq_iff:
  "0 \<notin> set s \<Longrightarrow> 0 \<notin> set t \<Longrightarrow> strcmp s t = 0 \<longleftrightarrow> s = t"
proof (induction s t rule: strcmp.induct)
  case (2 a as)
  then show ?case by (simp add: uint_0_iff)
next
  case (3 b bs)
  then show ?case by (simp add: uint_0_iff)
next
  case (4 a as b bs)
  then show ?case by (auto simp: word_uint_eq_iff)
qed simp

lemma tolower_zero [simp]: "tolower c = 0 \<longleftrightarrow> c = 0"
proof
  assume "tolower c = 0"
  moreover have "c + 32 \<noteq> 0" if "c \<le> 90"
  proof
    assume "c + 32 = 0"
    then have "c = - 32" by (simp add: eq_neg_iff_add_eq_0)
    with that show False by simp
  qed
  ultimately show "c = 0" by (auto simp: tolower_def split: if_splits)
qed (simp add: tolower_def)

lemma strcasecmp_eq_iff:
  "0 \<notin> set s \<Longrightarrow> 0 \<notin> set t \<Longrightarrow> strcasecmp s t = 0 \<longleftrightarrow> map tolower s = map tolower t"
  unfolding strcasecmp_def by (rule strcmp_eq_iff) auto

lemma strcasecmp_refl [simp]: "strcasecmp s s = 0"
proof -
  have "strcmp t t = 0" for t by (induction t) simp_all
  then show ?thesis by (simp add: strcasecmp_def)
qed

lemma str_casecmp_Some:
  "0 \<notin> set s \<Longrightarrow> 0 \<notin> set t \<Longrightarrow> str_casecmp (Some s) (Some t) = 0 \<longleftrightarrow> map tolower s = map tolower t"
  by (simp add: str_casecmp_def strcasecmp_eq_iff)

end
