(* ===== verification/Linked_List.thy ===== *)
theory Linked_List
  imports Prelude "HOL-Library.Multiset"
begin

text \<open>
  The doubly linked lists of \<^verbatim>\<open>src/src/list/list.c\<close> on an explicit heap: a store of
  list elements (\<^verbatim>\<open>struct le\<close>) and a store of list headers (\<^verbatim>\<open>struct list\<close>),
  both indexed by address; a NULL pointer is \<open>None\<close>. The predicate \<open>is_list h l xs\<close>
  says that the header at \<open>l\<close> and the elements at the addresses \<open>xs\<close> form a well
  linked list in that order; the refinement lemmas state each operation on \<open>xs\<close>.

  Sort and apply handlers look at an element through its \<^verbatim>\<open>data\<close> pointer, as every
  handler of the library does, and are functions of it. Loops that follow pointers may run
  forever on a damaged heap and are partial functions: \<open>None\<close> is not returning.
\<close>

section \<open>Heap and operations\<close>

record le =
  le_prev :: "nat option"
  le_next :: "nat option"
  le_list :: "nat option"
  le_data :: "nat option"

record list_hdr =
  l_head :: "nat option"
  l_tail :: "nat option"
  l_cnt :: nat

record list_heap =
  les :: "nat \<Rightarrow> le"
  hdrs :: "nat \<Rightarrow> list_hdr"

definition upd_le :: "nat \<Rightarrow> (le \<Rightarrow> le) \<Rightarrow> list_heap \<Rightarrow> list_heap" where
  "upd_le x f h = h\<lparr>les := (les h)(x := f (les h x))\<rparr>"

definition upd_list :: "nat \<Rightarrow> (list_hdr \<Rightarrow> list_hdr) \<Rightarrow> list_heap \<Rightarrow> list_heap" where
  "upd_list l f h = h\<lparr>hdrs := (hdrs h)(l := f (hdrs h l))\<rparr>"

definition list_init :: "nat \<Rightarrow> list_heap \<Rightarrow> list_heap" where
  "list_init l h = upd_list l (\<lambda>s. s\<lparr>l_head := None, l_tail := None, l_cnt := 0\<rparr>) h"

definition list_append :: "nat \<Rightarrow> nat \<Rightarrow> nat option \<Rightarrow> list_heap \<Rightarrow> list_heap" where
  "list_append l e d h =
     (if le_list (les h e) \<noteq> None then h
      else
        (let h1 = upd_le e (\<lambda>n. n\<lparr>le_prev := l_tail (hdrs h l), le_next := None,
                                  le_list := Some l, le_data := d\<rparr>) h;
             h2 = (if l_head (hdrs h1 l) = None
                   then upd_list l (\<lambda>s. s\<lparr>l_head := Some e\<rparr>) h1 else h1);
             h3 = (case l_tail (hdrs h2 l) of None \<Rightarrow> h2
                   | Some t \<Rightarrow> upd_le t (\<lambda>n. n\<lparr>le_next := Some e\<rparr>) h2)
         in upd_list l (\<lambda>s. s\<lparr>l_tail := Some e, l_cnt := Suc (l_cnt s)\<rparr>) h3))"

definition list_prepend :: "nat \<Rightarrow> nat \<Rightarrow> nat option \<Rightarrow> list_heap \<Rightarrow> list_heap" where
  "list_prepend l e d h =
     (if le_list (les h e) \<noteq> None then h
      else
        (let h1 = upd_le e (\<lambda>n. n\<lparr>le_prev := None, le_next := l_head (hdrs h l),
                                  le_list := Some l, le_data := d\<rparr>) h;
             h2 = (case l_head (hdrs h1 l) of None \<Rightarrow> h1
                   | Some t \<Rightarrow> upd_le t (\<lambda>n. n\<lparr>le_prev := Some e\<rparr>) h1);
             h3 = (if l_tail (hdrs h2 l) = None
                   then upd_list l (\<lambda>s. s\<lparr>l_tail := Some e\<rparr>) h2 else h2)
         in upd_list l (\<lambda>s. s\<lparr>l_head := Some e, l_cnt := Suc (l_cnt s)\<rparr>) h3))"

definition list_insert_before ::
  "nat \<Rightarrow> nat \<Rightarrow> nat \<Rightarrow> nat option \<Rightarrow> list_heap \<Rightarrow> list_heap" where
  "list_insert_before l e ile d h =
     (if le_list (les h ile) \<noteq> None then h
      else
        (let h1 = (case le_prev (les h e) of
                     Some p \<Rightarrow> upd_le p (\<lambda>n. n\<lparr>le_next := Some ile\<rparr>) h
                   | None \<Rightarrow> if l_head (hdrs h l) = Some e
                             then upd_list l (\<lambda>s. s\<lparr>l_head := Some ile\<rparr>) h else h);
             h2 = upd_le ile (\<lambda>n. n\<lparr>le_prev := le_prev (les h1 e), le_next := Some e,
                                    le_list := Some l, le_data := d\<rparr>) h1;
             h3 = upd_le e (\<lambda>n. n\<lparr>le_prev := Some ile\<rparr>) h2
         in upd_list l (\<lambda>s. s\<lparr>l_cnt := Suc (l_cnt s)\<rparr>) h3))"

definition list_insert_after ::
  "nat \<Rightarrow> nat \<Rightarrow> nat \<Rightarrow> nat option \<Rightarrow> list_heap \<Rightarrow> list_heap" where
  "list_insert_after l e ile d h =
     (if le_list (les h ile) \<noteq> None then h
      else
        (let h1 = (case le_next (les h e) of
                     Some p \<Rightarrow> upd_le p (\<lambda>n. n\<lparr>le_prev := Some ile\<rparr>) h
                   | None \<Rightarrow> if l_tail (hdrs h l) = Some e
                             then upd_list l (\<lambda>s. s\<lparr>l_tail := Some ile\<rparr>) h else h);
             h2 = upd_le ile (\<lambda>n. n\<lparr>le_prev := Some e, le_next := le_next (les h1 e),
                                    le_list := Some l, le_data := d\<rparr>) h1;
             h3 = upd_le e (\<lambda>n. n\<lparr>le_next := Some ile\<rparr>) h2
         in upd_list l (\<lambda>s. s\<lparr>l_cnt := Suc (l_cnt s)\<rparr>) h3))"

definition list_unlink :: "nat \<Rightarrow> list_heap \<Rightarrow> list_heap" where
  "list_unlink e h =
     (case le_list (les h e) of None \<Rightarrow> h
      | Some l \<Rightarrow>
        (let h1 = (case le_prev (les h e) of
                     Some p \<Rightarrow> upd_le p (\<lambda>n. n\<lparr>le_next := le_next (les h e)\<rparr>) h
                   | None \<Rightarrow> upd_list l (\<lambda>s. s\<lparr>l_head := le_next (les h e)\<rparr>) h);
             h2 = (case le_next (les h1 e) of
                     Some n \<Rightarrow> upd_le n (\<lambda>m. m\<lparr>le_prev := le_prev (les h1 e)\<rparr>) h1
                   | None \<Rightarrow> upd_list l (\<lambda>s. s\<lparr>l_tail := le_prev (les h1 e)\<rparr>) h1);
             h3 = upd_le e (\<lambda>n. n\<lparr>le_next := None, le_prev := None, le_list := None\<rparr>) h2
         in if l_cnt (hdrs h3 l) \<noteq> 0 then upd_list l (\<lambda>s. s\<lparr>l_cnt := l_cnt s - 1\<rparr>) h3
            else h3))"

text \<open>\<open>dref\<close> is the effect of \<^verbatim>\<open>mem_deref(data)\<close>, destructor included.\<close>

partial_function (option) list_flush_loop ::
  "(nat option \<Rightarrow> list_heap \<Rightarrow> list_heap) \<Rightarrow> nat option \<Rightarrow> list_heap \<Rightarrow> list_heap option" where
  "list_flush_loop dref le h =
     (case le of None \<Rightarrow> Some h
      | Some e \<Rightarrow>
         list_flush_loop dref (le_next (les h e))
           (dref (le_data (les h e)) (upd_le e (\<lambda>n. n\<lparr>le_data := None\<rparr>) (list_unlink e h))))"

definition list_flush ::
  "(nat option \<Rightarrow> list_heap \<Rightarrow> list_heap) \<Rightarrow> nat \<Rightarrow> list_heap \<Rightarrow> list_heap option" where
  "list_flush dref l h = map_option (list_init l) (list_flush_loop dref (l_head (hdrs h l)) h)"

partial_function (option) list_clear_loop :: "nat option \<Rightarrow> list_heap \<Rightarrow> list_heap option" where
  "list_clear_loop le h =
     (case le of None \<Rightarrow> Some h
      | Some e \<Rightarrow>
         list_clear_loop (le_next (les h e))
           (upd_le e (\<lambda>n. n\<lparr>le_list := None, le_prev := None, le_next := None, le_data := None\<rparr>) h))"

definition list_clear :: "nat \<Rightarrow> list_heap \<Rightarrow> list_heap option" where
  "list_clear l h = map_option (list_init l) (list_clear_loop (l_head (hdrs h l)) h)"

type_synonym list_sort_h = "nat option \<Rightarrow> nat option \<Rightarrow> bool"
type_synonym list_apply_h = "nat option \<Rightarrow> bool"

partial_function (option) list_insert_sorted_loop ::
  "list_sort_h \<Rightarrow> nat \<Rightarrow> nat option \<Rightarrow> nat \<Rightarrow> list_heap \<Rightarrow> list_heap option" where
  "list_insert_sorted_loop sh l le ile h =
     (case le of
        None \<Rightarrow> Some (list_prepend l ile (le_data (les h ile)) h)
      | Some e \<Rightarrow>
         if sh (le_data (les h e)) (le_data (les h ile))
         then Some (list_insert_after l e ile (le_data (les h ile)) h)
         else list_insert_sorted_loop sh l (le_prev (les h e)) ile h)"

definition list_insert_sorted ::
  "nat \<Rightarrow> list_sort_h \<Rightarrow> nat \<Rightarrow> nat option \<Rightarrow> list_heap \<Rightarrow> list_heap option" where
  "list_insert_sorted l sh ile d h =
     list_insert_sorted_loop sh l (l_tail (hdrs h l)) ile
       (upd_le ile (\<lambda>n. n\<lparr>le_data := d\<rparr>) h)"

partial_function (option) list_sort_pass ::
  "list_sort_h \<Rightarrow> nat \<Rightarrow> nat option \<Rightarrow> bool \<Rightarrow> list_heap \<Rightarrow> (bool \<times> list_heap) option" where
  "list_sort_pass sh l le srt h =
     (case le of None \<Rightarrow> Some (srt, h)
      | Some e \<Rightarrow>
         (case le_next (les h e) of None \<Rightarrow> Some (srt, h)
          | Some n \<Rightarrow>
             if sh (le_data (les h e)) (le_data (les h n))
             then list_sort_pass sh l (Some n) srt h
             else
               (let h1 = list_unlink e h
                in list_sort_pass sh l (Some e) True
                     (list_insert_after l n e (le_data (les h1 e)) h1))))"

partial_function (option) list_sort ::
  "nat \<Rightarrow> list_sort_h \<Rightarrow> list_heap \<Rightarrow> list_heap option" where
  "list_sort l sh h =
     (case list_sort_pass sh l (l_head (hdrs h l)) False h of
        None \<Rightarrow> None
      | Some (srt, h') \<Rightarrow> if srt then list_sort l sh h' else Some h')"

partial_function (option) list_apply_fwd ::
  "list_apply_h \<Rightarrow> nat option \<Rightarrow> list_heap \<Rightarrow> nat option option" where
  "list_apply_fwd ah le h =
     (case le of None \<Rightarrow> Some None
      | Some cur \<Rightarrow> if ah (le_data (les h cur)) then Some (Some cur)
                    else list_apply_fwd ah (le_next (les h cur)) h)"

partial_function (option) list_apply_bwd ::
  "list_apply_h \<Rightarrow> nat option \<Rightarrow> list_heap \<Rightarrow> nat option option" where
  "list_apply_bwd ah le h =
     (case le of None \<Rightarrow> Some None
      | Some cur \<Rightarrow> if ah (le_data (les h cur)) then Some (Some cur)
                    else list_apply_bwd ah (le_prev (les h cur)) h)"

definition list_apply :: "nat \<Rightarrow> bool \<Rightarrow> list_apply_h \<Rightarrow> list_heap \<Rightarrow> nat option option" where
  "list_apply l fwd ah h =
     (if fwd then list_apply_fwd ah (l_head (hdrs h l)) h
      else list_apply_bwd ah (l_tail (hdrs h l)) h)"

definition list_head :: "nat \<Rightarrow> list_heap \<Rightarrow> nat option" where
  "list_head l h = l_head (hdrs h l)"

definition list_tail :: "nat \<Rightarrow> list_heap \<Rightarrow> nat option" where
  "list_tail l h = l_tail (hdrs h l)"

definition list_count :: "nat \<Rightarrow> list_heap \<Rightarrow> u32" where
  "list_count l h = word_of_nat (l_cnt (hdrs h l))"

section \<open>Well linked lists\<close>

text \<open>
  \<open>dll h l p xs n\<close>: the elements \<open>xs\<close> are linked in both directions, belong to list
  \<open>l\<close>, the first one points back to \<open>p\<close> and the last one on to \<open>n\<close>.
  \<open>is_list\<close> adds the header: head, tail and count.
\<close>

definition hd_or :: "'a list \<Rightarrow> 'a option \<Rightarrow> 'a option" where
  "hd_or xs n = (case xs of [] \<Rightarrow> n | x # _ \<Rightarrow> Some x)"

definition last_or :: "'a list \<Rightarrow> 'a option \<Rightarrow> 'a option" where
  "last_or xs p = (if xs = [] then p else Some (last xs))"

fun dll :: "list_heap \<Rightarrow> nat \<Rightarrow> nat option \<Rightarrow> nat list \<Rightarrow> nat option \<Rightarrow> bool" where
  "dll h l p [] n = True"
| "dll h l p (x # xs) n =
     (le_prev (les h x) = p \<and> le_next (les h x) = hd_or xs n \<and> le_list (les h x) = Some l \<and>
      dll h l (Some x) xs n)"

definition is_list :: "list_heap \<Rightarrow> nat \<Rightarrow> nat list \<Rightarrow> bool" where
  "is_list h l xs \<longleftrightarrow> dll h l None xs None \<and> distinct xs \<and>
     hdrs h l = \<lparr>l_head = hd_or xs None, l_tail = last_or xs None, l_cnt = length xs\<rparr>"

lemma hd_or_simps [simp]:
  "hd_or [] n = n" "hd_or (x # xs) n = Some x" "hd_or (xs @ ys) n = hd_or xs (hd_or ys n)"
  by (simp_all add: hd_or_def split: list.split)

lemma last_or_simps [simp]:
  "last_or [] p = p" "last_or (xs @ [x]) p = Some x" "last_or (x # xs) p = last_or xs (Some x)"
  "last_or (xs @ ys) p = last_or ys (last_or xs p)"
  by (simp_all add: last_or_def)

lemma dll_append [simp]:
  "dll h l p (xs @ ys) n \<longleftrightarrow> dll h l p xs (hd_or ys n) \<and> dll h l (last_or xs p) ys n"
  by (induction xs arbitrary: p) auto

lemma dll_cong:
  "(\<And>x. x \<in> set xs \<Longrightarrow> le_prev (les h' x) = le_prev (les h x) \<and> le_next (les h' x) = le_next (les h x) \<and>
      le_list (les h' x) = le_list (les h x)) \<Longrightarrow> dll h' l p xs n = dll h l p xs n"
  by (induction xs arbitrary: p) auto

lemma dll_in_list: "dll h l p xs n \<Longrightarrow> x \<in> set xs \<Longrightarrow> le_list (les h x) = Some l"
  by (induction xs arbitrary: p) auto

lemma heap_upd_simps [simp]:
  "les (upd_le x f h) = (les h)(x := f (les h x))" "hdrs (upd_le x f h) = hdrs h"
  "hdrs (upd_list l g h) = (hdrs h)(l := g (hdrs h l))" "les (upd_list l g h) = les h"
  by (simp_all add: upd_le_def upd_list_def)

lemma hd_or_Some [simp]: "hd_or xs (Some y) \<noteq> None" "\<exists>z. hd_or xs (Some y) = Some z"
  by (simp_all add: hd_or_def split: list.split)

lemma last_or_Some [simp]: "last_or xs (Some y) \<noteq> None" "\<exists>z. last_or xs (Some y) = Some z"
  by (simp_all add: last_or_def)

lemma dll_frame [simp]:
  "x \<notin> set xs \<Longrightarrow> dll (upd_le x f h) l p xs n = dll h l p xs n"
  "dll (upd_list l' g h) l p xs n = dll h l p xs n"
  by (auto intro!: dll_cong)

lemma is_list_notin: "is_list h l xs \<Longrightarrow> le_list (les h e) = None \<Longrightarrow> e \<notin> set xs"
  by (auto simp: is_list_def dest: dll_in_list)

lemma append_is_list:
  assumes "is_list h l xs" "le_list (les h e) = None"
  shows "is_list (list_append l e d h) l (xs @ [e])"
proof -
  have n: "e \<notin> set xs" by (rule is_list_notin [OF assms])
  show ?thesis
  proof (cases xs rule: rev_cases)
    case Nil
    with assms n show ?thesis by (simp add: is_list_def list_append_def)
  next
    case (snoc ys y)
    with assms n show ?thesis
      by (auto simp: is_list_def list_append_def)
  qed
qed

lemma prepend_is_list:
  assumes "is_list h l xs" "le_list (les h e) = None"
  shows "is_list (list_prepend l e d h) l (e # xs)"
proof -
  have n: "e \<notin> set xs" by (rule is_list_notin [OF assms])
  show ?thesis
  proof (cases xs)
    case Nil
    with assms n show ?thesis by (simp add: is_list_def list_prepend_def)
  next
    case (Cons y ys)
    with assms n show ?thesis
      by (auto simp: is_list_def list_prepend_def)
  qed
qed

lemma insert_after_is_list:
  assumes "is_list h l (xs @ e # ys)" "le_list (les h i) = None"
  shows "is_list (list_insert_after l e i d h) l (xs @ e # i # ys)"
proof -
  have n: "i \<notin> set (xs @ e # ys)" by (rule is_list_notin [OF assms])
  show ?thesis
  proof (cases ys)
    case Nil
    with assms n show ?thesis by (auto simp: is_list_def list_insert_after_def)
  next
    case (Cons z zs)
    with assms n show ?thesis
      by (auto simp: is_list_def list_insert_after_def)
  qed
qed

lemma insert_before_is_list:
  assumes "is_list h l (xs @ e # ys)" "le_list (les h i) = None"
  shows "is_list (list_insert_before l e i d h) l (xs @ i # e # ys)"
proof -
  have n: "i \<notin> set (xs @ e # ys)" by (rule is_list_notin [OF assms])
  show ?thesis
  proof (cases xs rule: rev_cases)
    case Nil
    with assms n show ?thesis by (auto simp: is_list_def list_insert_before_def)
  next
    case (snoc zs z)
    with assms n show ?thesis
      by (auto simp: is_list_def list_insert_before_def)
  qed
qed

lemma unlink_is_list:
  assumes "is_list h l (xs @ e # ys)"
  shows "is_list (list_unlink e h) l (xs @ ys)"
proof (cases xs rule: rev_cases)
  case Nil
  with assms show ?thesis by (cases ys) (auto simp: is_list_def list_unlink_def Let_def)
next
  case (snoc zs z)
  with assms show ?thesis
    by (cases ys) (auto simp: is_list_def list_unlink_def Let_def)
qed

lemma unlink_le:
  assumes "is_list h l (xs @ e # ys)"
  shows "les (list_unlink e h) e = (les h e)\<lparr>le_next := None, le_prev := None, le_list := None\<rparr>"
proof (cases xs rule: rev_cases)
  case Nil
  with assms show ?thesis by (cases ys) (auto simp: is_list_def list_unlink_def Let_def)
next
  case (snoc zs z)
  with assms show ?thesis
    by (cases ys) (auto simp: is_list_def list_unlink_def Let_def)
qed

section \<open>What the operations leave alone\<close>

text \<open>
  \<open>agree h h' l X\<close>: going from \<open>h\<close> to \<open>h'\<close> changed no element outside \<open>X\<close>
  and no header but that of \<open>l\<close>.
\<close>

lemma op_data [simp]:
  "le_data (les (list_append l e d h) x) =
     (if x = e \<and> le_list (les h e) = None then d else le_data (les h x))"
  "le_data (les (list_prepend l e d h) x) =
     (if x = e \<and> le_list (les h e) = None then d else le_data (les h x))"
  "le_data (les (list_insert_after l y e d h) x) =
     (if x = e \<and> le_list (les h e) = None then d else le_data (les h x))"
  "le_data (les (list_insert_before l y e d h) x) =
     (if x = e \<and> le_list (les h e) = None then d else le_data (les h x))"
  "le_data (les (list_unlink e h) x) = le_data (les h x)"
  by (auto simp: list_append_def list_prepend_def list_insert_after_def list_insert_before_def
       list_unlink_def Let_def split: option.splits)

definition agree :: "list_heap \<Rightarrow> list_heap \<Rightarrow> nat \<Rightarrow> nat set \<Rightarrow> bool" where
  "agree h h' l X \<longleftrightarrow> (\<forall>x. x \<notin> X \<longrightarrow> les h' x = les h x) \<and> (\<forall>l'. l' \<noteq> l \<longrightarrow> hdrs h' l' = hdrs h l')"

lemma is_list_agree:
  assumes "agree h h' l X" "l' \<noteq> l" "X \<inter> set zs = {}" "is_list h l' zs"
  shows "is_list h' l' zs"
proof -
  have "dll h' l' p zs n = dll h l' p zs n" for p n
    using assms(1,3) by (intro dll_cong) (auto simp: agree_def)
  with assms show ?thesis by (simp add: is_list_def agree_def)
qed

lemma is_list_le_list: "is_list h l xs \<Longrightarrow> e \<in> set xs \<Longrightarrow> le_list (les h e) = Some l"
  by (auto simp: is_list_def dest: dll_in_list)

lemma is_list_disjoint:
  "is_list h l xs \<Longrightarrow> is_list h l' zs \<Longrightarrow> l' \<noteq> l \<Longrightarrow> set xs \<inter> set zs = {}"
  by (metis disjoint_iff is_list_le_list option.inject)

lemma last_or_in: "last_or xs None = Some t \<Longrightarrow> t \<in> set xs"
  by (auto simp: last_or_def split: if_splits)

lemma hd_or_in: "hd_or xs None = Some t \<Longrightarrow> t \<in> set xs"
  by (auto simp: hd_or_def split: list.splits)

lemma append_agree:
  "is_list h l xs \<Longrightarrow> agree h (list_append l e d h) l (insert e (set xs))"
  by (auto simp: agree_def list_append_def is_list_def Let_def split: option.splits dest: last_or_in)

lemma prepend_agree:
  "is_list h l xs \<Longrightarrow> agree h (list_prepend l e d h) l (insert e (set xs))"
  by (auto simp: agree_def list_prepend_def is_list_def Let_def split: option.splits dest: hd_or_in)

lemma dll_links:
  "dll h l p xs n \<Longrightarrow> x \<in> set xs \<Longrightarrow> 
    (\<forall>y. le_next (les h x) = Some y \<longrightarrow> y \<in> set xs \<or> n = Some y) \<and>
    (\<forall>y. le_prev (les h x) = Some y \<longrightarrow> y \<in> set xs \<or> p = Some y)"
proof (induction xs arbitrary: p)
  case (Cons a xs)
  then show ?case by (cases xs) fastforce+
qed simp

lemma is_list_links:
  "is_list h l xs \<Longrightarrow> x \<in> set xs \<Longrightarrow> le_next (les h x) = Some y \<Longrightarrow> y \<in> set xs"
  "is_list h l xs \<Longrightarrow> x \<in> set xs \<Longrightarrow> le_prev (les h x) = Some y \<Longrightarrow> y \<in> set xs"
  using dll_links [of h l None xs None x] by (auto simp: is_list_def)

lemma insert_after_agree:
  "is_list h l xs \<Longrightarrow> e \<in> set xs \<Longrightarrow> agree h (list_insert_after l e i d h) l (insert i (set xs))"
  by (auto simp: agree_def list_insert_after_def Let_def split: option.splits dest: is_list_links)

lemma insert_before_agree:
  "is_list h l xs \<Longrightarrow> e \<in> set xs \<Longrightarrow> agree h (list_insert_before l e i d h) l (insert i (set xs))"
  by (auto simp: agree_def list_insert_before_def Let_def split: option.splits dest: is_list_links)

lemma unlink_agree:
  "is_list h l xs \<Longrightarrow> e \<in> set xs \<Longrightarrow> agree h (list_unlink e h) l (set xs)"
  by (auto simp: agree_def list_unlink_def Let_def is_list_le_list split: option.splits dest: is_list_links)

section \<open>Loops: sorted insertion, traversal, clearing\<close>

text \<open>
  \<open>list_ins P xs i\<close> puts \<open>i\<close> behind the last element that satisfies \<open>P\<close>: what the
  backward search of \<^verbatim>\<open>list_insert_sorted\<close> computes.
\<close>

definition list_ins :: "('a \<Rightarrow> bool) \<Rightarrow> 'a list \<Rightarrow> 'a \<Rightarrow> 'a list" where
  "list_ins P xs i = rev (dropWhile (\<lambda>x. \<not> P x) (rev xs)) @ i # rev (takeWhile (\<lambda>x. \<not> P x) (rev xs))"

lemma list_ins_simps [simp]:
  "list_ins P [] i = [i]"
  "list_ins P (xs @ [x]) i = (if P x then xs @ [x, i] else list_ins P xs i @ [x])"
  by (simp_all add: list_ins_def)

lemma insert_sorted_loop_is_list:
  fixes sh :: list_sort_h
  assumes "is_list h l (xs @ ys)" "le_list (les h i) = None"
  defines "P \<equiv> \<lambda>x. sh (le_data (les h x)) (le_data (les h i))"
  shows "\<exists>h'. list_insert_sorted_loop sh l (last_or xs None) i h = Some h' \<and>
     is_list h' l (list_ins P xs i @ ys) \<and> (\<forall>x. le_data (les h' x) = le_data (les h x)) \<and>
     agree h h' l (insert i (set (xs @ ys)))"
  using assms(1)
proof (induction xs arbitrary: ys rule: rev_induct)
  case Nil
  then show ?case
    using assms(2) prepend_is_list [of h l ys i "le_data (les h i)"] prepend_agree [of h l ys i]
    by (simp add: list_insert_sorted_loop.simps)
next
  case (snoc x xs)
  show ?case
  proof (cases "P x")
    case True
    then show ?thesis
      using assms(2) snoc.prems insert_after_is_list [of h l xs x ys i "le_data (les h i)"]
        insert_after_agree [of h l "xs @ x # ys" x i]
      by (simp add: list_insert_sorted_loop.simps [of sh l "Some x"] P_def)
  next
    case False
    have "le_prev (les h x) = last_or xs None" using snoc.prems by (simp add: is_list_def)
    then show ?thesis using False snoc.IH [of "x # ys"] snoc.prems
      by (simp add: list_insert_sorted_loop.simps [of sh l "Some x"] P_def)
  qed
qed

lemma set_list_ins: "set (list_ins P xs i) = insert i (set xs)"
  by (induction xs rule: rev_induct) auto

lemma list_ins_sorted:
  assumes "sorted_wrt R xs" "\<And>a b. R a b \<or> R b a" "\<And>a b c. R a b \<Longrightarrow> R b c \<Longrightarrow> R a c"
  shows "sorted_wrt R (list_ins (\<lambda>x. R x i) xs i)"
  using assms(1)
proof (induction xs rule: rev_induct)
  case Nil
  then show ?case by simp
next
  case (snoc x xs)
  show ?case
  proof (cases "R x i")
    case True
    have "R y i" if "y \<in> set xs" for y
      using snoc.prems that True assms(3) by (auto simp: sorted_wrt_append)
    with snoc.prems True show ?thesis by (auto simp: sorted_wrt_append)
  next
    case False
    then have "R i x" using assms(2) by blast
    with snoc False show ?thesis by (auto simp: sorted_wrt_append set_list_ins)
  qed
qed

lemma apply_fwd_is_find:
  "dll h l p xs None \<Longrightarrow>
     list_apply_fwd ah (hd_or xs None) h = Some (find (\<lambda>x. ah (le_data (les h x))) xs)"
proof (induction xs arbitrary: p)
  case Nil
  then show ?case by (simp add: list_apply_fwd.simps)
next
  case (Cons x xs)
  then show ?case by (auto simp: list_apply_fwd.simps [of ah "Some x"])
qed

lemma apply_bwd_is_find:
  "dll h l None xs n \<Longrightarrow>
     list_apply_bwd ah (last_or xs None) h = Some (find (\<lambda>x. ah (le_data (les h x))) (rev xs))"
proof (induction xs arbitrary: n rule: rev_induct)
  case Nil
  then show ?case by (simp add: list_apply_bwd.simps)
next
  case (snoc x xs)
  then show ?case by (auto simp: list_apply_bwd.simps [of ah "Some x"])
qed

lemma apply_is_find:
  "is_list h l xs \<Longrightarrow>
     list_apply l fwd ah h = Some (find (\<lambda>x. ah (le_data (les h x))) (if fwd then xs else rev xs))"
  by (auto simp: list_apply_def is_list_def apply_fwd_is_find apply_bwd_is_find)

definition le_null :: le where
  "le_null = \<lparr>le_prev = None, le_next = None, le_list = None, le_data = None\<rparr>"

lemma clear_loop:
  "dll h l p xs None \<Longrightarrow> distinct xs \<Longrightarrow>
     \<exists>h'. list_clear_loop (hd_or xs None) h = Some h' \<and> hdrs h' = hdrs h \<and>
       (\<forall>x. les h' x = (if x \<in> set xs then le_null else les h x))"
proof (induction xs arbitrary: p h)
  case Nil
  then show ?case by (simp add: list_clear_loop.simps)
next
  case (Cons x xs)
  let ?h = "upd_le x (\<lambda>n. n\<lparr>le_list := None, le_prev := None, le_next := None, le_data := None\<rparr>) h"
  have "dll ?h l (Some x) xs None" using Cons.prems by simp
  from Cons.IH [OF this] Cons.prems obtain h' where
    h': "list_clear_loop (hd_or xs None) ?h = Some h'" "hdrs h' = hdrs ?h"
      "\<forall>y. les h' y = (if y \<in> set xs then le_null else les ?h y)" by auto
  have "list_clear_loop (hd_or (x # xs) None) h = Some h'"
    using Cons.prems h'(1) by (simp add: list_clear_loop.simps [of "Some x"])
  moreover have "les h' y = (if y \<in> set (x # xs) then le_null else les h y)" for y
    using h'(3) by (auto simp: le_null_def)
  ultimately show ?case using h'(2) by simp
qed

lemma clear_is_list:
  assumes "is_list h l xs"
  shows "\<exists>h'. list_clear l h = Some h' \<and> is_list h' l [] \<and>
     (\<forall>x. les h' x = (if x \<in> set xs then le_null else les h x))"
  using assms clear_loop [of h l None xs]
  by (auto simp: list_clear_def is_list_def list_init_def)

lemma flush_loop:
  assumes fr: "\<And>d h x. le_list (les h x) = Some l \<Longrightarrow> les (dref d h) x = les h x"
    and frl: "\<And>d h. hdrs (dref d h) l = hdrs h l"
  shows "is_list h l xs \<Longrightarrow> \<exists>h'. list_flush_loop dref (hd_or xs None) h = Some h' \<and> is_list h' l []"
proof (induction xs arbitrary: h)
  case Nil
  then show ?case by (simp add: list_flush_loop.simps)
next
  case (Cons x xs)
  let ?u = "list_unlink x h"
  let ?h = "upd_le x (\<lambda>n. n\<lparr>le_data := None\<rparr>) ?u" and ?d = "le_data (les h x)"
  have u: "is_list ?u l xs" using unlink_is_list [of h l "[]" x xs] Cons.prems by simp
  have nx: "x \<notin> set xs" using Cons.prems by (simp add: is_list_def)
  have h: "is_list ?h l xs" using u nx by (simp add: is_list_def)
  have "dll (dref ?d ?h) l None xs None = dll ?h l None xs None"
    using h by (intro dll_cong) (auto simp: fr dest: is_list_le_list)
  with h have "is_list (dref ?d ?h) l xs" by (simp add: is_list_def frl)
  from Cons.IH [OF this] obtain h' where
    "list_flush_loop dref (hd_or xs None) (dref ?d ?h) = Some h'" "is_list h' l []" by blast
  moreover have "le_next (les h x) = hd_or xs None" using Cons.prems by (simp add: is_list_def)
  ultimately show ?case by (simp add: list_flush_loop.simps [of dref "Some x"])
qed

lemma flush_is_list:
  assumes "\<And>d h x. le_list (les h x) = Some l \<Longrightarrow> les (dref d h) x = les h x"
    and "\<And>d h. hdrs (dref d h) l = hdrs h l" and "is_list h l xs"
  shows "\<exists>h'. list_flush dref l h = Some h' \<and> is_list h' l []"
proof -
  have "l_head (hdrs h l) = hd_or xs None" using assms(3) by (simp add: is_list_def)
  moreover obtain h' where "list_flush_loop dref (hd_or xs None) h = Some h'"
    using flush_loop [of l dref, OF assms] by blast
  ultimately show ?thesis by (simp add: list_flush_def is_list_def list_init_def)
qed

section \<open>Sorting\<close>

text \<open>
  \<open>bpass\<close> is one pass of \<^verbatim>\<open>list_sort\<close> on the sequence of elements, together with
  its \<^verbatim>\<open>sort\<close> flag. For a total sort handler every pass that swaps something lowers
  the number of inversions, so the retry loop ends; two elements that the handler orders in
  neither direction (\<open>tied\<close>, e.g. equal keys under a strict comparison) are swapped
  forever.
\<close>

fun bpass :: "('a \<Rightarrow> 'a \<Rightarrow> bool) \<Rightarrow> 'a list \<Rightarrow> bool \<Rightarrow> bool \<times> 'a list" where
  "bpass P (x # y # zs) s =
     (if P x y then (case bpass P (y # zs) s of (s', r) \<Rightarrow> (s', x # r))
      else (case bpass P (x # zs) True of (s', r) \<Rightarrow> (s', y # r)))"
| "bpass P xs s = (s, xs)"

fun inversions :: "('a \<Rightarrow> 'a \<Rightarrow> bool) \<Rightarrow> 'a list \<Rightarrow> nat" where
  "inversions P [] = 0"
| "inversions P (x # xs) = length (filter (\<lambda>y. \<not> P x y) xs) + inversions P xs"

lemma bpass_mset: "mset (snd (bpass P xs s)) = mset xs"
  by (induction P xs s rule: bpass.induct) (auto split: prod.splits)

lemma bpass_flag: "fst (bpass P xs True)"
  by (induction P xs True rule: bpass.induct) (auto split: prod.splits)

lemma filter_mset_eq: "mset xs = mset ys \<Longrightarrow> length (filter Q xs) = length (filter Q ys)"
  by (metis mset_filter size_mset)

lemma bpass_inversions:
  assumes total: "\<And>a b. P a b \<or> P b a"
  shows "inversions P (snd (bpass P xs s)) \<le> inversions P xs \<and>
    (fst (bpass P xs s) \<and> \<not> s \<longrightarrow> inversions P (snd (bpass P xs s)) < inversions P xs)"
  using total
proof (induction P xs s rule: bpass.induct)
  case (1 P x y zs s)
  show ?case
  proof (cases "P x y")
    case True
    obtain s' r where b: "bpass P (y # zs) s = (s', r)" by fastforce
    have "length (filter (\<lambda>z. \<not> P x z) r) = length (filter (\<lambda>z. \<not> P x z) (y # zs))"
      using bpass_mset [of P "y # zs" s] b by (intro filter_mset_eq) simp
    then show ?thesis using 1(1) [OF True 1(3)] True b by auto
  next
    case False
    obtain s' r where b: "bpass P (x # zs) True = (s', r)" by fastforce
    have "length (filter (\<lambda>z. \<not> P y z) r) = length (filter (\<lambda>z. \<not> P y z) (x # zs))"
      using bpass_mset [of P "x # zs" True] b by (intro filter_mset_eq) simp
    moreover have "P y x" using False 1(3) by blast
    ultimately show ?thesis using 1(2) [OF False 1(3)] False b by auto
  qed
qed simp_all

lemma bpass_unchanged: "\<not> fst (bpass P xs s) \<Longrightarrow> snd (bpass P xs s) = xs \<and> successively P xs"
proof (induction P xs s rule: bpass.induct)
  case (1 P x y zs s)
  then show ?case using bpass_flag [of P "x # zs"]
    by (cases "P x y") (auto split: prod.splits)
qed auto

lemma sort_pass_is_bpass:
  fixes sh :: list_sort_h
  assumes "is_list h l (pre @ x # zs)" "P = (\<lambda>a b. sh (le_data (les h a)) (le_data (les h b)))"
  shows "\<exists>h'. list_sort_pass sh l (Some x) s h = Some (fst (bpass P (x # zs) s), h') \<and>
     is_list h' l (pre @ snd (bpass P (x # zs) s)) \<and> (\<forall>a. le_data (les h' a) = le_data (les h a))"
  using assms
proof (induction zs arbitrary: pre x s h)
  case Nil
  then show ?case by (simp add: list_sort_pass.simps [of sh l "Some x"] is_list_def)
next
  case (Cons y zs)
  have nxt: "le_next (les h x) = Some y" using Cons.prems by (simp add: is_list_def)
  have P: "P x y = sh (le_data (les h x)) (le_data (les h y))" using Cons.prems(2) by simp
  show ?case
  proof (cases "P x y")
    case True
    then have "list_sort_pass sh l (Some x) s h = list_sort_pass sh l (Some y) s h"
      using nxt P by (simp add: list_sort_pass.simps [of sh l "Some x"])
    then show ?thesis
      using Cons.IH [of h "pre @ [x]" y s] Cons.prems True by (simp add: split_def)
  next
    case False
    define h1 where "h1 = list_insert_after l y x (le_data (les (list_unlink x h) x)) (list_unlink x h)"
    have "is_list (list_unlink x h) l (pre @ y # zs)" using unlink_is_list Cons.prems by blast
    moreover have "le_list (les (list_unlink x h) x) = None" using unlink_le [OF Cons.prems(1)] by simp
    ultimately have 1: "is_list h1 l ((pre @ [y]) @ x # zs)"
      unfolding h1_def using insert_after_is_list by simp
    have 2: "le_data (les h1 a) = le_data (les h a)" for a by (auto simp: h1_def)
    have "list_sort_pass sh l (Some x) s h = list_sort_pass sh l (Some x) True h1"
      using False nxt P by (simp add: list_sort_pass.simps [of sh l "Some x" s] Let_def h1_def)
    then show ?thesis
      using Cons.IH [OF 1, of True] Cons.prems(2) False by (simp add: split_def 2)
  qed
qed

lemma list_sort_returns:
  fixes sh :: list_sort_h
  assumes "is_list h l xs" and total: "\<And>a b. sh a b \<or> sh b a"
  shows "\<exists>h' ys. list_sort l sh h = Some h' \<and> is_list h' l ys \<and> mset ys = mset xs \<and>
     successively (\<lambda>a b. sh (le_data (les h a)) (le_data (les h b))) ys \<and>
     (\<forall>a. le_data (les h' a) = le_data (les h a))"
  using assms(1)
proof (induction "inversions (\<lambda>a b. sh (le_data (les h a)) (le_data (les h b))) xs"
    arbitrary: h xs rule: less_induct)
  case less
  let ?P = "\<lambda>a b. sh (le_data (les h a)) (le_data (les h b))"
  let ?b = "bpass ?P xs False"
  have pass: "\<exists>h'. list_sort_pass sh l (l_head (hdrs h l)) False h = Some (fst ?b, h') \<and>
     is_list h' l (snd ?b) \<and> (\<forall>a. le_data (les h' a) = le_data (les h a))"
  proof (cases xs)
    case Nil
    then show ?thesis using less.prems by (simp add: list_sort_pass.simps is_list_def)
  next
    case (Cons x zs)
    then show ?thesis
      using sort_pass_is_bpass [of h l "[]" x zs ?P sh False] less.prems by (simp add: is_list_def)
  qed
  then obtain h1 where h1: "list_sort_pass sh l (l_head (hdrs h l)) False h = Some (fst ?b, h1)"
    "is_list h1 l (snd ?b)" "\<And>a. le_data (les h1 a) = le_data (les h a)" by blast
  show ?case
  proof (cases "fst ?b")
    case True
    then have "inversions ?P (snd ?b) < inversions ?P xs"
      using bpass_inversions [of ?P xs False] total by blast
    then obtain h' ys where "list_sort l sh h1 = Some h'" "is_list h' l ys" "mset ys = mset (snd ?b)"
       "successively ?P ys" "\<forall>a. le_data (les h' a) = le_data (les h a)"
      using less.hyps [of h1 "snd ?b"] h1(2,3) by auto
    then show ?thesis using True h1(1) bpass_mset [of ?P xs False]
      by (auto simp: list_sort.simps [of l sh h])
  next
    case False
    then show ?thesis using h1 bpass_unchanged [of ?P xs False]
      by (auto simp: list_sort.simps [of l sh h])
  qed
qed

definition tied :: "list_sort_h \<Rightarrow> nat \<Rightarrow> list_heap \<Rightarrow> bool" where
  "tied sh l h \<longleftrightarrow> (\<exists>a b. is_list h l [a, b] \<and>
     \<not> sh (le_data (les h a)) (le_data (les h b)) \<and> \<not> sh (le_data (les h b)) (le_data (les h a)))"

lemma tied_pass:
  assumes "tied sh l h"
  shows "\<exists>h'. list_sort_pass sh l (l_head (hdrs h l)) False h = Some (True, h') \<and> tied sh l h'"
proof -
  from assms obtain a b where ab: "is_list h l [a, b]"
    "\<not> sh (le_data (les h a)) (le_data (les h b))" "\<not> sh (le_data (les h b)) (le_data (les h a))"
    unfolding tied_def by blast
  then obtain h' where h': "list_sort_pass sh l (l_head (hdrs h l)) False h = Some (True, h')"
    "is_list h' l [b, a]" "\<And>x. le_data (les h' x) = le_data (les h x)"
    using sort_pass_is_bpass [of h l "[]" a "[b]" _ sh False, OF _ refl] by (auto simp: is_list_def)
  have "tied sh l h'" unfolding tied_def
    by (rule exI [of _ b], rule exI [of _ a]) (simp add: h'(2,3) ab(2,3))
  with h'(1) show ?thesis by blast
qed

lemma list_sort_not_tied:
  assumes ret: "list_sort l sh h = Some r"
  shows "\<not> tied sh l h"
proof (rule list_sort.raw_induct [where P = "\<lambda>l sh h r. \<not> tied sh l h", OF _ ret])
  fix f l sh h r
  assume IH: "\<And>l sh h r. f l sh h = Some r \<Longrightarrow> \<not> tied sh l h"
    and eq: "(case list_sort_pass sh l (l_head (hdrs h l)) False h of None \<Rightarrow> None
       | Some (srt, h') \<Rightarrow> if srt then f l sh h' else Some h') = Some r"
  show "\<not> tied sh l h"
  proof
    assume "tied sh l h"
    then obtain h' where "list_sort_pass sh l (l_head (hdrs h l)) False h = Some (True, h')"
      "tied sh l h'" using tied_pass by blast
    with eq have "f l sh h' = Some r" by simp
    with IH \<open>tied sh l h'\<close> show False by blast
  qed
qed

lemma list_sort_diverges: "tied sh l h \<Longrightarrow> list_sort l sh h = None"
  using list_sort_not_tied by (cases "list_sort l sh h") auto

section \<open>The interface of linked lists\<close>

text \<open>
  What the tables and caches of the library rely on: lists that can be appended to, searched
  and have elements unlinked in place, without disturbing other lists. A table is an array
  of list headers.
\<close>

lemma find_snoc: "find P xs = None \<Longrightarrow> find P (xs @ [x]) = (if P x then Some x else None)"
  by (induction xs) (auto split: if_splits)

definition bucket_table ::
  "('h \<Rightarrow> nat \<Rightarrow> nat list \<Rightarrow> bool) \<Rightarrow> 'h \<Rightarrow> nat \<Rightarrow> nat \<Rightarrow> (nat \<Rightarrow> nat list) \<Rightarrow> bool" where
  "bucket_table rep h b n f \<longleftrightarrow> (\<forall>i<n. rep h (b + i) (f i))"

locale list_store =
  fixes rep :: "'h \<Rightarrow> nat \<Rightarrow> nat list \<Rightarrow> bool"
    and unlinked :: "'h \<Rightarrow> nat \<Rightarrow> bool"
    and append :: "nat \<Rightarrow> nat \<Rightarrow> nat option \<Rightarrow> 'h \<Rightarrow> 'h"
    and unlink :: "nat \<Rightarrow> 'h \<Rightarrow> 'h"
    and data :: "'h \<Rightarrow> nat \<Rightarrow> nat option"
    and search :: "nat \<Rightarrow> (nat option \<Rightarrow> bool) \<Rightarrow> 'h \<Rightarrow> nat option option"
  assumes append_rep: "rep h l xs \<Longrightarrow> unlinked h e \<Longrightarrow> rep (append l e d h) l (xs @ [e])"
    and append_other: "rep h l xs \<Longrightarrow> unlinked h e \<Longrightarrow> rep h l' ys \<Longrightarrow> l' \<noteq> l \<Longrightarrow>
          rep (append l e d h) l' ys"
    and append_data: "unlinked h e \<Longrightarrow> data (append l e d h) x = (if x = e then d else data h x)"
    and unlink_rep: "rep h l (xs @ e # ys) \<Longrightarrow> rep (unlink e h) l (xs @ ys)"
    and unlink_other: "rep h l (xs @ e # ys) \<Longrightarrow> rep h l' zs \<Longrightarrow> l' \<noteq> l \<Longrightarrow>
          rep (unlink e h) l' zs"
    and unlink_data: "data (unlink e h) x = data h x"
    and unlinked_notin: "rep h l xs \<Longrightarrow> unlinked h e \<Longrightarrow> e \<notin> set xs"
    and search_find: "rep h l xs \<Longrightarrow> search l ah h = Some (find (\<lambda>x. ah (data h x)) xs)"
begin

lemma table_append:
  assumes "bucket_table rep h b n f" "i < n" "unlinked h e"
  shows "bucket_table rep (append (b + i) e d h) b n (f(i := f i @ [e]))"
  unfolding bucket_table_def
proof (intro allI impI)
  fix j assume j: "j < n"
  have i: "rep h (b + i) (f i)" and j': "rep h (b + j) (f j)"
    using assms j by (simp_all add: bucket_table_def)
  show "rep (append (b + i) e d h) (b + j) ((f(i := f i @ [e])) j)"
    using append_rep [OF i assms(3)] append_other [OF i assms(3) j'] by simp
qed

lemma table_unlink:
  assumes "bucket_table rep h b n f" "i < n" "f i = xs @ e # ys"
  shows "bucket_table rep (unlink e h) b n (f(i := xs @ ys))"
  unfolding bucket_table_def
proof (intro allI impI)
  fix j assume j: "j < n"
  have i: "rep h (b + i) (xs @ e # ys)" using assms by (auto simp: bucket_table_def)
  show "rep (unlink e h) (b + j) ((f(i := xs @ ys)) j)"
  proof (cases "j = i")
    case True
    then show ?thesis using unlink_rep [OF i] by simp
  next
    case False
    have "rep h (b + j) (f j)" using assms(1) j by (simp add: bucket_table_def)
    from unlink_other [OF i this] False show ?thesis by simp
  qed
qed

lemma search_append:
  assumes "rep h l xs" "unlinked h e" "find (\<lambda>x. ah (data h x)) xs = None" "ah d"
  shows "search l ah (append l e d h) = Some (Some e)"
proof -
  have "e \<notin> set xs" using assms unlinked_notin by blast
  then have "find (\<lambda>x. ah (data (append l e d h) x)) xs = None"
    using assms by (auto simp: find_None_iff append_data)
  then have "find (\<lambda>x. ah (data (append l e d h) x)) (xs @ [e]) = Some e"
    using assms(2,4) by (simp add: find_snoc append_data)
  then show ?thesis using search_find [OF append_rep [OF assms(1,2)]] by simp
qed

end

interpretation ll: list_store is_list "\<lambda>h e. le_list (les h e) = None" list_append list_unlink
  "\<lambda>h e. le_data (les h e)" "\<lambda>l ah h. list_apply l True ah h"
proof unfold_locales
  fix h l xs e d
  assume 1: "is_list h l xs" and 2: "le_list (les h e) = None"
  show "is_list (list_append l e d h) l (xs @ [e])" by (rule append_is_list [OF 1 2])
  fix l' ys
  assume 3: "is_list h l' ys" "l' \<noteq> l"
  have "insert e (set xs) \<inter> set ys = {}"
    using is_list_notin [OF 3(1) 2] is_list_disjoint [OF 1 3] by simp
  then show "is_list (list_append l e d h) l' ys"
    using is_list_agree [OF append_agree [OF 1] 3(2)] 3(1) by blast
next
  fix h l xs e ys l' zs
  assume 1: "is_list h l (xs @ e # ys)" and 2: "is_list h l' zs" "l' \<noteq> l"
  have "agree h (list_unlink e h) l (set (xs @ e # ys))" by (rule unlink_agree [OF 1]) simp
  then show "is_list (list_unlink e h) l' zs"
    using is_list_agree is_list_disjoint [OF 1 2] 2 by blast
qed (simp_all add: unlink_is_list is_list_notin apply_is_find)

section \<open>Properties\<close>

text \<open>A heap with the two elements 1 and 2 in list 0, carrying the given data.\<close>

definition heap2 :: "nat \<Rightarrow> nat \<Rightarrow> list_heap" where
  "heap2 x y = \<lparr>
     les = (\<lambda>e. if e = 1 then \<lparr>le_prev = None, le_next = Some 2, le_list = Some 0, le_data = Some x\<rparr>
                else if e = 2 then \<lparr>le_prev = Some 1, le_next = None, le_list = Some 0, le_data = Some y\<rparr>
                else le_null),
     hdrs = (\<lambda>_. \<lparr>l_head = Some 1, l_tail = Some 2, l_cnt = 2\<rparr>)\<rparr>"

lemma heap2_is_list: "is_list (heap2 x y) 0 [1, 2]"
  by (simp add: is_list_def heap2_def)

lemma heap2_le [simp]: "le_list (les (heap2 x y) 3) = None"
  "le_data (les (heap2 x y) 1) = Some x" "le_data (les (heap2 x y) (Suc 0)) = Some x"
  "le_data (les (heap2 x y) 2) = Some y"
  by (simp_all add: heap2_def le_null_def)



text \<open>Other lists are not disturbed: an element appended to, or unlinked from, one list leaves
  every other well linked list as it was.\<close>

theorem list_ops_frame:
  assumes "is_list h l (xs @ a # ys)" "is_list h l' zs" "l' \<noteq> l" "le_list (les h e) = None"
  shows "is_list (list_append l e d h) l' zs \<and> is_list (list_unlink a h) l' zs"
  using ll.append_other [OF assms(1) assms(4) assms(2,3)] ll.unlink_other [OF assms(1-3)] by blast

theorem list_ops_frame_witness:
  "is_list (list_append 0 3 None (list_init 7 (heap2 5 6))) 7 [] \<and>
   is_list (list_unlink 1 (list_init 7 (heap2 5 6))) 7 []"
proof -
  have 1: "is_list (list_init 7 (heap2 5 6)) 0 ([] @ 1 # [2])"
    and 2: "is_list (list_init 7 (heap2 5 6)) 7 []"
    and 3: "le_list (les (list_init 7 (heap2 5 6)) 3) = None"
    using heap2_is_list [of 5 6] by (simp_all add: is_list_def list_init_def)
  from list_ops_frame [OF 1 2 _ 3] show ?thesis by simp
qed

text \<open>C24: inserting in sorted order returns for every well linked list, keeps it well linked, adds
  exactly the new element, and the list stays sorted when the sort handler is total and
  transitive.\<close>

theorem list_insert_sorted_correct:
  assumes "is_list h l xs" "le_list (les h i) = None"
    and "\<And>a b. sh a b \<or> sh b a" "\<And>a b c. sh a b \<Longrightarrow> sh b c \<Longrightarrow> sh a c"
    and "sorted_wrt (\<lambda>a b. sh (le_data (les h a)) (le_data (les h b))) xs"
  shows "\<exists>h' ys. list_insert_sorted l sh i d h = Some h' \<and> is_list h' l ys \<and>
           mset ys = mset (i # xs) \<and> le_data (les h' i) = d \<and>
           sorted_wrt (\<lambda>a b. sh (le_data (les h' a)) (le_data (les h' b))) ys"
proof -
  let ?h = "upd_le i (\<lambda>n. n\<lparr>le_data := d\<rparr>) h"
  have nx: "i \<notin> set xs" by (rule is_list_notin [OF assms(1,2)])
  have l: "is_list ?h l (xs @ [])" using assms(1) nx by (simp add: is_list_def)
  have u: "le_list (les ?h i) = None" using assms(2) by simp
  let ?R = "\<lambda>a b. sh (le_data (les ?h a)) (le_data (les ?h b))"
  from insert_sorted_loop_is_list [OF l u, of sh] obtain h' where
    h': "list_insert_sorted_loop sh l (last_or xs None) i ?h = Some h'"
      "is_list h' l (list_ins (\<lambda>x. ?R x i) xs i)" "\<And>x. le_data (les h' x) = le_data (les ?h x)"
    by auto
  have "sorted_wrt ?R xs"
    by (rule sorted_wrt_mono_rel [OF _ assms(5)]) (use nx in auto)
  then have "sorted_wrt ?R (list_ins (\<lambda>x. ?R x i) xs i)"
    by (rule list_ins_sorted) (use assms(3,4) in blast)+
  then have "sorted_wrt (\<lambda>a b. sh (le_data (les h' a)) (le_data (les h' b))) (list_ins (\<lambda>x. ?R x i) xs i)"
    by (simp only: h'(3))
  moreover have "mset (list_ins P xs i) = mset (i # xs)" for P
    by (induction xs rule: rev_induct) auto
  moreover have "list_insert_sorted l sh i d h = Some h'"
    using h'(1) assms(1) by (simp add: list_insert_sorted_def is_list_def)
  moreover have "le_data (les h' i) = d" by (simp add: h'(3))
  ultimately show ?thesis using h'(2) by blast
qed

definition sh_le :: list_sort_h where
  "sh_le a b = (case (a, b) of (None, _) \<Rightarrow> True | (Some x, None) \<Rightarrow> False | (Some x, Some y) \<Rightarrow> x \<le> y)"

lemma sh_le_order: "sh_le a b \<or> sh_le b a" "sh_le a b \<Longrightarrow> sh_le b c \<Longrightarrow> sh_le a c"
  by (auto simp: sh_le_def split: option.splits)

theorem list_insert_sorted_correct_witness:
  "\<exists>h' ys. list_insert_sorted 0 sh_le 3 (Some 6) (heap2 5 7) = Some h' \<and> is_list h' 0 ys \<and>
     mset ys = {#1, 2, 3#}"
  using list_insert_sorted_correct [OF heap2_is_list [of 5 7], of 3 sh_le "Some 6", OF _ sh_le_order]
  by (force simp: sh_le_def add_mset_commute)

lemma list_sort_sorted:
  fixes sh :: list_sort_h
  assumes "is_list h l xs" "\<And>a b. sh a b \<or> sh b a" "\<And>a b c. sh a b \<Longrightarrow> sh b c \<Longrightarrow> sh a c"
  shows "\<exists>h' ys. list_sort l sh h = Some h' \<and> is_list h' l ys \<and> mset ys = mset xs \<and>
           sorted_wrt (\<lambda>a b. sh (le_data (les h' a)) (le_data (les h' b))) ys \<and>
           (\<forall>a. le_data (les h' a) = le_data (les h a))"
proof -
  let ?R = "\<lambda>a b. sh (le_data (les h a)) (le_data (les h b))"
  obtain h' ys where r: "list_sort l sh h = Some h'" "is_list h' l ys" "mset ys = mset xs"
    "successively ?R ys" "\<forall>a. le_data (les h' a) = le_data (les h a)"
    using list_sort_returns [of h l xs sh, OF assms(1,2)] by (elim exE conjE) (rule that)
  have "transp ?R" using assms(3) unfolding transp_def by blast
  then have "sorted_wrt ?R ys" using r(4) successively_conv_sorted_wrt by blast
  with r show ?thesis by auto
qed

text \<open>C22: \<^verbatim>\<open>list_sort\<close> with a total and transitive handler terminates, and the list is then a
  permutation of the old one in sorted order, well linked, every element with its data.\<close>

theorem list_sort_correct:
  fixes sh :: list_sort_h
  assumes "is_list h l xs" "\<And>a b. sh a b \<or> sh b a" "\<And>a b c. sh a b \<Longrightarrow> sh b c \<Longrightarrow> sh a c"
  shows "\<exists>h' ys. list_sort l sh h = Some h' \<and> is_list h' l ys \<and> mset ys = mset xs \<and>
           sorted_wrt (\<lambda>a b. sh (le_data (les h' a)) (le_data (les h' b))) ys \<and>
           (\<forall>a. le_data (les h' a) = le_data (les h a))"
  by (rule list_sort_sorted [OF assms])

theorem list_sort_correct_witness:
  "\<exists>h' ys. list_sort 0 sh_le (heap2 9 4) = Some h' \<and> is_list h' 0 ys \<and> mset ys = {#1, 2#}"
  using list_sort_correct [OF heap2_is_list [of 9 4] sh_le_order] by fastforce



text \<open>Walking the list calls the handler on the data of the elements in order, or in reverse
  order, and stops at the first match; flushing and clearing leave an empty list.\<close>

theorem list_traversals:
  assumes "is_list h l xs"
  shows "list_apply l fwd ah h = Some (find (\<lambda>x. ah (le_data (les h x))) (if fwd then xs else rev xs)) \<and>
         (\<exists>h'. list_clear l h = Some h' \<and> is_list h' l [] \<and>
            (\<forall>x. les h' x = (if x \<in> set xs then le_null else les h x))) \<and>
         (\<exists>h'. list_flush (\<lambda>_ h. h) l h = Some h' \<and> is_list h' l [])"
  using apply_is_find [OF assms] clear_is_list [OF assms] flush_is_list [of l "\<lambda>_ h. h", OF _ _ assms]
  by blast

theorem list_traversals_witness:
  "list_apply 0 False (\<lambda>d. d = Some 6) (heap2 5 6) = Some (Some 2)"
  using list_traversals [OF heap2_is_list [of 5 6], of False "\<lambda>d. d = Some 6"] by simp

end
