(* ===== verification/Hash.thy ===== *)
theory Hash
  imports Linked_List Str
begin

text \<open>
  Hash tables over linked lists, \<^verbatim>\<open>src/src/hash/hash.c\<close>, and the hash functions of
  \<^verbatim>\<open>src/src/hash/func.c\<close>. A table is an array of list headers at consecutive addresses
  of the list heap; the elements carry their own keys, which the lookup handler inspects.

  Plain \<^verbatim>\<open>char\<close> is signed, as on x86-64, and so is widened with its sign; a C string is
  the list of bytes in memory, read up to the first NUL.
\<close>

section \<open>The table\<close>

record hash =
  h_bucket :: nat
  h_bsize :: u32

definition sizeof_list :: nat where
  "sizeof_list = 24"

text \<open>
  \<open>hp\<close> and \<open>bp\<close> are the answers of \<^verbatim>\<open>mem_zalloc\<close> for the table object and for
  the bucket array: whether the former is served, and the address of the latter (\<open>None\<close>
  is NULL). A zeroed header is an empty list.
\<close>

fun zero_buckets :: "nat \<Rightarrow> nat \<Rightarrow> list_heap \<Rightarrow> list_heap" where
  "zero_buckets b 0 h = h"
| "zero_buckets b (Suc n) h = list_init (b + n) (zero_buckets b n h)"

definition hash_alloc ::
  "bool \<Rightarrow> nat option \<Rightarrow> u32 \<Rightarrow> list_heap \<Rightarrow> errno + hash \<times> list_heap" where
  "hash_alloc hp bp bsize h =
     (if bsize = 0 then Inl EINVAL
      else if bsize AND (bsize - 1) \<noteq> 0 then Inl EINVAL
      else if \<not> hp then Inl ENOMEM
      else case bp of None \<Rightarrow> Inl ENOMEM
           | Some b \<Rightarrow> Inr (\<lparr>h_bucket = b, h_bsize = bsize\<rparr>, zero_buckets b (unat bsize) h))"

definition hash_idx :: "hash \<Rightarrow> u32 \<Rightarrow> nat" where
  "hash_idx ht key = unat (key AND (h_bsize ht - 1))"

definition hash_append :: "hash \<Rightarrow> u32 \<Rightarrow> nat \<Rightarrow> nat option \<Rightarrow> list_heap \<Rightarrow> list_heap" where
  "hash_append ht key e d h = list_append (h_bucket ht + hash_idx ht key) e d h"

definition hash_unlink :: "nat \<Rightarrow> list_heap \<Rightarrow> list_heap" where
  "hash_unlink e h = list_unlink e h"

definition hash_lookup :: "hash \<Rightarrow> u32 \<Rightarrow> list_apply_h \<Rightarrow> list_heap \<Rightarrow> nat option option" where
  "hash_lookup ht key ah h = list_apply (h_bucket ht + hash_idx ht key) True ah h"

fun hash_apply_loop ::
  "nat \<Rightarrow> nat \<Rightarrow> nat \<Rightarrow> list_apply_h \<Rightarrow> list_heap \<Rightarrow> nat option option" where
  "hash_apply_loop b i 0 ah h = Some None"
| "hash_apply_loop b i (Suc k) ah h =
     (case list_apply (b + i) True ah h of None \<Rightarrow> None
      | Some (Some e) \<Rightarrow> Some (Some e)
      | Some None \<Rightarrow> hash_apply_loop b (Suc i) k ah h)"

definition hash_apply :: "hash \<Rightarrow> list_apply_h \<Rightarrow> list_heap \<Rightarrow> nat option option" where
  "hash_apply ht ah h = hash_apply_loop (h_bucket ht) 0 (unat (h_bsize ht)) ah h"

definition hash_list_idx :: "hash \<Rightarrow> u32 \<Rightarrow> nat option" where
  "hash_list_idx ht i = (if i \<ge> h_bsize ht then None else Some (h_bucket ht + unat i))"

definition hash_list :: "hash option \<Rightarrow> u32 \<Rightarrow> nat option" where
  "hash_list htp key = (case htp of None \<Rightarrow> None
                        | Some ht \<Rightarrow> Some (h_bucket ht + unat (key AND (h_bsize ht - 1))))"

definition hash_bsize :: "hash option \<Rightarrow> u32" where
  "hash_bsize htp = (case htp of None \<Rightarrow> 0 | Some ht \<Rightarrow> h_bsize ht)"

fun hash_flush_loop ::
  "(nat option \<Rightarrow> list_heap \<Rightarrow> list_heap) \<Rightarrow> nat \<Rightarrow> nat \<Rightarrow> nat \<Rightarrow> list_heap \<Rightarrow> list_heap option" where
  "hash_flush_loop dref b i 0 h = Some h"
| "hash_flush_loop dref b i (Suc k) h =
     (case list_flush dref (b + i) h of None \<Rightarrow> None
      | Some h' \<Rightarrow> hash_flush_loop dref b (Suc i) k h')"

definition hash_flush ::
  "(nat option \<Rightarrow> list_heap \<Rightarrow> list_heap) \<Rightarrow> hash \<Rightarrow> list_heap \<Rightarrow> list_heap option" where
  "hash_flush dref ht h = hash_flush_loop dref (h_bucket ht) 0 (unat (h_bsize ht)) h"

fun hash_clear_loop :: "nat \<Rightarrow> nat \<Rightarrow> nat \<Rightarrow> list_heap \<Rightarrow> list_heap option" where
  "hash_clear_loop b i 0 h = Some h"
| "hash_clear_loop b i (Suc k) h =
     (case list_clear (b + i) h of None \<Rightarrow> None
      | Some h' \<Rightarrow> hash_clear_loop b (Suc i) k h')"

definition hash_clear :: "hash \<Rightarrow> list_heap \<Rightarrow> list_heap option" where
  "hash_clear ht h = hash_clear_loop (h_bucket ht) 0 (unat (h_bsize ht)) h"

function hash_valid_size_loop :: "nat \<Rightarrow> u32 \<Rightarrow> nat" where
  "hash_valid_size_loop x sz =
     (if push_bit x 1 < sz \<and> x < 31 then hash_valid_size_loop (Suc x) sz else x)"
  by pat_completeness auto
termination
  by (relation "measure (\<lambda>(x, sz). 31 - x)") auto

declare hash_valid_size_loop.simps [simp del]

definition hash_valid_size :: "u32 \<Rightarrow> u32" where
  "hash_valid_size sz = push_bit (hash_valid_size_loop 0 sz) 1"

section \<open>Hash functions\<close>

definition joaat_step :: "u32 \<Rightarrow> u32 \<Rightarrow> u32" where
  "joaat_step hash c =
     (let h1 = hash + c; h2 = h1 + push_bit 10 h1 in h2 XOR drop_bit 6 h2)"

definition joaat_final :: "u32 \<Rightarrow> u32" where
  "joaat_final hash =
     (let h1 = hash + push_bit 3 hash; h2 = h1 XOR drop_bit 11 h1 in h2 + push_bit 15 h2)"

definition hash_joaat :: "bytes \<Rightarrow> u32" where
  "hash_joaat key = joaat_final (foldl (\<lambda>h c. joaat_step h (ucast c)) 0 key)"

definition hash_joaat_ci :: "bytes \<Rightarrow> u32" where
  "hash_joaat_ci str = joaat_final (foldl (\<lambda>h c. joaat_step h (scast (tolower c))) 0 str)"

fun joaat_str_loop :: "(u8 \<Rightarrow> u32) \<Rightarrow> u32 \<Rightarrow> bytes \<Rightarrow> u32" where
  "joaat_str_loop g hash [] = hash"
| "joaat_str_loop g hash (c # cs) =
     (if c = 0 then hash else joaat_str_loop g (joaat_step hash (g c)) cs)"

definition hash_joaat_str :: "bytes \<Rightarrow> u32" where
  "hash_joaat_str str = joaat_final (joaat_str_loop scast 0 str)"

definition hash_joaat_str_ci :: "bytes \<Rightarrow> u32" where
  "hash_joaat_str_ci str = joaat_final (joaat_str_loop (\<lambda>c. scast (tolower c)) 0 str)"

definition hash_joaat_pl :: "bytes option \<Rightarrow> u32" where
  "hash_joaat_pl pl = (case pl of None \<Rightarrow> 0 | Some p \<Rightarrow> hash_joaat p)"

definition hash_joaat_pl_ci :: "bytes option \<Rightarrow> u32" where
  "hash_joaat_pl_ci pl = (case pl of None \<Rightarrow> 0 | Some p \<Rightarrow> hash_joaat_ci p)"

definition FNV1_32A_INIT :: u32 where
  "FNV1_32A_INIT = 0x811c9dc5"

definition FNV_32_PRIME :: u32 where
  "FNV_32_PRIME = 0x01000193"

definition hash_fast :: "bytes option \<Rightarrow> u32" where
  "hash_fast k = (case k of None \<Rightarrow> 0
     | Some cs \<Rightarrow> foldl (\<lambda>h c. (h XOR scast c) * FNV_32_PRIME) FNV1_32A_INIT cs)"

fun hash_fast_str_loop :: "u32 \<Rightarrow> bytes \<Rightarrow> u32" where
  "hash_fast_str_loop h [] = h"
| "hash_fast_str_loop h (c # cs) =
     (if c = 0 then h else hash_fast_str_loop ((h XOR scast c) * FNV_32_PRIME) cs)"

definition hash_fast_str :: "bytes option \<Rightarrow> u32" where
  "hash_fast_str s = (case s of None \<Rightarrow> 0 | Some cs \<Rightarrow> hash_fast_str_loop FNV1_32A_INIT cs)"

section \<open>Bucket sizes\<close>

lemma hash_valid_size_loop_bounds:
  "x \<le> 31 \<Longrightarrow> hash_valid_size_loop x sz \<le> 31 \<and>
     (hash_valid_size_loop x sz = 31 \<or> sz \<le> push_bit (hash_valid_size_loop x sz) 1)"
proof (induction x sz rule: hash_valid_size_loop.induct)
  case (1 x sz)
  show ?case
  proof (cases "push_bit x 1 < sz \<and> x < 31")
    case True
    then show ?thesis using 1 by (simp add: hash_valid_size_loop.simps [of x sz])
  next
    case False
    then show ?thesis using 1 by (auto simp: hash_valid_size_loop.simps [of x sz])
  qed
qed

lemma hash_valid_size_loop_least:
  "y < hash_valid_size_loop x sz \<Longrightarrow> x \<le> y \<Longrightarrow> push_bit y 1 < sz"
proof (induction x sz arbitrary: y rule: hash_valid_size_loop.induct)
  case (1 x sz)
  show ?case
  proof (cases "push_bit x 1 < sz \<and> x < 31")
    case True
    then show ?thesis
      using 1 by (cases "y = x") (simp_all add: hash_valid_size_loop.simps [of x sz])
  next
    case False
    then have "hash_valid_size_loop x sz = x" by (auto simp: hash_valid_size_loop.simps [of x sz])
    then show ?thesis using 1(2,3) by simp
  qed
qed

lemma power2_and: "(2 ^ k :: 'a::len word) AND (2 ^ k - 1) = 0"
proof (rule bit_word_eqI)
  fix n
  show "bit ((2 ^ k :: 'a word) AND (2 ^ k - 1)) n = bit 0 n"
    by (auto simp: bit_and_iff bit_exp_iff bit_mask_iff simp flip: mask_eq_exp_minus_1)
qed

lemma hash_valid_size_accepted:
  "hash_valid_size sz \<noteq> 0 \<and> hash_valid_size sz AND (hash_valid_size sz - 1) = 0"
proof -
  have "hash_valid_size_loop 0 sz \<le> 31" using hash_valid_size_loop_bounds [of 0 sz] by simp
  then have "(2 ^ hash_valid_size_loop 0 sz :: u32) \<noteq> 0" by simp
  then show ?thesis by (simp add: hash_valid_size_def power2_and)
qed

lemma hash_idx_bound: "h_bsize ht \<noteq> 0 \<Longrightarrow> hash_idx ht key < unat (h_bsize ht)"
proof -
  assume nz: "h_bsize ht \<noteq> 0"
  have "key AND (h_bsize ht - 1) \<le> h_bsize ht - 1" by (rule word_and_le1)
  moreover have "h_bsize ht - 1 < h_bsize ht" using nz by unat_arith
  ultimately show ?thesis by (simp add: hash_idx_def word_less_nat_alt [symmetric])
qed

section \<open>Tables as families of lists\<close>

definition hash_rep :: "list_heap \<Rightarrow> hash \<Rightarrow> (nat \<Rightarrow> nat list) \<Rightarrow> bool" where
  "hash_rep h ht f \<longleftrightarrow>
     h_bsize ht \<noteq> 0 \<and> bucket_table is_list h (h_bucket ht) (unat (h_bsize ht)) f"

lemma zero_buckets_hdrs:
  "hdrs (zero_buckets b n h) l =
     (if b \<le> l \<and> l < b + n then \<lparr>l_head = None, l_tail = None, l_cnt = 0\<rparr> else hdrs h l)"
  by (induction n) (auto simp: list_init_def)

lemma zero_buckets_rep: "bucket_table is_list (zero_buckets b n h) b n (\<lambda>_. [])"
  by (simp add: bucket_table_def is_list_def zero_buckets_hdrs)

lemma hash_alloc_rep:
  "hash_alloc hp bp bsize h = Inr (ht, h') \<Longrightarrow> h_bsize ht = bsize \<and> hash_rep h' ht (\<lambda>_. [])"
  by (auto simp: hash_alloc_def hash_rep_def zero_buckets_rep split: if_splits option.splits)

lemma hash_append_rep:
  assumes "hash_rep h ht f" "le_list (les h e) = None"
  shows "hash_rep (hash_append ht key e d h) ht
           (f(hash_idx ht key := f (hash_idx ht key) @ [e]))"
  using assms ll.table_append hash_idx_bound by (auto simp: hash_rep_def hash_append_def)

lemma hash_bucket: "hash_rep h ht f \<Longrightarrow> is_list h (h_bucket ht + hash_idx ht key) (f (hash_idx ht key))"
  using hash_idx_bound by (auto simp: hash_rep_def bucket_table_def)

lemma hash_lookup_find:
  "hash_rep h ht f \<Longrightarrow>
     hash_lookup ht key ah h = Some (find (\<lambda>x. ah (le_data (les h x))) (f (hash_idx ht key)))"
  unfolding hash_lookup_def by (rule ll.search_find) (rule hash_bucket)

lemma find_app: "find P (xs @ ys) = (case find P xs of None \<Rightarrow> find P ys | Some x \<Rightarrow> Some x)"
  by (induction xs) auto

lemma hash_apply_loop_find:
  "(\<forall>j<k. is_list h (b + (i + j)) (f (i + j))) \<Longrightarrow>
     hash_apply_loop b i k ah h = Some (find (\<lambda>x. ah (le_data (les h x))) (concat (map f [i..<i + k])))"
proof (induction k arbitrary: i)
  case 0
  then show ?case by simp
next
  case (Suc k)
  have l: "is_list h (b + i) (f i)" using Suc.prems [rule_format, of 0] by simp
  have "\<forall>j<k. is_list h (b + (Suc i + j)) (f (Suc i + j))"
    using Suc.prems by (metis Suc_less_eq add_Suc_shift)
  note IH = Suc.IH [OF this]
  have "[i..<i + Suc k] = i # [Suc i..<Suc i + k]" by (simp add: upt_rec)
  then show ?case using ll.search_find [OF l, of ah] IH
    by (auto split: option.splits simp: find_app)
qed

lemma hash_apply_find:
  assumes "hash_rep h ht f"
  shows "hash_apply ht ah h =
     Some (find (\<lambda>x. ah (le_data (les h x))) (concat (map f [0..<unat (h_bsize ht)])))"
  using assms hash_apply_loop_find [of "unat (h_bsize ht)" h "h_bucket ht" 0 f ah]
  by (simp add: hash_apply_def hash_rep_def bucket_table_def)

lemma hash_clear_loop_rep:
  "(\<forall>j<k. is_list h (b + (i + j)) (f (i + j))) \<Longrightarrow>
     \<exists>h'. hash_clear_loop b i k h = Some h' \<and> (\<forall>j<k. is_list h' (b + (i + j)) []) \<and>
       (\<forall>l. l < b + i \<or> b + i + k \<le> l \<longrightarrow> hdrs h' l = hdrs h l)"
proof (induction k arbitrary: i h)
  case 0
  then show ?case by simp
next
  case (Suc k)
  have l: "is_list h (b + i) (f i)" using Suc.prems [rule_format, of 0] by simp
  obtain h1 where h1: "list_clear (b + i) h = Some h1" "is_list h1 (b + i) []"
    "\<And>x. les h1 x = (if x \<in> set (f i) then le_null else les h x)"
    using clear_is_list [OF l] by blast
  have hd1: "hdrs h1 m = hdrs h m" if "m \<noteq> b + i" for m
    using h1(1) clear_loop [of h "b + i" None "f i"] l that
    by (auto simp: list_clear_def is_list_def list_init_def)
  have "is_list h1 (b + (Suc i + j)) (f (Suc i + j))" if "j < k" for j
  proof (rule is_list_agree [of h h1 "b + i" "set (f i)"])
    show "agree h h1 (b + i) (set (f i))" using h1(3) hd1 by (simp add: agree_def)
    show o: "is_list h (b + (Suc i + j)) (f (Suc i + j))"
      using Suc.prems [rule_format, of "Suc j"] that by simp
    show "set (f i) \<inter> set (f (Suc i + j)) = {}" by (rule is_list_disjoint [OF l o]) simp
  qed simp
  with Suc.IH [of h1 "Suc i"] obtain h' where h': "hash_clear_loop b (Suc i) k h1 = Some h'"
    "\<forall>j<k. is_list h' (b + (Suc i + j)) []"
    "\<forall>l. l < b + Suc i \<or> b + Suc i + k \<le> l \<longrightarrow> hdrs h' l = hdrs h1 l" by blast
  have "is_list h' (b + i) []" using h'(3) h1(2) by (simp add: is_list_def)
  then have "is_list h' (b + (i + j)) []" if "j < Suc k" for j
    using h'(2) that by (cases j) simp_all
  with h' h1(1) hd1 show ?case by simp
qed

lemma hash_clear_rep:
  assumes "hash_rep h ht f"
  shows "\<exists>h'. hash_clear ht h = Some h' \<and> hash_rep h' ht (\<lambda>_. [])"
  using assms hash_clear_loop_rep [of "unat (h_bsize ht)" h "h_bucket ht" 0 f]
  by (auto simp: hash_clear_def hash_rep_def bucket_table_def)

section \<open>Hash function agreement\<close>

definition ascii :: "bytes \<Rightarrow> bool" where
  "ascii s \<longleftrightarrow> (\<forall>c\<in>set s. c < 128)"

lemma scast_ascii: "c < 128 \<Longrightarrow> (scast (c :: u8) :: u32) = ucast c"
proof -
  assume c: "c < 128"
  have "c div 128 = 0" using c by (rule div_word_less)
  then have "drop_bit 7 c = 0" by (simp add: drop_bit_eq_div)
  then have "\<not> bit c 7" by (simp add: bit_iff_odd_drop_bit)
  then have "bit (scast c :: u32) n = bit (ucast c :: u32) n" if "n < LENGTH(32)" for n
    using that bit_imp_le_length [of c n] by (cases "n < 7"; cases "n = 7") (auto simp: bit_signed_iff bit_unsigned_iff min_def)
  then show ?thesis by (rule bit_word_eqI)
qed

lemma joaat_str_loop_foldl:
  "joaat_str_loop g hash s = foldl (\<lambda>h c. joaat_step h (g c)) hash (takeWhile (\<lambda>c. c \<noteq> 0) s)"
  by (induction s arbitrary: hash) auto

lemma hash_fast_str_loop_foldl:
  "hash_fast_str_loop h s =
     foldl (\<lambda>h c. (h XOR scast c) * FNV_32_PRIME) h (takeWhile (\<lambda>c. c \<noteq> 0) s)"
  by (induction s arbitrary: h) auto

lemma foldl_cong_set: "(\<And>a x. x \<in> set xs \<Longrightarrow> f a x = g a x) \<Longrightarrow> foldl f a xs = foldl g a xs"
  by (induction xs arbitrary: a) auto

section \<open>Properties\<close>

lemma hash_unlink_rep:
  assumes "hash_rep h ht f" "i < unat (h_bsize ht)" "f i = xs @ e # ys"
  shows "hash_rep (hash_unlink e h) ht (f(i := xs @ ys))"
  using assms ll.table_unlink by (auto simp: hash_rep_def hash_unlink_def)

text \<open>C25: an element appended under a key is found by a lookup with that key when no earlier
  element of its bucket matches, and every other bucket answers as before.\<close>

theorem hash_append_lookup:
  assumes rep: "hash_rep h ht f" and "le_list (les h e) = None" and "ah d"
    and "hash_lookup ht key ah h = Some None"
  shows "hash_lookup ht key ah (hash_append ht key e d h) = Some (Some e) \<and>
         (\<forall>key'. hash_idx ht key' \<noteq> hash_idx ht key \<longrightarrow>
            hash_lookup ht key' ah' (hash_append ht key e d h) = hash_lookup ht key' ah' h)"
proof (intro conjI allI impI)
  let ?l = "h_bucket ht + hash_idx ht key"
  have b: "is_list h ?l (f (hash_idx ht key))" by (rule hash_bucket [OF rep])
  have "find (\<lambda>x. ah (le_data (les h x))) (f (hash_idx ht key)) = None"
    using assms(4) hash_lookup_find [OF rep] by simp
  from ll.search_append [OF b assms(2) this assms(3)]
  show "hash_lookup ht key ah (hash_append ht key e d h) = Some (Some e)"
    by (simp add: hash_lookup_def hash_append_def)
next
  fix key' assume k: "hash_idx ht key' \<noteq> hash_idx ht key"
  have "e \<notin> set (f (hash_idx ht key'))" by (rule is_list_notin [OF hash_bucket [OF rep] assms(2)])
  then have "find (\<lambda>x. ah' (le_data (les (hash_append ht key e d h) x))) (f (hash_idx ht key')) =
      find (\<lambda>x. ah' (le_data (les h x))) (f (hash_idx ht key'))"
    using ll.append_data [of h e] assms(2)
    by (intro find_cong) (auto simp: hash_append_def)
  then show "hash_lookup ht key' ah' (hash_append ht key e d h) = hash_lookup ht key' ah' h"
    using hash_lookup_find [OF hash_append_rep [OF rep assms(2), of key d]] hash_lookup_find [OF rep] k
    by simp
qed

definition heap0 :: list_heap where
  "heap0 = \<lparr>les = (\<lambda>_. le_null), hdrs = (\<lambda>_. \<lparr>l_head = None, l_tail = None, l_cnt = 0\<rparr>)\<rparr>"

definition hash4 :: hash where
  "hash4 = \<lparr>h_bucket = 100, h_bsize = 4\<rparr>"

lemma hash4_rep: "hash_rep heap0 hash4 (\<lambda>_. [])"
  by (simp add: hash_rep_def hash4_def bucket_table_def is_list_def heap0_def)

theorem hash_append_lookup_witness:
  "hash_lookup hash4 5 (\<lambda>d. d = Some 9) (hash_append hash4 5 1 (Some 9) heap0) = Some (Some 1)"
proof -
  have "hash_lookup hash4 5 (\<lambda>d. d = Some 9) heap0 = Some None" "le_list (les heap0 1) = None"
    using hash_lookup_find [OF hash4_rep] by (simp_all add: heap0_def le_null_def)
  with hash_append_lookup [OF hash4_rep, of 1 "\<lambda>d. d = Some 9" "Some 9" 5] show ?thesis by simp
qed



text \<open>\<^verbatim>\<open>hash_valid_size\<close> returns a size that \<^verbatim>\<open>hash_alloc\<close> accepts, the least power
  of two that is not below the request (requests above \<open>2 ^ 31\<close> get \<open>2 ^ 31\<close>).\<close>

theorem hash_valid_size_correct:
  "(\<exists>k\<le>31. hash_valid_size sz = 2 ^ k \<and> (sz \<le> 2 ^ 31 \<longrightarrow> sz \<le> 2 ^ k) \<and>
      (\<forall>j<k. 2 ^ j < sz)) \<and>
   hash_alloc True (Some b) (hash_valid_size sz) h =
     Inr (\<lparr>h_bucket = b, h_bsize = hash_valid_size sz\<rparr>,
          zero_buckets b (unat (hash_valid_size sz)) h)"
proof -
  let ?k = "hash_valid_size_loop 0 sz"
  have k: "?k \<le> 31" "?k = 31 \<or> sz \<le> push_bit ?k 1"
    using hash_valid_size_loop_bounds [of 0 sz] by simp_all
  then have "sz \<le> 2 ^ ?k" if "sz \<le> 2 ^ 31" using that by (auto simp: push_bit_of_1)
  moreover have "2 ^ j < sz" if "j < ?k" for j
    using hash_valid_size_loop_least [of j 0 sz] that by (simp add: push_bit_of_1)
  ultimately show ?thesis using k(1) hash_valid_size_accepted [of sz]
    by (auto simp: hash_valid_size_def hash_alloc_def push_bit_of_1)
qed

theorem hash_valid_size_correct_witness:
  "\<exists>k\<le>31. hash_valid_size 200 = 2 ^ k \<and> (200 \<le> (2 :: u32) ^ k) \<and> (\<forall>j<k. (2 :: u32) ^ j < 200)"
  using hash_valid_size_correct [of 200 0 heap0] by auto

text \<open>The string hash functions agree with the functions on memory blocks for ASCII text (a C
  string is hashed up to its NUL), and the case insensitive ones hash the lower case text.\<close>

theorem hash_functions_agree:
  assumes "ascii s"
  shows "hash_joaat_str (s @ 0 # rest) = hash_joaat (takeWhile (\<lambda>c. c \<noteq> 0) s) \<and>
         hash_joaat_ci s = hash_joaat (map tolower s) \<and>
         hash_joaat_str_ci (s @ 0 # rest) = hash_joaat_ci (takeWhile (\<lambda>c. c \<noteq> 0) s) \<and>
         hash_fast_str (Some (s @ 0 # rest)) = hash_fast (Some (takeWhile (\<lambda>c. c \<noteq> 0) s))"
proof -
  have tw: "takeWhile (\<lambda>c. c \<noteq> 0) (s @ 0 # rest) = takeWhile (\<lambda>c. c \<noteq> 0) s"
    by (induction s) auto
  have a: "c < 128" if "c \<in> set (takeWhile (\<lambda>c. c \<noteq> 0) s)" for c
    using assms set_takeWhileD [OF that] by (auto simp: ascii_def)
  have "tolower c < 128" if "c \<in> set s" for c
    using assms that by (auto simp: ascii_def tolower_def) unat_arith
  then have "foldl (\<lambda>h c. joaat_step h (scast (tolower c))) 0 s =
      foldl (\<lambda>h c. joaat_step h (ucast (tolower c))) 0 s"
    by (intro foldl_cong_set) (simp add: scast_ascii)
  moreover have "foldl (\<lambda>h c. joaat_step h (scast c)) 0 (takeWhile (\<lambda>c. c \<noteq> 0) s) =
      foldl (\<lambda>h c. joaat_step h (ucast c)) 0 (takeWhile (\<lambda>c. c \<noteq> 0) s)"
    by (intro foldl_cong_set) (simp add: scast_ascii a)
  ultimately show ?thesis
    by (simp add: hash_joaat_str_def hash_joaat_def hash_joaat_ci_def hash_joaat_str_ci_def tw
        hash_fast_str_def hash_fast_def joaat_str_loop_foldl hash_fast_str_loop_foldl foldl_map)
qed

theorem hash_functions_agree_witness:
  "hash_joaat_ci (str_bytes ''Via'') = hash_joaat (str_bytes ''via'')"
proof -
  have "ascii (str_bytes ''Via'')" by (simp add: ascii_def str_bytes_def)
  from hash_functions_agree [OF this, of "[]"] show ?thesis by (simp add: str_bytes_def tolower_def)
qed

end
