(* ===== verification/Base64.thy ===== *)
theory Base64
  imports Prelude
begin

text \<open>
  Base64, \<^verbatim>\<open>src/src/base64/b64.c\<close>. Characters are bytes. The output buffer is given by
  its size \<open>olen\<close>; a successful call returns the bytes it stored, so that storing more
  than \<open>olen\<close> of them is an overrun of the caller's buffer.
\<close>

section \<open>Definitions\<close>

definition b64_table :: bytes where
  "b64_table = str_bytes
     ''ABCDEFGHIJKLMNOPQRSTUVWXYZabcdefghijklmnopqrstuvwxyz0123456789+/''"

definition b64url_table :: bytes where
  "b64url_table = str_bytes
     ''ABCDEFGHIJKLMNOPQRSTUVWXYZabcdefghijklmnopqrstuvwxyz0123456789-_''"

definition b64_digit :: "bytes \<Rightarrow> u32 \<Rightarrow> nat \<Rightarrow> u8" where
  "b64_digit tbl v k = tbl ! unat (drop_bit k v AND 0x3f)"

definition b64_quad :: "u32 \<Rightarrow> nat \<Rightarrow> bytes" where
  "b64_quad v pad =
     [b64_digit b64_table v 18, b64_digit b64_table v 12,
      if pad \<ge> 2 then 0x3d else b64_digit b64_table v 6,
      if pad \<ge> 1 then 0x3d else b64_digit b64_table v 0]"

definition b64url_quad :: "u32 \<Rightarrow> nat \<Rightarrow> bytes" where
  "b64url_quad v pad =
     [b64_digit b64url_table v 18, b64_digit b64url_table v 12] @
     (if pad < 2 then [b64_digit b64url_table v 6] else []) @
     (if pad < 1 then [b64_digit b64url_table v 0] else [])"

text \<open>The loop takes up to three bytes at a time and counts the missing ones.\<close>

fun b64_loop :: "(u32 \<Rightarrow> nat \<Rightarrow> bytes) \<Rightarrow> bytes \<Rightarrow> bytes" where
  "b64_loop quad [] = []"
| "b64_loop quad [a] = quad (push_bit 16 (ucast a)) 2"
| "b64_loop quad [a, b] = quad (push_bit 16 (ucast a) OR push_bit 8 (ucast b)) 1"
| "b64_loop quad (a # b # c # rest) =
     quad (push_bit 16 (ucast a) OR push_bit 8 (ucast b) OR push_bit 0 (ucast c)) 0
     @ b64_loop quad rest"

definition base64_encode :: "bytes \<Rightarrow> nat \<Rightarrow> errno + bytes" where
  "base64_encode inp olen =
     (if olen < 4 * ((length inp + 2) div 3) then Inl EOVERFLOW
      else Inr (b64_loop b64_quad inp))"

definition base64url_encode :: "bytes \<Rightarrow> nat \<Rightarrow> errno + bytes" where
  "base64url_encode inp olen =
     (if olen < 4 * ((length inp + 2) div 3) then Inl EOVERFLOW
      else Inr (b64_loop b64url_quad inp))"

text \<open>\<^verbatim>\<open>base64_print\<close> hands the text to a print handler in blocks; the handler is the
  parameter \<open>vph\<close>, which may fail.\<close>

function base64_print ::
  "(bytes \<Rightarrow> 's \<Rightarrow> errno \<times> 's) \<Rightarrow> bytes \<Rightarrow> 's \<Rightarrow> errno \<times> 's" where
  "base64_print vph ptr s =
     (if ptr = [] then (0, s)
      else
        (let l = min (length ptr) (3 * (256 div 4)) in
         case base64_encode (take l ptr) 256 of
           Inl err \<Rightarrow> (err, s)
         | Inr buf \<Rightarrow>
             (case vph buf s of (err, s') \<Rightarrow>
                if err \<noteq> 0 then (err, s') else base64_print vph (drop l ptr) s')))"
  by pat_completeness auto
termination
  by (relation "measure (\<lambda>(vph, ptr, s). length ptr)") auto

declare base64_print.simps [simp del]

definition b64val :: "u8 \<Rightarrow> u32" where
  "b64val c =
     (if 0x41 \<le> c \<and> c \<le> 0x5a then ucast c - 0x41 + 0
      else if 0x61 \<le> c \<and> c \<le> 0x7a then ucast c - 0x61 + 26
      else if 0x30 \<le> c \<and> c \<le> 0x39 then ucast c - 0x30 + 52
      else if c = 0x2b \<or> c = 0x2d then 62
      else if c = 0x2f \<or> c = 0x5f then 63
      else if c = 0x3d then push_bit 24 1
      else 0)"

definition b64_store :: "u32 \<Rightarrow> bytes" where
  "b64_store v =
     [ucast (drop_bit 16 v)] @
     (if v AND push_bit 30 1 = 0 then [ucast (drop_bit 8 v AND 0xff)] else []) @
     (if v AND push_bit 24 1 = 0 then [ucast (drop_bit 0 v AND 0xff)] else [])"

fun b64_decode_loop :: "bytes \<Rightarrow> bytes" where
  "b64_decode_loop (a # b # c # d # rest) =
     b64_store (push_bit 18 (b64val a) OR push_bit 12 (b64val b) OR
                push_bit 6 (b64val c) OR push_bit 0 (b64val d))
     @ b64_decode_loop rest"
| "b64_decode_loop [a, b, c] =
     b64_store (push_bit 18 (b64val a) OR push_bit 12 (b64val b) OR
                push_bit 6 (b64val c) OR push_bit 0 (push_bit 24 1))"
| "b64_decode_loop [a, b] =
     b64_store (push_bit 18 (b64val a) OR push_bit 12 (b64val b) OR
                push_bit 6 (push_bit 24 1) OR push_bit 0 (push_bit 24 1))"
| "b64_decode_loop _ = []"

definition base64_decode :: "bytes \<Rightarrow> nat \<Rightarrow> errno + bytes" where
  "base64_decode inp olen =
     (if olen < 3 * (length inp div 4) then Inl EOVERFLOW else Inr (b64_decode_loop inp))"

section \<open>Digits\<close>

definition b64_ok :: "bytes \<Rightarrow> bool" where
  "b64_ok tbl \<longleftrightarrow> list_all (\<lambda>i. b64val (tbl ! i) = word_of_nat i) [0..<64]"

lemma b64_tables_ok: "b64_ok b64_table" "b64_ok b64url_table"
  by code_simp+

lemma and_3f: "(w :: u32) AND 0x3f = take_bit 6 w"
  by (simp add: take_bit_eq_mask mask_eq_exp_minus_1)

lemma b64val_digit:
  assumes "b64_ok tbl"
  shows "b64val (b64_digit tbl v k) = take_bit 6 (drop_bit k v)"
proof -
  have "unat (take_bit 6 (drop_bit k v)) < 2 ^ 6"
    by (simp only: unsigned_take_bit_eq take_bit_nat_less_exp)
  then have "unat (take_bit 6 (drop_bit k v)) < 64" by simp
  then have "b64val (tbl ! unat (take_bit 6 (drop_bit k v))) =
      word_of_nat (unat (take_bit 6 (drop_bit k v)))"
    using assms by (simp add: b64_ok_def list_all_iff)
  then show ?thesis by (simp add: b64_digit_def and_3f)
qed

text \<open>Each digit puts six bits of the group back in their place.\<close>

lemma bit_digit:
  "bit (push_bit k (take_bit 6 (drop_bit k (v :: u32)))) n \<longleftrightarrow> k \<le> n \<and> n < k + 6 \<and> bit v n"
  using bit_imp_le_length [of v n]
  by (auto simp: bit_push_bit_iff bit_take_bit_iff bit_drop_bit_eq)

definition b64_join :: "u32 \<Rightarrow> u32 \<Rightarrow> u32 \<Rightarrow> u32 \<Rightarrow> u32" where
  "b64_join a b c d = push_bit 18 a OR push_bit 12 b OR push_bit 6 c OR push_bit 0 d"

lemma b64_store_bits:
  "b64_store w = [ucast (drop_bit 16 w)] @
     (if bit w 30 then [] else [ucast (drop_bit 8 w)]) @ (if bit w 24 then [] else [ucast w])"
proof -
  have "w AND 0x40000000 = 0 \<longleftrightarrow> \<not> bit w 30" "w AND 0x1000000 = 0 \<longleftrightarrow> \<not> bit w 24"
    using and_exp_eq_0_iff_not_bit [of w 30] and_exp_eq_0_iff_not_bit [of w 24] by simp_all
  then show ?thesis by (simp add: b64_store_def ucast_and_ff)
qed

definition b64_group :: "u8 \<Rightarrow> u8 \<Rightarrow> u8 \<Rightarrow> u32" where
  "b64_group a b c = push_bit 16 (ucast a) OR push_bit 8 (ucast b) OR push_bit 0 (ucast c)"

lemma bit_group:
  "bit (b64_group a b c) n \<longleftrightarrow>
     bit c n \<or> 8 \<le> n \<and> bit b (n - 8) \<or> 16 \<le> n \<and> bit a (n - 16)"
  using bit_imp_le_length [of c n] bit_imp_le_length [of b "n - 8"] bit_imp_le_length [of a "n - 16"]
  by (auto simp: b64_group_def bit_or_iff bit_push_bit_iff bit_ucast_iff)

lemma group_bytes:
  "ucast (drop_bit 16 (b64_group a b c)) = a" "ucast (drop_bit 8 (b64_group a b c)) = b"
  "ucast (b64_group a b c) = c"
proof -
  show "ucast (drop_bit 16 (b64_group a b c)) = a"
  proof (rule bit_word_eqI)
    fix n assume "n < LENGTH(8)"
    then show "bit (ucast (drop_bit 16 (b64_group a b c)) :: u8) n = bit a n"
      using bit_imp_le_length [of b "n + 8"] bit_imp_le_length [of c "n + 16"]
      by (auto simp: bit_ucast_iff bit_drop_bit_eq bit_group ac_simps)
  qed
  show "ucast (drop_bit 8 (b64_group a b c)) = b"
  proof (rule bit_word_eqI)
    fix n assume "n < LENGTH(8)"
    then show "bit (ucast (drop_bit 8 (b64_group a b c)) :: u8) n = bit b n"
      using bit_imp_le_length [of c "n + 8"]
      by (auto simp: bit_ucast_iff bit_drop_bit_eq bit_group ac_simps)
  qed
  show "ucast (b64_group a b c) = c"
  proof (rule bit_word_eqI)
    fix n assume "n < LENGTH(8)"
    then show "bit (ucast (b64_group a b c) :: u8) n = bit c n"
      by (auto simp: bit_ucast_iff bit_group)
  qed
qed

lemma join_digits:
  "b64_join (take_bit 6 (drop_bit 18 v)) (take_bit 6 (drop_bit 12 v)) (take_bit 6 (drop_bit 6 v))
     (take_bit 6 v) = take_bit 24 v"
proof (rule bit_word_eqI)
  fix n
  show "bit (b64_join (take_bit 6 (drop_bit 18 v)) (take_bit 6 (drop_bit 12 v))
      (take_bit 6 (drop_bit 6 v)) (take_bit 6 v)) n = bit (take_bit 24 v) n"
    using bit_digit [of 0 v n] by (auto simp: b64_join_def bit_or_iff bit_digit bit_take_bit_iff)
qed

lemma ucast_or_high:
  assumes "k + 8 \<le> m"
  shows "(ucast (drop_bit k (v OR 2 ^ m)) :: u8) = ucast (drop_bit k (v :: u32))"
proof (rule bit_word_eqI)
  fix n assume "n < LENGTH(8)"
  then have "k + n \<noteq> m" using assms by simp
  then show "bit (ucast (drop_bit k (v OR 2 ^ m)) :: u8) n = bit (ucast (drop_bit k v) :: u8) n"
    by (simp add: bit_ucast_iff bit_drop_bit_eq bit_or_iff bit_exp_iff)
qed

lemma bit_group_high: "24 \<le> n \<Longrightarrow> \<not> bit (b64_group a b c) n"
  using bit_imp_le_length [of c n] bit_imp_le_length [of b "n - 8"] bit_imp_le_length [of a "n - 16"]
  by (auto simp: bit_group)

lemma bit_pad [simp]:
  "bit (0x1000000 :: u32) n \<longleftrightarrow> n = 24" "bit (0x40000000 :: u32) n \<longleftrightarrow> n = 30"
proof -
  show "bit (0x1000000 :: u32) n \<longleftrightarrow> n = 24"
    using bit_exp_iff [of 24 n, where ?'a = u32] by auto
  show "bit (0x40000000 :: u32) n \<longleftrightarrow> n = 30"
    using bit_exp_iff [of 30 n, where ?'a = u32] by auto
qed

lemma join_pad1:
  "b64_join (take_bit 6 (drop_bit 18 (b64_group a b 0))) (take_bit 6 (drop_bit 12 (b64_group a b 0)))
     (take_bit 6 (drop_bit 6 (b64_group a b 0))) (2 ^ 24) = b64_group a b 0 OR 2 ^ 24"
proof (rule bit_word_eqI)
  fix n
  show "bit (b64_join (take_bit 6 (drop_bit 18 (b64_group a b 0)))
      (take_bit 6 (drop_bit 12 (b64_group a b 0))) (take_bit 6 (drop_bit 6 (b64_group a b 0)))
      (2 ^ 24)) n = bit (b64_group a b 0 OR 2 ^ 24) n"
    using bit_group_high [of n a b 0] bit_group [of a b 0 n]
    by (auto simp: b64_join_def bit_or_iff bit_digit)
qed

lemma join_pad2:
  "b64_join (take_bit 6 (drop_bit 18 (b64_group a 0 0))) (take_bit 6 (drop_bit 12 (b64_group a 0 0)))
     (2 ^ 24) (2 ^ 24) = b64_group a 0 0 OR 2 ^ 30 OR 2 ^ 24"
proof (rule bit_word_eqI)
  fix n
  have "push_bit 6 (2 ^ 24) = (2 ^ 30 :: u32)" by simp
  then show "bit (b64_join (take_bit 6 (drop_bit 18 (b64_group a 0 0)))
      (take_bit 6 (drop_bit 12 (b64_group a 0 0))) (2 ^ 24) (2 ^ 24)) n =
      bit (b64_group a 0 0 OR 2 ^ 30 OR 2 ^ 24) n"
    using bit_group_high [of n a 0 0] bit_group [of a 0 0 n]
    by (auto simp: b64_join_def bit_or_iff bit_digit)
qed

lemma store_group3: "b64_store (take_bit 24 (b64_group a b c)) = [a, b, c]"
proof -
  have "take_bit 24 (b64_group a b c) = b64_group a b c"
    by (rule bit_word_eqI) (metis bit_group_high bit_take_bit_iff linorder_not_less)
  then show ?thesis by (simp add: b64_store_bits bit_group_high group_bytes)
qed

lemma store_group2: "b64_store (b64_group a b 0 OR 2 ^ 24) = [a, b]"
proof -
  have "bit (b64_group a b 0 OR 2 ^ 24) 24" "\<not> bit (b64_group a b 0 OR 2 ^ 24) 30"
    by (simp_all add: bit_or_iff bit_group_high)
  moreover note ucast_or_high [of 16 24 "b64_group a b 0"] ucast_or_high [of 8 24 "b64_group a b 0"]
  ultimately show ?thesis by (simp add: b64_store_bits group_bytes)
qed

lemma store_group1: "b64_store (b64_group a 0 0 OR 2 ^ 30 OR 2 ^ 24) = [a]"
proof -
  have "bit (b64_group a 0 0 OR 2 ^ 30 OR 2 ^ 24) 24" "bit (b64_group a 0 0 OR 2 ^ 30 OR 2 ^ 24) 30"
    by (simp_all add: bit_or_iff)
  moreover have "(ucast (drop_bit 16 (b64_group a 0 0 OR 2 ^ 30 OR 2 ^ 24)) :: u8) = a"
    using ucast_or_high [of 16 30 "b64_group a 0 0"] ucast_or_high [of 16 24 "b64_group a 0 0 OR 2 ^ 30"]
    by (simp add: or.assoc group_bytes)
  ultimately show ?thesis by (simp add: b64_store_bits)
qed

section \<open>Round trips\<close>

lemmas b64val_digits = b64val_digit [OF b64_tables_ok(1)] b64val_digit [OF b64_tables_ok(2)]

lemma b64val_pad: "b64val 0x3d = 2 ^ 24"
  by (simp add: b64val_def)

lemma decode_join:
  "b64_decode_loop (a # b # c # d # rest) =
     b64_store (b64_join (b64val a) (b64val b) (b64val c) (b64val d)) @ b64_decode_loop rest"
  "b64_decode_loop [a, b, c] = b64_store (b64_join (b64val a) (b64val b) (b64val c) (2 ^ 24))"
  "b64_decode_loop [a, b] = b64_store (b64_join (b64val a) (b64val b) (2 ^ 24) (2 ^ 24))"
  by (simp_all add: b64_join_def)

lemma loop_groups:
  "b64_loop quad [a] = quad (b64_group a 0 0) 2"
  "b64_loop quad [a, b] = quad (b64_group a b 0) 1"
  "b64_loop quad (a # b # c # rest) = quad (b64_group a b c) 0 @ b64_loop quad rest"
  by (simp_all add: b64_group_def)

lemmas b64_join_simps = join_digits join_pad1 join_pad2 store_group1 store_group2 store_group3

lemma decode_quads:
  "b64_decode_loop (b64_quad (b64_group a b c) 0 @ rest) = [a, b, c] @ b64_decode_loop rest"
  "b64_decode_loop (b64_quad (b64_group a b 0) 1) = [a, b]"
  "b64_decode_loop (b64_quad (b64_group a 0 0) 2) = [a]"
  "b64_decode_loop (b64url_quad (b64_group a b c) 0 @ rest) = [a, b, c] @ b64_decode_loop rest"
  "b64_decode_loop (b64url_quad (b64_group a b 0) 1) = [a, b]"
  "b64_decode_loop (b64url_quad (b64_group a 0 0) 2) = [a]"
  using b64_join_simps [simplified]
  by (simp_all add: b64_quad_def b64url_quad_def decode_join b64val_digits b64val_pad
      del: b64_decode_loop.simps) simp_all

lemma decode_loop: "b64_decode_loop (b64_loop b64_quad inp) = inp"
  by (induction b64_quad inp rule: b64_loop.induct)
    (simp_all add: loop_groups decode_quads decode_quads [simplified] del: b64_loop.simps(2-))

lemma decode_loop_url: "b64_decode_loop (b64_loop b64url_quad inp) = inp"
  by (induction b64url_quad inp rule: b64_loop.induct)
    (simp_all add: loop_groups decode_quads decode_quads [simplified] del: b64_loop.simps(2-))

lemma length_loop: "length (b64_loop b64_quad inp) = 4 * ((length inp + 2) div 3)"
proof (induction b64_quad inp rule: b64_loop.induct)
  case (4 a b c rest)
  have "(3 + (length rest + 2)) div 3 = (length rest + 2) div 3 + 1" by (rule div_add_self1) simp
  with 4 show ?case by (simp add: b64_quad_def)
qed (simp_all add: b64_quad_def)

lemma length_loop_url: "length (b64_loop b64url_quad inp) = (4 * length inp + 2) div 3"
proof (induction b64url_quad inp rule: b64_loop.induct)
  case (4 a b c rest)
  have "(4 * 3 + (4 * length rest + 2)) div 3 = 4 + (4 * length rest + 2) div 3"
    by (rule div_mult_self3) simp
  with 4 show ?case by (simp add: b64url_quad_def)
qed (simp_all add: b64url_quad_def)

lemma length_store: "length (b64_store v) \<le> 3"
  by (simp add: b64_store_def)

lemma length_store_pad: "bit v 24 \<Longrightarrow> length (b64_store v) \<le> 2"
  "bit v 24 \<Longrightarrow> bit v 30 \<Longrightarrow> length (b64_store v) = 1"
  by (simp_all add: b64_store_bits)

lemma length_decode: "length (b64_decode_loop inp) \<le> 3 * (length inp div 4) + (length inp mod 4 - 1)"
proof (induction inp rule: b64_decode_loop.induct)
  case (1 a b c d rest)
  have "(4 + length rest) div 4 = length rest div 4 + 1" by (rule div_add_self1) simp
  moreover have "(4 + length rest) mod 4 = length rest mod 4" by simp
  ultimately show ?case
    using 1 length_store [of "b64_join (b64val a) (b64val b) (b64val c) (b64val d)"]
    by (simp add: decode_join(1) del: b64_decode_loop.simps)
next
  case (2 a b c)
  have "bit (b64_join (b64val a) (b64val b) (b64val c) (2 ^ 24)) 24"
    by (simp add: b64_join_def bit_or_iff)
  from length_store_pad(1) [OF this] show ?case
    by (simp add: decode_join(2) numeral_2_eq_2 del: b64_decode_loop.simps)
next
  case (3 a b)
  have "bit (b64_join (b64val a) (b64val b) (2 ^ 24) (2 ^ 24)) 24"
    "bit (b64_join (b64val a) (b64val b) (2 ^ 24) (2 ^ 24)) 30"
    by (simp_all add: b64_join_def bit_or_iff)
  then show ?case using length_store_pad(2) by (simp add: decode_join(3) del: b64_decode_loop.simps)
qed simp_all

lemma loop_append: "3 dvd length xs \<Longrightarrow> b64_loop quad (xs @ ys) = b64_loop quad xs @ b64_loop quad ys"
proof (induction quad xs rule: b64_loop.induct)
  case (4 quad a b c rest)
  then have "3 dvd length rest" by (simp add: numeral_eq_Suc) presburger
  with 4 show ?case by simp
qed (auto dest: dvd_imp_le)

lemma base64_print_loop:
  "base64_print (\<lambda>buf s. (0, s @ buf)) inp out = (0, out @ b64_loop b64_quad inp)"
proof (induction "length inp" arbitrary: inp out rule: less_induct)
  case less
  show ?case
  proof (cases "inp = []")
    case True
    then show ?thesis by (simp add: base64_print.simps)
  next
    case False
    let ?l = "min (length inp) 192"
    have "4 * ((?l + 2) div 3) \<le> 4 * ((192 + 2) div 3)" by (intro mult_le_mono div_le_mono) simp_all
    then have e: "base64_encode (take ?l inp) 256 = Inr (b64_loop b64_quad (take ?l inp))"
      by (simp add: base64_encode_def)
    have "b64_loop b64_quad inp = b64_loop b64_quad (take ?l inp) @ b64_loop b64_quad (drop ?l inp)"
    proof (cases "length inp \<le> 192")
      case False
      then have "3 dvd length (take ?l inp)" by simp
      from loop_append [OF this, of b64_quad "drop ?l inp"] show ?thesis by simp
    qed simp
    moreover have "length (drop ?l inp) < length inp" using False by simp
    from less [OF this]
    have "base64_print (\<lambda>buf s. (0, s @ buf)) inp out =
        (0, (out @ b64_loop b64_quad (take ?l inp)) @ b64_loop b64_quad (drop ?l inp))"
      using False by (simp add: base64_print.simps [of _ inp] e Let_def)
    ultimately show ?thesis by simp
  qed
qed

section \<open>Properties\<close>

text \<open>C28: decoding what \<^verbatim>\<open>base64_encode\<close> produced gives the original bytes, for every input and
  every pair of output buffers that are large enough; the encoder fills exactly
  \<open>4 * ((n + 2) div 3)\<close> characters and the decoder never more than it was given room for.\<close>

theorem base64_roundtrip:
  assumes "4 * ((length inp + 2) div 3) \<le> olen" "length inp + 2 \<le> dlen"
  shows "\<exists>txt. base64_encode inp olen = Inr txt \<and> length txt = 4 * ((length inp + 2) div 3) \<and>
           base64_decode txt dlen = Inr inp"
proof -
  have "3 * ((length inp + 2) div 3) \<le> dlen" using assms(2) by linarith
  then show ?thesis using assms(1) by (simp add: base64_encode_def base64_decode_def length_loop decode_loop)
qed

theorem base64_roundtrip_witness:
  "\<exists>txt. base64_encode [0x66, 0x6f] 4 = Inr txt \<and> length txt = 4 \<and> base64_decode txt 4 = Inr [0x66, 0x6f]"
  using base64_roundtrip [of "[0x66, 0x6f]" 4 4] by simp

text \<open>The unpadded URL variant is decoded by the same decoder; it stores
  \<open>(4 * n + 2) div 3\<close> characters, which is within the room that was checked.\<close>

theorem base64url_roundtrip:
  assumes "4 * ((length inp + 2) div 3) \<le> olen" "length inp \<le> dlen"
  shows "\<exists>txt. base64url_encode inp olen = Inr txt \<and> length txt = (4 * length inp + 2) div 3 \<and>
           length txt \<le> olen \<and> base64_decode txt dlen = Inr inp"
proof -
  have "12 * ((4 * length inp + 2) div 12) \<le> 4 * length inp + 2" by simp
  then have "3 * ((4 * length inp + 2) div 12) \<le> length inp" by linarith
  then have "3 * ((4 * length inp + 2) div 3 div 4) \<le> dlen"
    using assms(2) by (simp flip: div_mult2_eq)
  moreover have "4 * length inp + 2 < 3 * (4 * ((length inp + 2) div 3)) + 3"
    using dividend_less_div_times [of 3 "length inp + 2"] by simp
  then have "(4 * length inp + 2) div 3 < 4 * ((length inp + 2) div 3) + 1"
    by (simp add: div_less_iff_less_mult)
  then have "(4 * length inp + 2) div 3 \<le> olen" using assms(1) by simp
  ultimately show ?thesis using assms(1)
    by (simp add: base64url_encode_def base64_decode_def length_loop_url decode_loop_url)
qed

theorem base64url_roundtrip_witness:
  "\<exists>txt. base64url_encode [0xfb, 0xff] 4 = Inr txt \<and> length txt = (4 * 2 + 2) div 3 \<and>
     length txt \<le> 4 \<and> base64_decode txt 2 = Inr [0xfb, 0xff]"
  using base64url_roundtrip [of "[0xfb, 0xff]" 4 2] by simp

text \<open>\<^verbatim>\<open>base64_print\<close> encodes in blocks of 192 bytes; what a print handler that always
  succeeds receives, concatenated, is the encoding of the whole input.\<close>

theorem base64_print_blocks:
  "base64_print (\<lambda>buf s. (0, s @ buf)) inp [] = (0, b64_loop b64_quad inp)"
  by (simp add: base64_print_loop)

text \<open>How far \<^verbatim>\<open>base64_decode\<close> can write: for input whose length is a multiple of four the
  output fits the buffer, and in general at most two bytes are stored beyond it.\<close>

theorem base64_decode_bounds:
  assumes "base64_decode inp olen = Inr out"
  shows "length out \<le> olen + (length inp mod 4 - 1)"
  using assms length_decode [of inp] by (auto simp: base64_decode_def split: if_splits)

theorem base64_decode_bounds_witness:
  "\<exists>out. base64_decode (str_bytes ''Zm9v'') 3 = Inr out \<and> length out \<le> 3 + (length (str_bytes ''Zm9v'') mod 4 - 1)"
  using base64_decode_bounds [of "str_bytes ''Zm9v''" 3] by (simp add: base64_decode_def str_bytes_def)


end
