(* ===== verification/Rtp.thy ===== *)
theory Rtp
  imports Codec "HOL-Library.Signed_Division"
begin

text \<open>
  RTP: the packet header of \<^verbatim>\<open>src/src/rtp/rtp.c\<close>, sequence number helpers of
  \<^verbatim>\<open>src/include/re_rtp.h\<close>, reception statistics of \<^verbatim>\<open>src/src/rtp/source.c\<close>
  and the integer routines of \<^verbatim>\<open>src/src/rtp/ntp.c\<close>.

  A C \<^verbatim>\<open>int\<close> that is computed from \<^verbatim>\<open>uint32_t\<close> values is kept as a 32 bit word
  and read with its sign (\<open>sint\<close>), which is what the conversions do on the supported
  compilers. The array \<^verbatim>\<open>csrc[16]\<close> is a list of length 16.
\<close>

section \<open>Header\<close>

record rtp_header =
  rh_ver :: u8
  rh_pad :: bool
  rh_ext :: bool
  rh_cc :: u8
  rh_m :: bool
  rh_pt :: u8
  rh_seq :: u16
  rh_ts :: u32
  rh_ts_arrive :: u64
  rh_ssrc :: u32
  rh_csrc :: "u32 list"
  rh_xtype :: u16
  rh_xlen :: u16

definition RTP_VERSION :: u8 where
  "RTP_VERSION = 2"

definition RTP_HEADER_SIZE :: nat where
  "RTP_HEADER_SIZE = 12"

definition rtp_byte0 :: "rtp_header \<Rightarrow> u8" where
  "rtp_byte0 hdr = push_bit 6 (rh_ver hdr AND 0x02) OR push_bit 5 (of_bool (rh_pad hdr) AND 0x01) OR
     push_bit 4 (of_bool (rh_ext hdr) AND 0x01) OR push_bit 0 (rh_cc hdr AND 0x0f)"

definition rtp_byte1 :: "rtp_header \<Rightarrow> u8" where
  "rtp_byte1 hdr = push_bit 7 (of_bool (rh_m hdr) AND 0x01) OR push_bit 0 (rh_pt hdr AND 0x7f)"

definition rtp_hdr_encode :: "malloc_env \<Rightarrow> mbuf \<Rightarrow> rtp_header \<Rightarrow> errno \<times> mbuf" where
  "rtp_hdr_encode al mb hdr =
     foldl (\<lambda>r i. err_or r (\<lambda>mb. mbuf_write_u32 al mb (htonl (rh_csrc hdr ! i))))
       (err_or (err_or (err_or
          (mbuf_write_mem al mb (Some [rtp_byte0 hdr, rtp_byte1 hdr]))
          (\<lambda>mb. mbuf_write_u16 al mb (htons (rh_seq hdr))))
          (\<lambda>mb. mbuf_write_u32 al mb (htonl (rh_ts hdr))))
          (\<lambda>mb. mbuf_write_u32 al mb (htonl (rh_ssrc hdr))))
       [0..<unat (rh_cc hdr)]"

fun rtp_csrc_loop :: "nat \<Rightarrow> nat \<Rightarrow> rtp_header \<Rightarrow> mbuf \<Rightarrow> rtp_header \<times> mbuf" where
  "rtp_csrc_loop i 0 hdr mb = (hdr, mb)"
| "rtp_csrc_loop i (Suc k) hdr mb =
     (case mbuf_read_u32 mb of (v, mb1) \<Rightarrow>
        rtp_csrc_loop (Suc i) k (hdr\<lparr>rh_csrc := (rh_csrc hdr)[i := ntohl v]\<rparr>) mb1)"

definition rtp_ext_decode :: "rtp_header \<Rightarrow> mbuf \<Rightarrow> errno \<times> rtp_header \<times> mbuf" where
  "rtp_ext_decode hdr mb =
     (if mbuf_get_left mb < 4 then (EBADMSG, hdr, mb)
      else
        (case mbuf_read_u16 mb of (t, mb1) \<Rightarrow>
         case mbuf_read_u16 mb1 of (l, mb2) \<Rightarrow>
           let hdr1 = hdr\<lparr>rh_xtype := ntohs t, rh_xlen := ntohs l\<rparr> in
           if mbuf_get_left mb2 < unat (rh_xlen hdr1) * 4 then (EBADMSG, hdr1, mb2)
           else (0, hdr1, mb2\<lparr>mb_pos := szt (mb_pos mb2 + unat (rh_xlen hdr1) * 4)\<rparr>)))"

definition rtp_hdr_decode :: "rtp_header \<Rightarrow> mbuf \<Rightarrow> errno \<times> rtp_header \<times> mbuf" where
  "rtp_hdr_decode hdr mb =
     (if mbuf_get_left mb < RTP_HEADER_SIZE then (EBADMSG, hdr, mb)
      else
        (case mbuf_read_mem mb 2 of Inl err \<Rightarrow> (err, hdr, mb)
         | Inr (buf, mb1) \<Rightarrow>
            (case mbuf_read_u16 mb1 of (sq, mb2) \<Rightarrow>
             case mbuf_read_u32 mb2 of (ts, mb3) \<Rightarrow>
             case mbuf_read_u32 mb3 of (ssrc, mb4) \<Rightarrow>
               let hdr1 = hdr\<lparr>
                     rh_ver := drop_bit 6 (buf ! 0) AND 0x03,
                     rh_pad := (drop_bit 5 (buf ! 0) AND 0x01 \<noteq> 0),
                     rh_ext := (drop_bit 4 (buf ! 0) AND 0x01 \<noteq> 0),
                     rh_cc := drop_bit 0 (buf ! 0) AND 0x0f,
                     rh_m := (drop_bit 7 (buf ! 1) AND 0x01 \<noteq> 0),
                     rh_pt := drop_bit 0 (buf ! 1) AND 0x7f,
                     rh_seq := ntohs sq, rh_ts := ntohl ts, rh_ssrc := ntohl ssrc\<rparr>
               in
               if mbuf_get_left mb4 < unat (rh_cc hdr1) * 4 then (EBADMSG, hdr1, mb4)
               else
                 (case rtp_csrc_loop 0 (unat (rh_cc hdr1)) hdr1 mb4 of (hdr2, mb5) \<Rightarrow>
                    if rh_ext hdr2 then rtp_ext_decode hdr2 mb5 else (0, hdr2, mb5)))))"

definition rtp_zero :: rtp_header where
  "rtp_zero = \<lparr>rh_ver = 0, rh_pad = False, rh_ext = False, rh_cc = 0, rh_m = False, rh_pt = 0,
     rh_seq = 0, rh_ts = 0, rh_ts_arrive = 0, rh_ssrc = 0, rh_csrc = replicate 16 0,
     rh_xtype = 0, rh_xlen = 0\<rparr>"

text \<open>\<^verbatim>\<open>rtp_decode\<close> (the socket argument is not used).\<close>

definition rtp_decode :: "mbuf \<Rightarrow> errno \<times> rtp_header \<times> mbuf" where
  "rtp_decode mb =
     (case rtp_hdr_decode rtp_zero mb of (err, hdr, mb1) \<Rightarrow>
        if err \<noteq> 0 then (err, hdr, mb1)
        else if RTP_VERSION \<noteq> rh_ver hdr then (EBADMSG, hdr, mb1)
        else (0, hdr, mb1))"

definition rtp_pt_is_rtcp :: "u8 \<Rightarrow> bool" where
  "rtp_pt_is_rtcp pt \<longleftrightarrow> 64 \<le> pt \<and> pt \<le> 95"

definition rtp_seq_diff :: "u16 \<Rightarrow> u16 \<Rightarrow> int" where
  "rtp_seq_diff x y = sint (y - x)"

definition rtp_seq_less :: "u16 \<Rightarrow> u16 \<Rightarrow> bool" where
  "rtp_seq_less x y \<longleftrightarrow> sint (x - y) < 0"

section \<open>Reception statistics\<close>

record rtp_ntp_time =
  ntp_hi :: u32
  ntp_lo :: u32

record rtp_source =
  s_max_seq :: u16
  s_cycles :: u32
  s_base_seq :: u32
  s_bad_seq :: u32
  s_probation :: u32
  s_received :: u32
  s_expected_prior :: u32
  s_received_prior :: u32
  s_transit :: u32
  s_jitter :: u32
  s_rtp_rx_bytes :: nat
  s_sr_recv :: u64
  s_last_sr :: rtp_ntp_time
  s_rtp_ts :: u32
  s_last_rtp_ts :: u32
  s_psent :: u32
  s_osent :: u32

definition RTP_SEQ_MOD :: nat where
  "RTP_SEQ_MOD = 65536"

definition rtp_source_init_seq :: "rtp_source \<Rightarrow> u16 \<Rightarrow> rtp_source" where
  "rtp_source_init_seq s seq = s\<lparr>
     s_base_seq := ucast seq, s_max_seq := seq, s_bad_seq := word_of_nat RTP_SEQ_MOD + 1,
     s_cycles := 0, s_received := 0, s_received_prior := 0, s_expected_prior := 0\<rparr>"

definition rtp_source_update_seq :: "rtp_source \<Rightarrow> u16 \<Rightarrow> nat \<times> rtp_source" where
  "rtp_source_update_seq s seq =
     (let udelta = seq - s_max_seq s in
      if s_probation s \<noteq> 0 then
        (if uint seq = uint (s_max_seq s) + 1 then
           (let s1 = s\<lparr>s_probation := s_probation s - 1, s_max_seq := seq\<rparr> in
            if s_probation s1 = 0 then
              (let s2 = rtp_source_init_seq s1 seq in (1, s2\<lparr>s_received := s_received s2 + 1\<rparr>))
            else (0, s1))
         else (0, s\<lparr>s_probation := 2 - 1, s_max_seq := seq\<rparr>))
      else if unat udelta < 3000 then
        (let s1 = (if seq < s_max_seq s
                   then s\<lparr>s_cycles := s_cycles s + word_of_nat RTP_SEQ_MOD\<rparr> else s);
             s2 = s1\<lparr>s_max_seq := seq\<rparr>
         in (1, s2\<lparr>s_received := s_received s2 + 1\<rparr>))
      else if unat udelta \<le> RTP_SEQ_MOD - 100 then
        (if ucast seq = s_bad_seq s then
           (let s1 = rtp_source_init_seq s seq in (1, s1\<lparr>s_received := s_received s1 + 1\<rparr>))
         else (0, s\<lparr>s_bad_seq := (ucast seq + 1) AND (word_of_nat RTP_SEQ_MOD - 1)\<rparr>))
      else (1, s\<lparr>s_received := s_received s + 1\<rparr>))"

definition rtp_source_calc_jitter :: "rtp_source \<Rightarrow> u32 \<Rightarrow> u32 \<Rightarrow> rtp_source" where
  "rtp_source_calc_jitter s rtp_ts arrival =
     (let transit = arrival - rtp_ts; d = transit - s_transit s in
      if s_transit s = 0 then s\<lparr>s_transit := transit\<rparr>
      else
        (let s1 = s\<lparr>s_transit := transit\<rparr>; d1 = (if sint d < 0 then - d else d) in
         s1\<lparr>s_jitter := s_jitter s1 + (d1 - drop_bit 4 (s_jitter s1 + 8))\<rparr>))"

definition rtp_expected :: "rtp_source \<Rightarrow> u32" where
  "rtp_expected s = s_cycles s + ucast (s_max_seq s) - s_base_seq s + 1"

definition rtp_source_calc_lost :: "rtp_source \<Rightarrow> int" where
  "rtp_source_calc_lost s =
     (let lost = sint (rtp_expected s - s_received s) in
      if lost > 0x7fffff then 0x7fffff else if lost < - 0x7fffff then - 0x7fffff else lost)"

definition rtp_source_calc_fraction_lost :: "rtp_source \<Rightarrow> u8 \<times> rtp_source" where
  "rtp_source_calc_fraction_lost s =
     (let expected = rtp_expected s;
          expected_interval = expected - s_expected_prior s;
          received_interval = s_received s - s_received_prior s;
          lost_interval = expected_interval - received_interval;
          s1 = s\<lparr>s_expected_prior := expected, s_received_prior := s_received s\<rparr>
      in (if expected_interval = 0 \<or> sint lost_interval \<le> 0 then 0
          else word_of_int (sint (push_bit 8 lost_interval) sdiv sint expected_interval), s1))"

section \<open>NTP time\<close>

definition ntp_compact :: "rtp_ntp_time option \<Rightarrow> u32" where
  "ntp_compact ntp = (case ntp of None \<Rightarrow> 0
     | Some t \<Rightarrow> push_bit 16 (ntp_hi t AND 0xffff) OR drop_bit 16 (ntp_lo t))"

definition ntp_compact2us :: "u32 \<Rightarrow> u64" where
  "ntp_compact2us ntpc =
     (let hi = drop_bit 16 ntpc AND 0xffff; lo = push_bit 16 (ntpc AND 0xffff)
      in 1000000 * ucast hi + drop_bit 32 (1000000 * ucast lo))"

section \<open>The header codec\<close>

text \<open>The fields of the first two bytes, by evaluation over all their values.\<close>

lemma byte0_table:
  "list_all (\<lambda>i. list_all (\<lambda>(v, p, e).
     (let b = push_bit 6 (v AND 0x02) OR push_bit 5 (of_bool p AND 0x01) OR
        push_bit 4 (of_bool e AND 0x01) OR push_bit 0 (word_of_nat i AND 0x0f) :: u8 in
      drop_bit 6 b AND 0x03 = v \<and> (drop_bit 5 b AND 0x01 \<noteq> 0) = p \<and> (drop_bit 4 b AND 0x01 \<noteq> 0) = e \<and>
      drop_bit 0 b AND 0x0f = word_of_nat i))
     (List.product [0, 2] (List.product [False, True] [False, True]))) [0..<16]"
  by code_simp

lemma byte1_table:
  "list_all (\<lambda>i. list_all (\<lambda>m.
     (let b = push_bit 7 (of_bool m AND 0x01) OR push_bit 0 (word_of_nat i AND 0x7f) :: u8 in
      (drop_bit 7 b AND 0x01 \<noteq> 0) = m \<and> drop_bit 0 b AND 0x7f = word_of_nat i))
     [False, True]) [0..<128]"
  by code_simp

lemma byte0_fields:
  assumes "rh_ver h = 0 \<or> rh_ver h = 2" "unat (rh_cc h) < 16"
  shows "drop_bit 6 (rtp_byte0 h) AND 0x03 = rh_ver h"
    "(drop_bit 5 (rtp_byte0 h) AND 0x01 \<noteq> 0) = rh_pad h"
    "(drop_bit 4 (rtp_byte0 h) AND 0x01 \<noteq> 0) = rh_ext h"
    "drop_bit 0 (rtp_byte0 h) AND 0x0f = rh_cc h"
proof -
  have m1: "unat (rh_cc h) \<in> set [0..<16]" using assms(2) by simp
  have m2: "(rh_ver h, rh_pad h, rh_ext h) \<in>
      set (List.product [0, 2] (List.product [False, True] [False, True]))"
    using assms(1) by auto
  from bspec [OF bspec [OF byte0_table [unfolded list_all_iff] m1] m2]
  have "(let b = rtp_byte0 h in
      drop_bit 6 b AND 0x03 = rh_ver h \<and> (drop_bit 5 b AND 0x01 \<noteq> 0) = rh_pad h \<and>
      (drop_bit 4 b AND 0x01 \<noteq> 0) = rh_ext h \<and> drop_bit 0 b AND 0x0f = rh_cc h)"
    by (simp add: rtp_byte0_def)
  then show "drop_bit 6 (rtp_byte0 h) AND 0x03 = rh_ver h"
    "(drop_bit 5 (rtp_byte0 h) AND 0x01 \<noteq> 0) = rh_pad h"
    "(drop_bit 4 (rtp_byte0 h) AND 0x01 \<noteq> 0) = rh_ext h"
    "drop_bit 0 (rtp_byte0 h) AND 0x0f = rh_cc h"
    by (simp_all add: Let_def)
qed

lemma byte1_fields:
  assumes "unat (rh_pt h) < 128"
  shows "(drop_bit 7 (rtp_byte1 h) AND 0x01 \<noteq> 0) = rh_m h"
    "drop_bit 0 (rtp_byte1 h) AND 0x7f = rh_pt h"
proof -
  have "unat (rh_pt h) \<in> set [0..<128]" using assms by simp
  then have "(let b = rtp_byte1 h in
      (drop_bit 7 b AND 0x01 \<noteq> 0) = rh_m h \<and> drop_bit 0 b AND 0x7f = rh_pt h)"
    using bspec [OF bspec [OF byte1_table [unfolded list_all_iff]], of "unat (rh_pt h)" "rh_m h"]
    unfolding rtp_byte1_def by simp
  then show "(drop_bit 7 (rtp_byte1 h) AND 0x01 \<noteq> 0) = rh_m h"
    "drop_bit 0 (rtp_byte1 h) AND 0x7f = rh_pt h"
    by (simp_all add: Let_def)
qed

definition rtp_img :: "rtp_header \<Rightarrow> bytes" where
  "rtp_img h = [rtp_byte0 h, rtp_byte1 h] @ be16 (rh_seq h) @ be32 (rh_ts h) @ be32 (rh_ssrc h) @
     concat (map (\<lambda>i. be32 (rh_csrc h ! i)) [0..<unat (rh_cc h)])"

text \<open>Headers that the encoder represents faithfully and that agree with the memory \<open>old\<close> that
  the decoder is given in what it does not overwrite.\<close>

definition rtp_hdr_ok :: "rtp_header \<Rightarrow> rtp_header \<Rightarrow> bool" where
  "rtp_hdr_ok old h \<longleftrightarrow> (rh_ver h = 0 \<or> rh_ver h = 2) \<and> unat (rh_cc h) < 16 \<and> unat (rh_pt h) < 128 \<and>
     \<not> rh_ext h \<and> length (rh_csrc h) = 16 \<and> length (rh_csrc old) = 16 \<and>
     drop (unat (rh_cc h)) (rh_csrc h) = drop (unat (rh_cc h)) (rh_csrc old) \<and>
     rh_ts_arrive h = rh_ts_arrive old \<and> rh_xtype h = rh_xtype old \<and> rh_xlen h = rh_xlen old"

lemma rtp_hdr_encode_adds: "adds (rtp_img h) (\<lambda>mb. rtp_hdr_encode al mb h)"
proof -
  have "adds [rtp_byte0 h, rtp_byte1 h] (\<lambda>mb. mbuf_write_mem al mb (Some [rtp_byte0 h, rtp_byte1 h]))"
    by (rule adds_write) simp
  from adds_seq [OF adds_seq [OF adds_seq [OF this adds_ints(2)] adds_ints(3)] adds_ints(3)]
  have "adds ((([rtp_byte0 h, rtp_byte1 h] @ be16 (rh_seq h)) @ be32 (rh_ts h)) @ be32 (rh_ssrc h))
    (\<lambda>mb. err_or (err_or (err_or
          (mbuf_write_mem al mb (Some [rtp_byte0 h, rtp_byte1 h]))
          (\<lambda>mb. mbuf_write_u16 al mb (htons (rh_seq h))))
          (\<lambda>mb. mbuf_write_u32 al mb (htonl (rh_ts h))))
          (\<lambda>mb. mbuf_write_u32 al mb (htonl (rh_ssrc h))))" .
  from adds_fold [OF this, of "[0..<unat (rh_cc h)]" "\<lambda>i. be32 (rh_csrc h ! i)"
      "\<lambda>i mb. mbuf_write_u32 al mb (htonl (rh_csrc h ! i))"]
  show ?thesis by (simp add: rtp_hdr_encode_def rtp_img_def adds_ints(3))
qed

lemma rtp_csrc_loop_reads:
  assumes "mbuf_wf mb" "mbuf_left mb = concat (map be32 cs) @ rest" "i + length cs \<le> length (rh_csrc h)"
  shows "rtp_csrc_loop i (length cs) h mb =
     (h\<lparr>rh_csrc := take i (rh_csrc h) @ cs @ drop (i + length cs) (rh_csrc h)\<rparr>,
      mbuf_skip mb (4 * length cs))"
  using assms
proof (induction cs arbitrary: i h mb)
  case Nil
  then show ?case by simp
next
  case (Cons c cs)
  let ?h = "h\<lparr>rh_csrc := (rh_csrc h)[i := c]\<rparr>" and ?mb = "mbuf_skip mb 4"
  have l: "mbuf_left mb = be32 c @ concat (map be32 cs) @ rest" using Cons.prems(2) by simp
  have r: "mbuf_read_u32 mb = (htonl c, ?mb)" by (rule mbuf_read_ints(3) [OF Cons.prems(1) l])
  have "mbuf_wf ?mb" "mbuf_left ?mb = concat (map be32 cs) @ rest"
    using mbuf_skip_left [OF Cons.prems(1) l, of 4] by simp_all
  from Cons.IH [OF this, of "Suc i" ?h] Cons.prems(3) r show ?case
    by (simp add: take_Suc_conv_app_nth drop_update_cancel)
qed

lemma rtp_hdr_decode_reads:
  assumes ok: "rtp_hdr_ok old h" and wf: "mbuf_wf mb" and l: "mbuf_left mb = rtp_img h @ rest"
  shows "rtp_hdr_decode old mb = (0, h, mbuf_skip mb (length (rtp_img h)))"
proof -
  let ?cc = "unat (rh_cc h)" and ?cs = "map ((!) (rh_csrc h)) [0..<unat (rh_cc h)]"
  have cc: "?cc < 16" "length (rh_csrc h) = 16" "length (rh_csrc old) = 16" using ok by (auto simp: rtp_hdr_ok_def)
  have cs: "?cs = take ?cc (rh_csrc h)" using cc by (intro nth_equalityI) simp_all
  have lc: "length (concat (map (\<lambda>i. be32 (rh_csrc h ! i)) [0..<n])) = 4 * n" for n
    by (induction n) simp_all
  have img: "length (rtp_img h) = 12 + 4 * ?cc" by (simp add: rtp_img_def lc)
  have l': "mbuf_left mb = rtp_byte0 h # rtp_byte1 h # be16 (rh_seq h) @ be32 (rh_ts h) @
      be32 (rh_ssrc h) @ concat (map be32 ?cs) @ rest"
    using l by (simp add: rtp_img_def comp_def)
  have fields: "rh_ver h = 0 \<or> rh_ver h = 2" "?cc < 16" "unat (rh_pt h) < 128"
    using ok by (auto simp: rtp_hdr_ok_def)
  let ?h = "\<lambda>cs. h\<lparr>rh_csrc := cs\<rparr>"
  have upd: "old\<lparr>rh_ver := rh_ver h, rh_pad := rh_pad h, rh_ext := rh_ext h, rh_cc := rh_cc h,
      rh_m := rh_m h, rh_pt := rh_pt h, rh_seq := rh_seq h, rh_ts := rh_ts h, rh_ssrc := rh_ssrc h\<rparr> =
      ?h (rh_csrc old)"
    using ok by (simp add: rtp_hdr_ok_def)
  have left12: "mbuf_left (mbuf_skip mb 12) = concat (map be32 ?cs) @ rest"
    by (simp add: mbuf_left_skip l')
  have wf12: "mbuf_wf (mbuf_skip mb 12)" using wf by (rule mbuf_wf_skip) (simp add: l')
  have lp: "length (concat (map be32 ?cs)) = 4 * ?cc" using lc [of ?cc] by (simp add: comp_def)
  have loop: "rtp_csrc_loop 0 ?cc (?h (rh_csrc old)) (mbuf_skip mb 12) =
      (h, mbuf_skip mb (12 + 4 * ?cc))"
    using rtp_csrc_loop_reads [OF wf12 left12, of 0 "?h (rh_csrc old)"] cc ok
    by (simp add: cs rtp_hdr_ok_def min_def) (metis append_take_drop_id rtp_header.surjective rtp_header.update_convs(11))
  have e: "rh_ext h = False" using ok by (simp add: rtp_hdr_ok_def)
  show ?thesis
    using wf e cc byte0_fields [OF fields(1,2)] byte1_fields [OF fields(3)] loop
    by (simp add: rtp_hdr_decode_def mbuf_rd l' RTP_HEADER_SIZE_def Let_def upd [unfolded e]
        lp [simplified] img)
qed

definition rtp_dec :: "rtp_header \<Rightarrow> rtp_header dec" where
  "rtp_dec old mb = (case rtp_hdr_decode old mb of (e, h, mb') \<Rightarrow> (if e = 0 then Inr h else Inl e, mb'))"

lemma rtp_dec_ok: "rtp_dec old mb = (Inr h, mb') \<longleftrightarrow> rtp_hdr_decode old mb = (0, h, mb')"
  by (auto simp: rtp_dec_def split: prod.splits if_splits)

lemma rtp_hdr_encode_fits: "fits (length (rtp_img h)) (\<lambda>mb. rtp_hdr_encode al mb h)"
proof -
  have "fits 2 (\<lambda>mb. mbuf_write_mem al mb (Some [rtp_byte0 h, rtp_byte1 h]))" by (rule fits_write) simp
  from fits_fold [OF fits_seq [OF fits_seq [OF fits_seq [OF this fits_ints(2)] fits_ints(3)] fits_ints(3)],
      of "[0..<unat (rh_cc h)]" "\<lambda>_. 4" "\<lambda>i mb. mbuf_write_u32 al mb (htonl (rh_csrc h ! i))"]
  show ?thesis
    by (simp add: rtp_hdr_encode_def rtp_img_def fits_ints(3) length_concat comp_def)
qed

interpretation rtp: mbuf_codec rtp_hdr_encode "rtp_dec old" rtp_img "rtp_hdr_ok old" for old
  by unfold_locales (simp_all add: rtp_hdr_encode_adds rtp_hdr_encode_fits parses_def rtp_dec_ok rtp_hdr_decode_reads)

lemma rtp_csrc_loop_safe:
  "mbuf_wf mb \<Longrightarrow> mbuf_fwd mb (snd (rtp_csrc_loop i k h mb)) \<and>
     length (rh_csrc (fst (rtp_csrc_loop i k h mb))) = length (rh_csrc h) \<and>
     rh_cc (fst (rtp_csrc_loop i k h mb)) = rh_cc h"
proof (induction i k h mb rule: rtp_csrc_loop.induct)
  case (2 i k h mb)
  obtain v mb1 where r: "mbuf_read_u32 mb = (v, mb1)" by fastforce
  have f: "mbuf_fwd mb mb1" using mbuf_fwd_reads(3) [OF 2(2)] r by simp
  from 2(1) [OF r [symmetric] mbuf_fwd_wf [OF f 2(2)]] mbuf_fwd_trans [OF f] r
  show ?case by auto
qed simp

lemma rtp_ext_decode_safe:
  assumes "mbuf_wf mb" "rtp_ext_decode h mb = (e, h', mb')"
  shows "mbuf_fwd mb mb' \<and> (e = 0 \<or> e = EBADMSG) \<and> rh_csrc h' = rh_csrc h \<and> rh_cc h' = rh_cc h"
proof (cases "length (mbuf_left mb) < 4")
  case True
  then show ?thesis using assms by (auto simp: rtp_ext_decode_def mbuf_rd)
next
  case False
  let ?mb = "mbuf_skip mb 4" and ?l = "ntohs (word_of_le (take 2 (drop 2 (mbuf_left mb))))"
  have sk: "mbuf_fwd mb (?mb\<lparr>mb_pos := szt (mb_pos mb + 4 + unat ?l * 4)\<rparr>)"
    if "unat ?l * 4 \<le> length (mbuf_left mb) - 4"
  proof -
    have "mb_pos mb + (4 + unat ?l * 4) < 2 ^ 64"
      using mbuf_wf_skip [OF assms(1), of "4 + unat ?l * 4"] that False by (simp add: mbuf_wf_def)
    then have "?mb\<lparr>mb_pos := szt (mb_pos mb + 4 + unat ?l * 4)\<rparr> = mbuf_skip mb (4 + unat ?l * 4)"
      by (simp add: mbuf_skip_def ac_simps)
    then show ?thesis using mbuf_fwd_skip [of "4 + unat ?l * 4" mb] that False by simp
  qed
  show ?thesis using assms False sk
    by (auto simp: rtp_ext_decode_def mbuf_rd Let_def not_less mbuf_fwd_skip split: if_splits)
qed

lemma rtp_hdr_decode_safe:
  assumes wf: "mbuf_wf mb" and r: "rtp_hdr_decode old mb = (e, h, mb')"
  shows "mbuf_fwd mb mb' \<and> (e = 0 \<or> e = EBADMSG) \<and> length (rh_csrc h) = length (rh_csrc old) \<and>
     (e = 0 \<longrightarrow> unat (rh_cc h) < 16)"
proof (cases "length (mbuf_left mb) < 12")
  case True
  then show ?thesis using assms by (auto simp: rtp_hdr_decode_def mbuf_rd RTP_HEADER_SIZE_def EBADMSG_def)
next
  case False
  let ?mb = "mbuf_skip mb 12" and ?b = "mbuf_left mb ! 0"
  have wf12: "mbuf_wf ?mb" using wf False by (simp add: mbuf_wf_skip)
  have f12: "mbuf_fwd mb ?mb" using False by (simp add: mbuf_fwd_skip)
  have cc: "unat (?b AND 0x0f) < 16"
    using word_and_le1 [of ?b "0x0f"] by (simp add: word_le_nat_alt)
  define buf where "buf = take 2 (mbuf_left mb)"
  define h1 where "h1 = old\<lparr>
     rh_ver := drop_bit 6 (buf ! 0) AND 0x03, rh_pad := (drop_bit 5 (buf ! 0) AND 0x01 \<noteq> 0),
     rh_ext := (drop_bit 4 (buf ! 0) AND 0x01 \<noteq> 0), rh_cc := drop_bit 0 (buf ! 0) AND 0x0f,
     rh_m := (drop_bit 7 (buf ! 1) AND 0x01 \<noteq> 0), rh_pt := drop_bit 0 (buf ! 1) AND 0x7f,
     rh_seq := ntohs (word_of_le (take 2 (drop 2 (mbuf_left mb)))),
     rh_ts := ntohl (word_of_le (take 4 (drop 4 (mbuf_left mb)))),
     rh_ssrc := ntohl (word_of_le (take 4 (drop 8 (mbuf_left mb))))\<rparr>"
  have h1: "length (rh_csrc h1) = length (rh_csrc old)" "rh_cc h1 = ?b AND 0x0f"
    by (simp_all add: h1_def buf_def)
  have dec: "rtp_hdr_decode old mb =
      (if mbuf_get_left ?mb < unat (rh_cc h1) * 4 then (EBADMSG, h1, ?mb)
       else (case rtp_csrc_loop 0 (unat (rh_cc h1)) h1 ?mb of (hdr2, mb5) \<Rightarrow>
               if rh_ext hdr2 then rtp_ext_decode hdr2 mb5 else (0, hdr2, mb5)))"
    using wf False
    by (simp add: rtp_hdr_decode_def mbuf_rd RTP_HEADER_SIZE_def Let_def h1_def buf_def)
  obtain h2 mb5 where l: "rtp_csrc_loop 0 (unat (rh_cc h1)) h1 ?mb = (h2, mb5)" by fastforce
  have s: "mbuf_fwd ?mb mb5" "length (rh_csrc h2) = length (rh_csrc h1)" "rh_cc h2 = rh_cc h1"
    using rtp_csrc_loop_safe [OF wf12, of 0 "unat (rh_cc h1)" h1] l by simp_all
  have wf5: "mbuf_wf mb5" by (rule mbuf_fwd_wf [OF s(1) wf12])
  show ?thesis
  proof (cases "mbuf_get_left ?mb < unat (rh_cc h1) * 4")
    case True
    then show ?thesis using r dec f12 h1 by (auto simp: EBADMSG_def)
  next
    case 2: False
    show ?thesis
    proof (cases "rh_ext h2")
      case True
      then have "rtp_ext_decode h2 mb5 = (e, h, mb')" using r dec l 2 by simp
      from rtp_ext_decode_safe [OF wf5 this] show ?thesis
        using s h1 cc mbuf_fwd_trans [OF mbuf_fwd_trans [OF f12 s(1)]] by auto
    next
      case False
      then show ?thesis using r dec l 2 s h1 cc mbuf_fwd_trans [OF f12 s(1)] by auto
    qed
  qed
qed

section \<open>Reception statistics\<close>

text \<open>\<open>seq_run q ds\<close>: the sequence numbers of packets received after \<open>q\<close>, each \<open>d\<close>
  ahead of the one before (1 in order without loss, 0 a duplicate of the newest).\<close>

fun seq_run :: "u16 \<Rightarrow> nat list \<Rightarrow> u16 list" where
  "seq_run q [] = []"
| "seq_run q (d # ds) = (q + word_of_nat d) # seq_run (q + word_of_nat d) ds"

definition rtp_rx :: "rtp_source \<Rightarrow> u16 list \<Rightarrow> rtp_source" where
  "rtp_rx s qs = foldl (\<lambda>s q. snd (rtp_source_update_seq s q)) s qs"

definition rtp_ext_seq :: "rtp_source \<Rightarrow> u32" where
  "rtp_ext_seq s = s_cycles s + ucast (s_max_seq s)"

lemma ucast_seq_add:
  fixes q :: u16
  assumes "d < 65536"
  shows "(ucast (q + word_of_nat d) :: u32) + (if q + word_of_nat d < q then 65536 else 0) =
     ucast q + word_of_nat d"
proof -
  have q: "unat q < 65536" using unsigned_less [of q] by simp
  have u: "unat (q + word_of_nat d) = (unat q + d) mod 65536"
    using assms by (simp add: unat_word_ariths unat_of_nat)
  have lt: "q + word_of_nat d < q \<longleftrightarrow> 65536 \<le> unat q + d"
    using assms q by (auto simp: word_less_nat_alt u mod_if)
  have "unat q + d = unat (q + word_of_nat d) + (if q + word_of_nat d < q then 65536 else 0)"
    using assms q unfolding lt u by (auto simp: mod_if)
  then have "(word_of_nat (unat q + d) :: u32) =
     word_of_nat (unat (q + word_of_nat d) + (if q + word_of_nat d < q then 65536 else 0))"
    by (rule arg_cong)
  then show ?thesis by (simp split: if_splits)
qed

lemma rtp_update_ahead:
  assumes "s_probation s = 0" "d < 3000"
  defines "s' \<equiv> snd (rtp_source_update_seq s (s_max_seq s + word_of_nat d))"
  shows "fst (rtp_source_update_seq s (s_max_seq s + word_of_nat d)) = 1"
    "rtp_ext_seq s' = rtp_ext_seq s + word_of_nat d" "s_received s' = s_received s + 1"
    "s_base_seq s' = s_base_seq s" "s_probation s' = 0" "s_max_seq s' = s_max_seq s + word_of_nat d"
proof -
  have "unat (word_of_nat d :: u16) = d" using assms(2) by (simp add: unat_of_nat)
  then have u: "unat (s_max_seq s + word_of_nat d - s_max_seq s) < 3000" using assms(2) by simp
  have "s' = s\<lparr>s_cycles := s_cycles s + (if s_max_seq s + word_of_nat d < s_max_seq s then 65536 else 0),
      s_max_seq := s_max_seq s + word_of_nat d, s_received := s_received s + 1\<rparr>"
    using assms(1) u by (simp add: s'_def rtp_source_update_seq_def Let_def RTP_SEQ_MOD_def)
  then show "rtp_ext_seq s' = rtp_ext_seq s + word_of_nat d" "s_received s' = s_received s + 1"
    "s_base_seq s' = s_base_seq s" "s_probation s' = 0" "s_max_seq s' = s_max_seq s + word_of_nat d"
    using ucast_seq_add [of d "s_max_seq s"] assms(1,2) by (simp_all add: rtp_ext_seq_def algebra_simps)
  show "fst (rtp_source_update_seq s (s_max_seq s + word_of_nat d)) = 1"
    using assms(1) u by (simp add: rtp_source_update_seq_def Let_def)
qed

lemma rtp_rx_ahead:
  assumes "s_probation s = 0" "\<forall>d\<in>set ds. d < 3000"
  defines "s' \<equiv> rtp_rx s (seq_run (s_max_seq s) ds)"
  shows "rtp_ext_seq s' = rtp_ext_seq s + word_of_nat (sum_list ds) \<and>
     s_received s' = s_received s + word_of_nat (length ds) \<and> s_base_seq s' = s_base_seq s"
  using assms(1,2) unfolding s'_def
proof (induction ds arbitrary: s)
  case Nil
  then show ?case by (simp add: rtp_rx_def)
next
  case (Cons d ds)
  let ?s = "snd (rtp_source_update_seq s (s_max_seq s + word_of_nat d))"
  have d: "d < 3000" using Cons.prems(2) by simp
  note u = rtp_update_ahead [OF Cons.prems(1) d]
  have "rtp_rx s (seq_run (s_max_seq s) (d # ds)) = rtp_rx ?s (seq_run (s_max_seq ?s) ds)"
    by (simp add: rtp_rx_def u(6))
  then show ?case using Cons.IH [OF u(5)] Cons.prems(2) u by (simp add: algebra_simps)
qed

lemma rtp_expected_ext: "rtp_expected s = rtp_ext_seq s - s_base_seq s + 1"
  by (simp add: rtp_expected_def rtp_ext_seq_def)

lemma rtp_calc_lost_eq:
  assumes "rtp_expected s = word_of_int e" "s_received s = word_of_int r" "\<bar>e - r\<bar> \<le> 0x7fffff"
  shows "rtp_source_calc_lost s = e - r"
proof -
  have "sint (word_of_int (e - r) :: u32) = e - r" by (rule sint_of_int_id) (use assms(3) in simp_all)
  then have "sint (rtp_expected s - s_received s) = e - r" using assms(1,2) by simp
  then show ?thesis using assms(3) by (simp add: rtp_source_calc_lost_def Let_def abs_le_iff)
qed

section \<open>Properties\<close>

text \<open>C30: in any buffer with room, encoding an RTP header succeeds and decoding from there gives the
  header back, for version 2 (or 0), up to 15 contributing sources and 7 bit payload types; the
  remaining members of the caller's structure are not touched.\<close>

theorem rtp_hdr_roundtrip:
  assumes "rtp_hdr_ok old h" "mbuf_ready mb" "mb_pos mb = mb_end mb"
    "mb_pos mb + 12 + 4 * unat (rh_cc h) \<le> mb_size mb"
  shows "\<exists>mb'. rtp_hdr_encode al mb h = (0, mb') \<and>
           rtp_hdr_decode old (mbuf_set_pos mb' (mb_pos mb)) = (0, h, mb')"
proof -
  have "length (rtp_img h) = 12 + 4 * unat (rh_cc h)"
    by (simp add: rtp_img_def length_concat comp_def sum_list_triv)
  with rtp.roundtrip_total [OF assms(1-3), of al] assms(4) show ?thesis
    by (auto simp: rtp_dec_ok mbuf_set_pos_def)
qed

definition rtp_wit :: rtp_header where
  "rtp_wit = rtp_zero\<lparr>rh_ver := 2, rh_m := True, rh_pt := 96, rh_cc := 1, rh_seq := 0xfffe,
     rh_csrc := 7 # replicate 15 0\<rparr>"

theorem rtp_hdr_roundtrip_witness:
  "\<exists>mb'. rtp_hdr_encode al_all mbuf_empty rtp_wit = (0, mb') \<and>
     rtp_hdr_decode rtp_zero (mbuf_set_pos mb' 0) = (0, rtp_wit, mb')"
proof -
  have "rtp_hdr_ok rtp_zero rtp_wit" "rh_cc rtp_wit = 1"
    by (simp_all add: rtp_hdr_ok_def rtp_wit_def rtp_zero_def)
  with rtp_hdr_roundtrip [of rtp_zero rtp_wit mbuf_empty al_all] mbuf_empty_ready show ?thesis by simp
qed

text \<open>C31: on arbitrary received bytes the RTP header decoder only moves the cursor forward within the
  data, fails only with EBADMSG, and stores at most 15 contributing sources, inside the array.\<close>

theorem rtp_hdr_decode_memory_safe:
  assumes "mbuf_wf mb" "length (rh_csrc old) = 16" "rtp_hdr_decode old mb = (e, h, mb')"
  shows "mbuf_fwd mb mb' \<and> (e = 0 \<or> e = EBADMSG) \<and> length (rh_csrc h) = 16 \<and>
         (e = 0 \<longrightarrow> unat (rh_cc h) < 16)"
  using rtp_hdr_decode_safe [OF assms(1,3)] assms(2) by simp

theorem rtp_hdr_decode_memory_safe_witness:
  "fst (rtp_hdr_decode rtp_zero mbuf_wit) = EBADMSG \<and> mbuf_fwd mbuf_wit (snd (snd (rtp_hdr_decode rtp_zero mbuf_wit)))"
proof -
  have "mbuf_wf mbuf_wit" using mbuf_reach_ready [OF mbuf_wit_reach] by (simp add: mbuf_ready_def)
  moreover have "rtp_hdr_decode rtp_zero mbuf_wit = (EBADMSG, rtp_zero, mbuf_wit)"
    by (simp add: rtp_hdr_decode_def mbuf_wit_def mbuf_get_left_def RTP_HEADER_SIZE_def)
  ultimately show ?thesis using rtp_hdr_decode_memory_safe [of mbuf_wit rtp_zero EBADMSG rtp_zero mbuf_wit]
    by (simp add: rtp_zero_def)
qed

text \<open>C32: loss accounting across wrap-arounds of the 16 bit sequence number: after a source is
  initialised and packets arrive with gaps below 3000, all are accepted and the number of lost
  packets is the number of sequence numbers from first to last minus the packets received.\<close>

theorem rtp_loss_accounting:
  assumes "s_probation s0 = 0" "\<forall>d\<in>set ds. d < 3000" "sum_list ds \<le> 0x7ffffe" "length ds \<le> 0x7fffff"
  shows "rtp_source_calc_lost (rtp_rx (rtp_source_init_seq s0 q0) (seq_run q0 ds)) =
         int (sum_list ds) + 1 - int (length ds)"
proof -
  let ?s = "rtp_source_init_seq s0 q0" and ?s' = "rtp_rx (rtp_source_init_seq s0 q0) (seq_run q0 ds)"
  have "s_max_seq ?s = q0" "s_probation ?s = 0" "rtp_ext_seq ?s = s_base_seq ?s" "s_received ?s = 0"
    using assms(1) by (simp_all add: rtp_source_init_seq_def rtp_ext_seq_def)
  with rtp_rx_ahead [of ?s ds] assms(2)
  have r: "rtp_ext_seq ?s' = s_base_seq ?s + word_of_nat (sum_list ds)" "s_base_seq ?s' = s_base_seq ?s"
    "s_received ?s' = word_of_nat (length ds)" by simp_all
  have 1: "rtp_expected ?s' = word_of_int (int (sum_list ds) + 1)" by (simp add: rtp_expected_ext r)
  have 2: "s_received ?s' = word_of_int (int (length ds))" by (simp add: r)
  show ?thesis by (rule rtp_calc_lost_eq [OF 1 2]) (use assms(3,4) in linarith)
qed

definition src_wit :: rtp_source where
  "src_wit = \<lparr>s_max_seq = 0, s_cycles = 0, s_base_seq = 0, s_bad_seq = 0, s_probation = 0, s_received = 0,
     s_expected_prior = 0, s_received_prior = 0, s_transit = 0, s_jitter = 0, s_rtp_rx_bytes = 0,
     s_sr_recv = 0, s_last_sr = \<lparr>ntp_hi = 0, ntp_lo = 0\<rparr>, s_rtp_ts = 0, s_last_rtp_ts = 0,
     s_psent = 0, s_osent = 0\<rparr>"

theorem rtp_loss_accounting_witness:
  "rtp_source_calc_lost (rtp_rx (rtp_source_init_seq src_wit 0xfffe) [0xfffe, 0xffff, 2]) = 2"
proof -
  have "seq_run 0xfffe [0, 1, 3] = [0xfffe, 0xffff, 2]" by simp
  then show ?thesis using rtp_loss_accounting [of src_wit "[0, 1, 3]" "0xfffe"]
    by (simp add: src_wit_def del: seq_run.simps)
qed

text \<open>\<^verbatim>\<open>rtp_seq_less\<close> orders sequence numbers modulo \<open>2 ^ 16\<close>: \<open>x\<close> is less
  than exactly the \<open>2 ^ 15\<close> numbers after it, and \<^verbatim>\<open>rtp_seq_diff\<close> is the distance.\<close>

theorem rtp_seq_order:
  "(rtp_seq_less x y \<longleftrightarrow> 0 < unat (y - x) \<and> unat (y - x) \<le> 2 ^ 15) \<and>
   rtp_seq_diff x y = (if unat (y - x) < 2 ^ 15 then int (unat (y - x)) else int (unat (y - x)) - 2 ^ 16)"
proof -
  have "x - y = - (y - x)" by simp
  then have "unat (x - y) = (if y - x = 0 then 0 else 2 ^ 16 - unat (y - x))"
    using unat_uminus [of "y - x"] by simp
  then have "rtp_seq_less x y \<longleftrightarrow> 0 < unat (y - x) \<and> unat (y - x) \<le> 2 ^ 15"
    using unsigned_less [of "y - x", where ?'a = nat] sint_cases [of "x - y"] unat_eq_0 [of "y - x"]
    by (auto simp: rtp_seq_less_def split: if_splits)
  then show ?thesis using sint_cases [of "y - x"] by (simp add: rtp_seq_diff_def)
qed

text \<open>The compact NTP format (16.16 fixed point seconds) is converted to microseconds exactly,
  rounding down, without overflow.\<close>

theorem ntp_compact2us_exact: "unat (ntp_compact2us c) = unat c * 1000000 div 65536"
proof -
  let ?H = "unat c div 65536" and ?L = "unat c mod 65536"
  let ?hi = "ucast (drop_bit 16 c AND 0xffff) :: u64" and ?lo = "ucast (push_bit 16 (c AND 0xffff)) :: u64"
  have H: "?H < 65536" using unsigned_less [of c, where ?'a = nat] by (simp add: div_less_iff_less_mult)
  have hi: "unat ?hi = ?H" using H
    by (subst unat_ucast_up) (simp_all only: and_masks unat_take_bit unat_drop_bit, simp_all)
  have lo: "unat ?lo = ?L * 65536"
    by (subst unat_ucast_up) (simp_all only: and_masks unat_push_bit unat_take_bit, simp_all)
  have "unat (drop_bit 32 (1000000 * ?lo)) = 1000000 * (?L * 65536) div 2 ^ 32"
    unfolding unat_drop_bit unat_word_ariths lo by simp
  then have 2: "unat (drop_bit 32 (1000000 * ?lo)) = 1000000 * ?L div 65536" by simp
  have 1: "unat (1000000 * ?hi) = 1000000 * ?H"
    unfolding unat_word_ariths hi using H by simp
  have "1000000 * ?L div 65536 < 1000000" by (simp add: div_less_iff_less_mult)
  then have "unat (ntp_compact2us c) = 1000000 * ?H + 1000000 * ?L div 65536"
    unfolding ntp_compact2us_def Let_def unat_word_ariths(1) 1 2 using H by simp
  also have "\<dots> = (1000000 * ?L + 1000000 * ?H * 65536) div 65536"
    by (rule div_mult_self1 [symmetric]) simp
  also have "1000000 * l + 1000000 * h * 65536 = (65536 * h + l) * 1000000" for h l :: nat
    by simp
  finally show ?thesis by simp
qed

end
