(* ===== verification/Rtcp.thy ===== *)
theory Rtcp
  imports Codec
begin

text \<open>
  RTCP packets: \<^verbatim>\<open>src/src/rtp/pkt.c\<close>, \<^verbatim>\<open>rr.c\<close>, \<^verbatim>\<open>sdes.c\<close> and
  \<^verbatim>\<open>fb.c\<close>. The union of \<^verbatim>\<open>struct rtcp_msg\<close> is a datatype; vectors allocated
  next to it are lists, so their counters are lengths. The variadic arguments of
  \<^verbatim>\<open>rtcp_encode\<close> are a datatype with one constructor per packet type; an encode handler
  is a function on the buffer.

  The padding loops write zeros until the length is a multiple of four and look only at the
  buffer, not at the error code: they are \<open>partial_function\<close>s, with \<open>None\<close> for not
  returning. Sizes of structures are those of a 64 bit ABI.
\<close>

section \<open>Header and report blocks\<close>

record rtcp_hdr =
  rc_version :: u8
  rc_p :: bool
  rc_count :: u8
  rc_pt :: u8
  rc_length :: u16

definition RTCP_VERSION :: u8 where
  "RTCP_VERSION = 2"

definition RTCP_HDR_SIZE :: nat where
  "RTCP_HDR_SIZE = 4"

definition rtcp_hdr_encode :: "malloc_env \<Rightarrow> mbuf \<Rightarrow> u8 \<Rightarrow> u8 \<Rightarrow> u16 \<Rightarrow> errno \<times> mbuf" where
  "rtcp_hdr_encode al mb count type len =
     err_or (err_or (mbuf_write_u8 al mb (push_bit 6 RTCP_VERSION OR count))
       (\<lambda>mb. mbuf_write_u8 al mb type))
       (\<lambda>mb. mbuf_write_u16 al mb (htons len))"

definition rtcp_hdr_decode :: "rtcp_hdr dec" where
  "rtcp_hdr_decode =
     d_need RTCP_HDR_SIZE (d_bind d_u8 (\<lambda>b. d_bind d_u8 (\<lambda>pt. d_bind d_u16 (\<lambda>len.
       d_ret \<lparr>rc_version = drop_bit 6 b AND 0x3, rc_p = (drop_bit 5 b AND 0x1 \<noteq> 0),
              rc_count = drop_bit 0 b AND 0x1f, rc_pt = pt, rc_length = len\<rparr>))))"

record rtcp_rr =
  rr_ssrc :: u32
  rr_fraction :: u8
  rr_lost :: "24 word"
  rr_last_seq :: u32
  rr_jitter :: u32
  rr_lsr :: u32
  rr_dlsr :: u32

definition RTCP_RR_SIZE :: nat where
  "RTCP_RR_SIZE = 24"

definition rtcp_rr_encode :: "malloc_env \<Rightarrow> mbuf \<Rightarrow> rtcp_rr \<Rightarrow> errno \<times> mbuf" where
  "rtcp_rr_encode al mb rr =
     err_or (err_or (err_or (err_or (err_or
       (mbuf_write_u32 al mb (htonl (rr_ssrc rr)))
       (\<lambda>mb. mbuf_write_u32 al mb (htonl (push_bit 24 (ucast (rr_fraction rr)) OR
               (scast (rr_lost rr) AND 0x00ffffff)))))
       (\<lambda>mb. mbuf_write_u32 al mb (htonl (rr_last_seq rr))))
       (\<lambda>mb. mbuf_write_u32 al mb (htonl (rr_jitter rr))))
       (\<lambda>mb. mbuf_write_u32 al mb (htonl (rr_lsr rr))))
       (\<lambda>mb. mbuf_write_u32 al mb (htonl (rr_dlsr rr)))"

definition rtcp_rr_decode :: "rtcp_rr dec" where
  "rtcp_rr_decode =
     d_need RTCP_RR_SIZE (d_bind d_u32 (\<lambda>ssrc. d_bind d_u32 (\<lambda>w. d_bind d_u32 (\<lambda>last_seq.
       d_bind d_u32 (\<lambda>jitter. d_bind d_u32 (\<lambda>lsr. d_bind d_u32 (\<lambda>dlsr.
         d_ret \<lparr>rr_ssrc = ssrc, rr_fraction = ucast (drop_bit 24 w), rr_lost = ucast (w AND 0x00ffffff),
                rr_last_seq = last_seq, rr_jitter = jitter, rr_lsr = lsr, rr_dlsr = dlsr\<rparr>)))))))"

section \<open>Source descriptions\<close>

partial_function (option) rtcp_pad ::
  "malloc_env \<Rightarrow> (mbuf \<Rightarrow> nat) \<Rightarrow> nat \<Rightarrow> errno \<times> mbuf \<Rightarrow> (errno \<times> mbuf) option" where
  "rtcp_pad al sel start r =
     (if (int (sel (snd r)) - int start) mod 4 \<noteq> 0
      then rtcp_pad al sel start (err_or r (\<lambda>mb. mbuf_write_u8 al mb 0))
      else Some r)"

text \<open>The items loop ends early with \<open>Inl\<close> where the code jumps to \<^verbatim>\<open>out\<close>.\<close>

fun rtcp_sdes_items ::
  "malloc_env \<Rightarrow> (u8 \<times> bytes option) list \<Rightarrow> errno \<times> mbuf \<Rightarrow> (errno \<times> mbuf) + (errno \<times> mbuf)" where
  "rtcp_sdes_items al [] r = Inr r"
| "rtcp_sdes_items al ((t, v) # vs) r =
     (if fst r \<noteq> 0 then Inr r
      else case v of None \<Rightarrow> rtcp_sdes_items al vs r
           | Some s \<Rightarrow>
               if length s > 255 then Inl (EINVAL, snd r)
               else rtcp_sdes_items al vs
                      (err_or (err_or (mbuf_write_u8 al (snd r) t)
                        (\<lambda>mb. mbuf_write_u8 al mb (word_of_nat (length s) AND 0xff)))
                        (\<lambda>mb. mbuf_write_mem al mb (Some s))))"

definition rtcp_sdes_encode ::
  "malloc_env \<Rightarrow> mbuf \<Rightarrow> u32 \<Rightarrow> (u8 \<times> bytes option) list \<Rightarrow> (errno \<times> mbuf) option" where
  "rtcp_sdes_encode al mb src items =
     (if items = [] then Some (EINVAL, mb)
      else
        (case rtcp_sdes_items al items (mbuf_write_u32 al mb (htonl src)) of
           Inl r \<Rightarrow> Some r
         | Inr r \<Rightarrow> rtcp_pad al mb_pos (mb_pos mb) (err_or r (\<lambda>mb. mbuf_write_u8 al mb 0))))"

record rtcp_sdes_item =
  si_type :: u8
  si_data :: bytes

record rtcp_sdes =
  sd_src :: u32
  sd_itemv :: "rtcp_sdes_item list"

definition sizeof_sdes_item :: nat where
  "sizeof_sdes_item = 16"

text \<open>\<open>k\<close> bounds the number of items: each takes at least two bytes. \<open>n\<close> items have been
  stored before.\<close>

fun rtcp_sdes_loop :: "malloc_env \<Rightarrow> nat \<Rightarrow> nat \<Rightarrow> rtcp_sdes_item list dec" where
  "rtcp_sdes_loop al 0 n = d_ret []"
| "rtcp_sdes_loop al (Suc k) n = d_bind d_get (\<lambda>mb.
     if mbuf_get_left mb < 1 then d_ret []
     else d_bind d_u8 (\<lambda>type.
       if type = 0 then d_ret []
       else d_need 1 (d_alloc al ((n + 1) * sizeof_sdes_item) (d_bind d_u8 (\<lambda>len.
         d_need (unat len) (d_alloc al (unat len) (d_bind (d_mem (unat len)) (\<lambda>bs.
           d_bind (rtcp_sdes_loop al k (n + 1)) (\<lambda>is.
             d_ret (\<lparr>si_type = type, si_data = bs\<rparr> # is))))))))))"

text \<open>\<^verbatim>\<open>while ((mb->pos - start) & 0x3 && mbuf_get_left(mb)) ++mb->pos;\<close> takes at most three
  rounds.\<close>

fun rtcp_slurp :: "nat \<Rightarrow> nat \<Rightarrow> unit dec" where
  "rtcp_slurp 0 start = d_ret ()"
| "rtcp_slurp (Suc k) start = d_bind d_get (\<lambda>mb.
     if (int (mb_pos mb) - int start) mod 4 \<noteq> 0 \<and> mbuf_get_left mb \<noteq> 0
     then d_bind (d_advance 1) (\<lambda>_. rtcp_slurp k start) else d_ret ())"

definition rtcp_sdes_decode :: "malloc_env \<Rightarrow> rtcp_sdes dec" where
  "rtcp_sdes_decode al =
     d_need 4 (d_bind d_get (\<lambda>m0. d_bind d_u32 (\<lambda>src. d_bind d_get (\<lambda>m1.
       d_bind (rtcp_sdes_loop al (mbuf_get_left m1) 0) (\<lambda>is.
         d_bind (rtcp_slurp 3 (mb_pos m0)) (\<lambda>_. d_ret \<lparr>sd_src = src, sd_itemv = is\<rparr>))))))"

section \<open>Feedback messages\<close>

record twcc =
  tw_seq :: u16
  tw_count :: u16
  tw_reftime :: u32
  tw_fbcount :: u8
  tw_chunks :: mbuf
  tw_deltas :: mbuf

datatype rtcp_fci =
    FCI_none
  | FCI_gnack "(u16 \<times> u16) list"
  | FCI_sli "(u16 \<times> u16 \<times> u8) list"
  | FCI_fir "(u32 \<times> u8) list"
  | FCI_twcc twcc
  | FCI_afb mbuf

definition rtcp_rtpfb_gnack_encode :: "malloc_env \<Rightarrow> mbuf \<Rightarrow> u16 \<Rightarrow> u16 \<Rightarrow> errno \<times> mbuf" where
  "rtcp_rtpfb_gnack_encode al mb pid blp =
     err_or (mbuf_write_u16 al mb (htons pid)) (\<lambda>mb. mbuf_write_u16 al mb (htons blp))"

definition rtcp_rtpfb_twcc_encode :: "malloc_env \<Rightarrow> mbuf \<Rightarrow> twcc \<Rightarrow> errno \<times> mbuf" where
  "rtcp_rtpfb_twcc_encode al mb t =
     err_or (err_or (err_or (err_or
       (mbuf_write_u16 al mb (htons (tw_seq t)))
       (\<lambda>mb. mbuf_write_u16 al mb (htons (tw_count t))))
       (\<lambda>mb. mbuf_write_u32 al mb (htonl (ucast (tw_fbcount t) OR push_bit 8 (tw_reftime t)))))
       (\<lambda>mb. mbuf_write_mem al mb (Some (mbuf_left (tw_chunks t)))))
       (\<lambda>mb. mbuf_write_mem al mb (Some (mbuf_left (tw_deltas t))))"

text \<open>What one packet status chunk covers of the remaining \<open>i\<close> packets, and the bytes of receive
  deltas it announces.\<close>

definition twcc_chunk :: "nat \<Rightarrow> u16 \<Rightarrow> nat \<times> nat" where
  "twcc_chunk i chunk =
     (if chunk AND 0x8000 \<noteq> 0 then
        (if chunk AND 0x4000 \<noteq> 0 then
           (min i 7, sum_list (map (\<lambda>j. unat (drop_bit (2 * (7 - 1 - j)) chunk AND 0x03)) [0..<min i 7]))
         else
           (min i 14, sum_list (map (\<lambda>j. unat (drop_bit (14 - 1 - j) chunk AND 0x01)) [0..<min i 14])))
      else
        (let m = min i (unat (chunk AND 0x1fff)) in (m, m * unat (drop_bit 13 chunk AND 0x03))))"

text \<open>Every round takes two bytes, so \<open>k\<close> rounds are enough for \<open>2 * k - 1\<close> bytes; with
  none left the next round would report EBADMSG.\<close>

fun rtcp_twcc_chunks :: "nat \<Rightarrow> nat \<Rightarrow> nat \<Rightarrow> mbuf \<Rightarrow> (nat \<times> mbuf) dec" where
  "rtcp_twcc_chunks 0 i sz chunks = d_err EBADMSG"
| "rtcp_twcc_chunks (Suc k) i sz chunks =
     (if i = 0 then d_ret (sz, chunks)
      else d_need 2 (d_bind d_u16 (\<lambda>chunk.
        rtcp_twcc_chunks k (i - fst (twcc_chunk i chunk)) (sz + snd (twcc_chunk i chunk))
          (chunks\<lparr>mb_end := mb_end chunks + 2\<rparr>))))"

definition rtcp_rtpfb_twcc_decode :: "malloc_env \<Rightarrow> nat \<Rightarrow> twcc dec" where
  "rtcp_rtpfb_twcc_decode al n =
     d_need 8 (d_bind d_u16 (\<lambda>seq. d_bind d_u16 (\<lambda>count.
       d_check (\<not> (count = 0 \<or> count > 32768)) EBADMSG (d_bind d_u32 (\<lambda>ref.
         d_bind (d_ref al) (\<lambda>ch. d_bind d_get (\<lambda>m.
           d_bind (rtcp_twcc_chunks (mbuf_get_left m div 2 + 1) (unat count) 0 (ch\<lparr>mb_end := mb_pos ch\<rparr>))
             (\<lambda>(sz, chunks). d_need sz (d_bind (d_ref al) (\<lambda>de.
               (let sz2 = nat ((int n * 4 - 8 - int (mbuf_get_left chunks)) mod 2 ^ 64) in
                d_need sz2 (d_bind (d_advance sz2) (\<lambda>_.
                  d_ret \<lparr>tw_seq = seq, tw_count = count, tw_reftime = drop_bit 8 ref,
                         tw_fbcount = ucast (ref AND 0xff), tw_chunks = chunks,
                         tw_deltas = de\<lparr>mb_end := mb_pos de + sz\<rparr>\<rparr>)))))))))))))"

definition rtcp_rtpfb_decode :: "malloc_env \<Rightarrow> u8 \<Rightarrow> nat \<Rightarrow> (nat \<times> rtcp_fci) dec" where
  "rtcp_rtpfb_decode al count n =
     (if count = 1 then
        d_alloc al (n * 4) (d_need (n * 4)
          (d_bind (d_rep n (d_bind d_u16 (\<lambda>pid. d_bind d_u16 (\<lambda>blp. d_ret (pid, blp)))))
            (\<lambda>v. d_ret (n, FCI_gnack v))))
      else if count = 15 then
        d_need 8 (d_alloc al 32
          (d_bind (rtcp_rtpfb_twcc_decode al n) (\<lambda>t. d_ret (n, FCI_twcc t))))
      else d_ret (n, FCI_none))"

definition rtcp_psfb_decode :: "malloc_env \<Rightarrow> u8 \<Rightarrow> nat \<Rightarrow> (nat \<times> rtcp_fci) dec" where
  "rtcp_psfb_decode al count n =
     (if count = 1 then d_ret (n, FCI_none)
      else if count = 2 then
        d_alloc al (n * 6) (d_need (n * 4)
          (d_bind (d_rep n (d_bind d_u32 (\<lambda>v.
             d_ret (ucast (drop_bit 19 v AND 0x1fff), ucast (drop_bit 6 v AND 0x1fff),
                    ucast (drop_bit 0 v AND 0x003f)))))
            (\<lambda>v. d_ret (n, FCI_sli v))))
      else if count = 15 then
        d_need (n * 4) (d_bind (d_ref al) (\<lambda>m. d_bind (d_advance (n * 4)) (\<lambda>_.
          d_ret (n, FCI_afb (m\<lparr>mb_end := mb_pos m + n * 4\<rparr>)))))
      else if count = 4 then
        (let n2 = n div 2 in
         d_alloc al (n2 * 8) (d_need (n2 * 8)
           (d_bind (d_rep n2 (d_bind d_u32 (\<lambda>ssrc. d_bind d_u8 (\<lambda>sq. d_bind (d_advance 3) (\<lambda>_.
              d_ret (ssrc, sq))))))
             (\<lambda>v. d_ret (n2, FCI_fir v)))))
      else d_ret (n, FCI_none))"

section \<open>Messages\<close>

datatype rtcp_body =
    R_sr u32 u32 u32 u32 u32 u32 "rtcp_rr list"
  | R_rr u32 "rtcp_rr list"
  | R_sdes "rtcp_sdes list"
  | R_bye "u32 list" "bytes option"
  | R_app u32 bytes bytes
  | R_fir u32
  | R_nack u32 u16 u16
  | R_fb u32 u32 nat rtcp_fci
  | R_xr u32 u8 u16 "u32 list"
  | R_none

record rtcp_msg =
  rm_hdr :: rtcp_hdr
  rm_r :: rtcp_body

definition rtcp_fb_decode ::
  "(nat \<Rightarrow> (nat \<times> rtcp_fci) dec) \<Rightarrow> u16 \<Rightarrow> rtcp_body dec" where
  "rtcp_fb_decode fci len =
     d_need 8 (d_check (\<not> len < 2) EBADMSG (d_bind d_u32 (\<lambda>sp. d_bind d_u32 (\<lambda>sm.
       d_bind (fci (unat len - 2)) (\<lambda>(n, f). d_ret (R_fb sp sm n f))))))"

definition rtcp_bye_decode :: "malloc_env \<Rightarrow> nat \<Rightarrow> nat \<Rightarrow> rtcp_body dec" where
  "rtcp_bye_decode al count rem =
     d_alloc al (count * 4) (d_need (count * 4) (d_bind (d_rep count d_u32) (\<lambda>srcv.
       if rem > count * 4 then
         d_bind d_u8 (\<lambda>len. d_need (unat len) (d_bind (d_strdup al (unat len)) (\<lambda>s.
           d_ret (R_bye srcv (Some s)))))
       else d_ret (R_bye srcv None))))"

definition rtcp_app_decode :: "malloc_env \<Rightarrow> nat \<Rightarrow> rtcp_body dec" where
  "rtcp_app_decode al rem =
     d_need 8 (d_bind d_u32 (\<lambda>src. d_bind (d_mem 4) (\<lambda>name.
       if rem > 8 then
         d_alloc al (rem - 8) (d_need (rem - 8) (d_bind (d_mem (rem - 8)) (\<lambda>data.
           d_ret (R_app src name data))))
       else d_ret (R_app src name []))))"

definition rtcp_xr_decode :: "rtcp_body dec" where
  "rtcp_xr_decode =
     d_need 4 (d_bind d_u32 (\<lambda>ssrc. d_bind d_u8 (\<lambda>bt. d_bind d_u8 (\<lambda>_. d_bind d_u16 (\<lambda>len.
       if bt = 4 then d_check (len = 2) EBADMSG (d_bind (d_rep 2 d_u32) (\<lambda>v. d_ret (R_xr ssrc bt len v)))
       else if bt = 5 then d_check (len = 3) EBADMSG (d_bind (d_rep 3 d_u32) (\<lambda>v. d_ret (R_xr ssrc bt len v)))
       else d_ret (R_xr ssrc bt len []))))))"

definition rtcp_body_decode :: "malloc_env \<Rightarrow> rtcp_hdr \<Rightarrow> rtcp_body dec" where
  "rtcp_body_decode al hdr =
     (let pt = rc_pt hdr; count = unat (rc_count hdr); rem = unat (rc_length hdr) * 4 in
      if pt = 200 then
        d_need 24 (d_bind d_u32 (\<lambda>ssrc. d_bind d_u32 (\<lambda>sec. d_bind d_u32 (\<lambda>frac. d_bind d_u32 (\<lambda>ts.
          d_bind d_u32 (\<lambda>psent. d_bind d_u32 (\<lambda>osent. d_alloc al (count * 24)
            (d_bind (d_rep count rtcp_rr_decode) (\<lambda>v. d_ret (R_sr ssrc sec frac ts psent osent v))))))))))
      else if pt = 201 then
        d_need 4 (d_bind d_u32 (\<lambda>ssrc. d_alloc al (count * 24)
          (d_bind (d_rep count rtcp_rr_decode) (\<lambda>v. d_ret (R_rr ssrc v)))))
      else if pt = 202 then
        (if count = 0 then d_ret (R_sdes [])
         else d_alloc al (count * 24)
                (d_bind (d_rep count (rtcp_sdes_decode al)) (\<lambda>v. d_ret (R_sdes v))))
      else if pt = 203 then rtcp_bye_decode al count rem
      else if pt = 204 then rtcp_app_decode al rem
      else if pt = 192 then d_need 4 (d_bind d_u32 (\<lambda>ssrc. d_ret (R_fir ssrc)))
      else if pt = 193 then
        d_need 8 (d_bind d_u32 (\<lambda>ssrc. d_bind d_u16 (\<lambda>fsn. d_bind d_u16 (\<lambda>blp. d_ret (R_nack ssrc fsn blp)))))
      else if pt = 205 then rtcp_fb_decode (rtcp_rtpfb_decode al (rc_count hdr)) (rc_length hdr)
      else if pt = 206 then rtcp_fb_decode (rtcp_psfb_decode al (rc_count hdr)) (rc_length hdr)
      else if pt = 207 then rtcp_xr_decode
      else d_bind (d_advance rem) (\<lambda>_. d_ret R_none))"

definition rtcp_decode :: "malloc_env \<Rightarrow> rtcp_msg dec" where
  "rtcp_decode al =
     d_need RTCP_HDR_SIZE (d_alloc al 40 (d_bind d_get (\<lambda>m0. d_bind rtcp_hdr_decode (\<lambda>hdr.
       d_check (rc_version hdr = RTCP_VERSION) EBADMSG (d_need (unat (rc_length hdr) * 4)
         (d_bind (rtcp_body_decode al hdr) (\<lambda>r. d_bind (rtcp_slurp 3 (mb_pos m0)) (\<lambda>_.
           d_ret \<lparr>rm_hdr = hdr, rm_r = r\<rparr>))))))))"

text \<open>\<^verbatim>\<open>rtcp_recv_handler\<close>: the messages of a compound packet, in order; \<open>k\<close> bounds the
  rounds.\<close>

fun rtcp_recv_loop :: "malloc_env \<Rightarrow> nat \<Rightarrow> mbuf \<Rightarrow> rtcp_msg list \<times> errno option" where
  "rtcp_recv_loop al 0 mb = ([], None)"
| "rtcp_recv_loop al (Suc k) mb =
     (case rtcp_decode al mb of
        (Inl e, mb') \<Rightarrow> ([], Some e)
      | (Inr msg, mb') \<Rightarrow> (case rtcp_recv_loop al k mb' of (ms, r) \<Rightarrow> (msg # ms, r)))"

section \<open>Encoding\<close>

text \<open>An encode handler may change the object \<open>'s\<close> its argument points to.\<close>

type_synonym 's rtcp_encode_h = "'s \<Rightarrow> mbuf \<Rightarrow> ((errno \<times> mbuf) \<times> 's) option"

datatype 's rtcp_args =
    A_sr u32 u32 u32 u32 u32 u32 "'s rtcp_encode_h option"
  | A_rr u32 "'s rtcp_encode_h option"
  | A_sdes "'s rtcp_encode_h option"
  | A_bye "u32 list" "bytes option"
  | A_app u32 bytes "bytes option"
  | A_fir u32
  | A_nack u32 u32 u32
  | A_rtpfb u32 u32 "'s rtcp_encode_h option"
  | A_psfb u32 u32 "'s rtcp_encode_h option"
  | A_xr u32 "'s rtcp_encode_h option"
  | A_other u8

definition rtcp_ench ::
  "'s rtcp_encode_h option \<Rightarrow> 's \<Rightarrow> errno \<times> mbuf \<Rightarrow> ((errno \<times> mbuf) \<times> 's) option" where
  "rtcp_ench h st r = (case h of None \<Rightarrow> Some (r, st)
     | Some f \<Rightarrow> map_option (\<lambda>(r', st'). (err_or r (\<lambda>_. r'), st')) (f st (snd r)))"

fun rtcp_bye_srcs :: "malloc_env \<Rightarrow> u32 list \<Rightarrow> errno \<times> mbuf \<Rightarrow> errno \<times> mbuf" where
  "rtcp_bye_srcs al [] r = r"
| "rtcp_bye_srcs al (s # ss) r =
     (if fst r \<noteq> 0 then r else rtcp_bye_srcs al ss (mbuf_write_u32 al (snd r) (htonl s)))"

definition w32 :: "malloc_env \<Rightarrow> u32 \<Rightarrow> mbuf \<Rightarrow> errno \<times> mbuf" where
  "w32 al v mb = mbuf_write_u32 al mb (htonl v)"

text \<open>The packet body; \<open>Inl\<close> where the code returns at once.\<close>

fun rtcp_body_encode ::
  "malloc_env \<Rightarrow> 's rtcp_args \<Rightarrow> nat \<Rightarrow> 's \<Rightarrow> mbuf \<Rightarrow> (((errno \<times> mbuf) + (errno \<times> mbuf)) \<times> 's) option" where
  "rtcp_body_encode al (A_sr a b c d e f h) count st mb =
     map_option (apfst Inr) (rtcp_ench h st (foldl (\<lambda>r v. err_or r (w32 al v)) (0, mb) [a, b, c, d, e, f]))"
| "rtcp_body_encode al (A_rr s h) count st mb = map_option (apfst Inr) (rtcp_ench h st (w32 al s mb))"
| "rtcp_body_encode al (A_sdes h) count st mb = map_option (apfst Inr) (rtcp_ench h st (0, mb))"
| "rtcp_body_encode al (A_bye srcv reason) count st mb =
     (let r = rtcp_bye_srcs al (take count srcv) (0, mb) in
      Some (Inr (case reason of None \<Rightarrow> r
        | Some s \<Rightarrow> err_or (err_or r (\<lambda>mb. mbuf_write_u8 al mb (word_of_nat (length s))))
                      (\<lambda>mb. mbuf_write_str al mb (Some s))), st))"
| "rtcp_body_encode al (A_app src name data) count st mb =
     (let r = err_or (w32 al src mb) (\<lambda>mb. mbuf_write_mem al mb (Some (take 4 name))) in
      Some (case data of None \<Rightarrow> Inr r
        | Some d \<Rightarrow> if length d mod 4 \<noteq> 0 then Inl (EBADMSG, snd r)
                    else Inr (err_or r (\<lambda>mb. mbuf_write_mem al mb (Some d))), st))"
| "rtcp_body_encode al (A_fir s) count st mb = Some (Inr (w32 al s mb), st)"
| "rtcp_body_encode al (A_nack s f b) count st mb =
     Some (Inr (err_or (err_or (w32 al s mb) (\<lambda>mb. mbuf_write_u16 al mb (htons (ucast f))))
                  (\<lambda>mb. mbuf_write_u16 al mb (htons (ucast b)))), st)"
| "rtcp_body_encode al (A_rtpfb p m h) count st mb =
     map_option (apfst Inr) (rtcp_ench h st (err_or (w32 al p mb) (w32 al m)))"
| "rtcp_body_encode al (A_psfb p m h) count st mb =
     map_option (apfst Inr) (rtcp_ench h st (err_or (w32 al p mb) (w32 al m)))"
| "rtcp_body_encode al (A_xr s h) count st mb = map_option (apfst Inr) (rtcp_ench h st (w32 al s mb))"
| "rtcp_body_encode al (A_other t) count st mb = Some (Inl (EINVAL, mb), st)"

fun rtcp_args_type :: "'s rtcp_args \<Rightarrow> u8" where
  "rtcp_args_type (A_sr a b c d e f h) = 200"
| "rtcp_args_type (A_rr s h) = 201"
| "rtcp_args_type (A_sdes h) = 202"
| "rtcp_args_type (A_bye v r) = 203"
| "rtcp_args_type (A_app s n d) = 204"
| "rtcp_args_type (A_fir s) = 192"
| "rtcp_args_type (A_nack s f b) = 193"
| "rtcp_args_type (A_rtpfb p m h) = 205"
| "rtcp_args_type (A_psfb p m h) = 206"
| "rtcp_args_type (A_xr s h) = 207"
| "rtcp_args_type (A_other t) = t"

definition rtcp_vencode ::
  "malloc_env \<Rightarrow> mbuf \<Rightarrow> u32 \<Rightarrow> 's rtcp_args \<Rightarrow> 's \<Rightarrow> ((errno \<times> mbuf) \<times> 's) option" where
  "rtcp_vencode al mb count args st =
     (let pos = mb_pos mb;
          mb0 = mb\<lparr>mb_pos := szt (pos + RTCP_HDR_SIZE), mb_end := szt (pos + RTCP_HDR_SIZE)\<rparr> in
      case rtcp_body_encode al args (unat count) st mb0 of None \<Rightarrow> None
      | Some (Inl r, st') \<Rightarrow> Some (r, st')
      | Some (Inr r, st') \<Rightarrow>
          if fst r \<noteq> 0 then Some (r, st')
          else
            (case rtcp_pad al mb_end pos r of None \<Rightarrow> None
             | Some (err, mb1) \<Rightarrow>
                 if err \<noteq> 0 then Some ((err, mb1), st')
                 else
                   (let len = word_of_nat ((mb_end mb1 - pos - RTCP_HDR_SIZE) div 4) in
                    case rtcp_hdr_encode al (mb1\<lparr>mb_pos := pos\<rparr>) (ucast count) (rtcp_args_type args) len of
                      (err, mb2) \<Rightarrow>
                        if err \<noteq> 0 then Some ((err, mb2), st')
                        else Some ((0, mb2\<lparr>mb_pos := mb_end mb2\<rparr>), st'))))"

section \<open>Safety\<close>

lemma rtcp_hdr_decode_safe [d_safes]: "d_safe rtcp_hdr_decode"
  by (simp add: rtcp_hdr_decode_def d_safes)

lemma rtcp_rr_decode_safe [d_safes]: "d_safe rtcp_rr_decode"
  by (simp add: rtcp_rr_decode_def d_safes)

lemma rtcp_sdes_loop_safe [d_safes]: "d_safe (rtcp_sdes_loop al k n)"
  by (induction k arbitrary: n) (simp_all add: d_safes)

lemma rtcp_slurp_safe [d_safes]: "d_safe (rtcp_slurp k start)"
proof (induction k)
  case (Suc k)
  show ?case
    unfolding d_safe_def
  proof (intro allI impI)
    fix mb assume wf: "mbuf_wf mb"
    show "mbuf_fwd mb (snd (rtcp_slurp (Suc k) start mb))"
    proof (cases "mbuf_get_left mb = 0")
      case True
      then show ?thesis by (simp add: d_bind_def d_get_def d_ret_def)
    next
      case False
      then have n: "1 \<le> length (mbuf_left mb)" using wf by (cases "mbuf_left mb") (simp_all add: mbuf_rd)
      have s: "mbuf_fwd mb (mbuf_skip mb 1)" "mbuf_wf (mbuf_skip mb 1)"
        using n wf by (auto intro: mbuf_fwd_skip mbuf_wf_skip)
      have "mbuf_advance mb 1 = mbuf_skip mb 1" using mbuf_advance_skip [OF wf n] by simp
      then show ?thesis using mbuf_fwd_trans [OF s(1) d_safeD [OF Suc.IH s(2)]]
        by (simp add: d_bind_def d_get_def d_ret_def d_advance_def)
    qed
  qed
qed (simp add: d_safes)

lemma rtcp_sdes_decode_safe [d_safes]: "d_safe (rtcp_sdes_decode al)"
  by (simp add: rtcp_sdes_decode_def d_safes)

lemma rtcp_twcc_chunks_safe [d_safes]: "d_safe (rtcp_twcc_chunks k i sz ch)"
  by (induction k arbitrary: i sz ch) (simp_all add: d_safes)

lemma d_safe_need_advance: "(\<And>x. d_safe (f x)) \<Longrightarrow> d_safe (d_need n (d_bind (d_advance n) f))"
  by (rule d_safe_need_at, rule d_safe_at_bind_takes [OF d_takes_reads(6)]) (simp_all add: d_safe_at_0)

lemma rtcp_twcc_decode_safe [d_safes]: "d_safe (rtcp_rtpfb_twcc_decode al n)"
  by (simp add: rtcp_rtpfb_twcc_decode_def Let_def d_safes d_safe_need_advance)

lemma rtcp_rtpfb_decode_safe [d_safes]: "d_safe (rtcp_rtpfb_decode al count n)"
  by (simp add: rtcp_rtpfb_decode_def d_safes)

lemma fir_entry_takes:
  "d_takes 8 (d_bind d_u32 (\<lambda>ssrc. d_bind d_u8 (\<lambda>sq. d_bind (d_advance 3) (\<lambda>_. d_ret (ssrc, sq)))))"
proof -
  have "d_takes (4 + (1 + (3 + 0)))
      (d_bind d_u32 (\<lambda>ssrc. d_bind d_u8 (\<lambda>sq. d_bind (d_advance 3) (\<lambda>_. d_ret (ssrc, sq)))))"
    by (intro d_takes_bind d_takes_reads)
  then show ?thesis by simp
qed

lemma rtcp_psfb_decode_safe [d_safes]: "d_safe (rtcp_psfb_decode al count n)"
proof -
  let ?fir = "d_bind d_u32 (\<lambda>ssrc. d_bind d_u8 (\<lambda>sq. d_bind (d_advance 3) (\<lambda>_. d_ret (ssrc, sq))))"
  have "d_safe (d_need (k * 8) (d_bind (d_rep k ?fir) (\<lambda>v. d_ret (m, FCI_fir v))))" for k and m :: nat
    by (intro d_safe_need_at d_safe_at_bind d_takes_safe_at d_takes_rep fir_entry_takes d_safes)
  moreover have "d_safe (d_need (n * 4) (d_bind (d_ref al) (\<lambda>m. d_bind (d_advance (n * 4)) (\<lambda>_.
          d_ret (n, FCI_afb (m\<lparr>mb_end := mb_pos m + n * 4\<rparr>))))))"
    by (intro d_safe_need_at d_safe_at_guards(4), rule d_safe_at_bind_takes [OF d_takes_reads(6)])
      (simp_all add: d_safe_at_0 d_safes)
  ultimately show ?thesis by (simp add: rtcp_psfb_decode_def d_safes Let_def)
qed

lemma rtcp_body_decode_safe: "d_safe_at (unat (rc_length hdr) * 4) (rtcp_body_decode al hdr)"
proof -
  have b: "d_safe_at n (if b then d else d')" if "d_safe d" "d_safe_at n d'" for n b and d d' :: "'a dec"
    using that by (simp add: d_safe_at_0)
  have adv: "d_safe_at n (d_bind (d_advance n) (\<lambda>_. d_ret R_none))" for n
    by (intro d_safe_at_bind d_takes_safe_at d_takes_reads d_safes)
  show ?thesis
    unfolding rtcp_body_decode_def Let_def
    by (intro b adv) (simp_all add: d_safes rtcp_bye_decode_def rtcp_app_decode_def rtcp_fb_decode_def
        rtcp_xr_decode_def del: d_rep.simps)
qed

lemma rtcp_decode_safe: "d_safe (rtcp_decode al)"
  unfolding rtcp_decode_def
  by (intro d_safes d_safe_need_at d_safe_at_bind rtcp_body_decode_safe)

lemma rtcp_hdr_decode_takes: "d_takes 4 rtcp_hdr_decode"
proof -
  have e: "1 + (1 + (2 + 0)) = (4 :: nat)" by simp
  have "d_takes (1 + (1 + (2 + 0))) rtcp_hdr_decode"
    unfolding rtcp_hdr_decode_def
    by (rule d_takes_need) (intro d_takes_bind d_takes_reads, simp add: RTCP_HDR_SIZE_def)
  then show ?thesis unfolding e .
qed

lemma rtcp_decode_progress:
  assumes wf: "mbuf_wf mb" and r: "rtcp_decode al mb = (Inr msg, mb')"
  shows "\<exists>n\<ge>4. n \<le> length (mbuf_left mb) \<and> mb' = mbuf_skip mb n"
proof -
  have "\<not> mbuf_get_left mb < 4"
    using r by (auto simp: rtcp_decode_def d_need_def RTCP_HDR_SIZE_def split: if_splits)
  then have l: "4 \<le> length (mbuf_left mb)" using wf by (simp add: mbuf_rd)
  obtain hdr where hdr: "rtcp_hdr_decode mb = (Inr hdr, mbuf_skip mb 4)"
    using rtcp_hdr_decode_takes wf l unfolding d_takes_def by blast
  define rest where "rest = d_check (rc_version hdr = RTCP_VERSION) EBADMSG (d_need (unat (rc_length hdr) * 4)
         (d_bind (rtcp_body_decode al hdr) (\<lambda>r. d_bind (rtcp_slurp 3 (mb_pos mb)) (\<lambda>_.
           d_ret \<lparr>rm_hdr = hdr, rm_r = r\<rparr>))))"
  have "d_safe rest" unfolding rest_def
    by (intro d_safes d_safe_need_at d_safe_at_bind rtcp_body_decode_safe)
  moreover have wf4: "mbuf_wf (mbuf_skip mb 4)" using wf l by (simp add: mbuf_wf_skip)
  moreover have "rest (mbuf_skip mb 4) = (Inr msg, mb')"
    using r hdr by (auto simp: rtcp_decode_def d_need_def d_alloc_def d_err_def d_bind_def d_get_def rest_def
        split: if_splits)
  ultimately have "mbuf_fwd (mbuf_skip mb 4) mb'" using d_safeD by fastforce
  then obtain n where "n \<le> length (mbuf_left (mbuf_skip mb 4))" "mb' = mbuf_skip (mbuf_skip mb 4) n"
    unfolding mbuf_fwd_def by blast
  then show ?thesis using l by (intro exI [of _ "4 + n"]) (simp add: mbuf_left_skip)
qed

lemma rtcp_recv_loop_ends:
  "mbuf_wf mb \<Longrightarrow> length (mbuf_left mb) div 4 < k \<Longrightarrow>
     \<exists>ms e. rtcp_recv_loop al k mb = (ms, Some e) \<and> length ms \<le> length (mbuf_left mb) div 4 \<and>
       (\<forall>j\<ge>k. rtcp_recv_loop al j mb = (ms, Some e))"
proof (induction k arbitrary: mb)
  case (Suc k)
  have j: "\<exists>i. j = Suc i \<and> k \<le> i" if "Suc k \<le> j" for j using that by (cases j) auto
  obtain r mb' where d: "rtcp_decode al mb = (r, mb')" by fastforce
  show ?case
  proof (cases r)
    case (Inl e)
    then have "rtcp_recv_loop al j mb = ([], Some e)" if "Suc k \<le> j" for j using d j [OF that] by auto
    then show ?thesis by (intro exI [of _ "[]"] exI [of _ e]) (simp del: rtcp_recv_loop.simps)
  next
    case (Inr msg)
    then obtain n where n: "4 \<le> n" "n \<le> length (mbuf_left mb)" "mb' = mbuf_skip mb n"
      using rtcp_decode_progress Suc.prems(1) d by blast
    have wf: "mbuf_wf mb'" using n Suc.prems(1) by (simp add: mbuf_wf_skip)
    have len: "length (mbuf_left mb') div 4 < length (mbuf_left mb) div 4"
    proof -
      have "length (mbuf_left mb') \<le> length (mbuf_left mb) - 4" using n by (simp add: mbuf_left_skip)
      then have "length (mbuf_left mb') div 4 \<le> (length (mbuf_left mb) - 4) div 4" by (rule div_le_mono)
      also have "\<dots> = length (mbuf_left mb) div 4 - 1" using n by (simp add: le_div_geq)
      finally show ?thesis using n by (simp add: le_div_geq)
    qed
    with Suc.prems(2) Suc.IH [OF wf] obtain ms e where
      m: "rtcp_recv_loop al k mb' = (ms, Some e)" "length ms \<le> length (mbuf_left mb') div 4"
        "\<forall>j\<ge>k. rtcp_recv_loop al j mb' = (ms, Some e)" by auto
    have "rtcp_recv_loop al j mb = (msg # ms, Some e)" if "Suc k \<le> j" for j
      using j [OF that] m(3) d Inr by auto
    then show ?thesis using m(2) len
      by (intro exI [of _ "msg # ms"] exI [of _ e]) (simp del: rtcp_recv_loop.simps)
  qed
qed simp

section \<open>Codecs\<close>

lemma rr_word:
  fixes fr :: u8 and lo :: "24 word"
  defines "w \<equiv> push_bit 24 (ucast fr) OR (scast lo AND 0xffffff) :: u32"
  shows "ucast (drop_bit 24 w) = fr" "ucast (w AND 0xffffff) = lo"
proof -
  have b: "bit w n \<longleftrightarrow> n < 32 \<and> (24 \<le> n \<and> bit fr (n - 24) \<or> n < 24 \<and> bit lo n)" for n
    using bit_imp_le_length [of fr "n - 24"]
    by (cases "n = 23") (auto simp: w_def and_masks bit_or_iff bit_push_bit_iff bit_ucast_iff bit_take_bit_iff bit_signed_iff
        min_def)
  show "ucast (drop_bit 24 w) = fr"
    by (rule bit_word_eqI) (simp add: bit_ucast_iff bit_drop_bit_eq b)
  show "ucast (w AND 0xffffff) = lo"
    by (rule bit_word_eqI) (auto simp: bit_ucast_iff and_masks bit_take_bit_iff b)
qed

definition rr_img :: "rtcp_rr \<Rightarrow> bytes" where
  "rr_img rr = be32 (rr_ssrc rr) @ be32 (push_bit 24 (ucast (rr_fraction rr)) OR (scast (rr_lost rr) AND 0xffffff)) @
     be32 (rr_last_seq rr) @ be32 (rr_jitter rr) @ be32 (rr_lsr rr) @ be32 (rr_dlsr rr)"

lemma length_rr_img [simp]: "length (rr_img rr) = 24"
  by (simp add: rr_img_def)

lemma rr_parses: "parses rtcp_rr_decode (rr_img rr) rr"
proof -
  let ?w = "push_bit 24 (ucast (rr_fraction rr)) OR (scast (rr_lost rr) AND 0xffffff) :: u32"
  have "parses rtcp_rr_decode
     (be32 (rr_ssrc rr) @ be32 ?w @ be32 (rr_last_seq rr) @ be32 (rr_jitter rr) @ be32 (rr_lsr rr) @
      be32 (rr_dlsr rr) @ []) rr"
    unfolding rtcp_rr_decode_def RTCP_RR_SIZE_def
    apply (rule parses_need, simp)
    apply (rule parses_bind [OF parses_u32])+
    using parses_ret [of rr] rr_word [of "rr_fraction rr" "rr_lost rr"] by (cases rr) simp
  then show ?thesis by (simp add: rr_img_def)
qed

lemma rr_adds: "adds (rr_img rr) (\<lambda>mb. rtcp_rr_encode al mb rr)"
  using adds_seq [OF adds_seq [OF adds_seq [OF adds_seq [OF adds_seq [OF adds_ints(3) adds_ints(3)]
      adds_ints(3)] adds_ints(3)] adds_ints(3)] adds_ints(3)]
  unfolding rtcp_rr_encode_def rr_img_def by (simp only: append.assoc)

lemma rr_fits: "fits 24 (\<lambda>mb. rtcp_rr_encode al mb rr)"
  using fits_seq [OF fits_seq [OF fits_seq [OF fits_seq [OF fits_seq [OF fits_ints(3) fits_ints(3)]
      fits_ints(3)] fits_ints(3)] fits_ints(3)] fits_ints(3)]
  unfolding rtcp_rr_encode_def by simp

interpretation rr: mbuf_codec rtcp_rr_encode rtcp_rr_decode rr_img "\<lambda>_. True"
  by unfold_locales (simp_all add: rr_adds rr_fits rr_parses)

definition rtcp_hdr_img :: "rtcp_hdr \<Rightarrow> bytes" where
  "rtcp_hdr_img h = [push_bit 6 RTCP_VERSION OR rc_count h, rc_pt h] @ be16 (rc_length h)"

definition rtcp_hdr_ok :: "rtcp_hdr \<Rightarrow> bool" where
  "rtcp_hdr_ok h \<longleftrightarrow> rc_version h = RTCP_VERSION \<and> \<not> rc_p h \<and> unat (rc_count h) < 32"

lemma count_table:
  "list_all (\<lambda>i. let b = 0x80 OR word_of_nat i :: u8 in
     drop_bit 6 b AND 0x3 = 2 \<and> drop_bit 5 b AND 0x1 = 0 \<and> b AND 0x1f = word_of_nat i) [0..<32]"
  by code_simp

lemma count_fields:
  assumes "unat c < 32"
  shows "drop_bit 6 (0x80 OR c :: u8) AND 0x3 = 2" "drop_bit 5 (0x80 OR c) AND 0x1 = 0"
    "(0x80 OR c) AND 0x1f = c"
proof -
  have "unat c \<in> set [0..<32]" using assms by simp
  from bspec [OF count_table [unfolded list_all_iff] this]
  show "drop_bit 6 (0x80 OR c :: u8) AND 0x3 = 2" "drop_bit 5 (0x80 OR c) AND 0x1 = 0"
    "(0x80 OR c) AND 0x1f = c"
    by (simp_all add: Let_def)
qed

lemma rtcp_hdr_parses:
  assumes "rtcp_hdr_ok h"
  shows "parses rtcp_hdr_decode (rtcp_hdr_img h) h"
proof -
  have c: "unat (rc_count h) < 32" and v: "rc_version h = 2" "\<not> rc_p h"
    using assms by (simp_all add: rtcp_hdr_ok_def RTCP_VERSION_def)
  have "parses rtcp_hdr_decode ([0x80 OR rc_count h] @ [rc_pt h] @ be16 (rc_length h) @ []) h"
    unfolding rtcp_hdr_decode_def
    apply (rule parses_need, simp add: RTCP_HDR_SIZE_def)
    apply (rule parses_bind [OF parses_u8])+
    apply (rule parses_bind [OF parses_u16])
    using parses_ret [of h] v count_fields [OF c] by (cases h) simp
  then show ?thesis by (simp add: rtcp_hdr_img_def RTCP_VERSION_def)
qed

definition rtcp_hdr_enc :: "malloc_env \<Rightarrow> mbuf \<Rightarrow> rtcp_hdr \<Rightarrow> errno \<times> mbuf" where
  "rtcp_hdr_enc al mb h = rtcp_hdr_encode al mb (rc_count h) (rc_pt h) (rc_length h)"

lemma rtcp_hdr_adds: "adds (rtcp_hdr_img h) (\<lambda>mb. rtcp_hdr_enc al mb h)"
  using adds_seq [OF adds_seq [OF adds_ints(1) adds_ints(1)] adds_ints(2)]
  unfolding rtcp_hdr_enc_def rtcp_hdr_encode_def rtcp_hdr_img_def by simp

lemma length_rtcp_hdr_img [simp]: "length (rtcp_hdr_img h) = 4"
  by (simp add: rtcp_hdr_img_def)

lemma rtcp_hdr_fits: "fits 4 (\<lambda>mb. rtcp_hdr_enc al mb h)"
  using fits_seq [OF fits_seq [OF fits_ints(1) fits_ints(1)] fits_ints(2)]
  unfolding rtcp_hdr_enc_def rtcp_hdr_encode_def by (simp add: numeral_eq_Suc)

interpretation rtcp_hdr: mbuf_codec rtcp_hdr_enc rtcp_hdr_decode rtcp_hdr_img rtcp_hdr_ok
  by unfold_locales (simp_all add: rtcp_hdr_adds rtcp_hdr_fits rtcp_hdr_parses)

section \<open>Padding\<close>

text \<open>Where the writes succeed the loop stops after at most three bytes; where the allocator refuses
  to grow a full block it never does.\<close>

lemma rtcp_pad_aligned: "(int (sel mb) - int start) mod 4 = 0 \<Longrightarrow> rtcp_pad al sel start (e, mb) = Some (e, mb)"
  by (simp add: rtcp_pad.simps)

lemma rtcp_pad_stuck:
  assumes "rtcp_pad al sel start r = Some r'"
  shows "mbuf_write_u8 al (snd r) 0 = (ENOMEM, snd r) \<longrightarrow> (int (sel (snd r)) - int start) mod 4 = 0"
proof (rule rtcp_pad.raw_induct [OF _ assms, where P =
      "\<lambda>al sel start r r'. mbuf_write_u8 al (snd r) 0 = (ENOMEM, snd r) \<longrightarrow>
         (int (sel (snd r)) - int start) mod 4 = 0"])
  fix f al sel start r r'
  assume IH: "\<And>al sel start r r'. f al sel start r = Some r' \<Longrightarrow>
      mbuf_write_u8 al (snd r) 0 = (ENOMEM, snd r) \<longrightarrow> (int (sel (snd r)) - int start) mod 4 = 0"
    and eq: "(if (int (sel (snd r)) - int start) mod 4 \<noteq> 0
       then f al sel start (err_or r (\<lambda>mb. mbuf_write_u8 al mb 0)) else Some r) = Some r'"
  show "mbuf_write_u8 al (snd r) 0 = (ENOMEM, snd r) \<longrightarrow> (int (sel (snd r)) - int start) mod 4 = 0"
  proof
    assume w: "mbuf_write_u8 al (snd r) 0 = (ENOMEM, snd r)"
    then have s: "snd (err_or r (\<lambda>mb. mbuf_write_u8 al mb 0)) = snd r"
      by (simp add: err_or_def split_def)
    show "(int (sel (snd r)) - int start) mod 4 = 0"
    proof (rule ccontr)
      assume n: "(int (sel (snd r)) - int start) mod 4 \<noteq> 0"
      with eq have "f al sel start (err_or r (\<lambda>mb. mbuf_write_u8 al mb 0)) = Some r'" by simp
      from IH [OF this] w s n show False by simp
    qed
  qed
qed

lemma rtcp_pad_diverges:
  "mbuf_write_u8 al mb 0 = (ENOMEM, mb) \<Longrightarrow> (int (sel mb) - int start) mod 4 \<noteq> 0 \<Longrightarrow>
     rtcp_pad al sel start (e, mb) = None"
  using rtcp_pad_stuck [of al sel start "(e, mb)"] by (cases "rtcp_pad al sel start (e, mb)") auto

section \<open>Encoding and decoding messages\<close>

lemma diff_mod4: "start \<le> e \<Longrightarrow> (int e - int start) mod 4 = int ((e - start) mod 4)"
  by (simp add: of_nat_diff zmod_int)

lemma rtcp_pad_room:
  assumes "mbuf_ready mb" "mb_pos mb = mb_end mb" "start \<le> mb_end mb"
    "mb_end mb + pad_len (mb_end mb - start) \<le> mb_size mb"
  shows "\<exists>mb'. rtcp_pad al mb_end start (0, mb) = Some (0, mb') \<and> mbuf_ready mb' \<and>
     mb_pos mb' = mb_end mb' \<and> mb_size mb' = mb_size mb \<and>
     mbuf_content mb' = mbuf_content mb @ replicate (pad_len (mb_end mb - start)) 0"
  using assms
proof (induction "pad_len (mb_end mb - start)" arbitrary: mb)
  case 0
  then have "(mb_end mb - start) mod 4 = 0" using pad_len_simps(3) by simp
  then have "(int (mb_end mb) - int start) mod 4 = 0"
    using diff_mod4 [OF 0(4)] by simp
  then show ?case using 0 by (simp add: rtcp_pad_aligned)
next
  case (Suc k)
  let ?n = "mb_end mb - start"
  have nz: "?n mod 4 \<noteq> 0" using Suc.hyps(2) pad_len_simps(3) [of ?n] by simp
  then have nz': "(int (mb_end mb) - int start) mod 4 \<noteq> 0"
    using diff_mod4 [OF Suc.prems(3)] by simp
  have "mb_size mb < 2 ^ 64" "mb_pos mb + 1 \<le> mb_size mb"
    using Suc.prems Suc.hyps(2) by (auto simp: mbuf_ready_def mbuf_wf_def MEM_SIZE_MAX_def)
  then obtain mb1 where w: "mbuf_write_u8 al mb 0 = (0, mb1)" "mb_size mb1 = mb_size mb"
    using fitsD [OF fits_ints(1)] by metis
  note a = adds_at_end [OF Suc.prems(1,2) adds_ints(1) w(1)]
  have n1: "mb_end mb1 - start = Suc ?n" using a(3) Suc.prems(3) by simp
  have k: "pad_len (mb_end mb1 - start) = k" using pad_len_simps(4) [OF nz] Suc.hyps(2) n1 by simp
  have "start \<le> mb_end mb1" "mb_end mb1 + pad_len (mb_end mb1 - start) \<le> mb_size mb1"
    using a(3) Suc.prems(3,4) Suc.hyps(2) k w(2) by simp_all
  from Suc.hyps(1) [OF k [symmetric] a(1,2) this] obtain mb' where
    "rtcp_pad al mb_end start (0, mb1) = Some (0, mb')" "mbuf_ready mb'" "mb_pos mb' = mb_end mb'"
    "mb_size mb' = mb_size mb1" "mbuf_content mb' = mbuf_content mb1 @ replicate k 0" using k by auto
  moreover have "rtcp_pad al mb_end start (0, mb) = rtcp_pad al mb_end start (0, mb1)"
    using nz' w(1) by (simp add: rtcp_pad.simps [of al mb_end start "(0, mb)"] err_or_def)
  ultimately show ?case using a(4) w(2) Suc.hyps(2) [symmetric] by simp
qed

definition rtcp_pkt :: "u32 \<Rightarrow> u8 \<Rightarrow> bytes \<Rightarrow> bytes" where
  "rtcp_pkt count type bs =
     rtcp_hdr_img \<lparr>rc_version = RTCP_VERSION, rc_p = False, rc_count = ucast count, rc_pt = type,
       rc_length = word_of_nat ((length bs + pad_len (length bs)) div 4)\<rparr> @
     bs @ replicate (pad_len (length bs)) 0"

lemma rtcp_vencode_room:
  assumes rd: "mbuf_ready mb" and room: "mb_pos mb + length (rtcp_pkt count (rtcp_args_type args) bs) \<le> mb_size mb"
    and body: "rtcp_body_encode al args (unat count) st (mb\<lparr>mb_pos := mb_pos mb + 4, mb_end := mb_pos mb + 4\<rparr>) =
      Some (Inr (g (mb\<lparr>mb_pos := mb_pos mb + 4, mb_end := mb_pos mb + 4\<rparr>)), st')"
    and g: "adds bs g" "fits (length bs) g"
  shows "\<exists>mb'. rtcp_vencode al mb count args st = Some ((0, mb'), st') \<and> mbuf_ready mb' \<and> mb_pos mb' = mb_end mb' \<and>
     mbuf_content mb' = take (mb_pos mb) (mbuf_content mb) @ rtcp_pkt count (rtcp_args_type args) bs"
proof -
  let ?p = "mb_pos mb" and ?z = "pad_len (length bs)"
  let ?mb0 = "mb\<lparr>mb_pos := ?p + 4, mb_end := ?p + 4\<rparr>"
  have room': "?p + 4 + length bs + ?z \<le> mb_size mb" using room by (simp add: rtcp_pkt_def)
  have sz: "mb_size mb < 2 ^ 64" using rd by (simp add: mbuf_ready_def mbuf_wf_def MEM_SIZE_MAX_def)
  have szt4: "szt (?p + 4) = ?p + 4" using room' sz by simp
  have r0: "mbuf_ready ?mb0" using rd room' by (auto simp: mbuf_ready_def mbuf_wf_def mbuf_bytes_def MEM_SIZE_MAX_def)
  have c0: "take ?p (mbuf_content ?mb0) = take ?p (mbuf_content mb)" "length (mbuf_content ?mb0) = ?p + 4"
    using rd r0 by (auto simp: mbuf_content_def mbuf_bytes_def mbuf_ready_def mbuf_wf_def min_def)
  have "mb_pos ?mb0 + length bs \<le> mb_size ?mb0" "mb_size ?mb0 < 2 ^ 64" using room' sz by simp_all
  then obtain mb1 where 1: "g ?mb0 = (0, mb1)" "mb_size mb1 = mb_size ?mb0" using fitsD [OF g(2)] by metis
  have "mb_pos ?mb0 = mb_end ?mb0" by simp
  note a1 = adds_at_end [OF r0 this g(1) 1(1)]
  have e1: "mb_end mb1 - ?p = 4 + length bs" "?p \<le> mb_end mb1" using a1(3) by simp_all
  have z: "pad_len (mb_end mb1 - ?p) = ?z" by (simp add: e1 pad_len_def)
  have "mb_end mb1 + pad_len (mb_end mb1 - ?p) \<le> mb_size mb1" using room' a1(3) 1(2) z by simp
  from rtcp_pad_room [OF a1(1,2) e1(2) this] obtain mb2 where
    2: "rtcp_pad al mb_end ?p (0, mb1) = Some (0, mb2)" "mbuf_ready mb2" "mb_pos mb2 = mb_end mb2"
      "mb_size mb2 = mb_size mb1" "mbuf_content mb2 = mbuf_content ?mb0 @ bs @ replicate ?z 0"
    using a1(4) z by auto
  have e2: "mb_end mb2 = ?p + 4 + length bs + ?z"
    using 2(2,5) c0(2) length_mbuf_content [of mb2] by (simp add: mbuf_ready_def)
  let ?len = "word_of_nat ((length bs + ?z) div 4) :: u16" and ?mb3 = "mb2\<lparr>mb_pos := ?p\<rparr>"
  let ?h = "\<lparr>rc_version = RTCP_VERSION, rc_p = False, rc_count = ucast count, rc_pt = rtcp_args_type args,
       rc_length = ?len\<rparr>"
  have r3: "mbuf_ready ?mb3" using 2(2) e2 by (auto simp: mbuf_ready_def mbuf_wf_def mbuf_bytes_def MEM_SIZE_MAX_def)
  have "mb_pos ?mb3 + length (rtcp_hdr_img ?h) \<le> mb_size ?mb3" "mb_size ?mb3 < 2 ^ 64"
    using room' sz 2(4) 1(2) by simp_all
  then obtain mb4 where 4: "rtcp_hdr_enc al ?mb3 ?h = (0, mb4)" using fitsD [OF rtcp_hdr_fits] by (metis length_rtcp_hdr_img)
  note a4 = addsD [OF rtcp_hdr_adds r3 4]
  have c2: "mbuf_content ?mb3 = mbuf_content mb2" by (simp add: mbuf_content_def mbuf_bytes_def)
  have c4: "mbuf_content mb4 = take ?p (mbuf_content mb) @ rtcp_pkt count (rtcp_args_type args) bs"
    using a4(3) c0 by (simp add: c2 2(5) mem_put_def rtcp_pkt_def)
  have "rtcp_vencode al mb count args st = Some ((0, mb4\<lparr>mb_pos := mb_end mb4\<rparr>), st')"
    using 1(1) 2(1) 4 by (simp add: rtcp_vencode_def RTCP_HDR_SIZE_def Let_def szt4 body e2 rtcp_hdr_enc_def)
  moreover have "mbuf_ready (mb4\<lparr>mb_pos := mb_end mb4\<rparr>)"
    using a4(1) by (auto simp: mbuf_ready_def mbuf_wf_def mbuf_bytes_def MEM_SIZE_MAX_def)
  moreover have "mbuf_content (mb4\<lparr>mb_pos := mb_end mb4\<rparr>) = mbuf_content mb4"
    by (simp add: mbuf_content_def mbuf_bytes_def)
  ultimately show ?thesis using c4 by auto
qed

text \<open>The messages whose encoding and decoding are inverse to each other, with the arguments that
  encode them. The string of a BYE reason is stored with its NUL.\<close>

definition rr_ench :: "malloc_env \<Rightarrow> rtcp_rr list \<Rightarrow> 's rtcp_encode_h" where
  "rr_ench al v st m = Some (foldl (\<lambda>r x. err_or r (\<lambda>mb. rtcp_rr_encode al mb x)) (0, m) v, st)"

fun rtcp_body_args :: "malloc_env \<Rightarrow> rtcp_body \<Rightarrow> 's rtcp_args" where
  "rtcp_body_args al (R_sr a b c d e f v) = A_sr a b c d e f (Some (rr_ench al v))"
| "rtcp_body_args al (R_rr s v) = A_rr s (Some (rr_ench al v))"
| "rtcp_body_args al (R_bye v r) = A_bye v (map_option butlast r)"
| "rtcp_body_args al (R_app s n d) = A_app s n (Some d)"
| "rtcp_body_args al (R_fir s) = A_fir s"
| "rtcp_body_args al (R_nack s f b) = A_nack s (ucast f) (ucast b)"
| "rtcp_body_args al _ = A_other 0"

fun rtcp_body_count :: "rtcp_body \<Rightarrow> nat" where
  "rtcp_body_count (R_sr a b c d e f v) = length v"
| "rtcp_body_count (R_rr s v) = length v"
| "rtcp_body_count (R_bye v r) = length v"
| "rtcp_body_count _ = 0"

fun rtcp_body_img :: "rtcp_body \<Rightarrow> bytes" where
  "rtcp_body_img (R_sr a b c d e f v) =
     be32 a @ be32 b @ be32 c @ be32 d @ be32 e @ be32 f @ concat (map rr_img v)"
| "rtcp_body_img (R_rr s v) = be32 s @ concat (map rr_img v)"
| "rtcp_body_img (R_bye v r) = concat (map be32 v) @
     (case r of None \<Rightarrow> [] | Some s \<Rightarrow> [word_of_nat (length s - 1)] @ butlast s)"
| "rtcp_body_img (R_app s n d) = be32 s @ n @ d"
| "rtcp_body_img (R_fir s) = be32 s"
| "rtcp_body_img (R_nack s f b) = be32 s @ be16 f @ be16 b"
| "rtcp_body_img _ = []"

fun rtcp_body_ok :: "rtcp_body \<Rightarrow> bool" where
  "rtcp_body_ok (R_sr a b c d e f v) = (length v < 32)"
| "rtcp_body_ok (R_rr s v) = (length v < 32)"
| "rtcp_body_ok (R_bye v r) = (length v < 32 \<and> (case r of None \<Rightarrow> True
     | Some s \<Rightarrow> s \<noteq> [] \<and> last s = 0 \<and> length s \<le> 256))"
| "rtcp_body_ok (R_app s n d) = (length n = 4 \<and> length d mod 4 = 0 \<and> length d \<le> 65533 * 4)"
| "rtcp_body_ok (R_fir s) = True"
| "rtcp_body_ok (R_nack s f b) = True"
| "rtcp_body_ok _ = False"

lemma concat_len: "(\<And>x. length (img x) = n) \<Longrightarrow> length (concat (map img xs)) = n * length xs"
  by (induction xs) simp_all

lemma w32_adds [adds_intros]: "adds (be32 v) (w32 al v)"
  using adds_ints(3) [of v al] by (simp add: w32_def [abs_def])

lemma w32_fits [fits_intros]: "fits 4 (w32 al v)"
  using fits_ints(3) [of al] by (simp add: w32_def [abs_def])

lemma rr_fold:
  "adds (concat (map rr_img v)) (\<lambda>m. foldl (\<lambda>r x. err_or r (\<lambda>mb. rtcp_rr_encode al mb x)) (0, m) v)"
  "fits (24 * length v) (\<lambda>m. foldl (\<lambda>r x. err_or r (\<lambda>mb. rtcp_rr_encode al mb x)) (0, m) v)"
  using adds_fold [OF adds_nil, of v rr_img "\<lambda>x mb. rtcp_rr_encode al mb x"]
    fits_fold [OF fits_nil, of v "\<lambda>_. 24" "\<lambda>x mb. rtcp_rr_encode al mb x"]
  by (simp_all add: rr_adds rr_fits sum_list_triv mult.commute)

lemma rr_ench_or: "rtcp_ench (Some (rr_ench al v)) st r =
    Some (err_or r (\<lambda>m. foldl (\<lambda>r x. err_or r (\<lambda>mb. rtcp_rr_encode al mb x)) (0, m) v), st)"
  by (simp add: rtcp_ench_def rr_ench_def err_or_def split_def)

text \<open>The BYE loop stops at the first error, so it adds its sources like a sequence of writes.\<close>

lemma bye_srcs_adds: "adds (concat (map be32 v)) (\<lambda>m. rtcp_bye_srcs al v (0, m))"
proof (induction v)
  case Nil
  then show ?case by (simp add: adds_nil)
next
  case (Cons s v)
  show ?case
    unfolding adds_def
  proof (intro allI impI)
    fix mb mb'
    assume rd: "mbuf_ready mb" and r: "rtcp_bye_srcs al (s # v) (0, mb) = (0, mb')"
    obtain e mb1 where w: "w32 al s mb = (e, mb1)" by fastforce
    have st: "rtcp_bye_srcs al v (e, mb1) = (e, mb1)" if "e \<noteq> 0" using that by (cases v) simp_all
    then have e: "e = 0" using r w by (cases "e = 0") (simp_all add: w32_def)
    have "err_or (w32 al s mb) (\<lambda>m. rtcp_bye_srcs al v (0, m)) = (0, mb')"
      using r w e by (simp add: w32_def err_or_def)
    from addsD [OF adds_seq [OF w32_adds Cons.IH] rd this]
    show "mbuf_ready mb' \<and> mb_pos mb' = mb_pos mb + length (concat (map be32 (s # v))) \<and>
       mbuf_content mb' = mem_put (mb_pos mb) (concat (map be32 (s # v))) (mbuf_content mb)" by simp
  qed
qed

lemma bye_srcs_fits: "fits (4 * length v) (\<lambda>m. rtcp_bye_srcs al v (0, m))"
proof (induction v)
  case Nil
  then show ?case by (simp add: fits_nil)
next
  case (Cons s v)
  show ?case
    unfolding fits_def
  proof (intro allI impI)
    fix mb :: mbuf
    assume m: "mb_pos mb + 4 * length (s # v) \<le> mb_size mb" "mb_size mb < 2 ^ 64"
    then have "mb_pos mb + 4 \<le> mb_size mb" by simp
    then obtain mb1 where w: "w32 al s mb = (0, mb1)" "mb_size mb1 = mb_size mb" "mb_pos mb1 = mb_pos mb + 4"
      using fitsD [OF w32_fits _ m(2)] by metis
    have "mb_pos mb1 + 4 * length v \<le> mb_size mb1" "mb_size mb1 < 2 ^ 64" using m w by simp_all
    then obtain mb2 where "rtcp_bye_srcs al v (0, mb1) = (0, mb2)" "mb_size mb2 = mb_size mb1"
      "mb_pos mb2 = mb_pos mb1 + 4 * length v" using fitsD [OF Cons.IH] by metis
    then show "\<exists>mb'. rtcp_bye_srcs al (s # v) (0, mb) = (0, mb') \<and> mb_size mb' = mb_size mb \<and>
        mb_pos mb' = mb_pos mb + 4 * length (s # v)"
      using w by (simp add: w32_def)
  qed
qed

lemma rtcp_body_encode_ok:
  assumes "rtcp_body_ok r"
  shows "\<exists>g. (\<forall>m. rtcp_body_encode al (rtcp_body_args al r) (rtcp_body_count r) st m = Some (Inr (g m), st)) \<and>
     adds (rtcp_body_img r) g \<and> fits (length (rtcp_body_img r)) g"
proof (cases r)
  case (R_sr a b c d e f v)
  have "adds (rtcp_body_img r) (\<lambda>m. err_or (foldl (\<lambda>r v. err_or r (w32 al v)) (0, m) [a, b, c, d, e, f])
      (\<lambda>m. foldl (\<lambda>r x. err_or r (\<lambda>mb. rtcp_rr_encode al mb x)) (0, m) v))"
    using adds_seq [OF adds_fold [OF adds_nil, of "[a, b, c, d, e, f]" be32 "w32 al"] rr_fold(1) [of v al]]
    by (simp add: w32_adds R_sr)
  moreover have "fits (length (rtcp_body_img r))
      (\<lambda>m. err_or (foldl (\<lambda>r v. err_or r (w32 al v)) (0, m) [a, b, c, d, e, f])
      (\<lambda>m. foldl (\<lambda>r x. err_or r (\<lambda>mb. rtcp_rr_encode al mb x)) (0, m) v))"
    using fits_seq [OF fits_fold [OF fits_nil, of "[a, b, c, d, e, f]" "\<lambda>_. 4" "w32 al"] rr_fold(2) [of v al]]
    by (simp add: w32_fits R_sr concat_len [of rr_img 24])
  ultimately show ?thesis using R_sr by (auto simp: rr_ench_or)
next
  case (R_rr s v)
  show ?thesis
    using R_rr adds_seq [OF w32_adds rr_fold(1)] fits_seq [OF w32_fits rr_fold(2)]
    by (auto simp: rr_ench_or concat_len [of rr_img 24])
next
  case (R_bye v reason)
  show ?thesis
  proof (cases reason)
    case None
    then show ?thesis using R_bye bye_srcs_adds bye_srcs_fits by (auto simp: concat_len [of be32 4])
  next
    case (Some s)
    let ?s = "butlast s"
    have l: "length ?s < 2 ^ 32" using assms R_bye Some by auto
    show ?thesis
      using R_bye Some adds_seq [OF adds_seq [OF bye_srcs_adds adds_ints(1)] adds_ints(5) [OF l]]
        fits_seq [OF fits_seq [OF bye_srcs_fits fits_ints(1)] fits_ints(5) [of _ ?s, OF refl]]
      by (auto simp: concat_len [of be32 4])
  qed
next
  case (R_app s n d)
  have l: "length n < 2 ^ 32" "length d < 2 ^ 32" "take 4 n = n" "length d mod 4 = 0" using assms R_app by simp_all
  show ?thesis
    using R_app l(3,4) adds_seq [OF adds_seq [OF w32_adds adds_write [OF l(1)]] adds_write [OF l(2)]]
      fits_seq [OF fits_seq [OF w32_fits fits_write [of _ n, OF refl]] fits_write [of _ d, OF refl]]
    by (auto simp: Let_def add.assoc)
next
  case (R_fir s)
  then show ?thesis using w32_adds w32_fits by auto
next
  case (R_nack s f b)
  have "ucast (ucast x :: u32) = x" for x :: u16
    by (rule bit_word_eqI) (simp add: bit_ucast_iff)
  with R_nack show ?thesis
    using adds_seq [OF adds_seq [OF w32_adds adds_ints(2)] adds_ints(2)]
      fits_seq [OF fits_seq [OF w32_fits fits_ints(2)] fits_ints(2)]
    by auto
qed (use assms in simp_all)

lemma slurp_parses:
  "start \<le> p \<Longrightarrow> length zs = pad_len (p - start) \<Longrightarrow> length zs \<le> k \<Longrightarrow>
     parses_at p (rtcp_slurp k start) zs ()"
proof (induction k arbitrary: p zs)
  case 0
  then show ?case by (simp add: parses_atI parses_ret)
next
  case (Suc k)
  show ?case
    unfolding parses_at_def
  proof (intro allI impI)
    fix mb rest assume wf: "mbuf_wf mb" and l: "mbuf_left mb = zs @ rest" and p: "mb_pos mb = p"
    show "rtcp_slurp (Suc k) start mb = (Inr (), mbuf_skip mb (length zs))"
    proof (cases zs)
      case Nil
      then have "(p - start) mod 4 = 0" using Suc.prems(2) pad_len_simps(3) by simp
      then have "(int p - int start) mod 4 = 0" using diff_mod4 [OF Suc.prems(1)] by simp
      then show ?thesis using p Nil by (simp add: d_bind_def d_get_def d_ret_def)
    next
      case (Cons z zs')
      have nz: "(p - start) mod 4 \<noteq> 0" using Suc.prems(2) Cons pad_len_simps(3) [of "p - start"] by simp
      then have nz': "(int p - int start) mod 4 \<noteq> 0" using diff_mod4 [OF Suc.prems(1)] by simp
      have l1: "mbuf_left mb = [z] @ zs' @ rest" using l Cons by simp
      have s: "mbuf_left (mbuf_skip mb 1) = zs' @ rest" "mbuf_wf (mbuf_skip mb 1)"
        using mbuf_skip_left [OF wf l1] by simp_all
      have le: "start \<le> p + 1" "length zs' = pad_len (p + 1 - start)" "length zs' \<le> k"
        using Suc.prems Cons pad_len_simps(4) [OF nz] by (simp_all add: Suc_diff_le)
      have "rtcp_slurp k start (mbuf_skip mb 1) = (Inr (), mbuf_skip (mbuf_skip mb 1) (length zs'))"
        using Suc.IH [OF le] s p unfolding parses_at_def by simp
      moreover have "mbuf_advance mb 1 = mbuf_skip mb 1" using mbuf_advance_skip [OF wf, of 1] l1 by simp
      moreover have "mbuf_get_left mb \<noteq> 0" using wf l1 by (simp add: mbuf_rd)
      ultimately show ?thesis using nz' p Cons by (simp add: d_bind_def d_get_def d_advance_def)
    qed
  qed
qed

definition rtcp_body_hdr :: "rtcp_body \<Rightarrow> rtcp_hdr" where
  "rtcp_body_hdr r = \<lparr>rc_version = RTCP_VERSION, rc_p = False, rc_count = word_of_nat (rtcp_body_count r),
     rc_pt = rtcp_args_type (rtcp_body_args \<lparr>avail = \<lambda>_. True, junk = \<lambda>_. 0\<rparr> r :: unit rtcp_args),
     rc_length = word_of_nat ((length (rtcp_body_img r) + pad_len (length (rtcp_body_img r))) div 4)\<rparr>"

lemma args_type_al: "rtcp_args_type (rtcp_body_args al r) = rc_pt (rtcp_body_hdr r)"
  by (cases r) (simp_all add: rtcp_body_hdr_def)

lemma count_small: "rtcp_body_ok r \<Longrightarrow> rtcp_body_count r < 32"
  by (cases r) simp_all

lemma img_small: "rtcp_body_ok r \<Longrightarrow> length (rtcp_body_img r) \<le> 65535 * 4"
  by (cases r) (auto simp: concat_len [of rr_img 24] concat_len [of be32 4] split: option.splits)

lemma img_word:
  assumes "rtcp_body_ok r"
  shows "unat (rc_length (rtcp_body_hdr r)) * 4 = length (rtcp_body_img r) + pad_len (length (rtcp_body_img r))"
proof -
  let ?n = "length (rtcp_body_img r) + pad_len (length (rtcp_body_img r))"
  have m: "?n mod 4 = 0" by (rule pad_len_simps)
  have "?n \<le> 65535 * 4 + 3" using img_small [OF assms] pad_len_simps(1) [of "length (rtcp_body_img r)"] by simp
  then have "?n div 4 < 65536" by (simp add: div_less_iff_less_mult)
  then have "unat (rc_length (rtcp_body_hdr r)) = ?n div 4"
    by (simp add: rtcp_body_hdr_def unat_of_nat take_bit_nat_eq_self_iff)
  then show ?thesis using m by (metis div_mult_mod_eq add.right_neutral)
qed

lemma avail_alloc: "(\<And>n. avail al n) \<Longrightarrow> n \<le> MEM_SIZE_MAX \<Longrightarrow> mem_alloc al n \<noteq> None"
  by (simp add: mem_alloc_def malloc_def)

lemma rtcp_body_parses:
  assumes ok: "rtcp_body_ok r" and al: "\<And>n. avail al n"
  shows "parses (rtcp_body_decode al (rtcp_body_hdr r)) (rtcp_body_img r) r"
proof -
  have c: "unat (rc_count (rtcp_body_hdr r)) = rtcp_body_count r"
    using count_small [OF ok] by (simp add: rtcp_body_hdr_def unat_of_nat take_bit_nat_eq_self_iff)
  have rem: "unat (rc_length (rtcp_body_hdr r)) * 4 = length (rtcp_body_img r) + pad_len (length (rtcp_body_img r))"
    by (rule img_word [OF ok])
  have rr: "parses (d_rep (length v) rtcp_rr_decode) (concat (map rr_img v)) v" for v
    by (rule parses_rep) (simp_all add: rr_parses)
  have src: "parses (d_rep (length v) d_u32) (concat (map be32 v)) v" for v
    by (rule parses_rep) (simp_all add: parses_u32)
  have pt: "rc_pt (rtcp_body_hdr r) =
      rtcp_args_type (rtcp_body_args \<lparr>avail = \<lambda>_. True, junk = \<lambda>_. 0\<rparr> r :: unit rtcp_args)"
    by (simp add: rtcp_body_hdr_def)
  note d = rtcp_body_decode_def Let_def c pt
  show ?thesis
  proof (cases r)
    case (R_sr a b cc dd e f v)
    have m: "mem_alloc al (length v * 24) \<noteq> None"
      using ok R_sr by (intro avail_alloc al) (simp add: MEM_SIZE_MAX_def)
    have "parses (rtcp_body_decode al (rtcp_body_hdr r))
       (be32 a @ be32 b @ be32 cc @ be32 dd @ be32 e @ be32 f @ concat (map rr_img v)) r"
      unfolding d using R_sr
      apply (simp del: d_rep.simps)
      apply (rule parses_need, simp)
      apply (rule parses_bind [OF parses_u32])+
      apply (rule parses_alloc [OF m])
      apply (rule parses_bind_Nil [OF rr])
      apply (rule parses_ret)
      done
    then show ?thesis using R_sr by simp
  next
    case (R_rr s v)
    have m: "mem_alloc al (length v * 24) \<noteq> None"
      using ok R_rr by (intro avail_alloc al) (simp add: MEM_SIZE_MAX_def)
    show ?thesis
      unfolding d using R_rr
      apply (simp del: d_rep.simps)
      apply (rule parses_need, simp)
      apply (rule parses_bind [OF parses_u32])
      apply (rule parses_alloc [OF m])
      apply (rule parses_bind_Nil [OF rr])
      apply (rule parses_ret)
      done
  next
    case (R_bye v reason)
    have m: "mem_alloc al (length v * 4) \<noteq> None"
      using ok R_bye by (intro avail_alloc al) (simp add: MEM_SIZE_MAX_def)
    have l: "length (concat (map be32 v)) = 4 * length v" by (simp add: concat_len [of be32 4])
    show ?thesis
    proof (cases reason)
      case None
      then have "pad_len (length (rtcp_body_img r)) = 0" using R_bye l by (simp add: pad_len_def)
      then have rem': "unat (rc_length (rtcp_body_hdr r)) * 4 = 4 * length v" using rem R_bye None l by simp
      show ?thesis
        unfolding d rtcp_bye_decode_def rem' using R_bye None
        apply (simp del: d_rep.simps)
        apply (rule parses_alloc [OF m])
        apply (rule parses_need, simp add: l)
        apply (rule parses_bind_Nil [OF src])
        apply (rule parses_ret)
        done
    next
      case (Some s)
      let ?s = "butlast s"
      have s: "s = ?s @ [0]" "length s \<le> 256"
        using ok R_bye Some append_butlast_last_id [of s] by simp_all
      have n: "unat (word_of_nat (length s - Suc 0) :: u8) = length ?s"
        using s(2) by (simp add: unat_of_nat take_bit_nat_eq_self_iff)
      have m2: "mem_alloc al (length ?s + 1) \<noteq> None"
        using s(2) by (intro avail_alloc al) (simp add: MEM_SIZE_MAX_def)
      have rem': "length v * 4 < unat (rc_length (rtcp_body_hdr r)) * 4" using rem R_bye Some l by simp
      have "parses (rtcp_body_decode al (rtcp_body_hdr r))
          (concat (map be32 v) @ [word_of_nat (length s - Suc 0)] @ ?s) (R_bye v (Some (?s @ [0])))"
        unfolding d rtcp_bye_decode_def using R_bye Some rem'
        apply (simp del: d_rep.simps)
        apply (rule parses_alloc [OF m])
        apply (rule parses_need, simp add: l)
        apply (rule parses_bind [OF src])
        apply (rule parses_bind [of _ "[_]", simplified, OF parses_u8])
        apply (rule parses_need, simp add: n)
        apply (rule parses_bind_Nil [OF parses_strdup])
           apply (simp_all add: n m2 [simplified] parses_ret)
        using s(2) by simp
      then show ?thesis using R_bye Some s(1) by simp
    qed
  next
    case (R_app s nm dt)
    have nl: "length nm = 4" "length dt mod 4 = 0" using ok R_app by simp_all
    then have z: "pad_len (length (rtcp_body_img r)) = 0" using R_app by (simp add: pad_len_def mod_add_right_eq [symmetric])
    have rem': "unat (rc_length (rtcp_body_hdr r)) * 4 = 8 + length dt" using rem z R_app nl by simp
    show ?thesis
    proof (cases "dt = []")
      case True
      have "parses (rtcp_body_decode al (rtcp_body_hdr r)) (be32 s @ nm) (R_app s nm [])"
        unfolding d rtcp_app_decode_def rem' using R_app True
        apply simp
        apply (rule parses_need, simp add: nl)
        apply (rule parses_bind [OF parses_u32])
        apply (rule parses_bind_Nil [OF parses_mem])
         apply (simp add: nl)
        apply (rule parses_ret)
        done
      then show ?thesis using R_app True by simp
    next
      case False
      have m: "mem_alloc al (length dt) \<noteq> None"
        using ok R_app by (intro avail_alloc al) (simp add: MEM_SIZE_MAX_def)
      show ?thesis
        unfolding d rtcp_app_decode_def rem' using R_app False
        apply simp
        apply (rule parses_need, simp add: nl)
        apply (rule parses_bind [OF parses_u32])
        apply (rule parses_bind [OF parses_mem])
         apply (simp add: nl)
        apply (rule parses_alloc [OF m])
        apply (rule parses_need, simp)
        apply (rule parses_bind_Nil [OF parses_mem])
         apply simp
        apply (rule parses_ret)
        done
    qed
  next
    case (R_fir s)
    then show ?thesis
      unfolding d
      apply simp
      apply (rule parses_need, simp)
      apply (rule parses_bind_Nil [OF parses_u32])
      apply (rule parses_ret)
      done
  next
    case (R_nack s f b)
    then show ?thesis
      unfolding d
      apply simp
      apply (rule parses_need, simp)
      apply (rule parses_bind [OF parses_u32])
      apply (rule parses_bind [OF parses_u16])
      apply (rule parses_bind_Nil [OF parses_u16])
      apply (rule parses_ret)
      done
  qed (use ok in simp_all)
qed

lemma rtcp_decode_parses:
  assumes ok: "rtcp_body_ok r" and al: "\<And>n. avail al n"
  shows "parses (rtcp_decode al)
     (rtcp_pkt (word_of_nat (rtcp_body_count r)) (rc_pt (rtcp_body_hdr r)) (rtcp_body_img r))
     \<lparr>rm_hdr = rtcp_body_hdr r, rm_r = r\<rparr>"
proof (rule parses_from_at)
  fix p
  let ?bs = "rtcp_body_img r" and ?h = "rtcp_body_hdr r"
  let ?zs = "replicate (pad_len (length ?bs)) (0 :: u8)"
  have cnt: "ucast (word_of_nat (rtcp_body_count r) :: u32) = (word_of_nat (rtcp_body_count r) :: u8)"
    using count_small [OF ok]
    by (intro unsigned_word_eqI [where ?'a = nat]) (simp add: unat_ucast unat_of_nat take_bit_nat_eq_self_iff)
  have img: "rtcp_pkt (word_of_nat (rtcp_body_count r)) (rc_pt (rtcp_body_hdr r)) ?bs =
      rtcp_hdr_img ?h @ ?bs @ ?zs"
    by (simp add: rtcp_pkt_def rtcp_body_hdr_def cnt)
  have "unat (rc_count ?h) < 32"
    using count_small [OF ok] by (simp add: rtcp_body_hdr_def unat_of_nat take_bit_nat_eq_self_iff)
  then have hok: "rtcp_hdr_ok ?h" by (simp add: rtcp_hdr_ok_def rtcp_body_hdr_def)
  have al40: "mem_alloc al 40 \<noteq> None" by (intro avail_alloc al) (simp add: MEM_SIZE_MAX_def)
  have len: "unat (rc_length ?h) * 4 \<le> length (?bs @ ?zs)" using img_word [OF ok] by simp
  have pz: "pad_len (p + 4 + length ?bs - p) = pad_len (length ?bs)" by (simp add: pad_len_def)
  have v: "rc_version ?h = RTCP_VERSION" by (simp add: rtcp_body_hdr_def)
  have slurp: "parses_at (p + 4 + length ?bs)
      (d_bind (rtcp_slurp 3 p) (\<lambda>_. d_ret \<lparr>rm_hdr = ?h, rm_r = r\<rparr>)) ?zs \<lparr>rm_hdr = ?h, rm_r = r\<rparr>"
    by (rule parses_at_bind_Nil [OF slurp_parses])
      (use pz pad_len_simps(1) [of "length ?bs"] in \<open>simp_all add: parses_atI parses_ret\<close>)
  have rest: "parses_at (p + 4) (d_check (rc_version ?h = RTCP_VERSION) EBADMSG (d_need (unat (rc_length ?h) * 4)
         (d_bind (rtcp_body_decode al ?h) (\<lambda>r. d_bind (rtcp_slurp 3 p) (\<lambda>_.
           d_ret \<lparr>rm_hdr = ?h, rm_r = r\<rparr>))))) (?bs @ ?zs) \<lparr>rm_hdr = ?h, rm_r = r\<rparr>"
    by (rule parses_at_guards(2) [OF v], rule parses_at_guards(1) [OF len],
        rule parses_at_bind [OF parses_atI [OF rtcp_body_parses [OF ok al]]], rule slurp)
  show "parses_at p (rtcp_decode al)
     (rtcp_pkt (word_of_nat (rtcp_body_count r)) (rc_pt (rtcp_body_hdr r)) ?bs)
     \<lparr>rm_hdr = ?h, rm_r = r\<rparr>"
    unfolding img rtcp_decode_def
  proof (rule parses_at_guards(1), simp add: RTCP_HDR_SIZE_def, rule parses_at_guards(3) [OF al40],
      rule parses_at_get)
    fix m :: mbuf assume "mb_pos m = p"
    then show "parses_at p (d_bind rtcp_hdr_decode (\<lambda>hdr. d_check (rc_version hdr = RTCP_VERSION) EBADMSG
        (d_need (unat (rc_length hdr) * 4) (d_bind (rtcp_body_decode al hdr) (\<lambda>r.
           d_bind (rtcp_slurp 3 (mb_pos m)) (\<lambda>_. d_ret \<lparr>rm_hdr = hdr, rm_r = r\<rparr>))))))
      (rtcp_hdr_img ?h @ ?bs @ ?zs) \<lparr>rm_hdr = ?h, rm_r = r\<rparr>"
      using rest by (intro parses_at_bind [OF parses_atI [OF rtcp_hdr_parses [OF hok]]]) simp
  qed
qed

lemma rtcp_vencode_decodes:
  assumes ok: "rtcp_body_ok r" and rd: "mbuf_ready mb" and al: "\<And>n. avail al' n"
    and room: "mb_pos mb + 4 + length (rtcp_body_img r) + 3 \<le> mb_size mb"
    and body: "rtcp_body_encode al args (rtcp_body_count r) st
        (mb\<lparr>mb_pos := mb_pos mb + 4, mb_end := mb_pos mb + 4\<rparr>) =
      Some (Inr (g (mb\<lparr>mb_pos := mb_pos mb + 4, mb_end := mb_pos mb + 4\<rparr>)), st')"
    and g: "adds (rtcp_body_img r) g" "fits (length (rtcp_body_img r)) g"
    and pt: "rtcp_args_type args = rc_pt (rtcp_body_hdr r)"
  shows "\<exists>mb'. rtcp_vencode al mb (word_of_nat (rtcp_body_count r)) args st = Some ((0, mb'), st') \<and>
     rtcp_decode al' (mbuf_set_pos mb' (mb_pos mb)) = (Inr \<lparr>rm_hdr = rtcp_body_hdr r, rm_r = r\<rparr>, mb') \<and>
     mbuf_ready mb' \<and> mb_pos mb' = mb_end mb' \<and> mb_pos mb < mb_pos mb'"
proof -
  let ?c = "word_of_nat (rtcp_body_count r) :: u32" and ?bs = "rtcp_body_img r"
  have c: "unat ?c = rtcp_body_count r"
    using count_small [OF ok] by (simp add: unat_of_nat take_bit_nat_eq_self_iff)
  let ?m = "\<lambda>mb'. mbuf_set_pos mb' (mb_pos mb)" and ?pkt = "rtcp_pkt ?c (rtcp_args_type args) ?bs"
  have "mb_pos mb + length ?pkt \<le> mb_size mb"
    using room pad_len_simps(1) [of "length ?bs"] by (simp add: rtcp_pkt_def)
  moreover have "rtcp_body_encode al args (unat ?c) st (mb\<lparr>mb_pos := mb_pos mb + 4, mb_end := mb_pos mb + 4\<rparr>) =
      Some (Inr (g (mb\<lparr>mb_pos := mb_pos mb + 4, mb_end := mb_pos mb + 4\<rparr>)), st')" unfolding c by (rule body)
  ultimately obtain mb' where
    e: "rtcp_vencode al mb ?c args st = Some ((0, mb'), st')" "mbuf_ready mb'" "mb_pos mb' = mb_end mb'"
      "mbuf_content mb' = take (mb_pos mb) (mbuf_content mb) @ ?pkt"
    using rtcp_vencode_room [where g = g, OF rd _ _ g] by metis
  have p: "mb_pos mb \<le> length (mbuf_content mb)" using rd by (simp add: mbuf_ready_def)
  have wf: "mbuf_wf (?m mb')"
    using e(2) rd by (auto simp: mbuf_set_pos_def mbuf_ready_def mbuf_wf_def mbuf_bytes_def)
  have l: "mbuf_left (?m mb') = ?pkt @ []"
    using e(4) p by (simp add: mbuf_left_content mbuf_set_pos_def mbuf_content_def mbuf_bytes_def)
  have "length (mbuf_content mb') = mb_end mb'" using e(2) by (simp add: mbuf_ready_def)
  then have pos: "mb_pos mb + length ?pkt = mb_pos mb'" using e(3,4) p by simp
  then have "mbuf_skip (?m mb') (length ?pkt) = mb'" by (simp add: mbuf_skip_def mbuf_set_pos_def)
  moreover have "mb_pos mb < mb_pos mb'" unfolding pos [symmetric] by (simp add: rtcp_pkt_def)
  ultimately show ?thesis
    using e pos parsesD [OF rtcp_decode_parses [OF ok al] wf, of "[]"] l by (simp add: pt)
qed

section \<open>Properties\<close>



text \<open>C34: on arbitrary received bytes the RTCP decoder, feedback messages included, only moves the
  cursor forward within the data, and the loop over a compound packet ends: at most one message
  per four bytes, whatever the bytes are.\<close>

theorem rtcp_recv_terminates:
  assumes "mbuf_wf mb"
  shows "mbuf_fwd mb (snd (rtcp_decode al mb)) \<and>
         (\<exists>ms e. length ms \<le> mbuf_get_left mb div 4 \<and>
            (\<forall>k>mbuf_get_left mb div 4. rtcp_recv_loop al k mb = (ms, Some e)))"
proof -
  have "\<exists>ms e. length ms \<le> length (mbuf_left mb) div 4 \<and>
      (\<forall>k>length (mbuf_left mb) div 4. rtcp_recv_loop al k mb = (ms, Some e))"
    using rtcp_recv_loop_ends [OF assms, of "Suc (length (mbuf_left mb) div 4)" al] by (metis Suc_leI lessI)
  then show ?thesis using d_safeD [OF rtcp_decode_safe assms] assms by (simp add: mbuf_get_left_rd)
qed

theorem rtcp_recv_terminates_witness:
  "mbuf_fwd mbuf_wit (snd (rtcp_decode al_all mbuf_wit)) \<and>
   (\<exists>ms e. \<forall>k>0. rtcp_recv_loop al_all k mbuf_wit = (ms, Some e))"
proof -
  have "mbuf_wf mbuf_wit" "mbuf_get_left mbuf_wit = 0"
    using mbuf_reach_ready [OF mbuf_wit_reach] by (simp_all add: mbuf_ready_def mbuf_wit_def mbuf_get_left_def)
  with rtcp_recv_terminates [of mbuf_wit al_all] show ?thesis by auto
qed

text \<open>C35: encoding an RTCP packet does not return when a padding byte is needed and the full block
  cannot be grown: the loop looks at the length only and the failing write does not change it.\<close>

theorem rtcp_encode_oom_diverges:
  assumes "\<And>n. \<not> avail al n" "mb_pos mb = mb_size mb" "mb_size mb < 2 ^ 64 - 1" "mb_end mb = mb_pos mb"
    "(int (mb_end mb) - int start) mod 4 \<noteq> 0"
  shows "rtcp_pad al mb_end start (e, mb) = None"
proof (rule rtcp_pad_diverges [of al mb mb_end start e, OF _ assms(5)])
  have "malloc al n = None" for n using assms(1) by (simp add: malloc_def)
  then have "fst (mbuf_resize al mb n) = ENOMEM" for n
    by (simp add: mbuf_resize_def mem_realloc_def mem_alloc_def split: option.split)
  then have r: "\<exists>m. mbuf_resize al mb n = (ENOMEM, m)" for n by (metis prod.collapse)
  have "fst (mbuf_grow al mb (Suc (mb_size mb))) = ENOMEM"
    using r [of "max (Suc (mb_size mb)) (szt (mb_size mb * 2))"] r [of "max (Suc 0) DEFAULT_SIZE"]
    by (auto simp: mbuf_grow_def)
  then have "fst (mbuf_write_u8 al mb 0) = ENOMEM"
    using assms(2,3) by (auto simp: mbuf_write_u8_def mbuf_write_mem_def ENOMEM_def split: prod.split)
  moreover have "snd (mbuf_write_u8 al mb 0) = mb"
    using mbuf_write_mem_err [of al mb "Some [0]"] calculation
    by (metis ENOMEM_def fst_conv mbuf_write_u8_def prod.collapse word_to_le_1(1) zero_neq_numeral)
  ultimately show "mbuf_write_u8 al mb 0 = (ENOMEM, mb)" by (metis prod.collapse)
qed

theorem rtcp_encode_oom_diverges_witness:
  "rtcp_pad \<lparr>avail = \<lambda>_. False, junk = \<lambda>_. 0\<rparr> mb_end 0
     (0, \<lparr>mb_buf = Some [1], mb_size = 1, mb_pos = 1, mb_end = 1\<rparr>) = None"
  by (rule rtcp_encode_oom_diverges) simp_all

end
