(* ===== verification/Rtcp_Sess.thy ===== *)
theory Rtcp_Sess
  imports Rtp Rtcp Hash
begin

text \<open>
  RTP sockets and RTCP sessions: \<^verbatim>\<open>src/src/rtp/member.c\<close>, \<^verbatim>\<open>sess.c\<close> and the socket part of
  \<^verbatim>\<open>rtp.c\<close>. A session owns the member table, a hash table of heap objects: the table, the
  linked list heap and the live member objects, by address, are one record. The list element is
  the first field of \<^verbatim>\<open>struct rtp_member\<close>, so both have the same address, and a member is
  freed by the one reference the table holds.

  What the code takes from outside is an \<open>rtp_env\<close>: the allocator, the clocks, the address
  \<^verbatim>\<open>mem_zalloc\<close> answers for a new member (NULL is \<open>None\<close>) and whether a source is
  served. Calls that search the table return an \<open>option\<close>, \<open>None\<close> for a search that
  does not return. The lock of a session brackets each operation, which is one step here. The
  back pointer from the session to its socket is used for the SSRC only, which is an argument.
  The address of the peer and the debug output are left out.
\<close>

section \<open>Members\<close>

record rtp_member =
  m_s :: "rtp_source option"
  m_src :: u32
  m_cum_lost :: int
  m_jit :: u32
  m_rtt :: u32

record member_tab =
  mt_ht :: hash
  mt_heap :: list_heap
  mt_objs :: "nat \<Rightarrow> rtp_member option"

definition rtp_member_add :: "nat option \<Rightarrow> member_tab \<Rightarrow> u32 \<Rightarrow> nat option \<times> member_tab" where
  "rtp_member_add p t src =
     (case p of None \<Rightarrow> (None, t)
      | Some a \<Rightarrow> (Some a, t\<lparr>
          mt_heap := hash_append (mt_ht t) src a (Some a) (upd_le a (\<lambda>_. le_null) (mt_heap t)),
          mt_objs := (mt_objs t)(a \<mapsto> \<lparr>m_s = None, m_src = src, m_cum_lost = 0, m_jit = 0, m_rtt = 0\<rparr>)\<rparr>))"

definition hash_cmp_handler :: "member_tab \<Rightarrow> u32 \<Rightarrow> list_apply_h" where
  "hash_cmp_handler t src d =
     (case d of None \<Rightarrow> False
      | Some a \<Rightarrow> (case mt_objs t a of None \<Rightarrow> False | Some m \<Rightarrow> m_src m = src))"

definition rtp_member_find :: "member_tab \<Rightarrow> u32 \<Rightarrow> nat option option" where
  "rtp_member_find t src =
     map_option (\<lambda>r. case r of None \<Rightarrow> None | Some e \<Rightarrow> le_data (les (mt_heap t) e))
       (hash_lookup (mt_ht t) src (hash_cmp_handler t src) (mt_heap t))"

definition rtp_member_destroy :: "nat \<Rightarrow> member_tab \<Rightarrow> member_tab" where
  "rtp_member_destroy a t =
     t\<lparr>mt_heap := hash_unlink a (mt_heap t), mt_objs := (mt_objs t)(a := None)\<rparr>"

definition mbr_upd :: "nat \<Rightarrow> (rtp_member \<Rightarrow> rtp_member) \<Rightarrow> member_tab \<Rightarrow> member_tab" where
  "mbr_upd a g t = t\<lparr>mt_objs := (mt_objs t)(a := map_option g (mt_objs t a))\<rparr>"

section \<open>Sessions\<close>

record rtp_env =
  re_al :: malloc_env
  re_ntp :: rtp_ntp_time
  re_jfs_rt :: u64
  re_jiffies :: u64
  re_member :: "member_tab \<Rightarrow> nat option"
  re_source :: bool

record txstat =
  tx_psent :: u32
  tx_osent :: u32
  tx_jfs_rt_ref :: u64
  tx_ts_ref :: u32
  tx_ts_synced :: bool

text \<open>\<open>ss_tmr\<close> is the delay the report timer was last started with, \<open>None\<close> when it is not
  running.\<close>

record rtcp_sess =
  ss_members :: member_tab
  ss_tmr :: "u32 option"
  ss_cname :: "bytes option"
  ss_memberc :: u32
  ss_senderc :: u32
  ss_srate_tx :: u32
  ss_srate_rx :: u32
  ss_interval :: u32
  ss_txstat :: txstat

definition RTCP_INTERVAL :: u32 where
  "RTCP_INTERVAL = 5000"

definition MAX_MEMBERS :: u32 where
  "MAX_MEMBERS = 8"

definition get_member :: "rtp_env \<Rightarrow> rtcp_sess \<Rightarrow> u32 \<Rightarrow> (nat option \<times> rtcp_sess) option" where
  "get_member env sess src =
     (case rtp_member_find (ss_members sess) src of
        None \<Rightarrow> None
      | Some (Some a) \<Rightarrow> Some (Some a, sess)
      | Some None \<Rightarrow>
          if ss_memberc sess \<ge> MAX_MEMBERS then Some (None, sess)
          else
            (case rtp_member_add (re_member env (ss_members sess)) (ss_members sess) src of
               (None, t) \<Rightarrow> Some (None, sess\<lparr>ss_members := t\<rparr>)
             | (Some a, t) \<Rightarrow> Some (Some a, sess\<lparr>ss_members := t, ss_memberc := ss_memberc sess + 1\<rparr>)))"

definition rtcp_calc_rtt :: "rtp_env \<Rightarrow> u32 \<Rightarrow> u32 \<Rightarrow> u32" where
  "rtcp_calc_rtt env lsr dlsr =
     (let a_us = ntp_compact2us (ntp_compact (Some (re_ntp env)));
          lsr_us = ntp_compact2us lsr;
          dlsr_us = (1000000 * ucast dlsr :: u64) div 65536
      in word_of_int (max (sint (ucast (a_us - lsr_us - dlsr_us) :: u32)) 0))"

definition handle_rr_block :: "rtp_env \<Rightarrow> u32 \<Rightarrow> rtcp_rr \<Rightarrow> rtp_member \<Rightarrow> rtp_member" where
  "handle_rr_block env srate_tx rr mbr =
     (let m1 = mbr\<lparr>m_cum_lost := sint (rr_lost rr)\<rparr>;
          m2 = (if srate_tx \<noteq> 0 then m1\<lparr>m_jit := 1000000 * rr_jitter rr div srate_tx\<rparr> else m1)
      in if rr_lsr rr \<noteq> 0 \<and> rr_dlsr rr \<noteq> 0
         then m2\<lparr>m_rtt := rtcp_calc_rtt env (rr_lsr rr) (rr_dlsr rr)\<rparr> else m2)"

definition sess_mbr_upd :: "nat \<Rightarrow> (rtp_member \<Rightarrow> rtp_member) \<Rightarrow> rtcp_sess \<Rightarrow> rtcp_sess" where
  "sess_mbr_upd a g sess = sess\<lparr>ss_members := mbr_upd a g (ss_members sess)\<rparr>"

definition rr_blocks :: "rtp_env \<Rightarrow> u32 \<Rightarrow> rtcp_rr list \<Rightarrow> rtp_member \<Rightarrow> rtp_member" where
  "rr_blocks env srate_tx rrs mbr = fold (handle_rr_block env srate_tx) rrs mbr"

definition handle_incoming_rr ::
  "rtp_env \<Rightarrow> rtcp_sess \<Rightarrow> nat \<Rightarrow> u32 \<Rightarrow> rtcp_rr list \<Rightarrow> rtcp_sess option" where
  "handle_incoming_rr env sess cnt ssrc rrv =
     (case get_member env sess ssrc of None \<Rightarrow> None
      | Some (None, s) \<Rightarrow> Some s
      | Some (Some a, s) \<Rightarrow> Some (sess_mbr_upd a (rr_blocks env (ss_srate_tx s) (take cnt rrv)) s))"

definition sr_source ::
  "rtp_env \<Rightarrow> u32 \<Rightarrow> u32 \<Rightarrow> u32 \<Rightarrow> u32 \<Rightarrow> u32 \<Rightarrow> rtp_source \<Rightarrow> rtp_source" where
  "sr_source env ntp_sec ntp_frac rtp_ts psent osent s =
     s\<lparr>s_sr_recv := re_jiffies env, s_last_sr := \<lparr>ntp_hi = ntp_sec, ntp_lo = ntp_frac\<rparr>,
       s_rtp_ts := rtp_ts, s_psent := psent, s_osent := osent\<rparr>"

definition handle_incoming_sr ::
  "rtp_env \<Rightarrow> rtcp_sess \<Rightarrow> nat \<Rightarrow> u32 \<Rightarrow> u32 \<Rightarrow> u32 \<Rightarrow> u32 \<Rightarrow> u32 \<Rightarrow> u32 \<Rightarrow> rtcp_rr list \<Rightarrow>
     rtcp_sess option" where
  "handle_incoming_sr env sess cnt ssrc ntp_sec ntp_frac rtp_ts psent osent rrv =
     (case get_member env sess ssrc of None \<Rightarrow> None
      | Some (None, s) \<Rightarrow> Some s
      | Some (Some a, s) \<Rightarrow>
          Some (sess_mbr_upd a (\<lambda>m. rr_blocks env (ss_srate_tx s) (take cnt rrv)
            (m\<lparr>m_s := map_option (sr_source env ntp_sec ntp_frac rtp_ts psent osent) (m_s m)\<rparr>)) s))"

fun handle_incoming_bye :: "rtcp_sess \<Rightarrow> u32 list \<Rightarrow> rtcp_sess option" where
  "handle_incoming_bye sess [] = Some sess"
| "handle_incoming_bye sess (src # srcv) =
     (case rtp_member_find (ss_members sess) src of
        None \<Rightarrow> None
      | Some None \<Rightarrow> handle_incoming_bye sess srcv
      | Some (Some a) \<Rightarrow>
          (let s1 = (if map_option m_s (mt_objs (ss_members sess) a) \<noteq> Some None
                     then sess\<lparr>ss_senderc := ss_senderc sess - 1\<rparr> else sess)
           in handle_incoming_bye (s1\<lparr>ss_memberc := ss_memberc s1 - 1,
                ss_members := rtp_member_destroy a (ss_members s1)\<rparr>) srcv))"

definition rtcp_handler :: "rtp_env \<Rightarrow> rtcp_sess \<Rightarrow> rtcp_msg \<Rightarrow> rtcp_sess option" where
  "rtcp_handler env sess msg =
     (let cnt = unat (rc_count (rm_hdr msg)) in
      case rm_r msg of
        R_sr ssrc sec frac ts psent osent rrv \<Rightarrow>
          handle_incoming_sr env sess cnt ssrc sec frac ts psent osent rrv
      | R_rr ssrc rrv \<Rightarrow> handle_incoming_rr env sess cnt ssrc rrv
      | R_bye srcv reason \<Rightarrow> handle_incoming_bye sess (take cnt srcv)
      | _ \<Rightarrow> Some sess)"

text \<open>\<open>zs\<close> tells whether the session object is served, \<open>lock_err\<close> is the answer of
  \<^verbatim>\<open>mutex_alloc\<close>; the other arguments are those of \<open>hash_alloc\<close>.\<close>

definition rtcp_sess_alloc ::
  "bool \<Rightarrow> errno \<Rightarrow> bool \<Rightarrow> nat option \<Rightarrow> list_heap \<Rightarrow> errno + rtcp_sess" where
  "rtcp_sess_alloc zs lock_err hp bp h =
     (if \<not> zs then Inl ENOMEM
      else if lock_err \<noteq> 0 then Inl lock_err
      else case hash_alloc hp bp MAX_MEMBERS h of Inl err \<Rightarrow> Inl err
           | Inr (ht, h') \<Rightarrow> Inr \<lparr>
               ss_members = \<lparr>mt_ht = ht, mt_heap = h', mt_objs = (\<lambda>_. None)\<rparr>, ss_tmr = None, ss_cname = None,
               ss_memberc = 0, ss_senderc = 0, ss_srate_tx = 0, ss_srate_rx = 0, ss_interval = RTCP_INTERVAL,
               ss_txstat = \<lparr>tx_psent = 0, tx_osent = 0, tx_jfs_rt_ref = 0, tx_ts_ref = 0, tx_ts_synced = False\<rparr>\<rparr>)"

definition rtcp_set_interval :: "rtcp_sess option \<Rightarrow> u32 \<Rightarrow> rtcp_sess option" where
  "rtcp_set_interval sess n = map_option (\<lambda>s. s\<lparr>ss_interval := n\<rparr>) sess"

definition rtcp_set_srate :: "rtcp_sess option \<Rightarrow> u32 \<Rightarrow> u32 \<Rightarrow> rtcp_sess option" where
  "rtcp_set_srate sess tx rx = map_option (\<lambda>s. s\<lparr>ss_srate_tx := tx, ss_srate_rx := rx\<rparr>) sess"

definition rtcp_set_srate_tx :: "rtcp_sess option \<Rightarrow> u32 \<Rightarrow> rtcp_sess option" where
  "rtcp_set_srate_tx sess tx = map_option (\<lambda>s. s\<lparr>ss_srate_tx := tx\<rparr>) sess"

definition rtcp_set_srate_rx :: "rtcp_sess option \<Rightarrow> u32 \<Rightarrow> rtcp_sess option" where
  "rtcp_set_srate_rx sess rx = map_option (\<lambda>s. s\<lparr>ss_srate_rx := rx\<rparr>) sess"

definition schedule :: "rtcp_sess \<Rightarrow> rtcp_sess" where
  "schedule sess = sess\<lparr>ss_tmr := Some (ss_interval sess)\<rparr>"

definition rtcp_enable :: "rtp_env \<Rightarrow> rtcp_sess option \<Rightarrow> bool \<Rightarrow> bytes option \<Rightarrow> errno \<times> rtcp_sess option" where
  "rtcp_enable env so enabled cname =
     (case so of None \<Rightarrow> (EINVAL, None)
      | Some sess \<Rightarrow>
          (case str_dup (re_al env) cname of
             Inl err \<Rightarrow> (err, Some (sess\<lparr>ss_cname := None\<rparr>))
           | Inr s \<Rightarrow>
               (let s1 = sess\<lparr>ss_cname := Some s\<rparr>
                in (0, Some (if enabled then schedule s1 else s1\<lparr>ss_tmr := None\<rparr>)))))"

section \<open>Reports\<close>

definition calc_lsr :: "rtp_ntp_time \<Rightarrow> u32" where
  "calc_lsr last_sr = (if ntp_hi last_sr \<noteq> 0 then ntp_compact (Some last_sr) else 0)"

definition calc_dlsr :: "rtp_env \<Rightarrow> u64 \<Rightarrow> u32" where
  "calc_dlsr env sr_recv =
     (if sr_recv \<noteq> 0 then ucast ((65536 * (re_jiffies env - sr_recv)) div 1000) else 0)"

text \<open>Traversals with a handler that has an effect on \<open>'s\<close>; the lists stay as they are.\<close>

partial_function (option) list_apply_st ::
  "nat option \<Rightarrow> (nat option \<Rightarrow> 's \<Rightarrow> bool \<times> 's) \<Rightarrow> list_heap \<Rightarrow> 's \<Rightarrow> (nat option \<times> 's) option" where
  "list_apply_st cur ah h st =
     (case cur of None \<Rightarrow> Some (None, st)
      | Some e \<Rightarrow>
          if fst (ah (le_data (les h e)) st) then Some (Some e, snd (ah (le_data (les h e)) st))
          else list_apply_st (le_next (les h e)) ah h (snd (ah (le_data (les h e)) st)))"

fun hash_apply_st ::
  "nat \<Rightarrow> nat \<Rightarrow> nat \<Rightarrow> (nat option \<Rightarrow> 's \<Rightarrow> bool \<times> 's) \<Rightarrow> list_heap \<Rightarrow> 's \<Rightarrow> (nat option \<times> 's) option" where
  "hash_apply_st b i 0 ah h st = Some (None, st)"
| "hash_apply_st b i (Suc k) ah h st =
     (case list_apply_st (l_head (hdrs h (b + i))) ah h st of
        None \<Rightarrow> None
      | Some (Some e, st') \<Rightarrow> Some (Some e, st')
      | Some (None, st') \<Rightarrow> hash_apply_st b (Suc i) k ah h st')"

definition member_rr :: "rtp_env \<Rightarrow> u32 \<Rightarrow> rtp_source \<Rightarrow> rtcp_rr \<times> rtp_source" where
  "member_rr env src s =
     (case rtp_source_calc_fraction_lost s of (fraction, s') \<Rightarrow>
        (\<lparr>rr_ssrc = src, rr_fraction = fraction, rr_lost = word_of_int (rtp_source_calc_lost s'),
          rr_last_seq = s_cycles s' OR ucast (s_max_seq s'), rr_jitter = drop_bit 4 (s_jitter s'),
          rr_lsr = calc_lsr (s_last_sr s'), rr_dlsr = calc_dlsr env (s_sr_recv s')\<rparr>, s'))"

definition sender_apply_handler ::
  "rtp_env \<Rightarrow> nat option \<Rightarrow> member_tab \<times> mbuf \<Rightarrow> bool \<times> (member_tab \<times> mbuf)" where
  "sender_apply_handler env d st =
     (case st of (t, mb) \<Rightarrow>
      case d of None \<Rightarrow> (False, st)
      | Some a \<Rightarrow>
        (case mt_objs t a of None \<Rightarrow> (False, st)
         | Some mbr \<Rightarrow>
           (case m_s mbr of None \<Rightarrow> (False, st)
            | Some s \<Rightarrow>
              (case member_rr env (m_src mbr) s of (rr, s') \<Rightarrow>
               case rtcp_rr_encode (re_al env) mb rr of (err, mb') \<Rightarrow>
                 (err \<noteq> 0, (mbr_upd a (\<lambda>m. m\<lparr>m_s := Some s'\<rparr>) t, mb'))))))"

definition encode_handler :: "rtp_env \<Rightarrow> member_tab rtcp_encode_h" where
  "encode_handler env t mb =
     (case hash_apply_st (h_bucket (mt_ht t)) 0 (unat (h_bsize (mt_ht t))) (sender_apply_handler env)
             (mt_heap t) (t, mb) of
        None \<Rightarrow> None
      | Some (r, (t', mb')) \<Rightarrow> Some ((if r \<noteq> None then ENOMEM else 0, mb'), t'))"

definition mk_sr :: "rtp_env \<Rightarrow> u32 \<Rightarrow> rtcp_sess \<Rightarrow> mbuf \<Rightarrow> ((errno \<times> mbuf) \<times> rtcp_sess) option" where
  "mk_sr env ssrc sess mb =
     (let tx = ss_txstat sess; sess1 = sess\<lparr>ss_txstat := tx\<lparr>tx_ts_synced := False\<rparr>\<rparr>;
          args =
            (if tx_jfs_rt_ref tx \<noteq> 0 then
               (let dur = re_jfs_rt env - tx_jfs_rt_ref tx;
                    rtp_ts = ucast (ucast (tx_ts_ref tx) + dur * ucast (ss_srate_tx sess) div 1000000)
                in A_sr ssrc (ntp_hi (re_ntp env)) (ntp_lo (re_ntp env)) rtp_ts (tx_psent tx) (tx_osent tx)
                     (Some (encode_handler env)))
             else A_rr ssrc (Some (encode_handler env)))
      in map_option (\<lambda>(r, t'). (r, sess1\<lparr>ss_members := t'\<rparr>))
           (rtcp_vencode (re_al env) mb (ss_senderc sess) args (ss_members sess1)))"

definition rtcp_make_sr ::
  "rtp_env \<Rightarrow> u32 \<Rightarrow> rtcp_sess option \<Rightarrow> mbuf \<Rightarrow> ((errno \<times> mbuf) \<times> rtcp_sess option) option" where
  "rtcp_make_sr env ssrc so mb =
     (case so of None \<Rightarrow> Some ((EINVAL, mb), None)
      | Some sess \<Rightarrow> map_option (apsnd Some) (mk_sr env ssrc sess mb))"

definition sdes_encode_handler :: "rtp_env \<Rightarrow> u32 \<Rightarrow> rtcp_sess rtcp_encode_h" where
  "sdes_encode_handler env ssrc sess mb =
     map_option (\<lambda>r. (r, sess)) (rtcp_sdes_encode (re_al env) mb ssrc [(1, ss_cname sess)])"

definition mk_sdes :: "rtp_env \<Rightarrow> u32 \<Rightarrow> rtcp_sess \<Rightarrow> mbuf \<Rightarrow> ((errno \<times> mbuf) \<times> rtcp_sess) option" where
  "mk_sdes env ssrc sess mb =
     rtcp_vencode (re_al env) mb 1 (A_sdes (Some (sdes_encode_handler env ssrc))) sess"

definition rtcp_make_sdes_cname ::
  "rtp_env \<Rightarrow> u32 \<Rightarrow> rtcp_sess option \<Rightarrow> mbuf \<Rightarrow> ((errno \<times> mbuf) \<times> rtcp_sess option) option" where
  "rtcp_make_sdes_cname env ssrc so mb =
     (case so of None \<Rightarrow> Some ((EINVAL, mb), None)
      | Some sess \<Rightarrow> map_option (apsnd Some) (mk_sdes env ssrc sess mb))"

definition RTCP_HEADROOM :: nat where
  "RTCP_HEADROOM = 4"

text \<open>\<open>send\<close> is \<^verbatim>\<open>rtcp_send\<close> on the socket of the session.\<close>

definition send_rtcp_report ::
  "rtp_env \<Rightarrow> (mbuf \<Rightarrow> errno) \<Rightarrow> u32 \<Rightarrow> rtcp_sess \<Rightarrow> (errno \<times> rtcp_sess) option" where
  "send_rtcp_report env send ssrc sess =
     (case mbuf_alloc (re_al env) 512 of None \<Rightarrow> Some (ENOMEM, sess)
      | Some mb \<Rightarrow>
          (case mk_sr env ssrc sess (mb\<lparr>mb_pos := RTCP_HEADROOM\<rparr>) of None \<Rightarrow> None
           | Some ((e1, mb1), sess1) \<Rightarrow>
               (case mk_sdes env ssrc sess1 mb1 of None \<Rightarrow> None
                | Some ((e2, mb2), sess2) \<Rightarrow>
                    if e1 \<noteq> 0 \<or> e2 \<noteq> 0 then Some (fst (err_or (e1, ()) (\<lambda>_. (e2, ()))), sess2)
                    else Some (send (mb2\<lparr>mb_pos := RTCP_HEADROOM\<rparr>), sess2))))"

definition rtcp_send_bye_packet ::
  "rtp_env \<Rightarrow> (mbuf \<Rightarrow> errno) \<Rightarrow> u32 \<Rightarrow> rtcp_sess \<Rightarrow> (errno \<times> rtcp_sess) option" where
  "rtcp_send_bye_packet env send ssrc sess =
     (case mbuf_alloc (re_al env) 512 of None \<Rightarrow> Some (ENOMEM, sess)
      | Some mb \<Rightarrow>
          (case rtcp_vencode (re_al env) (mb\<lparr>mb_pos := RTCP_HEADROOM\<rparr>) 1
                  (A_bye [ssrc] (Some (str_bytes ''Adjo''))) sess of None \<Rightarrow> None
           | Some ((e1, mb1), sess1) \<Rightarrow>
               (case mk_sdes env ssrc sess1 mb1 of None \<Rightarrow> None
                | Some ((e2, mb2), sess2) \<Rightarrow>
                    if e1 \<noteq> 0 \<or> e2 \<noteq> 0 then Some (fst (err_or (e1, ()) (\<lambda>_. (e2, ()))), sess2)
                    else Some (send (mb2\<lparr>mb_pos := RTCP_HEADROOM\<rparr>), sess2))))"

definition sess_timeout ::
  "rtp_env \<Rightarrow> (mbuf \<Rightarrow> errno) \<Rightarrow> u32 \<Rightarrow> rtcp_sess \<Rightarrow> rtcp_sess option" where
  "sess_timeout env send ssrc sess = map_option (\<lambda>(err, s). schedule s) (send_rtcp_report env send ssrc sess)"

definition rtcp_schedule_report :: "rtcp_sess option \<Rightarrow> rtcp_sess option" where
  "rtcp_schedule_report so = map_option schedule so"

section \<open>Media packets\<close>

definition rtcp_sess_tx_rtp :: "rtcp_sess option \<Rightarrow> u32 \<Rightarrow> u64 \<Rightarrow> nat \<Rightarrow> rtcp_sess option" where
  "rtcp_sess_tx_rtp so ts jfs_rt payload_size =
     map_option (\<lambda>sess.
       (let tx = (ss_txstat sess)\<lparr>tx_osent := tx_osent (ss_txstat sess) + word_of_nat payload_size,
                                  tx_psent := tx_psent (ss_txstat sess) + 1\<rparr>
        in sess\<lparr>ss_txstat := (if \<not> tx_ts_synced tx
                 then tx\<lparr>tx_jfs_rt_ref := jfs_rt, tx_ts_ref := ts, tx_ts_synced := True\<rparr> else tx)\<rparr>)) so"

definition source_zero :: rtp_source where
  "source_zero = \<lparr>s_max_seq = 0, s_cycles = 0, s_base_seq = 0, s_bad_seq = 0, s_probation = 0, s_received = 0,
     s_expected_prior = 0, s_received_prior = 0, s_transit = 0, s_jitter = 0, s_rtp_rx_bytes = 0,
     s_sr_recv = 0, s_last_sr = \<lparr>ntp_hi = 0, ntp_lo = 0\<rparr>, s_rtp_ts = 0, s_last_rtp_ts = 0,
     s_psent = 0, s_osent = 0\<rparr>"

text \<open>What a packet changes in its source once the member has one, and in the arrival time of the
  header.\<close>

definition rx_ts_arrive :: "rtp_env \<Rightarrow> u32 \<Rightarrow> rtp_header \<Rightarrow> rtp_header" where
  "rx_ts_arrive env srate_rx hdr =
     (if srate_rx \<noteq> 0 then hdr\<lparr>rh_ts_arrive := re_jiffies env * ucast srate_rx div 1000\<rparr> else hdr)"

definition rx_source :: "u32 \<Rightarrow> rtp_header \<Rightarrow> nat \<Rightarrow> rtp_source \<Rightarrow> rtp_source" where
  "rx_source srate_rx hdr payload_size s =
     (let s1 = snd (rtp_source_update_seq s (rh_seq hdr));
          s2 = (if srate_rx \<noteq> 0 \<and> rh_ts hdr \<noteq> s_last_rtp_ts s1
                then rtp_source_calc_jitter s1 (rh_ts hdr) (ucast (rh_ts_arrive hdr)) else s1)
      in s2\<lparr>s_last_rtp_ts := rh_ts hdr, s_rtp_rx_bytes := szt (s_rtp_rx_bytes s2 + payload_size)\<rparr>)"

definition rtcp_sess_rx_rtp ::
  "rtp_env \<Rightarrow> rtcp_sess \<Rightarrow> rtp_header \<Rightarrow> nat \<Rightarrow> (rtcp_sess \<times> rtp_header) option" where
  "rtcp_sess_rx_rtp env sess hdr payload_size =
     (case get_member env sess (rh_ssrc hdr) of None \<Rightarrow> None
      | Some (None, s) \<Rightarrow> Some (s, hdr)
      | Some (Some a, s) \<Rightarrow>
          (let fresh = (map_option m_s (mt_objs (ss_members s) a) = Some None) in
           if fresh \<and> \<not> re_source env then Some (s, hdr)
           else
             (let hdr' = rx_ts_arrive env (ss_srate_rx s) hdr;
                  s1 = (if fresh
                        then (sess_mbr_upd a (\<lambda>m. m\<lparr>m_s := Some (rtp_source_init_seq source_zero (rh_seq hdr))\<rparr>) s)
                               \<lparr>ss_senderc := ss_senderc s + 1\<rparr>
                        else s)
              in Some (sess_mbr_upd a (\<lambda>m. m\<lparr>m_s := map_option (rx_source (ss_srate_rx s) hdr' payload_size) (m_s m)\<rparr>) s1,
                       hdr'))))"

record rtcp_stats =
  st_tx_sent :: u32
  st_tx_lost :: int
  st_tx_jit :: u32
  st_rx_sent :: u32
  st_rx_lost :: int
  st_rx_jit :: u32
  st_rtt :: u32

definition rtcp_stats_get :: "rtcp_sess option \<Rightarrow> u32 \<Rightarrow> (errno + rtcp_stats) option" where
  "rtcp_stats_get so ssrc =
     (case so of None \<Rightarrow> Some (Inl EINVAL)
      | Some sess \<Rightarrow>
          (case rtp_member_find (ss_members sess) ssrc of None \<Rightarrow> None
           | Some None \<Rightarrow> Some (Inl ENOENT)
           | Some (Some a) \<Rightarrow>
               (case mt_objs (ss_members sess) a of None \<Rightarrow> None
                | Some m \<Rightarrow>
                    (let st = \<lparr>st_tx_sent = tx_psent (ss_txstat sess), st_tx_lost = m_cum_lost m,
                               st_tx_jit = m_jit m, st_rx_sent = 0, st_rx_lost = 0, st_rx_jit = 0,
                               st_rtt = m_rtt m\<rparr>
                     in Some (Inr (case m_s m of None \<Rightarrow> st
                          | Some s \<Rightarrow> st\<lparr>st_rx_sent := s_received s, st_rx_lost := rtp_source_calc_lost s,
                              st_rx_jit := (if ss_srate_rx sess \<noteq> 0
                                then 1000000 * drop_bit 4 (s_jitter s) div ss_srate_rx sess else 0)\<rparr>))))))"

section \<open>Sockets\<close>

text \<open>The transport sockets are present or not; \<open>rs_peer\<close> tells whether the RTCP address of the
  peer is set.\<close>

record rtp_sock =
  rs_seq :: u16
  rs_ssrc :: u32
  rs_sock_rtp :: bool
  rs_sock_rtcp :: bool
  rs_peer :: bool
  rs_rtcp :: "rtcp_sess option"
  rs_rtcp_mux :: bool

text \<open>The random numbers are arguments.\<close>

definition rtp_alloc :: "bool \<Rightarrow> u16 \<Rightarrow> u32 \<Rightarrow> errno + rtp_sock" where
  "rtp_alloc zs rand_u16 rand_u32 =
     (if \<not> zs then Inl ENOMEM
      else Inr \<lparr>rs_seq = rand_u16 AND 0x7fff, rs_ssrc = rand_u32, rs_sock_rtp = False, rs_sock_rtcp = False,
                rs_peer = False, rs_rtcp = None, rs_rtcp_mux = False\<rparr>)"

definition rtp_enc_hdr :: "u16 \<Rightarrow> u32 \<Rightarrow> bool \<Rightarrow> bool \<Rightarrow> u8 \<Rightarrow> u32 \<Rightarrow> rtp_header" where
  "rtp_enc_hdr seq ssrc ext marker pt ts = rtp_zero\<lparr>rh_ver := RTP_VERSION, rh_pad := False, rh_ext := ext,
     rh_cc := 0, rh_m := marker, rh_pt := pt, rh_seq := seq, rh_ts := ts, rh_ssrc := ssrc\<rparr>"

definition rtp_encode_seq ::
  "malloc_env \<Rightarrow> rtp_sock \<Rightarrow> u16 \<Rightarrow> bool \<Rightarrow> bool \<Rightarrow> u8 \<Rightarrow> u32 \<Rightarrow> mbuf \<Rightarrow> errno \<times> mbuf" where
  "rtp_encode_seq al rs seq ext marker pt ts mb =
     (if pt AND 0x80 \<noteq> 0 then (EINVAL, mb)
      else rtp_hdr_encode al mb (rtp_enc_hdr seq (rs_ssrc rs) ext marker pt ts))"

definition rtp_encode ::
  "malloc_env \<Rightarrow> rtp_sock \<Rightarrow> bool \<Rightarrow> bool \<Rightarrow> u8 \<Rightarrow> u32 \<Rightarrow> mbuf \<Rightarrow> (errno \<times> mbuf) \<times> rtp_sock" where
  "rtp_encode al rs ext marker pt ts mb =
     (if pt AND 0x80 \<noteq> 0 then ((EINVAL, mb), rs)
      else
        (let rs' = rs\<lparr>rs_seq := rs_seq rs + 1\<rparr>
         in (rtp_hdr_encode al mb (rtp_enc_hdr (rs_seq rs') (rs_ssrc rs') ext marker pt ts), rs')))"

text \<open>\<open>udp_send\<close> is the transport; the buffer it is handed is part of the result. Nothing is
  handed over where the code returns before.\<close>

definition rtp_send ::
  "malloc_env \<Rightarrow> (mbuf \<Rightarrow> errno) \<Rightarrow> rtp_sock \<Rightarrow> bool \<Rightarrow> bool \<Rightarrow> u8 \<Rightarrow> u32 \<Rightarrow> u64 \<Rightarrow> mbuf \<Rightarrow>
     (errno \<times> mbuf) \<times> rtp_sock \<times> mbuf option" where
  "rtp_send al udp_send rs ext marker pt ts jfs_rt mb =
     (if mb_pos mb < RTP_HEADER_SIZE then ((EBADMSG, mb), rs, None)
      else
        (let mb1 = mbuf_advance mb (- int RTP_HEADER_SIZE); pos = mb_pos mb1 in
         case rtp_encode al rs ext marker pt ts mb1 of ((err, mb2), rs1) \<Rightarrow>
           if err \<noteq> 0 then ((err, mb2), rs1, None)
           else
             (let rs2 = rs1\<lparr>rs_rtcp := rtcp_sess_tx_rtp (rs_rtcp rs1) ts jfs_rt (mbuf_get_left mb2)\<rparr>;
                  mb3 = mb2\<lparr>mb_pos := pos\<rparr>
              in ((udp_send mb3, mb3), rs2, Some mb3))))"

definition rtp_resend ::
  "malloc_env \<Rightarrow> (mbuf \<Rightarrow> errno) \<Rightarrow> rtp_sock \<Rightarrow> u16 \<Rightarrow> bool \<Rightarrow> bool \<Rightarrow> u8 \<Rightarrow> u32 \<Rightarrow> mbuf \<Rightarrow>
     (errno \<times> mbuf) \<times> mbuf option" where
  "rtp_resend al udp_send rs seq ext marker pt ts mb =
     (if mb_pos mb < RTP_HEADER_SIZE then ((EBADMSG, mb), None)
      else
        (let mb1 = mbuf_advance mb (- int RTP_HEADER_SIZE); pos = mb_pos mb1 in
         case rtp_encode_seq al rs seq ext marker pt ts mb1 of (err, mb2) \<Rightarrow>
           if err \<noteq> 0 then ((err, mb2), None)
           else (let mb3 = mb2\<lparr>mb_pos := pos\<rparr> in ((udp_send mb3, mb3), Some mb3))))"

definition rtp_sess_ssrc :: "rtp_sock option \<Rightarrow> u32" where
  "rtp_sess_ssrc rs = (case rs of None \<Rightarrow> 0 | Some r \<Rightarrow> rs_ssrc r)"

definition rtp_sess_seq :: "rtp_sock option \<Rightarrow> u16" where
  "rtp_sess_seq rs = (case rs of None \<Rightarrow> 0 | Some r \<Rightarrow> rs_seq r)"

definition rtp_rtcp_sess :: "rtp_sock option \<Rightarrow> rtcp_sess option" where
  "rtp_rtcp_sess rs = (case rs of None \<Rightarrow> None | Some r \<Rightarrow> rs_rtcp r)"

definition rtcp_start :: "rtp_env \<Rightarrow> rtp_sock \<Rightarrow> bytes option \<Rightarrow> bool \<Rightarrow> rtp_sock" where
  "rtcp_start env rs cname peer =
     (let rs1 = (if peer then rs\<lparr>rs_peer := True\<rparr> else rs)
      in rs1\<lparr>rs_rtcp := snd (rtcp_enable env (rs_rtcp rs1) peer cname)\<rparr>)"

definition rtcp_enable_mux :: "rtp_sock \<Rightarrow> bool \<Rightarrow> rtp_sock" where
  "rtcp_enable_mux rs enabled = rs\<lparr>rs_rtcp_mux := enabled\<rparr>"

definition rtcp_send :: "(mbuf \<Rightarrow> errno) \<Rightarrow> rtp_sock \<Rightarrow> mbuf \<Rightarrow> errno" where
  "rtcp_send udp_send rs mb =
     (let sock = (if rs_rtcp_mux rs then rs_sock_rtp rs else rs_sock_rtcp rs)
      in if \<not> sock \<or> \<not> rs_peer rs then EINVAL else udp_send mb)"

text \<open>What the receive handlers relay to the application, in order. \<open>k\<close> bounds the rounds of the
  compound packet; \<^verbatim>\<open>rtcp_handler\<close> ignores a NULL session.\<close>

datatype rtp_event = E_rtp rtp_header mbuf | E_rtcp rtcp_msg

fun rtcp_recv_handler ::
  "nat \<Rightarrow> rtp_env \<Rightarrow> rtp_sock \<Rightarrow> mbuf \<Rightarrow> (rtp_sock \<times> rtp_event list) option" where
  "rtcp_recv_handler 0 env rs mb = None"
| "rtcp_recv_handler (Suc k) env rs mb =
     (case rtcp_decode (re_al env) mb of
        (Inl e, mb') \<Rightarrow> Some (rs, [])
      | (Inr msg, mb') \<Rightarrow>
          (case (case rs_rtcp rs of None \<Rightarrow> Some None | Some sess \<Rightarrow> map_option Some (rtcp_handler env sess msg)) of
             None \<Rightarrow> None
           | Some so \<Rightarrow> map_option (apsnd (Cons (E_rtcp msg))) (rtcp_recv_handler k env (rs\<lparr>rs_rtcp := so\<rparr>) mb')))"

definition udp_recv_handler ::
  "nat \<Rightarrow> rtp_env \<Rightarrow> rtp_sock \<Rightarrow> mbuf \<Rightarrow> (rtp_sock \<times> rtp_event list) option" where
  "udp_recv_handler k env rs mb =
     (if rs_rtcp_mux rs \<and> mbuf_get_left mb < 2 then Some (rs, [])
      else if rs_rtcp_mux rs \<and> rtp_pt_is_rtcp (mbuf_left mb ! 1 AND 0x7f) then rtcp_recv_handler k env rs mb
      else
        (case rtp_decode mb of (err, hdr, mb') \<Rightarrow>
           if err \<noteq> 0 then Some (rs, [])
           else
             (case rs_rtcp rs of None \<Rightarrow> Some (rs, [E_rtp hdr mb'])
              | Some sess \<Rightarrow>
                  (case rtcp_sess_rx_rtp env sess hdr (mbuf_get_left mb') of None \<Rightarrow> None
                   | Some (sess', hdr') \<Rightarrow> Some (rs\<lparr>rs_rtcp := Some sess'\<rparr>, [E_rtp hdr' mb'])))))"

section \<open>The member table as a finite map\<close>

text \<open>The interface a session relies on: a table of objects found by key, in which the laws of a
  finite map hold. \<open>P\<close> below marks the objects that are counted a second time, as the session
  counts members and, among them, senders.\<close>

locale keyed_table =
  fixes inv :: "'t \<Rightarrow> bool"
    and abs :: "'t \<Rightarrow> 'k \<Rightarrow> 'v option"
    and find :: "'t \<Rightarrow> 'k \<Rightarrow> nat option option"
    and free :: "'t \<Rightarrow> nat \<Rightarrow> bool"
    and add :: "nat \<Rightarrow> 't \<Rightarrow> 'k \<Rightarrow> 't"
    and init :: "'k \<Rightarrow> 'v"
    and upd :: "nat \<Rightarrow> ('v \<Rightarrow> 'v) \<Rightarrow> 't \<Rightarrow> 't"
    and del :: "nat \<Rightarrow> 't \<Rightarrow> 't"
    and key :: "'v \<Rightarrow> 'k"
  assumes inv_finite: "inv t \<Longrightarrow> finite (dom (abs t))"
    and find_abs: "inv t \<Longrightarrow> \<exists>r. find t k = Some r \<and> (r = None \<longleftrightarrow> abs t k = None)"
    and add_inv: "inv t \<Longrightarrow> abs t k = None \<Longrightarrow> free t a \<Longrightarrow> inv (add a t k)"
    and add_abs: "inv t \<Longrightarrow> abs t k = None \<Longrightarrow> free t a \<Longrightarrow> abs (add a t k) = (abs t)(k \<mapsto> init k)"
    and add_find: "inv t \<Longrightarrow> abs t k = None \<Longrightarrow> free t a \<Longrightarrow> find (add a t k) k = Some (Some a)"
    and upd_inv: "inv t \<Longrightarrow> (\<And>v. key (g v) = key v) \<Longrightarrow> inv (upd a g t)"
    and upd_abs: "inv t \<Longrightarrow> (\<And>v. key (g v) = key v) \<Longrightarrow> find t k = Some (Some a) \<Longrightarrow>
          abs (upd a g t) = (abs t)(k := map_option g (abs t k))"
    and upd_find: "inv t \<Longrightarrow> (\<And>v. key (g v) = key v) \<Longrightarrow> find (upd a g t) = find t"
    and del_inv: "inv t \<Longrightarrow> find t k = Some (Some a) \<Longrightarrow> inv (del a t)"
    and del_abs: "inv t \<Longrightarrow> find t k = Some (Some a) \<Longrightarrow> abs (del a t) = (abs t)(k := None)"
begin

lemma find_None: "inv t \<Longrightarrow> find t k = Some None \<Longrightarrow> abs t k = None"
  using find_abs [of t k] by auto

lemma find_Some: "inv t \<Longrightarrow> find t k = Some (Some a) \<Longrightarrow> \<exists>v. abs t k = Some v"
  using find_abs [of t k] by auto

lemma find_cases:
  assumes "inv t"
  obtains (absent) "find t k = Some None" "abs t k = None"
  | (present) a v where "find t k = Some (Some a)" "abs t k = Some v"
proof -
  obtain r where "find t k = Some r" "r = None \<longleftrightarrow> abs t k = None" using find_abs [OF assms] by blast
  then show thesis by (cases r) (auto intro: that)
qed

lemma marked_finite: "inv t \<Longrightarrow> finite {k. \<exists>v. abs t k = Some v \<and> P v}"
  by (rule finite_subset [OF _ inv_finite]) auto

lemma marked_le: "inv t \<Longrightarrow> card {k. \<exists>v. abs t k = Some v \<and> P v} \<le> card (dom (abs t))"
  by (rule card_mono [OF inv_finite]) auto

lemma add_card:
  assumes "inv t" "abs t k = None" "free t a" "\<not> P (init k)"
  shows "card (dom (abs (add a t k))) = Suc (card (dom (abs t)))"
    "{j. \<exists>v. abs (add a t k) j = Some v \<and> P v} = {j. \<exists>v. abs t j = Some v \<and> P v}"
proof -
  have "k \<notin> dom (abs t)" using assms(2) by auto
  then show "card (dom (abs (add a t k))) = Suc (card (dom (abs t)))"
    using inv_finite [OF assms(1)] by (simp add: add_abs [OF assms(1,2,3)])
  show "{j. \<exists>v. abs (add a t k) j = Some v \<and> P v} = {j. \<exists>v. abs t j = Some v \<and> P v}"
    using assms(2,4) by (auto simp: add_abs [OF assms(1,2,3)])
qed

lemma upd_card:
  assumes "inv t" "\<And>v. key (g v) = key v" "find t k = Some (Some a)" "abs t k = Some v"
  shows "dom (abs (upd a g t)) = dom (abs t)"
    "{j. \<exists>v. abs (upd a g t) j = Some v \<and> P v} =
       (if P (g v) then insert k {j. \<exists>v. abs t j = Some v \<and> P v} else {j. \<exists>v. abs t j = Some v \<and> P v} - {k})"
  using assms(4) unfolding upd_abs [OF assms(1,2,3)] by auto

lemma del_card:
  assumes "inv t" "find t k = Some (Some a)" "abs t k = Some v"
  shows "Suc (card (dom (abs (del a t)))) = card (dom (abs t))"
    "card {j. \<exists>v. abs (del a t) j = Some v \<and> P v} + of_bool (P v) = card {j. \<exists>v. abs t j = Some v \<and> P v}"
proof -
  have k: "k \<in> dom (abs t)" using assms(3) by auto
  show "Suc (card (dom (abs (del a t)))) = card (dom (abs t))"
    using card.remove [OF inv_finite [OF assms(1)] k] by (simp add: del_abs [OF assms(1,2)])
  have e: "{j. \<exists>v. abs (del a t) j = Some v \<and> P v} = {j. \<exists>v. abs t j = Some v \<and> P v} - {k}"
    by (auto simp: del_abs [OF assms(1,2)])
  show "card {j. \<exists>v. abs (del a t) j = Some v \<and> P v} + of_bool (P v) = card {j. \<exists>v. abs t j = Some v \<and> P v}"
  proof (cases "P v")
    case True
    then have "k \<in> {j. \<exists>v. abs t j = Some v \<and> P v}" using assms(3) by auto
    then show ?thesis unfolding e using True card.remove [OF marked_finite [OF assms(1), of P]] by simp
  next
    case False
    then have "{j. \<exists>v. abs t j = Some v \<and> P v} - {k} = {j. \<exists>v. abs t j = Some v \<and> P v}" using assms(3) by auto
    then show ?thesis unfolding e using False by simp
  qed
qed

end

definition mt_rep :: "member_tab \<Rightarrow> (nat \<Rightarrow> nat list) \<Rightarrow> bool" where
  "mt_rep t f \<longleftrightarrow> hash_rep (mt_heap t) (mt_ht t) f \<and>
     (\<forall>a m. mt_objs t a = Some m \<longrightarrow>
        a \<in> set (f (hash_idx (mt_ht t) (m_src m))) \<and> le_data (les (mt_heap t) a) = Some a) \<and>
     (\<forall>i<unat (h_bsize (mt_ht t)). \<forall>e\<in>set (f i).
        \<exists>m. mt_objs t e = Some m \<and> hash_idx (mt_ht t) (m_src m) = i) \<and>
     (\<forall>a b m m'. mt_objs t a = Some m \<longrightarrow> mt_objs t b = Some m' \<longrightarrow> m_src m = m_src m' \<longrightarrow> a = b)"

definition mt_inv :: "member_tab \<Rightarrow> bool" where
  "mt_inv t \<longleftrightarrow> (\<exists>f. mt_rep t f)"

definition mt_abs :: "member_tab \<Rightarrow> u32 \<Rightarrow> rtp_member option" where
  "mt_abs t k = (case rtp_member_find t k of Some (Some a) \<Rightarrow> mt_objs t a | _ \<Rightarrow> None)"

definition member_zero :: "u32 \<Rightarrow> rtp_member" where
  "member_zero src = \<lparr>m_s = None, m_src = src, m_cum_lost = 0, m_jit = 0, m_rtt = 0\<rparr>"

lemma mt_repD:
  assumes "mt_rep t f"
  shows "hash_rep (mt_heap t) (mt_ht t) f"
    "\<And>a m. mt_objs t a = Some m \<Longrightarrow> a \<in> set (f (hash_idx (mt_ht t) (m_src m)))"
    "\<And>a m. mt_objs t a = Some m \<Longrightarrow> le_data (les (mt_heap t) a) = Some a"
    "\<And>i e. i < unat (h_bsize (mt_ht t)) \<Longrightarrow> e \<in> set (f i) \<Longrightarrow>
       \<exists>m. mt_objs t e = Some m \<and> hash_idx (mt_ht t) (m_src m) = i"
    "\<And>a b m m'. mt_objs t a = Some m \<Longrightarrow> mt_objs t b = Some m' \<Longrightarrow> m_src m = m_src m' \<Longrightarrow> a = b"
  using assms unfolding mt_rep_def by blast+

lemma mt_idx: "mt_rep t f \<Longrightarrow> hash_idx (mt_ht t) k < unat (h_bsize (mt_ht t))"
  using hash_idx_bound mt_repD(1) by (auto simp: hash_rep_def)

lemma member_find:
  assumes "mt_rep t f"
  shows "\<exists>r. rtp_member_find t k = Some r \<and>
     (\<forall>a. r = Some a \<longleftrightarrow> (\<exists>m. mt_objs t a = Some m \<and> m_src m = k))"
proof -
  let ?xs = "f (hash_idx (mt_ht t) k)" and ?P = "\<lambda>x. hash_cmp_handler t k (le_data (les (mt_heap t) x))"
  note D = mt_repD [OF assms]
  have P: "?P x \<longleftrightarrow> (\<exists>m. mt_objs t x = Some m \<and> m_src m = k)" if "x \<in> set ?xs" for x
    using D(4) [OF mt_idx [OF assms] that] D(3) by (auto simp: hash_cmp_handler_def)
  have l: "hash_lookup (mt_ht t) k (hash_cmp_handler t k) (mt_heap t) = Some (List.find ?P ?xs)"
    by (rule hash_lookup_find [OF D(1)])
  show ?thesis
  proof (cases "List.find ?P ?xs")
    case None
    then have "\<not> (\<exists>m. mt_objs t a = Some m \<and> m_src m = k)" for a
      using D(2) P by (auto simp: find_None_iff)
    then show ?thesis using l None by (simp add: rtp_member_find_def)
  next
    case (Some x)
    then have x: "x \<in> set ?xs" "?P x" by (auto simp: find_Some_iff)
    then obtain m where m: "mt_objs t x = Some m" "m_src m = k" using P by blast
    then have "(\<exists>m. mt_objs t a = Some m \<and> m_src m = k) \<longleftrightarrow> a = x" for a using D(5) by metis
    then show ?thesis using l Some m(1) D(3) by (auto simp: rtp_member_find_def)
  qed
qed

lemma mt_abs_iff:
  assumes "mt_rep t f"
  shows "mt_abs t k = Some m \<longleftrightarrow> (\<exists>a. mt_objs t a = Some m \<and> m_src m = k)"
    "mt_abs t k = None \<longleftrightarrow> rtp_member_find t k = Some None"
proof -
  obtain r where r: "rtp_member_find t k = Some r"
    "\<And>a. r = Some a \<longleftrightarrow> (\<exists>m. mt_objs t a = Some m \<and> m_src m = k)" using member_find [OF assms] by blast
  show "mt_abs t k = Some m \<longleftrightarrow> (\<exists>a. mt_objs t a = Some m \<and> m_src m = k)"
  proof (cases r)
    case None
    then show ?thesis using r by (auto simp: mt_abs_def)
  next
    case (Some x)
    then obtain m' where "mt_objs t x = Some m'" "m_src m' = k" "\<And>a. (\<exists>m. mt_objs t a = Some m \<and> m_src m = k) \<longleftrightarrow> a = x"
      using r(2) by (metis option.inject)
    then show ?thesis using r(1) Some by (simp add: mt_abs_def) (metis option.inject)
  qed
  show "mt_abs t k = None \<longleftrightarrow> rtp_member_find t k = Some None"
    using r by (cases r) (auto simp: mt_abs_def)
qed

lemma mt_unlinked:
  assumes "mt_rep t f" "mt_objs t a = None" "i < unat (h_bsize (mt_ht t))"
  shows "a \<notin> set (f i)"
  using mt_repD(4) [OF assms(1,3)] assms(2) by fastforce

lemma mt_add_rep:
  assumes t: "mt_rep t f" and k: "mt_abs t k = None" and a: "mt_objs t a = None"
  defines "i \<equiv> hash_idx (mt_ht t) k"
  shows "mt_rep (snd (rtp_member_add (Some a) t k)) (f(i := f i @ [a]))"
proof -
  let ?h = "upd_le a (\<lambda>_. le_null) (mt_heap t)" and ?t = "snd (rtp_member_add (Some a) t k)"
  note D = mt_repD [OF t]
  have "is_list ?h (h_bucket (mt_ht t) + j) (f j)" if "j < unat (h_bsize (mt_ht t))" for j
  proof (rule is_list_agree [of "mt_heap t" ?h "Suc (h_bucket (mt_ht t) + j)" "{a}"])
    show "{a} \<inter> set (f j) = {}" using mt_unlinked [OF t a that] by simp
    show "is_list (mt_heap t) (h_bucket (mt_ht t) + j) (f j)"
      using D(1) that by (simp add: hash_rep_def bucket_table_def)
  qed (simp_all add: agree_def upd_le_def)
  then have hr: "hash_rep ?h (mt_ht t) f" using D(1) by (simp add: hash_rep_def bucket_table_def)
  have ul: "le_list (les ?h a) = None" by (simp add: upd_le_def le_null_def)
  have objs: "mt_objs ?t = (mt_objs t)(a \<mapsto> member_zero k)" and ht: "mt_ht ?t = mt_ht t"
    and hp: "mt_heap ?t = hash_append (mt_ht t) k a (Some a) ?h"
    by (simp_all add: rtp_member_add_def member_zero_def)
  have data: "le_data (les (mt_heap ?t) x) = (if x = a then Some a else le_data (les (mt_heap t) x))" for x
    using ll.append_data [OF ul] by (simp add: hp hash_append_def upd_le_def)
  have new: "m_src m \<noteq> k" if "mt_objs t x = Some m" for x m
    using k that mt_abs_iff(1) [OF t, of k m] by auto
  show ?thesis
    unfolding mt_rep_def ht
  proof (intro conjI)
    show "hash_rep (mt_heap ?t) (mt_ht t) (f(i := f i @ [a]))"
      unfolding hp i_def by (rule hash_append_rep [OF hr ul])
    show "\<forall>x m. mt_objs ?t x = Some m \<longrightarrow> x \<in> set ((f(i := f i @ [a])) (hash_idx (mt_ht t) (m_src m))) \<and>
       le_data (les (mt_heap ?t) x) = Some x"
      by (auto simp: objs data i_def member_zero_def dest: D(2,3))
    show "\<forall>j<unat (h_bsize (mt_ht t)). \<forall>e\<in>set ((f(i := f i @ [a])) j).
        \<exists>m. mt_objs ?t e = Some m \<and> hash_idx (mt_ht t) (m_src m) = j"
      using D(4) mt_unlinked [OF t a] by (auto simp: objs i_def member_zero_def)
    show "\<forall>x y m m'. mt_objs ?t x = Some m \<longrightarrow> mt_objs ?t y = Some m' \<longrightarrow> m_src m = m_src m' \<longrightarrow> x = y"
      by (auto simp: objs member_zero_def split: if_splits dest: D(5) new)
  qed
qed

lemma mt_upd_rep:
  assumes t: "mt_rep t f" and g: "\<And>v. m_src (g v) = m_src v"
  shows "mt_rep (mbr_upd a g t) f"
proof -
  note D = mt_repD [OF t]
  have o: "mt_objs (mbr_upd a g t) x = Some m \<Longrightarrow> \<exists>m'. mt_objs t x = Some m' \<and> m_src m = m_src m'" for x m
    using g by (auto simp: mbr_upd_def split: if_splits)
  have o': "mt_objs t x = Some m \<Longrightarrow> \<exists>m'. mt_objs (mbr_upd a g t) x = Some m' \<and> m_src m' = m_src m" for x m
    using g by (auto simp: mbr_upd_def)
  show ?thesis
    unfolding mt_rep_def
  proof (intro conjI)
    show "\<forall>x m. mt_objs (mbr_upd a g t) x = Some m \<longrightarrow>
        x \<in> set (f (hash_idx (mt_ht (mbr_upd a g t)) (m_src m))) \<and> le_data (les (mt_heap (mbr_upd a g t)) x) = Some x"
      using D(2,3) by (fastforce dest!: o simp: mbr_upd_def)
    show "\<forall>i<unat (h_bsize (mt_ht (mbr_upd a g t))). \<forall>e\<in>set (f i).
        \<exists>m. mt_objs (mbr_upd a g t) e = Some m \<and> hash_idx (mt_ht (mbr_upd a g t)) (m_src m) = i"
      using D(4) o' by (fastforce simp: mbr_upd_def)
    show "\<forall>x y m m'. mt_objs (mbr_upd a g t) x = Some m \<longrightarrow> mt_objs (mbr_upd a g t) y = Some m' \<longrightarrow>
        m_src m = m_src m' \<longrightarrow> x = y"
      using D(5) by (metis o)
  qed (use D(1) in \<open>simp add: mbr_upd_def\<close>)
qed

lemma mt_del_rep:
  assumes t: "mt_rep t f" and a: "mt_objs t a = Some m"
  defines "i \<equiv> hash_idx (mt_ht t) (m_src m)"
  shows "\<exists>xs ys. f i = xs @ a # ys \<and> mt_rep (rtp_member_destroy a t) (f(i := xs @ ys))"
proof -
  note D = mt_repD [OF t]
  let ?t = "rtp_member_destroy a t"
  obtain xs ys where f: "f i = xs @ a # ys" using D(2) [OF a] unfolding i_def by (metis split_list)
  have i: "i < unat (h_bsize (mt_ht t))" unfolding i_def by (rule mt_idx [OF t])
  have "is_list (mt_heap t) (h_bucket (mt_ht t) + i) (f i)"
    using D(1) i by (simp add: hash_rep_def bucket_table_def)
  then have dist: "a \<notin> set (xs @ ys)" by (simp add: is_list_def f)
  have ht: "mt_ht ?t = mt_ht t" and objs: "mt_objs ?t = (mt_objs t)(a := None)"
    and data: "le_data (les (mt_heap ?t) x) = le_data (les (mt_heap t) x)" for x
    by (simp_all add: rtp_member_destroy_def hash_unlink_def ll.unlink_data)
  have "mt_rep ?t (f(i := xs @ ys))"
    unfolding mt_rep_def ht
  proof (intro conjI)
    show "hash_rep (mt_heap ?t) (mt_ht t) (f(i := xs @ ys))"
      using hash_unlink_rep [OF D(1) i f] by (simp add: rtp_member_destroy_def)
    show "\<forall>x m. mt_objs ?t x = Some m \<longrightarrow> x \<in> set ((f(i := xs @ ys)) (hash_idx (mt_ht t) (m_src m))) \<and>
       le_data (les (mt_heap ?t) x) = Some x"
      using D(2,3) f by (fastforce simp: objs data split: if_splits)
    show "\<forall>j<unat (h_bsize (mt_ht t)). \<forall>e\<in>set ((f(i := xs @ ys)) j).
        \<exists>m. mt_objs ?t e = Some m \<and> hash_idx (mt_ht t) (m_src m) = j"
    proof (intro allI impI ballI)
      fix j e assume j: "j < unat (h_bsize (mt_ht t))" and e: "e \<in> set ((f(i := xs @ ys)) j)"
      have e': "e \<in> set (f j)" using e f by (auto split: if_splits)
      moreover have "e \<noteq> a" using e dist D(4) [OF j e'] a by (auto simp: i_def split: if_splits)
      ultimately show "\<exists>m. mt_objs ?t e = Some m \<and> hash_idx (mt_ht t) (m_src m) = j"
        using D(4) [OF j] by (simp add: objs)
    qed
    show "\<forall>x y m m'. mt_objs ?t x = Some m \<longrightarrow> mt_objs ?t y = Some m' \<longrightarrow> m_src m = m_src m' \<longrightarrow> x = y"
      using D(5) by (auto simp: objs split: if_splits)
  qed
  then show ?thesis using f by blast
qed

lemma member_findD:
  assumes "mt_rep t f" "rtp_member_find t k = Some (Some a)"
  obtains m where "mt_objs t a = Some m" "m_src m = k" "mt_abs t k = Some m"
proof -
  obtain m where "mt_objs t a = Some m" "m_src m = k" using member_find [OF assms(1), of k] assms(2) by auto
  then show thesis using that mt_abs_iff(1) [OF assms(1), of k m] by blast
qed

lemma mt_absI: "mt_rep t' f' \<Longrightarrow>
    (\<And>k m. (\<exists>a. mt_objs t' a = Some m \<and> m_src m = k) \<longleftrightarrow> F k = Some m) \<Longrightarrow> mt_abs t' = F"
proof
  fix k
  assume "mt_rep t' f'" and e: "\<And>k m. (\<exists>a. mt_objs t' a = Some m \<and> m_src m = k) \<longleftrightarrow> F k = Some m"
  then have "mt_abs t' k = Some m \<longleftrightarrow> F k = Some m" for m using mt_abs_iff(1) by blast
  then show "mt_abs t' k = F k" by (metis option.exhaust)
qed

lemma mt_finite: "mt_inv t \<Longrightarrow> finite (dom (mt_abs t))"
proof -
  assume "mt_inv t"
  then obtain f where f: "mt_rep t f" by (auto simp: mt_inv_def)
  let ?E = "\<Union>i<unat (h_bsize (mt_ht t)). set (f i)"
  have "dom (mt_abs t) \<subseteq> (\<lambda>a. m_src (the (mt_objs t a))) ` ?E"
  proof
    fix k assume "k \<in> dom (mt_abs t)"
    then obtain m where "mt_abs t k = Some m" by blast
    then obtain a where a: "mt_objs t a = Some m" "m_src m = k" using mt_abs_iff(1) [OF f] by blast
    then have "a \<in> ?E" using mt_repD(2) [OF f a(1)] mt_idx [OF f] by blast
    then show "k \<in> (\<lambda>a. m_src (the (mt_objs t a))) ` ?E" using a by (intro image_eqI [of _ _ a]) simp_all
  qed
  then show ?thesis by (rule finite_subset) simp
qed

interpretation mt: keyed_table mt_inv mt_abs rtp_member_find "\<lambda>t a. mt_objs t a = None"
  "\<lambda>a t k. snd (rtp_member_add (Some a) t k)" member_zero mbr_upd rtp_member_destroy m_src
proof (unfold_locales, goal_cases)
  case (1 t)
  then show ?case by (rule mt_finite)
next
  case (2 t k)
  then obtain f where "mt_rep t f" by (auto simp: mt_inv_def)
  then show ?case using member_find [of t f k] mt_abs_iff(2) [of t f k] by auto
next
  case (3 t k a)
  then show ?case by (metis mt_inv_def mt_add_rep)
next
  case (4 t k a)
  then obtain f where f: "mt_rep t f" by (auto simp: mt_inv_def)
  show ?case
  proof (rule mt_absI [OF mt_add_rep [OF f 4(2,3)]])
    fix j m
    show "(\<exists>x. mt_objs (snd (rtp_member_add (Some a) t k)) x = Some m \<and> m_src m = j) \<longleftrightarrow>
        ((mt_abs t)(k \<mapsto> member_zero k)) j = Some m"
      using 4(2,3) mt_abs_iff(1) [OF f, of j m] mt_abs_iff(1) [OF f, of k m]
      by (auto simp: rtp_member_add_def member_zero_def) (metis option.distinct(1))
  qed
next
  case (5 t k a)
  then obtain f where f: "mt_rep t f" by (auto simp: mt_inv_def)
  have "mt_objs (snd (rtp_member_add (Some a) t k)) a = Some (member_zero k)" "m_src (member_zero k) = k"
    by (simp_all add: rtp_member_add_def member_zero_def)
  then show ?case using member_find [OF mt_add_rep [OF f 5(2,3)], of k] by auto
next
  case (6 t g a)
  then show ?case by (metis mt_inv_def mt_upd_rep)
next
  case (7 t g k a)
  then obtain f where f: "mt_rep t f" by (auto simp: mt_inv_def)
  obtain m where m: "mt_objs t a = Some m" "m_src m = k" "mt_abs t k = Some m"
    using member_findD [OF f 7(3)] .
  have u: "b = a" if "mt_objs t b = Some y" "m_src y = k" for b y using mt_repD(5) [OF f that(1) m(1)] that m(2) by simp
  show ?case
  proof (rule mt_absI [OF mt_upd_rep [OF f 7(2)]])
    fix j x
    have o: "mt_objs (mbr_upd a g t) b = (if b = a then Some (g m) else mt_objs t b)" for b
      using m(1) by (simp add: mbr_upd_def)
    show "(\<exists>b. mt_objs (mbr_upd a g t) b = Some x \<and> m_src x = j) \<longleftrightarrow>
        ((mt_abs t)(k := map_option g (mt_abs t k))) j = Some x"
    proof (cases "j = k")
      case True
      have "(\<exists>b. mt_objs (mbr_upd a g t) b = Some x \<and> m_src x = k) \<longleftrightarrow> x = g m"
        unfolding o using u m(2) 7(2) by auto
      then show ?thesis using True m(3) by auto
    next
      case False
      then have "(\<exists>b. mt_objs (mbr_upd a g t) b = Some x \<and> m_src x = j) \<longleftrightarrow> (\<exists>b. mt_objs t b = Some x \<and> m_src x = j)"
        unfolding o using m 7(2) by (metis option.inject)
      then show ?thesis using False mt_abs_iff(1) [OF f, of j x] by simp
    qed
  qed
next
  case (8 t g a)
  then obtain f where f: "mt_rep t f" by (auto simp: mt_inv_def)
  show ?case
  proof
    fix k
    obtain r where r: "rtp_member_find t k = Some r"
      "\<And>b. r = Some b \<longleftrightarrow> (\<exists>m. mt_objs t b = Some m \<and> m_src m = k)" using member_find [OF f] by blast
    obtain r' where r': "rtp_member_find (mbr_upd a g t) k = Some r'"
      "\<And>b. r' = Some b \<longleftrightarrow> (\<exists>m. mt_objs (mbr_upd a g t) b = Some m \<and> m_src m = k)"
      using member_find [OF mt_upd_rep [OF f 8(2)]] by blast
    have "r' = Some b \<longleftrightarrow> r = Some b" for b unfolding r(2) r'(2) using 8(2) by (auto simp: mbr_upd_def)
    then have "r' = r" by (metis option.exhaust)
    then show "rtp_member_find (mbr_upd a g t) k = rtp_member_find t k" using r(1) r'(1) by simp
  qed
next
  case (9 t k a)
  then obtain f where f: "mt_rep t f" by (auto simp: mt_inv_def)
  obtain m where m: "mt_objs t a = Some m" using member_findD [OF f 9(2)] .
  then show ?case using mt_del_rep [OF f m] by (auto simp: mt_inv_def)
next
  case (10 t k a)
  then obtain f where f: "mt_rep t f" by (auto simp: mt_inv_def)
  obtain m where m: "mt_objs t a = Some m" "m_src m = k" "mt_abs t k = Some m"
    using member_findD [OF f 10(2)] .
  have u: "b = a" if "mt_objs t b = Some y" "m_src y = k" for b y using mt_repD(5) [OF f that(1) m(1)] that m(2) by simp
  obtain f' where f': "mt_rep (rtp_member_destroy a t) f'" using mt_del_rep [OF f m(1)] by blast
  show ?case
  proof (rule mt_absI [OF f'])
    fix j x
    have o: "mt_objs (rtp_member_destroy a t) b = (if b = a then None else mt_objs t b)" for b
      by (simp add: rtp_member_destroy_def)
    have "(\<exists>b. mt_objs (rtp_member_destroy a t) b = Some x \<and> m_src x = j) \<longleftrightarrow>
        (\<exists>b. mt_objs t b = Some x \<and> m_src x = j) \<and> j \<noteq> k"
      unfolding o using m(1,2) u by (metis option.distinct(1) option.inject)
    then show "(\<exists>b. mt_objs (rtp_member_destroy a t) b = Some x \<and> m_src x = j) \<longleftrightarrow>
        ((mt_abs t)(k := None)) j = Some x"
      using mt_abs_iff(1) [OF f, of j x] by simp
  qed
qed

section \<open>The session invariant\<close>

definition senders :: "member_tab \<Rightarrow> u32 set" where
  "senders t = {k. \<exists>m. mt_abs t k = Some m \<and> m_s m \<noteq> None}"

definition sess_inv :: "rtcp_sess \<Rightarrow> bool" where
  "sess_inv s \<longleftrightarrow> mt_inv (ss_members s) \<and> card (dom (mt_abs (ss_members s))) = unat (ss_memberc s) \<and>
     ss_memberc s \<le> MAX_MEMBERS \<and> card (senders (ss_members s)) = unat (ss_senderc s)"

text \<open>The allocator never hands out the address of a live member.\<close>

definition env_ok :: "rtp_env \<Rightarrow> bool" where
  "env_ok env \<longleftrightarrow> (\<forall>t a. re_member env t = Some a \<longrightarrow> mt_objs t a = None)"

lemma sess_invD:
  assumes "sess_inv s"
  shows "mt_inv (ss_members s)" "card (dom (mt_abs (ss_members s))) = unat (ss_memberc s)"
    "ss_memberc s \<le> 8" "card (senders (ss_members s)) = unat (ss_senderc s)"
    "unat (ss_senderc s) \<le> unat (ss_memberc s)" "unat (ss_memberc s) \<le> 8"
proof -
  show 1: "mt_inv (ss_members s)" "card (dom (mt_abs (ss_members s))) = unat (ss_memberc s)"
    "ss_memberc s \<le> 8" "card (senders (ss_members s)) = unat (ss_senderc s)"
    using assms by (simp_all add: sess_inv_def MAX_MEMBERS_def)
  show "unat (ss_senderc s) \<le> unat (ss_memberc s)"
    using mt.marked_le [OF 1(1), of "\<lambda>m. m_s m \<noteq> None"] 1(2,4) by (simp add: senders_def)
  show "unat (ss_memberc s) \<le> 8" using 1(3) by (simp add: word_le_nat_alt)
qed

lemma sess_inv_cong:
  "sess_inv s \<Longrightarrow> ss_members s' = ss_members s \<Longrightarrow> ss_memberc s' = ss_memberc s \<Longrightarrow>
     ss_senderc s' = ss_senderc s \<Longrightarrow> sess_inv s'"
  by (simp add: sess_inv_def)

lemma get_member_ok:
  assumes s: "sess_inv s" and env: "env_ok env"
  obtains (none) "get_member env s k = Some (None, s)" "mt_abs (ss_members s) k = None"
    "ss_memberc s = MAX_MEMBERS \<or> re_member env (ss_members s) = None"
  | (some) a s' m where "get_member env s k = Some (Some a, s')" "sess_inv s'"
      "rtp_member_find (ss_members s') k = Some (Some a)"
      "mt_abs (ss_members s') k = Some m" "m = (case mt_abs (ss_members s) k of None \<Rightarrow> member_zero k | Some m \<Rightarrow> m)"
      "mt_abs (ss_members s') = (mt_abs (ss_members s))(k \<mapsto> m)"
      "s' = s\<lparr>ss_members := ss_members s', ss_memberc := ss_memberc s'\<rparr>"
      "mt_objs (ss_members s') a = Some m"
proof -
  note S = sess_invD [OF s]
  have objs: "mt_objs t a = Some m" if "mt_inv t" "rtp_member_find t k = Some (Some a)" "mt_abs t k = Some m" for t a m
    using that by (simp add: mt_abs_def)
  show thesis
  proof (rule mt.find_cases [OF S(1), of k])
    fix a v assume f: "rtp_member_find (ss_members s) k = Some (Some a)" "mt_abs (ss_members s) k = Some v"
    show thesis
      by (rule some [of a s v]) (use f s objs [OF S(1) f] in \<open>simp_all add: get_member_def fun_upd_idem\<close>)
  next
    assume f: "rtp_member_find (ss_members s) k = Some None" "mt_abs (ss_members s) k = None"
    show thesis
    proof (cases "ss_memberc s \<ge> MAX_MEMBERS \<or> re_member env (ss_members s) = None")
      case True
      then show thesis using f S(3) by (intro none) (auto simp: get_member_def rtp_member_add_def MAX_MEMBERS_def)
    next
      case False
      then obtain a where a: "re_member env (ss_members s) = Some a" by auto
      then have fr: "mt_objs (ss_members s) a = None" using env by (auto simp: env_ok_def)
      let ?t = "snd (rtp_member_add (Some a) (ss_members s) k)"
      let ?s = "s\<lparr>ss_members := ?t, ss_memberc := ss_memberc s + 1\<rparr>"
      note t = mt.add_inv [OF S(1) f(2) fr] mt.add_abs [OF S(1) f(2) fr] mt.add_find [OF S(1) f(2) fr]
      have z: "m_s (member_zero k) = None" by (simp add: member_zero_def)
      have lt: "unat (ss_memberc s) < 8" using False by (simp add: MAX_MEMBERS_def word_less_nat_alt not_le)
      then have u: "unat (ss_memberc s + 1) = Suc (unat (ss_memberc s))" by (simp add: unat_word_ariths)
      have "sess_inv ?s"
        using mt.add_card [OF S(1) f(2) fr, of "\<lambda>m. m_s m \<noteq> None"] t(1) S(2,4) z lt u
        by (simp add: sess_inv_def senders_def MAX_MEMBERS_def word_le_nat_alt)
      moreover have "get_member env s k = Some (Some a, ?s)"
        using f False a by (simp add: get_member_def rtp_member_add_def)
      moreover have "mt_abs ?t k = Some (member_zero k)" using t(2) by simp
      ultimately show thesis using t f(2) objs [OF t(1,3)] by (intro some [of a ?s]) simp_all
    qed
  qed
qed

lemma sess_mbr_upd_ok:
  assumes s: "sess_inv s" and f: "rtp_member_find (ss_members s) k = Some (Some a)"
    and g: "\<And>v. m_src (g v) = m_src v" "\<And>v. (m_s (g v) = None) = (m_s v = None)"
  shows "sess_inv (sess_mbr_upd a g s)"
    "mt_abs (ss_members (sess_mbr_upd a g s)) =
       (mt_abs (ss_members s))(k := map_option g (mt_abs (ss_members s) k))"
proof -
  note S = sess_invD [OF s]
  obtain v where v: "mt_abs (ss_members s) k = Some v" using mt.find_Some [OF S(1) f] by blast
  note u = mt.upd_card [OF S(1) g(1) f v]
  have "senders (mbr_upd a g (ss_members s)) = senders (ss_members s)"
    using u(2) [of "\<lambda>m. m_s m \<noteq> None"] g(2) v unfolding senders_def by (auto split: if_splits)
  then show "sess_inv (sess_mbr_upd a g s)"
    using s u(1) mt.upd_inv [OF S(1) g(1)] by (simp add: sess_inv_def sess_mbr_upd_def)
  show "mt_abs (ss_members (sess_mbr_upd a g s)) =
       (mt_abs (ss_members s))(k := map_option g (mt_abs (ss_members s) k))"
    using mt.upd_abs [OF S(1) g(1) f] by (simp add: sess_mbr_upd_def)
qed

lemma rr_blocks_keeps: "m_src (rr_blocks env r rrs m) = m_src m" "m_s (rr_blocks env r rrs m) = m_s m"
proof -
  have "m_src (handle_rr_block env r rr m) = m_src m" "m_s (handle_rr_block env r rr m) = m_s m" for rr m
    by (simp_all add: handle_rr_block_def Let_def)
  then show "m_src (rr_blocks env r rrs m) = m_src m" "m_s (rr_blocks env r rrs m) = m_s m"
    unfolding rr_blocks_def by (induction rrs arbitrary: m) simp_all
qed

lemma handle_incoming_rr_ok:
  assumes s: "sess_inv s" and env: "env_ok env"
  shows "\<exists>s'. handle_incoming_rr env s cnt k rrv = Some s' \<and> sess_inv s'"
proof (rule get_member_ok [OF s env, of k])
  fix a s' assume g: "get_member env s k = Some (Some a, s')" "sess_inv s'"
    "rtp_member_find (ss_members s') k = Some (Some a)"
  then show ?thesis using sess_mbr_upd_ok(1) [OF g(2,3)]
    by (simp add: handle_incoming_rr_def rr_blocks_keeps)
qed (use s in \<open>simp add: handle_incoming_rr_def\<close>)

lemma handle_incoming_sr_ok:
  assumes s: "sess_inv s" and env: "env_ok env"
  shows "\<exists>s'. handle_incoming_sr env s cnt k a b c d e rrv = Some s' \<and> sess_inv s'"
proof (rule get_member_ok [OF s env, of k])
  fix x s' assume g: "get_member env s k = Some (Some x, s')" "sess_inv s'"
    "rtp_member_find (ss_members s') k = Some (Some x)"
  then show ?thesis using sess_mbr_upd_ok(1) [OF g(2,3)]
    by (simp add: handle_incoming_sr_def rr_blocks_keeps)
qed (use s in \<open>simp add: handle_incoming_sr_def\<close>)

text \<open>A BYE takes exactly its sources out of the table.\<close>

lemma handle_incoming_bye_ok:
  "sess_inv s \<Longrightarrow> \<exists>s'. handle_incoming_bye s srcv = Some s' \<and> sess_inv s' \<and>
     mt_abs (ss_members s') = mt_abs (ss_members s) |` (- set srcv)"
proof (induction srcv arbitrary: s)
  case Nil
  then show ?case by (simp add: restrict_map_def)
next
  case (Cons k srcv)
  note S = sess_invD [OF Cons.prems]
  show ?case
  proof (rule mt.find_cases [OF S(1), of k])
    assume f: "rtp_member_find (ss_members s) k = Some None" "mt_abs (ss_members s) k = None"
    have "mt_abs (ss_members s) |` (- set srcv) = mt_abs (ss_members s) |` (- set (k # srcv))"
      using f(2) by (auto simp: restrict_map_def fun_eq_iff)
    then show ?thesis using Cons.IH [OF Cons.prems] f by simp
  next
    fix a v assume f: "rtp_member_find (ss_members s) k = Some (Some a)" "mt_abs (ss_members s) k = Some v"
    have o: "mt_objs (ss_members s) a = Some v" using f by (simp add: mt_abs_def)
    let ?s1 = "if map_option m_s (mt_objs (ss_members s) a) \<noteq> Some None
        then s\<lparr>ss_senderc := ss_senderc s - 1\<rparr> else s"
    let ?s = "?s1\<lparr>ss_memberc := ss_memberc ?s1 - 1, ss_members := rtp_member_destroy a (ss_members ?s1)\<rparr>"
    have m1: "ss_members ?s1 = ss_members s" "ss_memberc ?s1 = ss_memberc s" by simp_all
    note c = mt.del_card(1) [OF S(1) f] mt.del_card(2) [OF S(1) f, of "\<lambda>m. m_s m \<noteq> None"]
    note t = mt.del_inv [OF S(1) f(1)] mt.del_abs [OF S(1) f(1)]
    have um: "unat (ss_memberc s - 1) = unat (ss_memberc s) - 1" if "unat (ss_memberc s) > 0"
      using that by (simp add: unat_sub word_le_nat_alt)
    have us: "unat (ss_senderc s - 1) = unat (ss_senderc s) - 1" if "unat (ss_senderc s) > 0"
      using that by (simp add: unat_sub word_le_nat_alt)
    have "card (senders (rtp_member_destroy a (ss_members s))) = unat (ss_senderc ?s1)"
      using c(2) S(4) us by (cases "m_s v") (simp_all add: senders_def o)
    moreover have "unat (ss_memberc s - 1) = card (dom (mt_abs (rtp_member_destroy a (ss_members s))))"
      using um c(1) S(2) by simp
    ultimately have "sess_inv ?s"
      using t(1) c(1) S(2,6) by (auto simp: sess_inv_def MAX_MEMBERS_def word_le_nat_alt)
    moreover have "(mt_abs (ss_members ?s)) |` (- set srcv) = mt_abs (ss_members s) |` (- set (k # srcv))"
      using t(2) by (auto simp: restrict_map_def fun_eq_iff)
    moreover have "handle_incoming_bye s (k # srcv) = handle_incoming_bye ?s srcv"
      using f(1) by (simp add: Let_def)
    ultimately show ?thesis using Cons.IH [of ?s] by metis
  qed
qed

lemma rtcp_handler_ok:
  "sess_inv s \<Longrightarrow> env_ok env \<Longrightarrow> \<exists>s'. rtcp_handler env s msg = Some s' \<and> sess_inv s'"
  using handle_incoming_rr_ok handle_incoming_sr_ok handle_incoming_bye_ok [of s "take (unat (rc_count (rm_hdr msg))) srcv" for srcv]
  by (cases "rm_r msg") (simp_all add: rtcp_handler_def Let_def, blast)

lemma rtcp_sess_rx_rtp_ok:
  assumes s: "sess_inv s" and env: "env_ok env"
  shows "\<exists>s' h'. rtcp_sess_rx_rtp env s hdr n = Some (s', h') \<and> sess_inv s'"
proof (rule get_member_ok [OF s env, of "rh_ssrc hdr"])
  let ?k = "rh_ssrc hdr"
  fix a s' m
  assume g: "get_member env s ?k = Some (Some a, s')" and i: "sess_inv s'"
    and f: "rtp_member_find (ss_members s') ?k = Some (Some a)" and m: "mt_abs (ss_members s') ?k = Some m"
    and o: "mt_objs (ss_members s') a = Some m"
  note S = sess_invD [OF i]
  let ?g = "\<lambda>h m. m\<lparr>m_s := map_option (rx_source (ss_srate_rx s') h n) (m_s m)\<rparr>"
  show ?thesis
  proof (cases "m_s m")
    case (Some x)
    have "sess_inv (sess_mbr_upd a (?g h) s')" for h by (rule sess_mbr_upd_ok(1) [OF i f]) simp_all
    then show ?thesis using g o Some by (simp add: rtcp_sess_rx_rtp_def Let_def)
  next
    case None
    let ?u = "\<lambda>m. m\<lparr>m_s := Some (rtp_source_init_seq source_zero (rh_seq hdr))\<rparr>"
    let ?s1 = "(sess_mbr_upd a ?u s')\<lparr>ss_senderc := ss_senderc s' + 1\<rparr>"
    note u = mt.upd_inv [OF S(1), of ?u a] mt.upd_card [OF S(1) _ f m, of ?u]
    have k: "?k \<notin> senders (ss_members s')" using m None by (simp add: senders_def)
    have fin: "finite (senders (ss_members s'))" unfolding senders_def by (rule mt.marked_finite [OF S(1)])
    have "unat (ss_senderc s' + 1) = Suc (unat (ss_senderc s'))"
      using S(5,6) by (simp add: unat_word_ariths)
    moreover have "senders (mbr_upd a ?u (ss_members s')) = insert ?k (senders (ss_members s'))"
      using u(3) [of "\<lambda>m. m_s m \<noteq> None"] by (simp add: senders_def)
    ultimately have i1: "sess_inv ?s1"
      using i u(1,2) k fin by (simp add: sess_inv_def sess_mbr_upd_def)
    have f1: "rtp_member_find (ss_members ?s1) ?k = Some (Some a)"
      using mt.upd_find [OF S(1), of ?u a] f by (simp add: sess_mbr_upd_def)
    have "sess_inv (sess_mbr_upd a (?g h) ?s1)" for h by (rule sess_mbr_upd_ok(1) [OF i1 f1]) simp_all
    then show ?thesis using g o None i by (simp add: rtcp_sess_rx_rtp_def Let_def)
  qed
qed (use s in \<open>simp add: rtcp_sess_rx_rtp_def\<close>)

section \<open>Traversals\<close>

fun st_run :: "(nat option \<Rightarrow> 's \<Rightarrow> bool \<times> 's) \<Rightarrow> list_heap \<Rightarrow> nat list \<Rightarrow> 's \<Rightarrow> nat option \<times> 's" where
  "st_run ah h [] st = (None, st)"
| "st_run ah h (x # xs) st =
     (if fst (ah (le_data (les h x)) st) then (Some x, snd (ah (le_data (les h x)) st))
      else st_run ah h xs (snd (ah (le_data (les h x)) st)))"

lemma st_run_append:
  "st_run ah h (xs @ ys) st =
     (case st_run ah h xs st of (Some e, st') \<Rightarrow> (Some e, st') | (None, st') \<Rightarrow> st_run ah h ys st')"
  by (induction xs arbitrary: st) (auto split: prod.splits)

lemma list_apply_st_run:
  "dll h l p xs None \<Longrightarrow> list_apply_st (hd_or xs None) ah h st = Some (st_run ah h xs st)"
proof (induction xs arbitrary: p st)
  case Nil
  then show ?case by (simp add: list_apply_st.simps)
next
  case (Cons x xs)
  then show ?case by (auto simp: list_apply_st.simps [of "Some x"])
qed

lemma hash_apply_st_run:
  "(\<forall>j<k. is_list h (b + (i + j)) (f (i + j))) \<Longrightarrow>
     hash_apply_st b i k ah h st = Some (st_run ah h (concat (map f [i..<i + k])) st)"
proof (induction k arbitrary: i st)
  case 0
  then show ?case by simp
next
  case (Suc k)
  have l: "is_list h (b + i) (f i)" using Suc.prems [rule_format, of 0] by simp
  then have r: "list_apply_st (l_head (hdrs h (b + i))) ah h st = Some (st_run ah h (f i) st)"
    using list_apply_st_run by (auto simp: is_list_def)
  have "\<forall>j<k. is_list h (b + (Suc i + j)) (f (Suc i + j))"
    using Suc.prems by (metis Suc_less_eq add_Suc_shift)
  note IH = Suc.IH [OF this]
  have "[i..<i + Suc k] = i # [Suc i..<Suc i + k]" by (simp add: upt_rec)
  then show ?case using r IH by (auto simp: st_run_append split: prod.splits option.splits)
qed

text \<open>What a report changes in the table: nothing but the state of existing sources.\<close>

definition same_shape :: "member_tab \<Rightarrow> member_tab \<Rightarrow> bool" where
  "same_shape t t' \<longleftrightarrow> mt_ht t' = mt_ht t \<and> mt_heap t' = mt_heap t \<and>
     (\<forall>a. rel_option (\<lambda>m m'. m_src m' = m_src m \<and> (m_s m' = None) = (m_s m = None)) (mt_objs t a) (mt_objs t' a))"

lemma same_shape_refl [simp]: "same_shape t t"
  by (auto simp: same_shape_def intro: option.rel_refl)

lemma same_shape_trans:
  assumes "same_shape t u" "same_shape u v" shows "same_shape t v"
proof -
  have "rel_option (\<lambda>m m'. m_src m' = m_src m \<and> (m_s m' = None) = (m_s m = None)) (mt_objs t a) (mt_objs v a)" for a
    using assms unfolding same_shape_def
    by (cases "mt_objs t a"; cases "mt_objs u a"; cases "mt_objs v a") (fastforce dest: spec [of _ a])+
  then show ?thesis using assms by (simp add: same_shape_def)
qed

lemma same_shape_upd:
  "mt_objs t a = Some m \<Longrightarrow> m_s m \<noteq> None \<Longrightarrow> same_shape t (mbr_upd a (\<lambda>m. m\<lparr>m_s := Some s\<rparr>) t)"
  by (auto simp: same_shape_def mbr_upd_def intro: option.rel_refl)

lemma same_shape_objs:
  assumes "same_shape t t'"
  shows "mt_objs t' a = Some m' \<Longrightarrow> \<exists>m. mt_objs t a = Some m \<and> m_src m' = m_src m \<and> (m_s m' = None) = (m_s m = None)"
    "mt_objs t a = Some m \<Longrightarrow> \<exists>m'. mt_objs t' a = Some m' \<and> m_src m' = m_src m \<and> (m_s m' = None) = (m_s m = None)"
proof -
  have r: "rel_option (\<lambda>m m'. m_src m' = m_src m \<and> (m_s m' = None) = (m_s m = None)) (mt_objs t a) (mt_objs t' a)"
    using assms by (simp add: same_shape_def)
  show "mt_objs t' a = Some m' \<Longrightarrow> \<exists>m. mt_objs t a = Some m \<and> m_src m' = m_src m \<and> (m_s m' = None) = (m_s m = None)"
    using r by (simp add: option_rel_Some2)
  show "mt_objs t a = Some m \<Longrightarrow> \<exists>m'. mt_objs t' a = Some m' \<and> m_src m' = m_src m \<and> (m_s m' = None) = (m_s m = None)"
    using r by (simp add: option_rel_Some1)
qed

lemma same_shape_rep:
  assumes "same_shape t t'" "mt_rep t f"
  shows "mt_rep t' f"
proof -
  note o = same_shape_objs [OF assms(1)] and D = mt_repD [OF assms(2)]
  have e: "mt_ht t' = mt_ht t" "mt_heap t' = mt_heap t" using assms(1) by (simp_all add: same_shape_def)
  show ?thesis
    unfolding mt_rep_def e
  proof (intro conjI)
    show "\<forall>a m. mt_objs t' a = Some m \<longrightarrow>
        a \<in> set (f (hash_idx (mt_ht t) (m_src m))) \<and> le_data (les (mt_heap t) a) = Some a"
      by (metis D(2,3) o(1))
    show "\<forall>i<unat (h_bsize (mt_ht t)). \<forall>x\<in>set (f i). \<exists>m. mt_objs t' x = Some m \<and> hash_idx (mt_ht t) (m_src m) = i"
      by (metis D(4) o(2))
    show "\<forall>a b m m'. mt_objs t' a = Some m \<longrightarrow> mt_objs t' b = Some m' \<longrightarrow> m_src m = m_src m' \<longrightarrow> a = b"
      by (metis D(5) o(1))
  qed (rule D(1))
qed

lemma same_shape_abs:
  assumes "same_shape t t'" "mt_rep t f"
  shows "dom (mt_abs t') = dom (mt_abs t)" "senders t' = senders t"
proof -
  note o = same_shape_objs [OF assms(1)]
  note a = mt_abs_iff(1) [OF assms(2)] and a' = mt_abs_iff(1) [OF same_shape_rep [OF assms]]
  have 1: "\<exists>m. mt_abs t k = Some m \<and> (m_s m' = None) = (m_s m = None)" if "mt_abs t' k = Some m'" for k m'
    using that o(1) unfolding a a' by metis
  have 2: "\<exists>m'. mt_abs t' k = Some m' \<and> (m_s m' = None) = (m_s m = None)" if "mt_abs t k = Some m" for k m
    using that o(2) unfolding a a' by metis
  show "dom (mt_abs t') = dom (mt_abs t)" using 1 2 by blast
  show "senders t' = senders t" unfolding senders_def by (rule Collect_cong) (metis 1 2)
qed

lemma same_shape_inv:
  assumes "same_shape (ss_members s) t'" "sess_inv s"
  shows "sess_inv (s\<lparr>ss_members := t'\<rparr>)"
proof -
  obtain f where f: "mt_rep (ss_members s) f" using sess_invD(1) [OF assms(2)] by (auto simp: mt_inv_def)
  then show ?thesis
    using same_shape_rep [OF assms(1) f] same_shape_abs [OF assms(1) f] assms(2)
    by (auto simp: sess_inv_def mt_inv_def)
qed

lemma sender_shape: "same_shape t (fst (snd (sender_apply_handler env d (t, mb))))"
  by (auto simp: sender_apply_handler_def split: option.split prod.split intro!: same_shape_upd)

lemma st_run_shape: "same_shape (fst st) (fst (snd (st_run (sender_apply_handler env) h xs st)))"
proof (induction xs arbitrary: st)
  case (Cons x xs)
  have "same_shape (fst st) (fst (snd (sender_apply_handler env d st)))" for d
    using sender_shape [of "fst st" env d "snd st"] by simp
  then show ?case using Cons same_shape_trans by (simp, blast)
qed simp

definition mt_elems :: "member_tab \<Rightarrow> (nat \<Rightarrow> nat list) \<Rightarrow> nat list" where
  "mt_elems t f = concat (map f [0..<unat (h_bsize (mt_ht t))])"

lemma encode_handler_run:
  assumes "mt_rep t f"
  shows "encode_handler env t mb =
     (case st_run (sender_apply_handler env) (mt_heap t) (mt_elems t f) (t, mb) of
        (r, (t', mb')) \<Rightarrow> Some ((if r \<noteq> None then ENOMEM else 0, mb'), t'))"
proof -
  have "\<forall>j<unat (h_bsize (mt_ht t)). is_list (mt_heap t) (h_bucket (mt_ht t) + (0 + j)) (f (0 + j))"
    using mt_repD(1) [OF assms] by (simp add: hash_rep_def bucket_table_def)
  from hash_apply_st_run [OF this, of "sender_apply_handler env" "(t, mb)"] show ?thesis
    by (simp add: encode_handler_def mt_elems_def)
qed

lemma encode_handler_ok:
  assumes "mt_rep t f"
  shows "\<exists>r t'. encode_handler env t mb = Some (r, t') \<and> same_shape t t'"
  using encode_handler_run [OF assms, of env mb] st_run_shape [of "(t, mb)" env "mt_heap t" "mt_elems t f"]
  by (auto split: prod.splits)

section \<open>The contents of a report\<close>

definition member_report :: "rtp_env \<Rightarrow> rtp_member option \<Rightarrow> rtcp_rr list" where
  "member_report env mo = (case mo of None \<Rightarrow> []
     | Some m \<Rightarrow> (case m_s m of None \<Rightarrow> [] | Some s \<Rightarrow> [fst (member_rr env (m_src m) s)]))"

definition reports :: "rtp_env \<Rightarrow> member_tab \<Rightarrow> nat list \<Rightarrow> rtcp_rr list" where
  "reports env t xs = concat (map (\<lambda>x. member_report env (mt_objs t x)) xs)"

lemma rr_fold_shift:
  "foldl (\<lambda>r x. err_or r (\<lambda>mb. rtcp_rr_encode al mb x)) (0, mb) (rr # rrs) =
     foldl (\<lambda>r x. err_or r (\<lambda>mb. rtcp_rr_encode al mb x)) (rtcp_rr_encode al mb rr) rrs"
  by (simp add: err_or_def split_def)

lemma st_run_report:
  assumes "distinct xs" "\<forall>x\<in>set xs. le_data (les h x) = Some x"
    "mb_pos mb + 24 * length (reports env t xs) \<le> mb_size mb" "mb_size mb < 2 ^ 64"
  shows "\<exists>t' mb'. st_run (sender_apply_handler env) h xs (t, mb) = (None, (t', mb')) \<and>
     foldl (\<lambda>r x. err_or r (\<lambda>mb. rtcp_rr_encode (re_al env) mb x)) (0, mb) (reports env t xs) = (0, mb')"
  using assms
proof (induction xs arbitrary: t mb)
  case Nil
  then show ?case by (simp add: reports_def)
next
  case (Cons x xs)
  have d: "le_data (les h x) = Some x" using Cons.prems by simp
  show ?case
  proof (cases "member_report env (mt_objs t x)")
    case Nil
    have "sender_apply_handler env (Some x) (t, mb) = (False, (t, mb))"
      using Nil by (auto simp: member_report_def sender_apply_handler_def split: option.splits)
    moreover have "reports env t (x # xs) = reports env t xs" using Nil by (simp add: reports_def)
    ultimately show ?thesis using Cons.IH [of mb t] Cons.prems d by simp
  next
    case (Cons rr rrs)
    then obtain m s where m: "mt_objs t x = Some m" "m_s m = Some s" "rr = fst (member_rr env (m_src m) s)" "rrs = []"
      by (auto simp: member_report_def split: option.splits)
    have same: "mt_objs (mbr_upd x g t) y = mt_objs t y" if "y \<in> set xs" for y g
      using that \<open>distinct (x # xs)\<close> by (auto simp: mbr_upd_def)
    then have rest: "reports env (mbr_upd x g t) xs = reports env t xs" for g
      by (simp add: reports_def cong: map_cong)
    have r: "reports env t (x # xs) = rr # reports env t xs" using Cons m(4) by (simp add: reports_def)
    then have "mb_pos mb + 24 \<le> mb_size mb" using Cons.prems(3) by simp
    then obtain mb1 where w: "rtcp_rr_encode (re_al env) mb rr = (0, mb1)" "mb_size mb1 = mb_size mb"
      "mb_pos mb1 = mb_pos mb + 24" using fitsD [OF rr_fits _ \<open>mb_size mb < 2 ^ 64\<close>] by metis
    obtain s' where s': "member_rr env (m_src m) s = (rr, s')" using m(3) by (metis prod.collapse)
    let ?g = "\<lambda>m. m\<lparr>m_s := Some s'\<rparr>"
    have a: "sender_apply_handler env (Some x) (t, mb) = (False, (mbr_upd x ?g t, mb1))"
      using m w(1) s' by (simp add: sender_apply_handler_def)
    have "mb_pos mb1 + 24 * length (reports env (mbr_upd x ?g t) xs) \<le> mb_size mb1" "mb_size mb1 < 2 ^ 64"
      using Cons.prems(3,4) w(2,3) r by (simp_all add: rest)
    from Cons.IH [OF _ _ this] obtain t' mb' where
      "st_run (sender_apply_handler env) h xs (mbr_upd x ?g t, mb1) = (None, (t', mb'))"
      "foldl (\<lambda>r x. err_or r (\<lambda>mb. rtcp_rr_encode (re_al env) mb x)) (0, mb1) (reports env t xs) = (0, mb')"
      using Cons.prems(1,2) by (auto simp: rest)
    then show ?thesis unfolding r rr_fold_shift using a d w(1) by simp
  qed
qed

lemma mt_elems_props:
  assumes "mt_rep t f"
  shows "distinct (mt_elems t f)" "set (mt_elems t f) = {a. mt_objs t a \<noteq> None}"
    "\<forall>x\<in>set (mt_elems t f). le_data (les (mt_heap t) x) = Some x"
proof -
  note D = mt_repD [OF assms]
  let ?n = "unat (h_bsize (mt_ht t))"
  have l: "is_list (mt_heap t) (h_bucket (mt_ht t) + i) (f i)" if "i < ?n" for i
    using D(1) that by (simp add: hash_rep_def bucket_table_def)
  have "distinct (concat (map f [0..<k]))" if "k \<le> ?n" for k
    using that
  proof (induction k)
    case (Suc k)
    have "x \<notin> set (f k)" if "i < k" "x \<in> set (f i)" for i x
      using is_list_disjoint [OF l [of i] l [of k]] Suc.prems that by auto
    then show ?case using Suc l [of k] by (auto simp: is_list_def)
  qed simp
  then show "distinct (mt_elems t f)" by (simp add: mt_elems_def)
  show s: "set (mt_elems t f) = {a. mt_objs t a \<noteq> None}"
  proof
    show "set (mt_elems t f) \<subseteq> {a. mt_objs t a \<noteq> None}" using D(4) by (fastforce simp: mt_elems_def)
    show "{a. mt_objs t a \<noteq> None} \<subseteq> set (mt_elems t f)" using D(2) mt_idx [OF assms] by (fastforce simp: mt_elems_def)
  qed
  show "\<forall>x\<in>set (mt_elems t f). le_data (les (mt_heap t) x) = Some x" using D(3) s by fastforce
qed

lemma report_ssrcs:
  "map rr_ssrc (reports env t xs) =
     map (\<lambda>x. m_src (the (mt_objs t x))) (filter (\<lambda>x. \<exists>m s. mt_objs t x = Some m \<and> m_s m = Some s) xs)"
  by (induction xs) (auto simp: reports_def member_report_def member_rr_def split: option.splits prod.splits)

lemma reports_senders:
  assumes "mt_rep t f"
  shows "distinct (map rr_ssrc (reports env t (mt_elems t f)))"
    "set (map rr_ssrc (reports env t (mt_elems t f))) = senders t"
proof -
  note E = mt_elems_props [OF assms]
  let ?ys = "filter (\<lambda>x. \<exists>m s. mt_objs t x = Some m \<and> m_s m = Some s) (mt_elems t f)"
  have "inj_on (\<lambda>x. m_src (the (mt_objs t x))) (set ?ys)"
    using mt_repD(5) [OF assms] by (auto simp: inj_on_def)
  then show "distinct (map rr_ssrc (reports env t (mt_elems t f)))"
    unfolding report_ssrcs using E(1) by (simp add: distinct_map)
  show "set (map rr_ssrc (reports env t (mt_elems t f))) = senders t"
    unfolding report_ssrcs senders_def mt_abs_iff(1) [OF assms]
  proof (rule set_eqI)
    fix k
    show "k \<in> set (map (\<lambda>x. m_src (the (mt_objs t x))) ?ys) \<longleftrightarrow>
        k \<in> {k. \<exists>m. (\<exists>a. mt_objs t a = Some m \<and> m_src m = k) \<and> m_s m \<noteq> None}"
      unfolding mem_Collect_eq set_map set_filter E(2) image_iff by (auto intro!: bexI)
  qed
qed

text \<open>The handler of a report writes one block per sender when there is room.\<close>

lemma encode_handler_report:
  assumes t: "mt_rep t f" and room: "mb_pos mb + 24 * card (senders t) \<le> mb_size mb" "mb_size mb < 2 ^ 64"
  shows "length (reports env t (mt_elems t f)) = card (senders t)"
    "\<exists>t' mb'. encode_handler env t mb = Some ((0, mb'), t') \<and> same_shape t t' \<and>
     foldl (\<lambda>r x. err_or r (\<lambda>mb. rtcp_rr_encode (re_al env) mb x)) (0, mb) (reports env t (mt_elems t f)) = (0, mb')"
proof -
  let ?rs = "reports env t (mt_elems t f)"
  show l: "length ?rs = card (senders t)"
    using reports_senders [OF t, of env] distinct_card [of "map rr_ssrc ?rs"] by simp
  from st_run_report [OF mt_elems_props(1,3) [OF t], of mb env t] room l obtain t' mb' where
    r: "st_run (sender_apply_handler env) (mt_heap t) (mt_elems t f) (t, mb) = (None, (t', mb'))"
      "foldl (\<lambda>r x. err_or r (\<lambda>mb. rtcp_rr_encode (re_al env) mb x)) (0, mb) ?rs = (0, mb')" by auto
  have "same_shape t t'" using st_run_shape [of "(t, mb)" env "mt_heap t" "mt_elems t f"] r(1) by simp
  then show "\<exists>t' mb'. encode_handler env t mb = Some ((0, mb'), t') \<and> same_shape t t' \<and>
     foldl (\<lambda>r x. err_or r (\<lambda>mb. rtcp_rr_encode (re_al env) mb x)) (0, mb) ?rs = (0, mb')"
    using encode_handler_run [OF t, of env mb] r by auto
qed

lemma report_body:
  assumes t: "mt_rep t f" and w: "fits n w" and room: "mb_pos mb + n + 24 * card (senders t) \<le> mb_size mb" "mb_size mb < 2 ^ 64"
  shows "\<exists>t'. rtcp_ench (Some (encode_handler env)) t (w mb) =
      Some (err_or (w mb) (\<lambda>mb. foldl (\<lambda>r x. err_or r (\<lambda>mb. rtcp_rr_encode (re_al env) mb x)) (0, mb)
        (reports env t (mt_elems t f))), t') \<and> same_shape t t'"
proof -
  obtain mb1 where 1: "w mb = (0, mb1)" "mb_size mb1 = mb_size mb" "mb_pos mb1 = mb_pos mb + n"
    using fitsD [OF w _ room(2)] room(1) by (metis add_leD1)
  have "mb_pos mb1 + 24 * card (senders t) \<le> mb_size mb1" "mb_size mb1 < 2 ^ 64" using room 1(2,3) by simp_all
  from encode_handler_report(2) [OF t this] obtain t' mb' where
    "encode_handler env t mb1 = Some ((0, mb'), t')" "same_shape t t'"
    "foldl (\<lambda>r x. err_or r (\<lambda>mb. rtcp_rr_encode (re_al env) mb x)) (0, mb1) (reports env t (mt_elems t f)) = (0, mb')"
    by blast
  then show ?thesis using 1(1) by (auto simp: rtcp_ench_def err_or_def)
qed

definition report_msg :: "rtp_env \<Rightarrow> u32 \<Rightarrow> rtcp_sess \<Rightarrow> rtcp_rr list \<Rightarrow> rtcp_body" where
  "report_msg env ssrc s rrs =
     (let tx = ss_txstat s in
      if tx_jfs_rt_ref tx \<noteq> 0 then
        R_sr ssrc (ntp_hi (re_ntp env)) (ntp_lo (re_ntp env))
          (ucast (ucast (tx_ts_ref tx) + (re_jfs_rt env - tx_jfs_rt_ref tx) * ucast (ss_srate_tx s) div 1000000))
          (tx_psent tx) (tx_osent tx) rrs
      else R_rr ssrc rrs)"

lemma mk_sr_args:
  "\<exists>args. mk_sr env ssrc s mb =
     map_option (\<lambda>(r, t'). (r, s\<lparr>ss_txstat := (ss_txstat s)\<lparr>tx_ts_synced := False\<rparr>, ss_members := t'\<rparr>))
       (rtcp_vencode (re_al env) mb (ss_senderc s) args (ss_members s)) \<and>
     rtcp_args_type args = rc_pt (rtcp_body_hdr (report_msg env ssrc s rrs)) \<and>
     (\<exists>n w. fits n w \<and> n \<le> 24 \<and>
       (\<forall>st m. rtcp_body_encode (re_al env) args c st m =
          map_option (apfst Inr) (rtcp_ench (Some (encode_handler env)) st (w m))) \<and>
       (\<forall>(st :: member_tab) m. rtcp_body_encode (re_al env) (rtcp_body_args (re_al env) (report_msg env ssrc s rrs)) c' st m =
          map_option (apfst Inr) (rtcp_ench (Some (rr_ench (re_al env) rrs)) st (w m))))"
proof (cases "tx_jfs_rt_ref (ss_txstat s) \<noteq> 0")
  case True
  let ?tx = "ss_txstat s"
  let ?ts = "ucast (ucast (tx_ts_ref ?tx) + (re_jfs_rt env - tx_jfs_rt_ref ?tx) * ucast (ss_srate_tx s) div 1000000) :: u32"
  let ?vs = "[ssrc, ntp_hi (re_ntp env), ntp_lo (re_ntp env), ?ts, tx_psent ?tx, tx_osent ?tx]"
  let ?w = "\<lambda>m. foldl (\<lambda>r v. err_or r (w32 (re_al env) v)) (0, m) ?vs"
  have "fits 24 ?w"
    using fits_fold [OF fits_nil, of ?vs "\<lambda>_. 4" "w32 (re_al env)"] by (simp add: w32_fits)
  then show ?thesis
    using True
    by (intro exI [of _ "A_sr ssrc (ntp_hi (re_ntp env)) (ntp_lo (re_ntp env)) ?ts (tx_psent ?tx) (tx_osent ?tx)
          (Some (encode_handler env))"] conjI exI [of _ 24] exI [of _ ?w])
      (simp_all add: mk_sr_def Let_def report_msg_def rtcp_body_hdr_def)
next
  case False
  then show ?thesis
    by (intro exI [of _ "A_rr ssrc (Some (encode_handler env))"] conjI exI [of _ 4] exI [of _ "w32 (re_al env) ssrc"])
      (simp_all add: mk_sr_def Let_def report_msg_def rtcp_body_hdr_def w32_fits)
qed

lemma report_msg_simps:
  "rtcp_body_count (report_msg env ssrc s rrs) = length rrs"
  "rtcp_body_ok (report_msg env ssrc s rrs) = (length rrs < 32)"
  "length (rtcp_body_img (report_msg env ssrc s rrs)) \<le> 24 + 24 * length rrs"
  by (auto simp: report_msg_def Let_def concat_len [of rr_img 24])

lemma mk_sr_decodes:
  fixes env :: rtp_env
  assumes s: "sess_inv s" and f: "mt_rep (ss_members s) f" and rd: "mbuf_ready mb"
    and room: "mb_pos mb + 223 \<le> mb_size mb" and al: "\<And>n. avail al' n"
  defines "rrs \<equiv> reports env (ss_members s) (mt_elems (ss_members s) f)"
  shows "\<exists>mb' s'. mk_sr env ssrc s mb = Some ((0, mb'), s') \<and> sess_inv s' \<and>
     senders (ss_members s') = senders (ss_members s) \<and>
     rtcp_decode al' (mbuf_set_pos mb' (mb_pos mb)) =
       (Inr \<lparr>rm_hdr = rtcp_body_hdr (report_msg env ssrc s rrs), rm_r = report_msg env ssrc s rrs\<rparr>, mb')"
proof -
  let ?t = "ss_members s" and ?r = "report_msg env ssrc s rrs" and ?al = "re_al env"
  let ?m0 = "mb\<lparr>mb_pos := mb_pos mb + 4, mb_end := mb_pos mb + 4\<rparr>"
  note S = sess_invD [OF s]
  have c8: "card (senders ?t) \<le> 8" using S(4,5,6) by simp
  have sz: "mb_size mb < 2 ^ 64" using rd by (simp add: mbuf_ready_def mbuf_wf_def MEM_SIZE_MAX_def)
  have len: "length rrs = card (senders ?t)"
    using reports_senders [OF f, of env] distinct_card [of "map rr_ssrc rrs"] by (simp add: rrs_def)
  have cnt: "ss_senderc s = word_of_nat (rtcp_body_count ?r)" using S(4) len by (simp add: report_msg_simps)
  obtain args n w where a: "mk_sr env ssrc s mb =
       map_option (\<lambda>(r, t'). (r, s\<lparr>ss_txstat := (ss_txstat s)\<lparr>tx_ts_synced := False\<rparr>, ss_members := t'\<rparr>))
         (rtcp_vencode ?al mb (ss_senderc s) args ?t)"
    and ty: "rtcp_args_type args = rc_pt (rtcp_body_hdr ?r)" and w: "fits n w" "n \<le> 24"
    and e: "\<And>st m. rtcp_body_encode ?al args (rtcp_body_count ?r) st m =
       map_option (apfst Inr) (rtcp_ench (Some (encode_handler env)) st (w m))"
    and e': "\<And>(st :: member_tab) m. rtcp_body_encode ?al (rtcp_body_args ?al ?r) (rtcp_body_count ?r) st m =
       map_option (apfst Inr) (rtcp_ench (Some (rr_ench ?al rrs)) st (w m))"
    using mk_sr_args [of env ssrc s mb rrs "rtcp_body_count ?r" "rtcp_body_count ?r"] by blast
  have ok: "rtcp_body_ok ?r" using len c8 by (simp add: report_msg_simps)
  obtain g where g: "\<And>m. rtcp_body_encode ?al (rtcp_body_args ?al ?r) (rtcp_body_count ?r) ?t m = Some (Inr (g m), ?t)"
    "adds (rtcp_body_img ?r) g" "fits (length (rtcp_body_img ?r)) g" using rtcp_body_encode_ok [OF ok, of ?al ?t] by blast
  have gw: "g m = err_or (w m) (\<lambda>mb. foldl (\<lambda>r x. err_or r (\<lambda>mb. rtcp_rr_encode ?al mb x)) (0, mb) rrs)" for m
    using g(1) [of m] e' [of ?t m] by (simp add: rr_ench_or)
  have "mb_pos ?m0 + n + 24 * card (senders ?t) \<le> mb_size ?m0" "mb_size ?m0 < 2 ^ 64"
    using room w(2) c8 sz by simp_all
  from report_body [OF f w(1) this, of env] obtain t' where
    en: "rtcp_ench (Some (encode_handler env)) ?t (w ?m0) = Some (g ?m0, t')" and sh: "same_shape ?t t'"
    unfolding gw rrs_def by blast
  have b: "rtcp_body_encode ?al args (rtcp_body_count ?r) ?t ?m0 = Some (Inr (g ?m0), t')"
    unfolding e en by simp
  have "mb_pos mb + 4 + length (rtcp_body_img ?r) + 3 \<le> mb_size mb"
    using room report_msg_simps(3) [of env ssrc s rrs] len c8 by simp
  from rtcp_vencode_decodes [where g = g and st = ?t and st' = t' and args = args and al = ?al and al' = al',
      OF ok rd al this b g(2,3) ty] obtain mb' where
    v: "rtcp_vencode ?al mb (ss_senderc s) args ?t = Some ((0, mb'), t')"
      "rtcp_decode al' (mbuf_set_pos mb' (mb_pos mb)) = (Inr \<lparr>rm_hdr = rtcp_body_hdr ?r, rm_r = ?r\<rparr>, mb')"
    unfolding cnt by blast
  have "sess_inv (s\<lparr>ss_txstat := (ss_txstat s)\<lparr>tx_ts_synced := False\<rparr>, ss_members := t'\<rparr>)"
    by (rule sess_inv_cong [OF same_shape_inv [OF sh s]]) simp_all
  then show ?thesis using a v same_shape_abs(2) [OF sh f] by simp
qed

section \<open>Reachable sessions\<close>

fun args_handler :: "'s rtcp_args \<Rightarrow> 's rtcp_encode_h option" where
  "args_handler (A_sr a b c d e f h) = h"
| "args_handler (A_rr s h) = h"
| "args_handler (A_sdes h) = h"
| "args_handler (A_rtpfb p m h) = h"
| "args_handler (A_psfb p m h) = h"
| "args_handler (A_xr s h) = h"
| "args_handler _ = None"

text \<open>Encoding changes the object of the handler only through the handler.\<close>

lemma rtcp_ench_state:
  "rtcp_ench h st r = Some (r', st') \<Longrightarrow> Q st \<Longrightarrow>
     (\<And>f m r st'. h = Some f \<Longrightarrow> f st m = Some (r, st') \<Longrightarrow> Q st') \<Longrightarrow> Q st'"
  by (cases h) (auto simp: rtcp_ench_def)

lemma rtcp_body_encode_state:
  assumes "rtcp_body_encode al args c st mb = Some (r, st')" "Q st"
    "\<And>f m r st'. args_handler args = Some f \<Longrightarrow> f st m = Some (r, st') \<Longrightarrow> Q st'"
  shows "Q st'"
  using assms by (cases args) (auto simp: Let_def elim: rtcp_ench_state [where Q = Q])

lemma rtcp_vencode_state:
  assumes "rtcp_vencode al mb c args st = Some (r, st')" "Q st"
    "\<And>f m r st'. args_handler args = Some f \<Longrightarrow> f st m = Some (r, st') \<Longrightarrow> Q st'"
  shows "Q st'"
proof -
  obtain x where "rtcp_body_encode al args (unat c) st
      (mb\<lparr>mb_pos := szt (mb_pos mb + RTCP_HDR_SIZE), mb_end := szt (mb_pos mb + RTCP_HDR_SIZE)\<rparr>) = Some (x, st')"
    using assms(1) by (auto simp: rtcp_vencode_def Let_def split: option.splits sum.splits if_splits prod.splits)
  from rtcp_body_encode_state [of al args "unat c" st _ x st' Q, OF this assms(2,3)] show ?thesis .
qed

lemma mk_sr_inv:
  assumes "sess_inv s" "mk_sr env ssrc s mb = Some (r, s')"
  shows "sess_inv s'"
proof -
  obtain f where f: "mt_rep (ss_members s) f" using sess_invD(1) [OF assms(1)] by (auto simp: mt_inv_def)
  obtain args t' where v: "rtcp_vencode (re_al env) mb (ss_senderc s) args (ss_members s) = Some (r, t')"
    and h: "args_handler args = Some (encode_handler env)"
    and s': "s' = s\<lparr>ss_txstat := (ss_txstat s)\<lparr>tx_ts_synced := False\<rparr>, ss_members := t'\<rparr>"
    using assms(2) by (fastforce simp: mk_sr_def Let_def split: if_splits)
  have "same_shape (ss_members s) t'"
  proof (rule rtcp_vencode_state [OF v, where Q = "same_shape (ss_members s)"])
    fix g m r u
    assume "args_handler args = Some g" "g (ss_members s) m = Some (r, u)"
    then show "same_shape (ss_members s) u" using h encode_handler_ok [OF f, of env m] by auto
  qed simp
  then show ?thesis unfolding s' by (rule sess_inv_cong [OF same_shape_inv [OF _ assms(1)]]) simp_all
qed

lemma mk_sdes_inv:
  "sess_inv s \<Longrightarrow> mk_sdes env ssrc s mb = Some (r, s') \<Longrightarrow> sess_inv s'"
  unfolding mk_sdes_def by (erule rtcp_vencode_state) (auto simp: sdes_encode_handler_def)

lemma send_rtcp_report_inv:
  "sess_inv s \<Longrightarrow> send_rtcp_report env send ssrc s = Some (e, s') \<Longrightarrow> sess_inv s'"
  by (auto simp: send_rtcp_report_def split: option.splits prod.splits if_splits dest: mk_sr_inv mk_sdes_inv)

lemma rtcp_send_bye_packet_inv:
  assumes "sess_inv s" "rtcp_send_bye_packet env send ssrc s = Some (e, s')"
  shows "sess_inv s'"
proof -
  have b: "sess_inv s1" if "rtcp_vencode (re_al env) mb 1 (A_bye [ssrc] (Some (str_bytes ''Adjo''))) s = Some (r, s1)" for mb r s1
    by (rule rtcp_vencode_state [OF that, where Q = sess_inv]) (use assms(1) in simp_all)
  from assms show ?thesis
    by (auto simp: rtcp_send_bye_packet_def split: option.splits prod.splits if_splits dest!: b dest: mk_sdes_inv)
qed

inductive sess_reach :: "rtcp_sess \<Rightarrow> bool" where
  reach_alloc: "rtcp_sess_alloc zs e hp bp h = Inr s \<Longrightarrow> sess_reach s"
| reach_rtcp: "sess_reach s \<Longrightarrow> env_ok env \<Longrightarrow> rtcp_handler env s msg = Some s' \<Longrightarrow> sess_reach s'"
| reach_rx: "sess_reach s \<Longrightarrow> env_ok env \<Longrightarrow> rtcp_sess_rx_rtp env s hdr n = Some (s', hdr') \<Longrightarrow> sess_reach s'"
| reach_tx: "sess_reach s \<Longrightarrow> rtcp_sess_tx_rtp (Some s) ts jfs n = Some s' \<Longrightarrow> sess_reach s'"
| reach_interval: "sess_reach s \<Longrightarrow> rtcp_set_interval (Some s) i = Some s' \<Longrightarrow> sess_reach s'"
| reach_srate: "sess_reach s \<Longrightarrow> rtcp_set_srate (Some s) a b = Some s' \<Longrightarrow> sess_reach s'"
| reach_srate_tx: "sess_reach s \<Longrightarrow> rtcp_set_srate_tx (Some s) a = Some s' \<Longrightarrow> sess_reach s'"
| reach_srate_rx: "sess_reach s \<Longrightarrow> rtcp_set_srate_rx (Some s) b = Some s' \<Longrightarrow> sess_reach s'"
| reach_enable: "sess_reach s \<Longrightarrow> rtcp_enable env (Some s) on cname = (err, Some s') \<Longrightarrow> sess_reach s'"
| reach_schedule: "sess_reach s \<Longrightarrow> rtcp_schedule_report (Some s) = Some s' \<Longrightarrow> sess_reach s'"
| reach_make_sr: "sess_reach s \<Longrightarrow> rtcp_make_sr env ssrc (Some s) mb = Some (r, Some s') \<Longrightarrow> sess_reach s'"
| reach_make_sdes: "sess_reach s \<Longrightarrow> rtcp_make_sdes_cname env ssrc (Some s) mb = Some (r, Some s') \<Longrightarrow> sess_reach s'"
| reach_timeout: "sess_reach s \<Longrightarrow> sess_timeout env send ssrc s = Some s' \<Longrightarrow> sess_reach s'"
| reach_bye: "sess_reach s \<Longrightarrow> rtcp_send_bye_packet env send ssrc s = Some (e, s') \<Longrightarrow> sess_reach s'"

lemma sess_alloc_inv:
  assumes "rtcp_sess_alloc zs e hp bp h = Inr s"
  shows "sess_inv s"
proof -
  obtain ht h' where a: "hash_alloc hp bp MAX_MEMBERS h = Inr (ht, h')"
    and s: "ss_members s = \<lparr>mt_ht = ht, mt_heap = h', mt_objs = (\<lambda>_. None)\<rparr>" "ss_memberc s = 0" "ss_senderc s = 0"
    using assms by (auto simp: rtcp_sess_alloc_def split: if_splits sum.splits)
  have r: "mt_rep (ss_members s) (\<lambda>_. [])" using hash_alloc_rep [OF a] by (simp add: mt_rep_def s)
  then have "mt_abs (ss_members s) = (\<lambda>_. None)"
    by (rule mt_absI) (simp add: s)
  then show ?thesis using r s(2,3) by (auto simp: sess_inv_def mt_inv_def senders_def)
qed

lemma sess_inv_fields [simp]:
  "sess_inv (s\<lparr>ss_tmr := a\<rparr>) = sess_inv s" "sess_inv (s\<lparr>ss_cname := b\<rparr>) = sess_inv s"
  "sess_inv (s\<lparr>ss_srate_tx := c\<rparr>) = sess_inv s" "sess_inv (s\<lparr>ss_srate_rx := d\<rparr>) = sess_inv s"
  "sess_inv (s\<lparr>ss_interval := i\<rparr>) = sess_inv s" "sess_inv (s\<lparr>ss_txstat := t\<rparr>) = sess_inv s"
  by (simp_all add: sess_inv_def)

lemma sess_reach_inv: "sess_reach s \<Longrightarrow> sess_inv s"
proof (induction rule: sess_reach.induct)
  case (reach_alloc zs e hp bp h s)
  then show ?case by (rule sess_alloc_inv)
next
  case (reach_rtcp s env msg s')
  then show ?case using rtcp_handler_ok [of s env msg] by auto
next
  case (reach_rx s env hdr n s' hdr')
  then show ?case using rtcp_sess_rx_rtp_ok [of s env hdr n] by auto
next
  case (reach_enable s env on cname err s')
  then show ?case
    by (auto simp: rtcp_enable_def schedule_def Let_def split: sum.splits if_splits)
next
  case (reach_make_sr s env ssrc mb r s')
  then show ?case by (auto simp: rtcp_make_sr_def dest: mk_sr_inv)
next
  case (reach_make_sdes s env ssrc mb r s')
  then show ?case by (auto simp: rtcp_make_sdes_cname_def dest: mk_sdes_inv)
next
  case (reach_timeout s env send ssrc s')
  then obtain e u where "send_rtcp_report env send ssrc s = Some (e, u)" "s' = schedule u"
    by (auto simp: sess_timeout_def)
  then show ?case using send_rtcp_report_inv [OF reach_timeout.IH] by (simp add: schedule_def)
next
  case (reach_bye s env send ssrc e s')
  then show ?case by (blast dest: rtcp_send_bye_packet_inv)
qed (auto simp: rtcp_sess_tx_rtp_def rtcp_set_interval_def rtcp_set_srate_def rtcp_set_srate_tx_def
    rtcp_set_srate_rx_def rtcp_schedule_report_def schedule_def Let_def)

section \<open>Sending and receiving media\<close>

lemma pt_small:
  fixes pt :: u8
  assumes "pt AND 0x80 = 0"
  shows "unat pt < 128"
proof -
  have "take_bit 7 pt = pt"
  proof (rule bit_word_eqI)
    fix n assume n: "n < LENGTH(8)"
    have "\<not> bit pt 7" using bit_and_iff [of pt "0x80" 7] assms by simp
    then show "bit (take_bit 7 pt) n = bit pt n" using n by (cases "n = 7") (auto simp: bit_take_bit_iff)
  qed
  then have "unat pt = unat pt mod 2 ^ 7" by (metis unat_take_bit)
  moreover have "unat pt mod 2 ^ 7 < 128" by simp
  ultimately show ?thesis by simp
qed

lemma rx_hdr_keeps:
  "rtcp_sess_rx_rtp env s h n = Some (s', h') \<Longrightarrow> rh_seq h' = rh_seq h \<and> rh_ssrc h' = rh_ssrc h \<and>
     rh_m h' = rh_m h \<and> rh_pt h' = rh_pt h \<and> rh_ts h' = rh_ts h"
  by (auto simp: rtcp_sess_rx_rtp_def rx_ts_arrive_def Let_def split: option.splits prod.splits if_splits)

lemma length_rtp_img0: "rh_cc h = 0 \<Longrightarrow> length (rtp_img h) = 12"
  by (simp add: rtp_img_def)

lemma enc_hdr_ok: "unat pt < 128 \<Longrightarrow> rtp_hdr_ok rtp_zero (rtp_enc_hdr seq ssrc False marker pt ts)"
  by (simp add: rtp_hdr_ok_def rtp_enc_hdr_def rtp_zero_def RTP_VERSION_def)

text \<open>A packet sent from a buffer with the headroom that \<^verbatim>\<open>rtp_send\<close> asks for: the header
  in front of the payload, nothing else moved.\<close>

lemma rtp_send_packet:
  fixes rs :: rtp_sock and ext marker :: bool and ts :: u32
  assumes rd: "mbuf_ready mb" and p: "RTP_HEADER_SIZE \<le> mb_pos mb" and pt: "pt AND 0x80 = 0"
  defines "h \<equiv> rtp_enc_hdr (rs_seq rs + 1) (rs_ssrc rs) ext marker pt ts"
  shows "\<exists>mb'. rtp_send al udp rs ext marker pt ts jfs mb =
       ((udp mb', mb'), rs\<lparr>rs_seq := rs_seq rs + 1, rs_rtcp := rtcp_sess_tx_rtp (rs_rtcp rs) ts jfs (mbuf_get_left mb)\<rparr>,
        Some mb') \<and>
     mbuf_ready mb' \<and> mb_pos mb' = mb_pos mb - 12 \<and> mbuf_left mb' = rtp_img h @ mbuf_left mb"
proof -
  let ?mb1 = "mbuf_advance mb (- int RTP_HEADER_SIZE)" and ?p = "mb_pos mb - 12"
  have p12: "12 \<le> mb_pos mb" using p by (simp add: RTP_HEADER_SIZE_def)
  have lt: "mb_pos mb < 2 ^ 64" "mb_size mb < 2 ^ 64" "mb_end mb \<le> mb_size mb" "mb_pos mb \<le> mb_end mb"
    using rd by (auto simp: mbuf_ready_def mbuf_wf_def MEM_SIZE_MAX_def)
  have m1: "?mb1 = mb\<lparr>mb_pos := ?p\<rparr>"
    using p12 lt(1) by (simp add: mbuf_advance_def RTP_HEADER_SIZE_def of_nat_diff [symmetric] nat_mod_distrib)
  have rd1: "mbuf_ready ?mb1" using rd unfolding m1 by (auto simp: mbuf_ready_def mbuf_wf_def mbuf_bytes_def)
  have img: "length (rtp_img h) = 12" by (rule length_rtp_img0) (simp add: h_def rtp_enc_hdr_def)
  have "mb_pos ?mb1 + length (rtp_img h) \<le> mb_size ?mb1" "mb_size ?mb1 < 2 ^ 64" using lt p12 img by (simp_all add: m1)
  then obtain mb2 where w: "rtp_hdr_encode al ?mb1 h = (0, mb2)" using fitsD [OF rtp_hdr_encode_fits] by metis
  note a = addsD [OF rtp_hdr_encode_adds rd1 w]
  have pos2: "mb_pos mb2 = mb_pos mb" using a(2) img p12 by (simp add: m1)
  have c1: "mbuf_content ?mb1 = mbuf_content mb" by (simp add: m1 mbuf_content_def mbuf_bytes_def)
  have len: "length (mbuf_content mb) = mb_end mb" "length (mbuf_content mb2) = mb_end mb2"
    using rd a(1) by (simp_all add: mbuf_ready_def)
  have c2: "mbuf_content mb2 = take ?p (mbuf_content mb) @ rtp_img h @ drop (mb_pos mb) (mbuf_content mb)"
    using a(3) c1 img p12 len lt by (simp add: mem_put_def m1)
  have e2: "mb_end mb2 = mb_end mb" using len lt p12 img arg_cong [OF c2, of length] by simp
  let ?mb3 = "mb2\<lparr>mb_pos := ?p\<rparr>"
  have rd3: "mbuf_ready ?mb3" using a(1) pos2 by (auto simp: mbuf_ready_def mbuf_wf_def mbuf_bytes_def)
  have c3: "mbuf_content ?mb3 = mbuf_content mb2" by (simp add: mbuf_content_def mbuf_bytes_def)
  have "mbuf_left ?mb3 = rtp_img h @ mbuf_left mb"
    unfolding mbuf_left_content c3 c2 using len lt p12 by simp
  moreover have "mbuf_get_left mb2 = mbuf_get_left mb" by (simp add: mbuf_get_left_def e2 pos2)
  moreover have "\<not> mb_pos mb < RTP_HEADER_SIZE" "mb_pos ?mb1 = ?p" using p by (simp_all add: m1)
  ultimately show ?thesis
    using w pt rd3 by (intro exI [of _ ?mb3]) (simp add: rtp_send_def rtp_encode_def Let_def h_def)
qed

definition sock_ok :: "rtp_sock \<Rightarrow> bool" where
  "sock_ok rs \<longleftrightarrow> (case rs_rtcp rs of None \<Rightarrow> True | Some s \<Rightarrow> sess_reach s)"

lemma rtcp_recv_handler_ok:
  "mbuf_wf mb \<Longrightarrow> length (mbuf_left mb) div 4 < k \<Longrightarrow> env_ok env \<Longrightarrow> sock_ok rs \<Longrightarrow>
     \<exists>rs' evs. rtcp_recv_handler k env rs mb = Some (rs', evs) \<and> sock_ok rs' \<and> length evs \<le> length (mbuf_left mb) div 4"
proof (induction k arbitrary: mb rs)
  case (Suc k)
  obtain r mb' where d: "rtcp_decode (re_al env) mb = (r, mb')" by fastforce
  show ?case
  proof (cases r)
    case (Inl e)
    then show ?thesis using d Suc.prems(4) by simp
  next
    case (Inr msg)
    then obtain n where n: "4 \<le> n" "n \<le> length (mbuf_left mb)" "mb' = mbuf_skip mb n"
      using rtcp_decode_progress Suc.prems(1) d by blast
    have wf: "mbuf_wf mb'" using n Suc.prems(1) by (simp add: mbuf_wf_skip)
    have "length (mbuf_left mb') \<le> length (mbuf_left mb) - 4" using n by (simp add: mbuf_left_skip)
    then have "length (mbuf_left mb') div 4 \<le> (length (mbuf_left mb) - 4) div 4" by (rule div_le_mono)
    also have "\<dots> = length (mbuf_left mb) div 4 - 1" using n by (simp add: le_div_geq)
    finally have len: "length (mbuf_left mb') div 4 < length (mbuf_left mb) div 4" using n by (simp add: le_div_geq)
    then have lt: "length (mbuf_left mb') div 4 < k" using Suc.prems(2) by simp
    obtain so where so: "(case rs_rtcp rs of None \<Rightarrow> Some None
        | Some sess \<Rightarrow> map_option Some (rtcp_handler env sess msg)) = Some so" "sock_ok (rs\<lparr>rs_rtcp := so\<rparr>)"
    proof (cases "rs_rtcp rs")
      case None
      then show thesis by (intro that [of None]) (simp_all add: sock_ok_def)
    next
      case (Some s)
      then have "sess_reach s" using Suc.prems(4) by (simp add: sock_ok_def)
      moreover obtain s' where "rtcp_handler env s msg = Some s'"
        using rtcp_handler_ok [OF sess_reach_inv Suc.prems(3)] calculation by blast
      ultimately show thesis using Some Suc.prems(3) by (intro that [of "Some s'"]) (auto simp: sock_ok_def intro: reach_rtcp)
    qed
    from Suc.IH [OF wf lt Suc.prems(3) so(2)] len so(1) show ?thesis using d Inr by auto
  qed
qed simp

section \<open>Properties\<close>

definition env_wit :: rtp_env where
  "env_wit = \<lparr>re_al = al_all, re_ntp = \<lparr>ntp_hi = 1, ntp_lo = 0\<rparr>, re_jfs_rt = 1, re_jiffies = 1,
     re_member = (\<lambda>t. if mt_objs t 1 = None then Some 1 else None), re_source = True\<rparr>"

lemma env_wit_ok: "env_ok env_wit"
  by (simp add: env_ok_def env_wit_def)

lemma sess_wit: "\<exists>s. rtcp_sess_alloc True 0 True (Some 100) heap0 = Inr s \<and> sess_reach s \<and> ss_senderc s = 0 \<and>
    ss_memberc s = 0"
proof -
  have "hash_alloc True (Some 100) MAX_MEMBERS heap0 =
      Inr (\<lparr>h_bucket = 100, h_bsize = MAX_MEMBERS\<rparr>, zero_buckets 100 (unat MAX_MEMBERS) heap0)"
    by (simp add: hash_alloc_def MAX_MEMBERS_def)
  then obtain s where "rtcp_sess_alloc True 0 True (Some 100) heap0 = Inr s" "ss_senderc s = 0" "ss_memberc s = 0"
    by (simp add: rtcp_sess_alloc_def)
  then show ?thesis using reach_alloc by blast
qed

text \<open>C36: in every session reachable by received RTCP and RTP packets, sent packets, reports, timeouts and
  configuration calls, the member counter is the number of members and at most 8, the sender
  counter is the number of members with a source, every live member object is found in the table
  under its source (none is leaked), and the packet handlers return.\<close>

theorem sess_reachable:
  assumes "sess_reach s" "env_ok env"
  shows "card (dom (mt_abs (ss_members s))) = unat (ss_memberc s) \<and> unat (ss_memberc s) \<le> 8 \<and>
    card (senders (ss_members s)) = unat (ss_senderc s) \<and>
    (\<forall>a m. mt_objs (ss_members s) a = Some m \<longrightarrow> rtp_member_find (ss_members s) (m_src m) = Some (Some a)) \<and>
    (\<exists>s'. rtcp_handler env s msg = Some s') \<and> (\<exists>r. rtcp_sess_rx_rtp env s hdr n = Some r)"
proof -
  note i = sess_reach_inv [OF assms(1)]
  note S = sess_invD [OF i]
  obtain f where f: "mt_rep (ss_members s) f" using S(1) by (auto simp: mt_inv_def)
  have "rtp_member_find (ss_members s) (m_src m) = Some (Some a)" if "mt_objs (ss_members s) a = Some m" for a m
    using member_find [OF f, of "m_src m"] that by metis
  then show ?thesis
    using S(2,4,6) rtcp_handler_ok [OF i assms(2), of msg] rtcp_sess_rx_rtp_ok [OF i assms(2), of hdr n] by auto
qed

theorem sess_reachable_witness:
  "\<exists>s. rtcp_sess_alloc True 0 True (Some 100) heap0 = Inr s \<and> card (dom (mt_abs (ss_members s))) = 0 \<and>
     (\<exists>r. rtcp_sess_rx_rtp env_wit s rtp_wit 100 = Some r)"
proof -
  obtain s where s: "rtcp_sess_alloc True 0 True (Some 100) heap0 = Inr s" "sess_reach s" "ss_memberc s = 0"
    using sess_wit by blast
  from sess_reachable [OF s(2) env_wit_ok, of _ rtp_wit 100] s show ?thesis by auto
qed

text \<open>C37: a BYE takes exactly the sources it lists out of the session, whatever the session holds.\<close>

theorem rtcp_bye_removes:
  assumes "sess_reach s" "rm_r msg = R_bye srcv reason"
  shows "\<exists>s'. rtcp_handler env s msg = Some s' \<and>
    mt_abs (ss_members s') = mt_abs (ss_members s) |` (- set (take (unat (rc_count (rm_hdr msg))) srcv))"
  using handle_incoming_bye_ok [OF sess_reach_inv [OF assms(1)], of "take (unat (rc_count (rm_hdr msg))) srcv"] assms(2)
  by (auto simp: rtcp_handler_def Let_def)

theorem rtcp_bye_removes_witness:
  "\<exists>s s'. sess_reach s \<and> rtcp_handler env_wit s \<lparr>rm_hdr = rtcp_body_hdr (R_bye [7] None), rm_r = R_bye [7] None\<rparr> = Some s' \<and>
     mt_abs (ss_members s') 7 = None"
proof -
  obtain s where s: "sess_reach s" using sess_wit by blast
  have "rc_count (rtcp_body_hdr (R_bye [7] None)) = 1" by (simp add: rtcp_body_hdr_def)
  then show ?thesis using s rtcp_bye_removes [OF s, of "\<lparr>rm_hdr = rtcp_body_hdr (R_bye [7] None), rm_r = R_bye [7] None\<rparr>" "[7]" None env_wit]
    by auto
qed

text \<open>C38: the report a session makes decodes at the receiver: in a buffer with room it is a sender
  report (a receiver report while nothing was sent) with the statistics of the session and exactly
  one report block per sender, the count of the header included.\<close>

theorem rtcp_report_decodes:
  assumes "sess_reach s" "mbuf_ready mb" "mb_pos mb + 223 \<le> mb_size mb" "\<And>n. avail al' n"
  shows "\<exists>mb' s' rrs. mk_sr env ssrc s mb = Some ((0, mb'), s') \<and> distinct (map rr_ssrc rrs) \<and>
    set (map rr_ssrc rrs) = senders (ss_members s) \<and> length rrs = unat (ss_senderc s) \<and>
    rtcp_decode al' (mbuf_set_pos mb' (mb_pos mb)) =
      (Inr \<lparr>rm_hdr = rtcp_body_hdr (report_msg env ssrc s rrs), rm_r = report_msg env ssrc s rrs\<rparr>, mb')"
proof -
  note i = sess_reach_inv [OF assms(1)]
  note S = sess_invD [OF i]
  obtain f where f: "mt_rep (ss_members s) f" using S(1) by (auto simp: mt_inv_def)
  let ?rs = "reports env (ss_members s) (mt_elems (ss_members s) f)"
  note r = reports_senders [OF f, of env]
  have "length ?rs = unat (ss_senderc s)" using S(4) r distinct_card [OF r(1)] by simp
  then show ?thesis using mk_sr_decodes [OF i f assms(2,3,4)] r by blast
qed

theorem rtcp_report_decodes_witness:
  "\<exists>s mb'. sess_reach s \<and> ss_senderc s = 0 \<and>
     (\<exists>mb s'. mk_sr env_wit 9 s mb = Some ((0, mb'), s') \<and>
       (\<exists>hdr. rtcp_decode al_all (mbuf_set_pos mb' (mb_pos mb)) = (Inr \<lparr>rm_hdr = hdr, rm_r = report_msg env_wit 9 s []\<rparr>, mb')))"
proof -
  obtain s where s: "sess_reach s" "ss_senderc s = 0" using sess_wit by blast
  let ?mb = "\<lparr>mb_buf = Some (replicate 256 0), mb_size = 256, mb_pos = 0, mb_end = 0\<rparr>"
  have "mbuf_ready ?mb" by (simp add: mbuf_ready_def mbuf_wf_def mbuf_bytes_def MEM_SIZE_MAX_def)
  moreover have "avail al_all n" for n by (simp add: al_all_def)
  ultimately obtain mb' s' rrs where r: "mk_sr env_wit 9 s ?mb = Some ((0, mb'), s')" "length rrs = unat (ss_senderc s)"
    "rtcp_decode al_all (mbuf_set_pos mb' (mb_pos ?mb)) =
      (Inr \<lparr>rm_hdr = rtcp_body_hdr (report_msg env_wit 9 s rrs), rm_r = report_msg env_wit 9 s rrs\<rparr>, mb')"
    using rtcp_report_decodes [OF s(1), of ?mb al_all env_wit 9] by auto
  then show ?thesis using s by (metis length_0_conv unsigned_0)
qed

text \<open>C39: end to end: a payload sent by \<^verbatim>\<open>rtp_send\<close> from a buffer with headroom reaches the
  application of a receiving socket unchanged, as one packet with the next sequence number and
  the header fields it was sent with, RTP/RTCP multiplexing or not.\<close>

theorem rtp_send_recv:
  assumes "mbuf_ready mb" "RTP_HEADER_SIZE \<le> mb_pos mb" "pt AND 0x80 = 0" "\<not> rtp_pt_is_rtcp pt"
    "sock_ok rs2" "env_ok env"
  shows "\<exists>mb' rs' rs2' h mb''. rtp_send al udp rs False marker pt ts jfs mb = ((udp mb', mb'), rs', Some mb') \<and>
    rs_seq rs' = rs_seq rs + 1 \<and> udp_recv_handler k env rs2 mb' = Some (rs2', [E_rtp h mb'']) \<and>
    mbuf_left mb'' = mbuf_left mb \<and> rh_seq h = rs_seq rs' \<and> rh_ssrc h = rs_ssrc rs \<and> rh_m h = marker \<and>
    rh_pt h = pt \<and> rh_ts h = ts"
proof -
  let ?h = "rtp_enc_hdr (rs_seq rs + 1) (rs_ssrc rs) False marker pt ts"
  let ?rs' = "rs\<lparr>rs_seq := rs_seq rs + 1, rs_rtcp := rtcp_sess_tx_rtp (rs_rtcp rs) ts jfs (mbuf_get_left mb)\<rparr>"
  have pt: "unat pt < 128" by (rule pt_small [OF assms(3)])
  obtain mb' where m: "rtp_send al udp rs False marker pt ts jfs mb = ((udp mb', mb'), ?rs', Some mb')"
    "mbuf_ready mb'" "mbuf_left mb' = rtp_img ?h @ mbuf_left mb"
    using rtp_send_packet [OF assms(1-3)] by blast
  have wf: "mbuf_wf mb'" using m(2) by (simp add: mbuf_ready_def)
  have img: "length (rtp_img ?h) = 12" by (rule length_rtp_img0) (simp add: rtp_enc_hdr_def)
  let ?mb = "mbuf_skip mb' 12"
  have d: "rtp_decode mb' = (0, ?h, ?mb)"
    using rtp_hdr_decode_reads [OF enc_hdr_ok [OF pt] wf m(3)] img by (simp add: rtp_decode_def rtp_enc_hdr_def)
  have left: "mbuf_left ?mb = mbuf_left mb" using mbuf_skip_left(1) [OF wf m(3) img] .
  have "mbuf_left mb' ! 1 = rtp_byte1 ?h" using m(3) by (simp add: rtp_img_def)
  then have b1: "mbuf_left mb' ! 1 AND 0x7f = pt"
    using byte1_fields [of ?h] pt by (simp add: rtp_enc_hdr_def)
  have "\<not> mbuf_get_left mb' < 2" using m(3) wf img by (simp add: mbuf_rd)
  then have u: "udp_recv_handler k env rs2 mb' = (case rs_rtcp rs2 of None \<Rightarrow> Some (rs2, [E_rtp ?h ?mb])
      | Some sess \<Rightarrow> (case rtcp_sess_rx_rtp env sess ?h (mbuf_get_left ?mb) of None \<Rightarrow> None
         | Some (sess', hdr') \<Rightarrow> Some (rs2\<lparr>rs_rtcp := Some sess'\<rparr>, [E_rtp hdr' ?mb])))"
    using b1 assms(4) d by (simp add: udp_recv_handler_def)
  have "\<exists>h rs2'. udp_recv_handler k env rs2 mb' = Some (rs2', [E_rtp h ?mb]) \<and> rh_seq h = rh_seq ?h \<and>
      rh_ssrc h = rh_ssrc ?h \<and> rh_m h = rh_m ?h \<and> rh_pt h = rh_pt ?h \<and> rh_ts h = rh_ts ?h"
  proof (cases "rs_rtcp rs2")
    case (Some s)
    then have "sess_reach s" using assms(5) by (simp add: sock_ok_def)
    then obtain s' h' where x: "rtcp_sess_rx_rtp env s ?h (mbuf_get_left ?mb) = Some (s', h')"
      using rtcp_sess_rx_rtp_ok [OF sess_reach_inv assms(6)] by blast
    then show ?thesis using u rx_hdr_keeps [OF x] Some by simp
  qed (use u in simp)
  then obtain h rs2' where "udp_recv_handler k env rs2 mb' = Some (rs2', [E_rtp h ?mb])" "rh_seq h = rs_seq ?rs'"
      "rh_ssrc h = rs_ssrc rs" "rh_m h = marker" "rh_pt h = pt" "rh_ts h = ts" by (auto simp: rtp_enc_hdr_def)
  then show ?thesis using m(1) left
    by (intro exI [of _ mb'] exI [of _ ?rs'] exI [of _ rs2'] exI [of _ h] exI [of _ ?mb]) simp
qed

theorem rtp_send_recv_witness:
  "\<exists>mb' h mb''. fst (rtp_send al_all (\<lambda>_. 0) \<lparr>rs_seq = 0xffff, rs_ssrc = 5, rs_sock_rtp = True, rs_sock_rtcp = False,
       rs_peer = False, rs_rtcp = None, rs_rtcp_mux = False\<rparr> False True 96 7 1
       \<lparr>mb_buf = Some (replicate 14 0), mb_size = 14, mb_pos = 12, mb_end = 14\<rparr>) = (0, mb') \<and>
     map_option snd (udp_recv_handler 1 env_wit \<lparr>rs_seq = 0, rs_ssrc = 6, rs_sock_rtp = True, rs_sock_rtcp = False,
       rs_peer = False, rs_rtcp = None, rs_rtcp_mux = True\<rparr> mb') = Some [E_rtp h mb''] \<and>
     mbuf_left mb'' = [0, 0] \<and> rh_seq h = 0"
proof -
  let ?mb = "\<lparr>mb_buf = Some (replicate 14 0), mb_size = 14, mb_pos = 12, mb_end = 14\<rparr>"
  have "mbuf_ready ?mb" by (simp add: mbuf_ready_def mbuf_wf_def mbuf_bytes_def MEM_SIZE_MAX_def)
  moreover have "mbuf_left ?mb = [0, 0]"
    by (simp add: mbuf_left_def mbuf_get_left_def mbuf_bytes_def numeral_2_eq_2)
  ultimately show ?thesis
    using rtp_send_recv [of ?mb 96 "\<lparr>rs_seq = 0, rs_ssrc = 6, rs_sock_rtp = True, rs_sock_rtcp = False,
       rs_peer = False, rs_rtcp = None, rs_rtcp_mux = True\<rparr>" env_wit al_all "\<lambda>_. 0"
       "\<lparr>rs_seq = 0xffff, rs_ssrc = 5, rs_sock_rtp = True, rs_sock_rtcp = False,
       rs_peer = False, rs_rtcp = None, rs_rtcp_mux = False\<rparr>" True 7 1 1] env_wit_ok
    by (auto simp: RTP_HEADER_SIZE_def rtp_pt_is_rtcp_def sock_ok_def)
qed

text \<open>C40: whatever bytes arrive, the receive handler of a socket returns, RTCP packets multiplexed on the
  media port included: the session stays a reachable one, and the application is given at most one
  message per four bytes.\<close>

theorem rtp_recv_returns:
  assumes "mbuf_wf mb" "mbuf_get_left mb div 4 < k" "env_ok env" "sock_ok rs"
  shows "\<exists>rs' evs. udp_recv_handler k env rs mb = Some (rs', evs) \<and> sock_ok rs' \<and>
     length evs \<le> max 1 (mbuf_get_left mb div 4)"
proof -
  have len: "mbuf_get_left mb = length (mbuf_left mb)" using assms(1) by (simp add: mbuf_rd)
  obtain rs1 ev1 where r: "rtcp_recv_handler k env rs mb = Some (rs1, ev1)" "sock_ok rs1" "length ev1 \<le> mbuf_get_left mb div 4"
    using rtcp_recv_handler_ok [OF assms(1) _ assms(3,4)] assms(2) unfolding len by blast
  obtain e hdr mb' where d: "rtp_decode mb = (e, hdr, mb')" by (metis prod_cases3)
  have rx: "\<exists>s' h'. rtcp_sess_rx_rtp env s hdr n = Some (s', h') \<and> sess_reach s'" if "rs_rtcp rs = Some s" for s n
  proof -
    have s: "sess_reach s" using assms(4) that by (simp add: sock_ok_def)
    show ?thesis using rtcp_sess_rx_rtp_ok [OF sess_reach_inv [OF s] assms(3), of hdr n] reach_rx [OF s assms(3)] by blast
  qed
  show ?thesis
  proof (cases "rs_rtcp_mux rs \<and> (mbuf_get_left mb < 2 \<or> rtp_pt_is_rtcp (mbuf_left mb ! 1 AND 0x7f))")
    case True
    then show ?thesis using r assms(4) by (cases "mbuf_get_left mb < 2") (auto simp: udp_recv_handler_def)
  next
    case False
    then show ?thesis
      using d assms(4) rx [of "the (rs_rtcp rs)" "mbuf_get_left mb'"]
      by (cases "rs_rtcp rs") (auto simp: udp_recv_handler_def sock_ok_def)
  qed
qed

theorem rtp_recv_returns_witness:
  "\<exists>rs' evs. udp_recv_handler 1 env_wit \<lparr>rs_seq = 0, rs_ssrc = 6, rs_sock_rtp = True, rs_sock_rtcp = False,
       rs_peer = False, rs_rtcp = None, rs_rtcp_mux = True\<rparr> mbuf_wit = Some (rs', evs) \<and> length evs \<le> 1"
proof -
  have "mbuf_wf mbuf_wit" "mbuf_get_left mbuf_wit = 0"
    using mbuf_reach_ready [OF mbuf_wit_reach] by (simp_all add: mbuf_ready_def mbuf_wit_def mbuf_get_left_def)
  then show ?thesis
    using rtp_recv_returns [of mbuf_wit 1 env_wit "\<lparr>rs_seq = 0, rs_ssrc = 6, rs_sock_rtp = True, rs_sock_rtcp = False,
       rs_peer = False, rs_rtcp = None, rs_rtcp_mux = True\<rparr>"] env_wit_ok
    by (auto simp: sock_ok_def)
qed

end
