(* ===== verification/Srtp.thy ===== *)
theory Srtp
  imports Rtp
begin

text \<open>
  Secure RTP: the replay window (\<^verbatim>\<open>srtp/replay.c\<close>), index determination, key derivation and
  initialisation vectors (\<^verbatim>\<open>srtp/misc.c\<close>), the streams of a session
  (\<^verbatim>\<open>srtp/stream.c\<close>), protection and unprotection of RTP (\<^verbatim>\<open>srtp/srtp.c\<close>) and of
  RTCP (\<^verbatim>\<open>srtp/srtcp.c\<close>).

  AES and HMAC come from the cryptographic library the build selects. They are the fields of the
  record \<open>crypto\<close>, an argument of every operation that uses them. An AES object is a key;
  \<^verbatim>\<open>aes_set_iv\<close> starts a running context from the key and an initialisation vector, and the
  calls for one packet thread that context. What the proofs rely on is the predicate
  \<open>crypto_ok\<close>: decryption with the same key and vector inverts encryption, lengths are kept, a
  tag computed by the sender is accepted by the receiver, and a SHA-1 digest has 20 bytes.

  The streams hang in a linked list; the model keeps the sequence of streams that the list holds.
  A stream is found by its SSRC, so storing the changed stream back is \<open>stream_put\<close>.
\<close>

section \<open>Replay window\<close>

record replay =
  rp_bitmap :: u64
  rp_lix :: u64

definition SRTP_WINDOW_SIZE :: u64 where
  "SRTP_WINDOW_SIZE = 64"

definition srtp_replay_init :: replay where
  "srtp_replay_init = \<lparr>rp_bitmap = 0, rp_lix = 0\<rparr>"

definition srtp_replay_check :: "replay \<Rightarrow> u64 \<Rightarrow> bool \<times> replay" where
  "srtp_replay_check r ix =
     (if ix > rp_lix r then
        let diff = ix - rp_lix r;
            bitmap = (if diff < SRTP_WINDOW_SIZE then push_bit (unat diff) (rp_bitmap r) OR 1 else 1)
        in (True, r\<lparr>rp_bitmap := bitmap, rp_lix := ix\<rparr>)
      else
        let diff = rp_lix r - ix in
        if diff \<ge> SRTP_WINDOW_SIZE then (False, r)
        else if rp_bitmap r AND push_bit (unat diff) 1 \<noteq> 0 then (False, r)
        else (True, r\<lparr>rp_bitmap := rp_bitmap r OR push_bit (unat diff) 1\<rparr>))"

section \<open>Index determination, key derivation, initialisation vectors\<close>

text \<open>\<open>v\<close> is a C \<^verbatim>\<open>int\<close>: the \<^verbatim>\<open>uint32_t\<close> counter is reinterpreted as a signed number and
  sign extended in the product.\<close>

definition srtp_get_index :: "u32 \<Rightarrow> u16 \<Rightarrow> u16 \<Rightarrow> u64" where
  "srtp_get_index roc s_l seq =
     (let v = (if s_l < 32768 then
                 (if int (unat seq) - int (unat s_l) > 32768 then roc - 1 else roc)
               else
                 (if int (unat s_l) - 32768 > int (unat seq) then roc + 1 else roc))
      in ucast seq + of_int (sint v) * 65536)"

datatype aes_mode = AES_MODE_CTR | AES_MODE_GCM

record ('k, 'c) crypto =
  aes_alloc :: "aes_mode \<Rightarrow> bytes \<Rightarrow> errno + 'k"
  aes_set_iv :: "'k \<Rightarrow> bytes \<Rightarrow> 'c"
  aes_encr_aad :: "'c \<Rightarrow> bytes \<Rightarrow> errno \<times> 'c"
  aes_encr :: "'c \<Rightarrow> bytes \<Rightarrow> (errno \<times> bytes) \<times> 'c"
  aes_get_authtag :: "'c \<Rightarrow> nat \<Rightarrow> errno + bytes"
  aes_decr_aad :: "'c \<Rightarrow> bytes \<Rightarrow> errno \<times> 'c"
  aes_decr :: "'c \<Rightarrow> bytes \<Rightarrow> (errno \<times> bytes) \<times> 'c"
  aes_authenticate :: "'c \<Rightarrow> bytes \<Rightarrow> errno"
  hmac_create :: "bytes \<Rightarrow> errno + 'k"
  hmac_digest :: "'k \<Rightarrow> bytes \<Rightarrow> errno + bytes"

definition AES_BLOCK_SIZE :: nat where
  "AES_BLOCK_SIZE = 16"

definition SHA_DIGEST_LENGTH :: nat where
  "SHA_DIGEST_LENGTH = 20"

definition GCM_TAGLEN :: nat where
  "GCM_TAGLEN = 16"

definition srtp_derive :: "('k, 'c) crypto \<Rightarrow> nat \<Rightarrow> u8 \<Rightarrow> bytes \<Rightarrow> bytes \<Rightarrow> errno + bytes" where
  "srtp_derive cr out_len label master_key master_salt =
     (if out_len > AES_BLOCK_SIZE * 2 \<or> length master_salt > AES_BLOCK_SIZE then Inl EINVAL
      else
        let x = mem_put 0 master_salt (replicate AES_BLOCK_SIZE 0);
            x = x[7 := x ! 7 XOR label]
        in case aes_alloc cr AES_MODE_CTR master_key of Inl err \<Rightarrow> Inl err
           | Inr aes \<Rightarrow>
              (case aes_encr cr (aes_set_iv cr aes x) (replicate out_len 0) of ((err, out), _) \<Rightarrow>
                 if err \<noteq> 0 then Inl err else Inr out))"

text \<open>A 128 bit vector is its 16 bytes; \<open>v_u16\<close> and \<open>v_u32\<close> are the members of the union.\<close>

definition v_u16 :: "bytes \<Rightarrow> nat \<Rightarrow> u16" where
  "v_u16 v i = word_of_le (take 2 (drop (2 * i) v))"

definition v_u32 :: "bytes \<Rightarrow> nat \<Rightarrow> u32" where
  "v_u32 v i = word_of_le (take 4 (drop (4 * i) v))"

definition srtp_iv_calc :: "bytes \<Rightarrow> u32 \<Rightarrow> u64 \<Rightarrow> bytes" where
  "srtp_iv_calc k_s ssrc ix =
     word_to_le 4 (v_u32 k_s 0) @
     word_to_le 4 (v_u32 k_s 1 XOR htonl ssrc) @
     word_to_le 4 (v_u32 k_s 2 XOR htonl (ucast (drop_bit 16 ix))) @
     word_to_le 2 (v_u16 k_s 6 XOR htons (ucast ix)) @
     word_to_le 2 (0 :: u16)"

text \<open>The vector for GCM is 12 bytes.\<close>

definition srtp_iv_calc_gcm :: "bytes \<Rightarrow> u32 \<Rightarrow> u64 \<Rightarrow> bytes" where
  "srtp_iv_calc_gcm k_s ssrc ix =
     word_to_le 2 (v_u16 k_s 0) @
     word_to_le 2 (v_u16 k_s 1 XOR htons (ucast (drop_bit 16 ssrc))) @
     word_to_le 2 (v_u16 k_s 2 XOR htons (ucast (ssrc AND 0xffff))) @
     word_to_le 2 (v_u16 k_s 3 XOR htons (ucast (drop_bit 32 ix AND 0xffff))) @
     word_to_le 2 (v_u16 k_s 4 XOR htons (ucast (drop_bit 16 ix AND 0xffff))) @
     word_to_le 2 (v_u16 k_s 5 XOR htons (ucast (ix AND 0xffff)))"

text \<open>An \<^verbatim>\<open>enum\<close> argument may hold any integer; \<open>SRTP_SUITE_OTHER\<close> is a value that names no
  suite.\<close>

datatype srtp_suite =
    SRTP_AES_CM_128_HMAC_SHA1_32
  | SRTP_AES_CM_128_HMAC_SHA1_80
  | SRTP_AES_256_CM_HMAC_SHA1_32
  | SRTP_AES_256_CM_HMAC_SHA1_80
  | SRTP_AES_128_GCM
  | SRTP_AES_256_GCM
  | SRTP_SUITE_OTHER int

fun srtp_suite_name :: "srtp_suite \<Rightarrow> bytes" where
  "srtp_suite_name SRTP_AES_CM_128_HMAC_SHA1_32 = str_bytes ''AES_CM_128_HMAC_SHA1_32''"
| "srtp_suite_name SRTP_AES_CM_128_HMAC_SHA1_80 = str_bytes ''AES_CM_128_HMAC_SHA1_80''"
| "srtp_suite_name SRTP_AES_256_CM_HMAC_SHA1_32 = str_bytes ''AES_256_CM_HMAC_SHA1_32''"
| "srtp_suite_name SRTP_AES_256_CM_HMAC_SHA1_80 = str_bytes ''AES_256_CM_HMAC_SHA1_80''"
| "srtp_suite_name SRTP_AES_128_GCM = str_bytes ''AEAD_AES_128_GCM''"
| "srtp_suite_name SRTP_AES_256_GCM = str_bytes ''AEAD_AES_256_GCM''"
| "srtp_suite_name (SRTP_SUITE_OTHER _) = str_bytes ''?''"

section \<open>Streams of a session\<close>

record srtp_stream =
  st_replay_rtp :: replay
  st_replay_rtcp :: replay
  st_ssrc :: u32
  st_roc :: u32
  st_s_l :: u16
  st_s_l_set :: bool
  st_rtcp_index :: u32

record 'k comp =
  c_aes :: "'k option"
  c_mode :: aes_mode
  c_hmac :: "'k option"
  c_k_s :: bytes
  c_tag_len :: nat

record 'k srtp =
  sr_rtp :: "'k comp"
  sr_rtcp :: "'k comp"
  sr_streaml :: "srtp_stream list"

definition SRTP_MAX_STREAMS :: nat where
  "SRTP_MAX_STREAMS = 8"

definition sizeof_srtp_stream :: nat where
  "sizeof_srtp_stream = 80"

definition sizeof_srtp :: nat where
  "sizeof_srtp = 112"

definition stream_find :: "'k srtp \<Rightarrow> u32 \<Rightarrow> srtp_stream option" where
  "stream_find srtp ssrc = find (\<lambda>strm. st_ssrc strm = ssrc) (sr_streaml srtp)"

definition stream_fresh :: "u32 \<Rightarrow> srtp_stream" where
  "stream_fresh ssrc = \<lparr>st_replay_rtp = srtp_replay_init, st_replay_rtcp = srtp_replay_init,
     st_ssrc = ssrc, st_roc = 0, st_s_l = 0, st_s_l_set = False, st_rtcp_index = 0\<rparr>"

definition stream_new :: "malloc_env \<Rightarrow> 'k srtp \<Rightarrow> u32 \<Rightarrow> errno + srtp_stream \<times> 'k srtp" where
  "stream_new al srtp ssrc =
     (if length (sr_streaml srtp) \<ge> SRTP_MAX_STREAMS then Inl ENOSR
      else case mem_zalloc al sizeof_srtp_stream of None \<Rightarrow> Inl ENOMEM
      | Some _ \<Rightarrow>
         let strm = stream_fresh ssrc
         in Inr (strm, srtp\<lparr>sr_streaml := sr_streaml srtp @ [strm]\<rparr>))"

definition stream_get :: "malloc_env \<Rightarrow> 'k srtp \<Rightarrow> u32 \<Rightarrow> errno + srtp_stream \<times> 'k srtp" where
  "stream_get al srtp ssrc =
     (case stream_find srtp ssrc of
        Some strm \<Rightarrow> Inr (strm, srtp)
      | None \<Rightarrow> stream_new al srtp ssrc)"

definition stream_put :: "'k srtp \<Rightarrow> srtp_stream \<Rightarrow> 'k srtp" where
  "stream_put srtp strm = srtp\<lparr>sr_streaml :=
     map (\<lambda>s. if st_ssrc s = st_ssrc strm then strm else s) (sr_streaml srtp)\<rparr>"

definition stream_get_seq :: "malloc_env \<Rightarrow> 'k srtp \<Rightarrow> u32 \<Rightarrow> u16 \<Rightarrow> errno + srtp_stream \<times> 'k srtp" where
  "stream_get_seq al srtp ssrc seq =
     (case stream_get al srtp ssrc of Inl err \<Rightarrow> Inl err
      | Inr (strm, srtp1) \<Rightarrow>
         if \<not> st_s_l_set strm then
           let strm1 = strm\<lparr>st_s_l := seq, st_s_l_set := True\<rparr>
           in Inr (strm1, stream_put srtp1 strm1)
         else Inr (strm, srtp1))"

section \<open>Session set-up\<close>

definition MAX_KEYLEN :: nat where
  "MAX_KEYLEN = 32"

definition seq_diff :: "u16 \<Rightarrow> u16 \<Rightarrow> int" where
  "seq_diff x y = int (unat y) - int (unat x)"

definition comp_zero :: "'k comp" where
  "comp_zero = \<lparr>c_aes = None, c_mode = AES_MODE_CTR, c_hmac = None, c_k_s = replicate 16 0, c_tag_len = 0\<rparr>"

text \<open>\<open>res_err\<close> and \<open>res_val\<close>: the code a call returns and what it leaves in the output
  argument, \<open>d\<close> where it fails.\<close>

definition res_err :: "errno + 'a \<Rightarrow> errno" where
  "res_err r = (case r of Inl e \<Rightarrow> e | Inr _ \<Rightarrow> 0)"

definition res_val :: "'a \<Rightarrow> errno + 'a \<Rightarrow> 'a" where
  "res_val d r = (case r of Inl _ \<Rightarrow> d | Inr v \<Rightarrow> v)"

definition comp_init ::
  "('k, 'c) crypto \<Rightarrow> 'k comp \<Rightarrow> u8 \<Rightarrow> bytes \<Rightarrow> bytes \<Rightarrow> nat \<Rightarrow> bool \<Rightarrow> bool \<Rightarrow> aes_mode \<Rightarrow> errno \<times> 'k comp"
where
  "comp_init cr c offs key s tag_len encrypted hash mode =
     (if length key > MAX_KEYLEN then (EINVAL, c)
      else if tag_len > SHA_DIGEST_LENGTH then (EINVAL, c)
      else
        let k_e = srtp_derive cr (length key) (0x00 + offs) key s;
            k_a = srtp_derive cr SHA_DIGEST_LENGTH (0x01 + offs) key s;
            k_s = srtp_derive cr 14 (0x02 + offs) key s;
            err = (res_err k_e OR res_err k_a) OR res_err k_s;
            c1 = c\<lparr>c_tag_len := tag_len, c_mode := mode,
                   c_k_s := mem_put 0 (res_val [] k_s) (c_k_s c)\<rparr>
        in
        if err \<noteq> 0 then (err, c1)
        else
          case (if encrypted then
                  (case aes_alloc cr mode (res_val [] k_e) of Inl e \<Rightarrow> (e, c1)
                   | Inr aes \<Rightarrow> (0, c1\<lparr>c_aes := Some aes\<rparr>))
                else (0, c1)) of (err, c2) \<Rightarrow>
          if err \<noteq> 0 then (err, c2)
          else if hash then
            (case hmac_create cr (res_val [] k_a) of Inl e \<Rightarrow> (e, c2)
             | Inr hmac \<Rightarrow> (0, c2\<lparr>c_hmac := Some hmac\<rparr>))
          else (0, c2))"

text \<open>Mode, cipher bytes, salt bytes, tag bytes and hash of a suite.\<close>

fun srtp_suite_params :: "srtp_suite \<Rightarrow> (aes_mode \<times> nat \<times> nat \<times> nat \<times> bool) option" where
  "srtp_suite_params SRTP_AES_CM_128_HMAC_SHA1_80 = Some (AES_MODE_CTR, 16, 14, 10, True)"
| "srtp_suite_params SRTP_AES_CM_128_HMAC_SHA1_32 = Some (AES_MODE_CTR, 16, 14, 4, True)"
| "srtp_suite_params SRTP_AES_256_CM_HMAC_SHA1_80 = Some (AES_MODE_CTR, 32, 14, 10, True)"
| "srtp_suite_params SRTP_AES_256_CM_HMAC_SHA1_32 = Some (AES_MODE_CTR, 32, 14, 4, True)"
| "srtp_suite_params SRTP_AES_128_GCM = Some (AES_MODE_GCM, 16, 12, 0, False)"
| "srtp_suite_params SRTP_AES_256_GCM = Some (AES_MODE_GCM, 32, 12, 0, False)"
| "srtp_suite_params (SRTP_SUITE_OTHER _) = None"

definition srtp_alloc ::
  "malloc_env \<Rightarrow> ('k, 'c) crypto \<Rightarrow> srtp_suite \<Rightarrow> bytes \<Rightarrow> bool \<Rightarrow> errno + 'k srtp" where
  "srtp_alloc al cr suite key unencrypted_srtcp =
     (case srtp_suite_params suite of None \<Rightarrow> Inl ENOTSUP
      | Some (mode, cipher_bytes, salt_bytes, auth_bytes, hash) \<Rightarrow>
         if cipher_bytes + salt_bytes \<noteq> length key then Inl EINVAL
         else case mem_zalloc al sizeof_srtp of None \<Rightarrow> Inl ENOMEM
         | Some _ \<Rightarrow>
            (case comp_init cr comp_zero 0 (take cipher_bytes key) (drop cipher_bytes key) auth_bytes
                    True hash mode of (err1, rtp) \<Rightarrow>
             case comp_init cr comp_zero 3 (take cipher_bytes key) (drop cipher_bytes key) auth_bytes
                    (\<not> unencrypted_srtcp) hash mode of (err2, rtcp) \<Rightarrow>
               if err1 OR err2 \<noteq> 0 then Inl (err1 OR err2)
               else Inr \<lparr>sr_rtp = rtp, sr_rtcp = rtcp, sr_streaml = []\<rparr>))"

section \<open>Protection of RTP packets\<close>

text \<open>\<open>mbuf_crypt f mb len\<close>: a cipher call on the \<open>len\<close> bytes at the cursor, in place.\<close>

definition mbuf_crypt ::
  "(bytes \<Rightarrow> (errno \<times> bytes) \<times> 'c) \<Rightarrow> mbuf \<Rightarrow> nat \<Rightarrow> errno \<times> mbuf \<times> 'c" where
  "mbuf_crypt f mb len =
     (case f (take len (drop (mb_pos mb) (mbuf_bytes mb))) of ((err, out), c) \<Rightarrow>
        (err, mb\<lparr>mb_buf := map_option (mem_put (mb_pos mb) out) (mb_buf mb)\<rparr>, c))"

definition srtp_encr_ctr ::
  "('k, 'c) crypto \<Rightarrow> 'k \<Rightarrow> bytes \<Rightarrow> mbuf \<Rightarrow> errno \<times> mbuf" where
  "srtp_encr_ctr cr aes iv mb =
     (case mbuf_crypt (aes_encr cr (aes_set_iv cr aes iv)) mb (mbuf_get_left mb) of
        (err, mb1, _) \<Rightarrow> (err, mb1))"

definition srtp_encr_gcm ::
  "malloc_env \<Rightarrow> ('k, 'c) crypto \<Rightarrow> 'k \<Rightarrow> bytes \<Rightarrow> nat \<Rightarrow> mbuf \<Rightarrow> errno \<times> mbuf" where
  "srtp_encr_gcm al cr aes iv start mb =
     (case aes_encr_aad cr (aes_set_iv cr aes iv)
             (take (mb_pos mb - start) (drop start (mbuf_bytes mb))) of (err, c) \<Rightarrow>
        if err \<noteq> 0 then (err, mb)
        else case mbuf_crypt (aes_encr cr c) mb (mbuf_get_left mb) of (err, mb1, c1) \<Rightarrow>
          if err \<noteq> 0 then (err, mb1)
          else case aes_get_authtag cr c1 GCM_TAGLEN of Inl err \<Rightarrow> (err, mb1)
          | Inr tag \<Rightarrow> mbuf_write_mem al (mb1\<lparr>mb_pos := mb_end mb1\<rparr>) (Some tag))"

definition srtp_encr_auth ::
  "malloc_env \<Rightarrow> ('k, 'c) crypto \<Rightarrow> 'k \<Rightarrow> nat \<Rightarrow> u32 \<Rightarrow> nat \<Rightarrow> mbuf \<Rightarrow> errno \<times> mbuf" where
  "srtp_encr_auth al cr hmac tag_len roc start mb =
     (let tag_start = mb_end mb in
      case mbuf_write_u32 al (mb\<lparr>mb_pos := tag_start\<rparr>) (htonl roc) of (err, mb1) \<Rightarrow>
        if err \<noteq> 0 then (err, mb1)
        else
          let mb2 = mb1\<lparr>mb_pos := start\<rparr> in
          case hmac_digest cr hmac (mbuf_left mb2) of Inl err \<Rightarrow> (err, mb2)
          | Inr tag \<Rightarrow>
              mbuf_write_mem al (mb2\<lparr>mb_pos := tag_start, mb_end := tag_start\<rparr>) (Some (take tag_len tag)))"

definition srtp_encrypt ::
  "malloc_env \<Rightarrow> ('k, 'c) crypto \<Rightarrow> 'k srtp \<Rightarrow> mbuf \<Rightarrow> errno \<times> 'k srtp \<times> mbuf" where
  "srtp_encrypt al cr srtp mb =
     (let comp = sr_rtp srtp; start = mb_pos mb in
      case rtp_hdr_decode rtp_zero mb of (err, hdr, mb1) \<Rightarrow>
      if err \<noteq> 0 then (err, srtp, mb1)
      else case stream_get_seq al srtp (rh_ssrc hdr) (rh_seq hdr) of Inl err \<Rightarrow> (err, srtp, mb1)
      | Inr (strm, srtp1) \<Rightarrow>
         let strm1 = (if seq_diff (st_s_l strm) (rh_seq hdr) \<le> -32768
                      then strm\<lparr>st_roc := st_roc strm + 1, st_s_l := 0\<rparr> else strm);
             srtp2 = stream_put srtp1 strm1;
             ix = 65536 * ucast (st_roc strm1) + ucast (rh_seq hdr)
         in
         case (case (c_aes comp, c_mode comp) of
                 (Some aes, AES_MODE_CTR) \<Rightarrow>
                    srtp_encr_ctr cr aes (srtp_iv_calc (c_k_s comp) (st_ssrc strm1) ix) mb1
               | (Some aes, AES_MODE_GCM) \<Rightarrow>
                    srtp_encr_gcm al cr aes (srtp_iv_calc_gcm (c_k_s comp) (st_ssrc strm1) ix) start mb1
               | (None, _) \<Rightarrow> (0, mb1)) of (err, mb2) \<Rightarrow>
         if err \<noteq> 0 then (err, srtp2, mb2)
         else case (case c_hmac comp of None \<Rightarrow> (0, mb2)
                    | Some hmac \<Rightarrow> srtp_encr_auth al cr hmac (c_tag_len comp) (st_roc strm1) start mb2) of
           (err, mb3) \<Rightarrow>
           if err \<noteq> 0 then (err, srtp2, mb3)
           else
             let strm2 = (if rh_seq hdr > st_s_l strm1 then strm1\<lparr>st_s_l := rh_seq hdr\<rparr> else strm1)
             in (0, stream_put srtp2 strm2, mb3\<lparr>mb_pos := start\<rparr>))"

definition srtp_decr_auth ::
  "malloc_env \<Rightarrow> ('k, 'c) crypto \<Rightarrow> 'k \<Rightarrow> nat \<Rightarrow> nat \<Rightarrow> u64 \<Rightarrow> srtp_stream \<Rightarrow> mbuf \<Rightarrow>
     errno \<times> srtp_stream \<times> mbuf" where
  "srtp_decr_auth al cr hmac tag_len start ix strm mb =
     (if mbuf_get_left mb < tag_len then (EBADMSG, strm, mb)
      else
        let pld_start = mb_pos mb; tag_start = mb_end mb - tag_len;
            mb1 = mb\<lparr>mb_pos := tag_start\<rparr> in
        case mbuf_read_mem mb1 tag_len of Inl err \<Rightarrow> (err, strm, mb1)
        | Inr (tag_pkt, mb2) \<Rightarrow>
          (case mbuf_write_u32 al (mb2\<lparr>mb_pos := tag_start, mb_end := tag_start\<rparr>)
                  (htonl (st_roc strm)) of (err, mb3) \<Rightarrow>
             if err \<noteq> 0 then (err, strm, mb3)
             else
               let mb4 = mb3\<lparr>mb_pos := start\<rparr> in
               case hmac_digest cr hmac (mbuf_left mb4) of Inl err \<Rightarrow> (err, strm, mb4)
               | Inr tag_calc \<Rightarrow>
                   let mb5 = mb4\<lparr>mb_pos := pld_start, mb_end := tag_start\<rparr> in
                   if take tag_len tag_calc \<noteq> tag_pkt then (EAUTH, strm, mb5)
                   else case srtp_replay_check (st_replay_rtp strm) ix of (ok, r) \<Rightarrow>
                     (if ok then 0 else EALREADY, strm\<lparr>st_replay_rtp := r\<rparr>, mb5)))"

definition srtp_decr_ctr :: "('k, 'c) crypto \<Rightarrow> 'k \<Rightarrow> bytes \<Rightarrow> mbuf \<Rightarrow> errno \<times> mbuf" where
  "srtp_decr_ctr cr aes iv mb =
     (case mbuf_crypt (aes_decr cr (aes_set_iv cr aes iv)) mb (mbuf_get_left mb) of
        (err, mb1, _) \<Rightarrow> (err, mb1))"

definition srtp_decr_gcm ::
  "('k, 'c) crypto \<Rightarrow> 'k \<Rightarrow> bytes \<Rightarrow> nat \<Rightarrow> u64 \<Rightarrow> srtp_stream \<Rightarrow> mbuf \<Rightarrow>
     errno \<times> srtp_stream \<times> mbuf" where
  "srtp_decr_gcm cr aes iv start ix strm mb =
     (case aes_decr_aad cr (aes_set_iv cr aes iv)
             (take (mb_pos mb - start) (drop start (mbuf_bytes mb))) of (err, c) \<Rightarrow>
        if err \<noteq> 0 then (err, strm, mb)
        else if mbuf_get_left mb < GCM_TAGLEN then (EBADMSG, strm, mb)
        else
          let tag_start = mb_end mb - GCM_TAGLEN in
          case mbuf_crypt (aes_decr cr c) mb (tag_start - mb_pos mb) of (err, mb1, c1) \<Rightarrow>
          if err \<noteq> 0 then (err, strm, mb1)
          else
            let err = aes_authenticate cr c1 (take GCM_TAGLEN (drop tag_start (mbuf_bytes mb1))) in
            if err \<noteq> 0 then (err, strm, mb1)
            else case srtp_replay_check (st_replay_rtp strm) ix of (ok, r) \<Rightarrow>
              (if ok then 0 else EALREADY, strm\<lparr>st_replay_rtp := r\<rparr>, mb1\<lparr>mb_end := tag_start\<rparr>))"

definition srtp_decrypt ::
  "malloc_env \<Rightarrow> ('k, 'c) crypto \<Rightarrow> 'k srtp \<Rightarrow> mbuf \<Rightarrow> errno \<times> 'k srtp \<times> mbuf" where
  "srtp_decrypt al cr srtp mb =
     (let comp = sr_rtp srtp; start = mb_pos mb in
      case rtp_hdr_decode rtp_zero mb of (err, hdr, mb1) \<Rightarrow>
      if err \<noteq> 0 then (err, srtp, mb1)
      else case stream_get_seq al srtp (rh_ssrc hdr) (rh_seq hdr) of Inl err \<Rightarrow> (err, srtp, mb1)
      | Inr (strm, srtp1) \<Rightarrow>
         let diff = seq_diff (st_s_l strm) (rh_seq hdr) in
         if diff > 32768 then (ETIMEDOUT, srtp1, mb1)
         else
           let strm1 = (if diff \<le> -32768
                        then strm\<lparr>st_roc := st_roc strm + 1, st_s_l := 0\<rparr> else strm);
               ix = srtp_get_index (st_roc strm1) (st_s_l strm1) (rh_seq hdr)
           in
           case (case c_hmac comp of None \<Rightarrow> (0, strm1, mb1)
                 | Some hmac \<Rightarrow> srtp_decr_auth al cr hmac (c_tag_len comp) start ix strm1 mb1) of
             (err, strm2, mb2) \<Rightarrow>
           if err \<noteq> 0 then (err, stream_put srtp1 strm2, mb2)
           else case (case (c_aes comp, c_mode comp) of
                   (Some aes, AES_MODE_CTR) \<Rightarrow>
                      (case srtp_decr_ctr cr aes (srtp_iv_calc (c_k_s comp) (st_ssrc strm2) ix) mb2 of
                         (err, mb3) \<Rightarrow> (err, strm2, mb3))
                 | (Some aes, AES_MODE_GCM) \<Rightarrow>
                      srtp_decr_gcm cr aes (srtp_iv_calc_gcm (c_k_s comp) (st_ssrc strm2) ix) start ix strm2 mb2
                 | (None, _) \<Rightarrow> (0, strm2, mb2)) of (err, strm3, mb3) \<Rightarrow>
             if err \<noteq> 0 then (err, stream_put srtp1 strm3, mb3)
             else
               let strm4 = (if rh_seq hdr > st_s_l strm3 then strm3\<lparr>st_s_l := rh_seq hdr\<rparr> else strm3)
               in (0, stream_put srtp1 strm4, mb3\<lparr>mb_pos := start\<rparr>))"

section \<open>Protection of RTCP packets\<close>

definition get_rtcp_ssrc :: "mbuf \<Rightarrow> errno \<times> u32 \<times> mbuf" where
  "get_rtcp_ssrc mb =
     (if mbuf_get_left mb < 8 then (EBADMSG, 0, mb)
      else case mbuf_read_u32 (mbuf_advance mb 4) of (v, mb1) \<Rightarrow> (0, ntohl v, mb1))"

definition srtcp_encr_gcm ::
  "malloc_env \<Rightarrow> ('k, 'c) crypto \<Rightarrow> 'k \<Rightarrow> bytes \<Rightarrow> u32 \<Rightarrow> nat \<Rightarrow> mbuf \<Rightarrow> errno \<times> mbuf" where
  "srtcp_encr_gcm al cr aes iv index start mb =
     (let ix_be = htonl (push_bit 31 1 OR index) in
      case aes_encr_aad cr (aes_set_iv cr aes iv)
             (take (mb_pos mb - start) (drop start (mbuf_bytes mb))) of (err1, c) \<Rightarrow>
      case aes_encr_aad cr c (word_to_le 4 ix_be) of (err2, c1) \<Rightarrow>
        if err1 OR err2 \<noteq> 0 then (err1 OR err2, mb)
        else case mbuf_crypt (aes_encr cr c1) mb (mbuf_get_left mb) of (err, mb1, c2) \<Rightarrow>
          if err \<noteq> 0 then (err, mb1)
          else case aes_get_authtag cr c2 GCM_TAGLEN of Inl err \<Rightarrow> (err, mb1)
          | Inr tag \<Rightarrow> mbuf_write_mem al (mb1\<lparr>mb_pos := mb_end mb1\<rparr>) (Some tag))"

definition srtcp_encrypt ::
  "malloc_env \<Rightarrow> ('k, 'c) crypto \<Rightarrow> 'k srtp \<Rightarrow> mbuf \<Rightarrow> errno \<times> 'k srtp \<times> mbuf" where
  "srtcp_encrypt al cr srtp mb =
     (let rtcp = sr_rtcp srtp; start = mb_pos mb in
      case get_rtcp_ssrc mb of (err, ssrc, mb1) \<Rightarrow>
      if err \<noteq> 0 then (err, srtp, mb1)
      else case stream_get al srtp ssrc of Inl err \<Rightarrow> (err, srtp, mb1)
      | Inr (strm, srtp1) \<Rightarrow>
         let index = (st_rtcp_index strm + 1) AND 0x7fffffff;
             srtp2 = stream_put srtp1 (strm\<lparr>st_rtcp_index := index\<rparr>)
         in
         case (case (c_aes rtcp, c_mode rtcp) of
                 (Some aes, AES_MODE_CTR) \<Rightarrow>
                   (case srtp_encr_ctr cr aes (srtp_iv_calc (c_k_s rtcp) ssrc (ucast index)) mb1 of
                      (err, mb2) \<Rightarrow> (err, mb2, 1))
               | (Some aes, AES_MODE_GCM) \<Rightarrow>
                   (case srtcp_encr_gcm al cr aes (srtp_iv_calc_gcm (c_k_s rtcp) ssrc (ucast index))
                           index start mb1 of (err, mb2) \<Rightarrow> (err, mb2, 1))
               | (None, _) \<Rightarrow> (0, mb1, 0)) of (err, mb2, ep) \<Rightarrow>
         if err \<noteq> 0 then (err, srtp2, mb2)
         else case mbuf_write_u32 al (mb2\<lparr>mb_pos := mb_end mb2\<rparr>) (htonl (push_bit 31 ep OR index)) of
           (err, mb3) \<Rightarrow>
           if err \<noteq> 0 then (err, srtp2, mb3)
           else case (case c_hmac rtcp of None \<Rightarrow> (0, mb3)
               | Some hmac \<Rightarrow>
                   let mb4 = mb3\<lparr>mb_pos := start\<rparr> in
                   (case hmac_digest cr hmac (mbuf_left mb4) of Inl err \<Rightarrow> (err, mb4)
                    | Inr tag \<Rightarrow> mbuf_write_mem al (mb4\<lparr>mb_pos := mb_end mb4\<rparr>)
                                  (Some (take (c_tag_len rtcp) tag)))) of (err, mb5) \<Rightarrow>
             if err \<noteq> 0 then (err, srtp2, mb5)
             else (0, srtp2, mb5\<lparr>mb_pos := start\<rparr>))"

definition srtcp_decr_auth ::
  "('k, 'c) crypto \<Rightarrow> 'k \<Rightarrow> nat \<Rightarrow> nat \<Rightarrow> u64 \<Rightarrow> srtp_stream \<Rightarrow> mbuf \<Rightarrow> errno \<times> srtp_stream \<times> mbuf" where
  "srtcp_decr_auth cr hmac tag_len start ix strm mb =
     (let tag_start = mb_pos mb in
      if tag_len > SHA_DIGEST_LENGTH then (ERANGE, strm, mb)
      else case mbuf_read_mem mb tag_len of Inl err \<Rightarrow> (err, strm, mb)
      | Inr (tag_pkt, mb1) \<Rightarrow>
          let mb2 = mb1\<lparr>mb_pos := start, mb_end := tag_start\<rparr> in
          (case hmac_digest cr hmac (mbuf_left mb2) of Inl err \<Rightarrow> (err, strm, mb2)
           | Inr tag \<Rightarrow>
               if take tag_len tag \<noteq> tag_pkt then (EAUTH, strm, mb2)
               else case srtp_replay_check (st_replay_rtcp strm) ix of (ok, r) \<Rightarrow>
                 (if ok then 0 else EALREADY, strm\<lparr>st_replay_rtcp := r\<rparr>, mb2)))"

definition srtcp_decr_gcm ::
  "('k, 'c) crypto \<Rightarrow> 'k \<Rightarrow> bytes \<Rightarrow> nat \<Rightarrow> nat \<Rightarrow> nat \<Rightarrow> mbuf \<Rightarrow> errno \<times> mbuf" where
  "srtcp_decr_gcm cr aes iv start pld_start eix_start mb =
     (case aes_decr_aad cr (aes_set_iv cr aes iv)
             (take (pld_start - start) (drop start (mbuf_bytes mb))) of (err1, c) \<Rightarrow>
      case aes_decr_aad cr c (take 4 (drop eix_start (mbuf_bytes mb))) of (err2, c1) \<Rightarrow>
        if err1 OR err2 \<noteq> 0 then (err1 OR err2, mb)
        else
          let mb1 = mb\<lparr>mb_pos := pld_start\<rparr> in
          if mbuf_get_left mb1 < GCM_TAGLEN then (EBADMSG, mb1)
          else
            let tag_start = mb_end mb1 - GCM_TAGLEN in
            case mbuf_crypt (aes_decr cr c1) mb1 (tag_start - pld_start) of (err, mb2, c2) \<Rightarrow>
            if err \<noteq> 0 then (err, mb2)
            else
              let err = aes_authenticate cr c2 (take GCM_TAGLEN (drop tag_start (mbuf_bytes mb2))) in
              if err \<noteq> 0 then (err, mb2) else (0, mb2\<lparr>mb_end := tag_start\<rparr>))"

definition srtcp_decrypt ::
  "malloc_env \<Rightarrow> ('k, 'c) crypto \<Rightarrow> 'k srtp \<Rightarrow> mbuf \<Rightarrow> errno \<times> 'k srtp \<times> mbuf" where
  "srtcp_decrypt al cr srtp mb =
     (let rtcp = sr_rtcp srtp; start = mb_pos mb in
      case get_rtcp_ssrc mb of (err, ssrc, mb1) \<Rightarrow>
      if err \<noteq> 0 then (err, srtp, mb1)
      else case stream_get al srtp ssrc of Inl err \<Rightarrow> (err, srtp, mb1)
      | Inr (strm, srtp1) \<Rightarrow>
         let pld_start = mb_pos mb1 in
         if mbuf_get_left mb1 < 4 + c_tag_len rtcp then (EBADMSG, srtp1, mb1)
         else
           let eix_start = mb_end mb1 - (4 + c_tag_len rtcp) in
           case mbuf_read_u32 (mb1\<lparr>mb_pos := eix_start\<rparr>) of (w, mb2) \<Rightarrow>
             let v = ntohl w; ep = (drop_bit 31 v AND 1 \<noteq> 0); ix = v AND 0x7fffffff in
             case (case c_hmac rtcp of None \<Rightarrow> (0, strm, mb2)
                   | Some hmac \<Rightarrow> srtcp_decr_auth cr hmac (c_tag_len rtcp) start (ucast ix) strm mb2) of
               (err, strm1, mb3) \<Rightarrow>
             if err \<noteq> 0 then (err, stream_put srtp1 strm1, mb3)
             else
               let mb4 = mb3\<lparr>mb_end := eix_start\<rparr>; srtp2 = stream_put srtp1 strm1 in
               case (case (c_aes rtcp, ep, c_mode rtcp) of
                       (Some aes, True, AES_MODE_CTR) \<Rightarrow>
                         srtp_decr_ctr cr aes (srtp_iv_calc (c_k_s rtcp) ssrc (ucast ix))
                           (mb4\<lparr>mb_pos := pld_start\<rparr>)
                     | (Some aes, True, AES_MODE_GCM) \<Rightarrow>
                         srtcp_decr_gcm cr aes (srtp_iv_calc_gcm (c_k_s rtcp) ssrc (ucast ix))
                           start pld_start eix_start mb4
                     | _ \<Rightarrow> (0, mb4)) of (err, mb5) \<Rightarrow>
               if err \<noteq> 0 then (err, srtp2, mb5) else (0, srtp2, mb5\<lparr>mb_pos := start\<rparr>))"

section \<open>What the replay window promises\<close>

text \<open>
  The contract: an index is accepted iff it has not been accepted before and is less than
  64 behind the highest accepted one. \<open>S\<close> is the set of all accepted indices.
\<close>

definition replay_hi :: "u64 set \<Rightarrow> u64" where
  "replay_hi S = (if S = {} then 0 else Max S)"

definition replay_accepts :: "u64 set \<Rightarrow> u64 \<Rightarrow> bool" where
  "replay_accepts S ix \<longleftrightarrow> ix \<notin> S \<and> unat (replay_hi S) < unat ix + 64"

definition replay_rel :: "replay \<Rightarrow> u64 set \<Rightarrow> bool" where
  "replay_rel r S \<longleftrightarrow> rp_lix r = replay_hi S \<and>
     (\<forall>x d. unat (rp_lix r) = unat x + d \<longrightarrow> d < 64 \<longrightarrow> (bit (rp_bitmap r) d \<longleftrightarrow> x \<in> S))"

lemma replay_relI:
  assumes "\<And>x d. unat lix = unat x + d \<Longrightarrow> d < 64 \<Longrightarrow> (bit bitmap d \<longleftrightarrow> x \<in> S)"
    and "rp_lix r = lix" "rp_bitmap r = bitmap" "replay_hi S = lix"
  shows "replay_rel r S"
  using assms(1) unfolding replay_rel_def assms(2-4) by blast

lemma replay_hi_upper: "x \<in> S \<Longrightarrow> x \<le> replay_hi S"
  using finite [of S] by (auto simp: replay_hi_def)

lemma replay_hi_insert: "replay_hi (insert x S) = max x (replay_hi S)"
  using finite [of S] by (auto simp: replay_hi_def max_def)

lemma replay_rel_init: "replay_rel srtp_replay_init {}"
  by (simp add: replay_rel_def srtp_replay_init_def replay_hi_def)

lemma and_push_bit_1: "w AND push_bit n 1 \<noteq> 0 \<longleftrightarrow> bit w n" if "n < 64" for w :: u64
  using that by (auto simp: bit_iff_and_push_bit_not_eq_0)

lemma bit_push_bit_1: "bit (push_bit n 1 :: u64) k \<longleftrightarrow> k = n \<and> k < 64"
  by (simp only: bit_push_bit_iff bit_1_iff) auto

lemma unat_sub_le: "y \<le> x \<Longrightarrow> unat (x - y) = unat x - unat y" for x y :: "'a::len word"
  by (simp add: unat_sub word_le_nat_alt)

lemma srtp_replay_check_ok:
  assumes rel: "replay_rel r S" and ck: "srtp_replay_check r ix = (ok, r')"
  shows "ok = replay_accepts S ix" "replay_rel r' (if ok then insert ix S else S)"
proof -
  have hi: "rp_lix r = replay_hi S" using rel by (simp add: replay_rel_def)
  have bits: "bit (rp_bitmap r) d \<longleftrightarrow> x \<in> S" if "unat (rp_lix r) = unat x + d" "d < 64" for x d
    using rel that unfolding replay_rel_def by blast
  have above: "x \<notin> S" if "unat (rp_lix r) < unat x" for x
    using that replay_hi_upper [of x S] hi by (auto simp: word_le_nat_alt)
  have *: "ok = replay_accepts S ix \<and> replay_rel r' (if ok then insert ix S else S)"
  proof (cases "ix > rp_lix r")
    case new: True
    define diff where "diff = unat ix - unat (rp_lix r)"
    have d: "unat (ix - rp_lix r) = diff" "unat ix = unat (rp_lix r) + diff" "0 < diff"
      using new unat_sub_le [of "rp_lix r" ix] by (auto simp: diff_def word_less_nat_alt word_le_nat_alt)
    have acc: "replay_accepts S ix"
      using above [of ix] d by (simp add: replay_accepts_def hi [symmetric])
    have hi': "replay_hi (insert ix S) = ix"
      using new by (simp add: replay_hi_insert hi [symmetric] max_absorb1)
    have "bit (if diff < 64 then push_bit diff (rp_bitmap r) OR 1 else 1) k \<longleftrightarrow> x \<in> insert ix S"
      if x: "unat ix = unat x + k" and k: "k < 64" for x k
    proof (cases "k = 0")
      case True
      then have "x = ix" using x by (simp add: word_unat_eq_iff)
      then show ?thesis using True by (simp add: bit_or_iff)
    next
      case False
      then have ne: "x \<noteq> ix" using x by auto
      show ?thesis
      proof (cases "diff \<le> k")
        case True
        then have "unat (rp_lix r) = unat x + (k - diff)" using x d by simp
        then show ?thesis using bits [of x "k - diff"] True k False ne
          by (auto simp: bit_or_iff bit_push_bit_iff bit_1_iff)
      next
        case 2: False
        then have "x \<notin> S" using x d above [of x] by simp
        then show ?thesis using 2 False ne k by (auto simp: bit_or_iff bit_push_bit_iff bit_1_iff)
      qed
    qed
    then have rel': "replay_rel (r\<lparr>rp_bitmap := if diff < 64 then push_bit diff (rp_bitmap r) OR 1 else 1,
        rp_lix := ix\<rparr>) (insert ix S)"
      by (rule replay_relI [OF _ _ _ hi']) simp_all
    have "ix - rp_lix r < SRTP_WINDOW_SIZE \<longleftrightarrow> diff < 64"
      by (simp add: SRTP_WINDOW_SIZE_def word_less_nat_alt d(1))
    then have "ok" "r' = r\<lparr>rp_bitmap := if diff < 64 then push_bit diff (rp_bitmap r) OR 1 else 1, rp_lix := ix\<rparr>"
      using ck new unfolding srtp_replay_check_def Let_def d(1) by simp_all
    then show ?thesis using acc rel' by simp
  next
    case old: False
    define diff where "diff = unat (rp_lix r) - unat ix"
    have d: "unat (rp_lix r - ix) = diff" "unat (rp_lix r) = unat ix + diff"
      using old unat_sub_le [of ix "rp_lix r"] by (auto simp: diff_def not_less word_le_nat_alt)
    have hi': "replay_hi (insert ix S) = rp_lix r"
      using old by (simp add: replay_hi_insert hi [symmetric] max_absorb2 not_less)
    have w: "rp_lix r - ix \<ge> SRTP_WINDOW_SIZE \<longleftrightarrow> \<not> diff < 64"
      by (simp add: SRTP_WINDOW_SIZE_def word_le_nat_alt d(1) not_less)
    show ?thesis
    proof (cases "diff < 64")
      case False
      then have "\<not> ok" "r' = r" using ck old w by (simp_all add: srtp_replay_check_def)
      moreover have "\<not> replay_accepts S ix" using False d(2) by (simp add: replay_accepts_def hi [symmetric])
      ultimately show ?thesis using rel by simp
    next
      case True
      have acc: "replay_accepts S ix \<longleftrightarrow> \<not> bit (rp_bitmap r) diff"
        using bits [OF d(2) True] d True by (simp add: replay_accepts_def hi [symmetric])
      have "bit (rp_bitmap r OR push_bit diff 1) k \<longleftrightarrow> x \<in> insert ix S"
        if "unat (rp_lix r) = unat x + k" "k < 64" for x k
      proof -
        have "x = ix \<longleftrightarrow> k = diff" using that(1) d(2) by (auto simp: word_unat_eq_iff)
        then show ?thesis using bits [OF that] bit_push_bit_1 [of diff k] that(2)
          by (auto simp only: bit_or_iff)
      qed
      then have rel': "replay_rel (r\<lparr>rp_bitmap := rp_bitmap r OR push_bit diff 1\<rparr>) (insert ix S)"
        by (rule replay_relI [OF _ _ _ hi']) simp_all
      have "srtp_replay_check r ix = (if bit (rp_bitmap r) diff then (False, r)
          else (True, r\<lparr>rp_bitmap := rp_bitmap r OR push_bit diff 1\<rparr>))"
        using old w True and_push_bit_1 [OF True, of "rp_bitmap r"]
        by (simp add: srtp_replay_check_def d(1))
      then show ?thesis using ck rel rel' acc by (simp split: if_splits)
    qed
  qed
  show "ok = replay_accepts S ix" using * by blast
  show "replay_rel r' (if ok then insert ix S else S)" using * by blast
qed

text \<open>The answers to a sequence of checks, by a checker and by a contract.\<close>

fun replay_run :: "('s \<Rightarrow> 'i \<Rightarrow> bool \<times> 's) \<Rightarrow> 's \<Rightarrow> 'i list \<Rightarrow> bool list" where
  "replay_run check r [] = []"
| "replay_run check r (ix # ixs) = (case check r ix of (ok, r') \<Rightarrow> ok # replay_run check r' ixs)"

fun replay_spec_run :: "('i set \<Rightarrow> 'i \<Rightarrow> bool) \<Rightarrow> 'i set \<Rightarrow> 'i list \<Rightarrow> bool list" where
  "replay_spec_run accepts S [] = []"
| "replay_spec_run accepts S (ix # ixs) =
     (if accepts S ix then True # replay_spec_run accepts (insert ix S) ixs
      else False # replay_spec_run accepts S ixs)"

definition accepted :: "'i list \<Rightarrow> bool list \<Rightarrow> 'i list" where
  "accepted ixs oks = map fst (filter snd (zip ixs oks))"

text \<open>
  What a receiver asks of a replay list: a state that stands for the set of accepted indices, and
  a check that decides by the contract and records what it accepts. The contract never accepts an
  index again.
\<close>

locale replay_guard =
  fixes init :: 's and check :: "'s \<Rightarrow> 'i \<Rightarrow> bool \<times> 's"
    and rel :: "'s \<Rightarrow> 'i set \<Rightarrow> bool" and accepts :: "'i set \<Rightarrow> 'i \<Rightarrow> bool"
  assumes rel_init: "rel init {}"
    and check_accepts: "rel r S \<Longrightarrow> check r ix = (ok, r') \<Longrightarrow> ok = accepts S ix"
    and check_records: "rel r S \<Longrightarrow> check r ix = (ok, r') \<Longrightarrow> rel r' (if ok then insert ix S else S)"
    and accepts_new: "accepts S ix \<Longrightarrow> ix \<notin> S"
begin

lemma run_spec: "rel r S \<Longrightarrow> replay_run check r ixs = replay_spec_run accepts S ixs"
proof (induction ixs arbitrary: r S)
  case (Cons ix ixs)
  obtain ok r' where c: "check r ix = (ok, r')" by fastforce
  from check_accepts [OF Cons.prems c] check_records [OF Cons.prems c] Cons.IH [of r'] c
  show ?case by (simp split: if_splits)
qed simp

lemma spec_distinct:
  "distinct (accepted ixs (replay_spec_run accepts S ixs)) \<and> set (accepted ixs (replay_spec_run accepts S ixs)) \<inter> S = {}"
proof (induction ixs arbitrary: S)
  case Nil
  then show ?case by (simp add: accepted_def)
next
  case (Cons ix ixs)
  show ?case using Cons.IH [of S] Cons.IH [of "insert ix S"] accepts_new [of S ix]
    by (auto simp: accepted_def)
qed

lemma run_from_init:
  "replay_run check init ixs = replay_spec_run accepts {} ixs \<and> distinct (accepted ixs (replay_run check init ixs))"
  using run_spec [OF rel_init] spec_distinct [of ixs "{}"] by simp

end

interpretation rw: replay_guard srtp_replay_init srtp_replay_check replay_rel replay_accepts
proof
  show "replay_rel srtp_replay_init {}" by (rule replay_rel_init)
  show "ok = replay_accepts S ix" if "replay_rel r S" "srtp_replay_check r ix = (ok, r')" for r S ix ok r'
    by (rule srtp_replay_check_ok(1) [OF that])
  show "replay_rel r' (if ok then insert ix S else S)"
    if "replay_rel r S" "srtp_replay_check r ix = (ok, r')" for r S ix ok r'
    by (rule srtp_replay_check_ok(2) [OF that])
  show "ix \<notin> S" if "replay_accepts S ix" for S ix using that by (simp add: replay_accepts_def)
qed

text \<open>C4: the replay window implements its contract. On every sequence of indices the answers of
  \<open>srtp_replay_check\<close>, started from \<open>srtp_replay_init\<close>, are those of the contract (fresh and
  less than 64 behind the highest accepted index), and no index is accepted twice.
\<close>

theorem srtp_replay_window:
  "replay_run srtp_replay_check srtp_replay_init ixs = replay_spec_run replay_accepts {} ixs \<and>
   distinct (accepted ixs (replay_run srtp_replay_check srtp_replay_init ixs))"
  by (rule rw.run_from_init)

section \<open>Encrypting in place\<close>

lemma mb_at_crypt:
  assumes "mb_at mb (H @ P @ T) n" "n = length H" "f P = ((err, Q), c)" "length Q = length P" "len = length P"
  shows "\<exists>mb'. mbuf_crypt f mb len = (err, mb', c) \<and> mb_at mb' (H @ Q @ T) n"
proof -
  note m = mb_atD [OF assms(1)]
  have p: "take len (drop (mb_pos mb) (mbuf_bytes mb)) = P"
    using mb_at_bytes [OF assms(1), of n len] assms(2,5) m(4) by simp
  have le: "mb_pos mb + length Q \<le> mb_end mb" using m(3,4) assms(2,4) by simp
  have sz: "mb_end mb \<le> length (mbuf_bytes mb)" using m(2) by (simp add: mbuf_wf_def)
  let ?mb = "mb\<lparr>mb_buf := map_option (mem_put (mb_pos mb) Q) (mb_buf mb)\<rparr>"
  have b: "mbuf_bytes ?mb = mem_put (mb_pos mb) Q (mbuf_bytes mb)"
    using le sz assms(4) by (auto simp: mbuf_bytes_def mem_put_def split: option.splits)
  have "take (mb_end mb) (mem_put (mb_pos mb) Q (mbuf_bytes mb)) =
      mem_put (mb_pos mb) Q (take (mb_end mb) (mbuf_bytes mb))"
    by (rule take_mem_put_inside [OF le sz])
  also have "take (mb_end mb) (mbuf_bytes mb) = H @ P @ T"
    using assms(1) by (simp add: mb_at_def mbuf_content_def)
  also have "mem_put (mb_pos mb) Q (H @ P @ T) = H @ Q @ T" using m(4) assms(2,4) by (simp add: mem_put_def)
  finally have "mbuf_content ?mb = H @ Q @ T" unfolding mbuf_content_def b by simp
  moreover have "mbuf_ready ?mb" using m(1) le sz unfolding mbuf_ready_def mbuf_wf_def b by simp
  ultimately have "mb_at ?mb (H @ Q @ T) n" using m(4) by (simp add: mb_at_def)
  then show ?thesis using assms(3) by (simp add: mbuf_crypt_def p)
qed

section \<open>Streams\<close>

definition ssrcs :: "'k srtp \<Rightarrow> u32 set" where
  "ssrcs srtp = st_ssrc ` set (sr_streaml srtp)"

text \<open>The stream of an SSRC, a fresh one where the session has none.\<close>

definition stream_of :: "'k srtp \<Rightarrow> u32 \<Rightarrow> srtp_stream" where
  "stream_of srtp ssrc = (case stream_find srtp ssrc of None \<Rightarrow> stream_fresh ssrc | Some strm \<Rightarrow> strm)"

text \<open>Invariant of a session: one stream per SSRC, at most \<open>SRTP_MAX_STREAMS\<close>.\<close>

definition srtp_ok :: "'k srtp \<Rightarrow> bool" where
  "srtp_ok srtp \<longleftrightarrow> distinct (map st_ssrc (sr_streaml srtp)) \<and> length (sr_streaml srtp) \<le> SRTP_MAX_STREAMS"

definition srtp_slot :: "malloc_env \<Rightarrow> 'k srtp \<Rightarrow> u32 \<Rightarrow> bool" where
  "srtp_slot al srtp ssrc \<longleftrightarrow> ssrc \<in> ssrcs srtp \<or>
     length (sr_streaml srtp) < SRTP_MAX_STREAMS \<and> mem_zalloc al sizeof_srtp_stream \<noteq> None"

lemma stream_find_Some: "stream_find srtp ssrc = Some strm \<Longrightarrow> strm \<in> set (sr_streaml srtp) \<and> st_ssrc strm = ssrc"
  by (auto simp: stream_find_def find_Some_iff)

lemma stream_find_None: "stream_find srtp ssrc = None \<longleftrightarrow> ssrc \<notin> ssrcs srtp"
  by (auto simp: stream_find_def find_None_iff ssrcs_def)

lemma stream_of_ssrc [simp]: "st_ssrc (stream_of srtp ssrc) = ssrc"
  by (auto simp: stream_of_def stream_fresh_def dest: stream_find_Some split: option.splits)

lemma ssrcs_put [simp]: "ssrcs (stream_put srtp strm) = ssrcs srtp"
proof -
  have "map st_ssrc (sr_streaml (stream_put srtp strm)) = map st_ssrc (sr_streaml srtp)"
    by (simp add: stream_put_def)
  then show ?thesis unfolding ssrcs_def by (metis list.set_map)
qed

lemma stream_put_comps [simp]:
  "sr_rtp (stream_put srtp strm) = sr_rtp srtp" "sr_rtcp (stream_put srtp strm) = sr_rtcp srtp"
  by (simp_all add: stream_put_def)

lemma srtp_ok_put [simp]: "srtp_ok (stream_put srtp strm) = srtp_ok srtp"
proof -
  have "map st_ssrc (sr_streaml (stream_put srtp strm)) = map st_ssrc (sr_streaml srtp)"
    by (simp add: stream_put_def)
  moreover have "length (sr_streaml (stream_put srtp strm)) = length (sr_streaml srtp)"
    by (simp add: stream_put_def)
  ultimately show ?thesis unfolding srtp_ok_def by simp
qed

lemma find_map_key:
  "st_ssrc t \<in> st_ssrc ` set xs \<Longrightarrow>
   find (\<lambda>s. st_ssrc s = x) (map (\<lambda>s. if st_ssrc s = st_ssrc t then t else s) xs) =
     (if x = st_ssrc t then Some t else find (\<lambda>s. st_ssrc s = x) xs)"
proof (induction xs)
  case (Cons a xs)
  have "map (\<lambda>s. if st_ssrc s = st_ssrc t then t else s) xs = xs" if "st_ssrc t \<notin> st_ssrc ` set xs"
    using that by (intro map_idI) (metis image_eqI)
  then show ?case using Cons by (cases "st_ssrc t \<in> st_ssrc ` set xs") auto
qed simp

lemma stream_of_put:
  assumes "st_ssrc strm \<in> ssrcs srtp"
  shows "stream_of (stream_put srtp strm) x = (if x = st_ssrc strm then strm else stream_of srtp x)"
  using find_map_key [OF assms [unfolded ssrcs_def], of x]
  by (simp add: stream_of_def stream_find_def stream_put_def)

lemma stream_get_ok:
  assumes "stream_get al srtp ssrc = Inr (strm, srtp1)"
  shows "strm = stream_of srtp ssrc" "ssrc \<in> ssrcs srtp1" "stream_of srtp1 x = stream_of srtp x"
    "sr_rtp srtp1 = sr_rtp srtp" "sr_rtcp srtp1 = sr_rtcp srtp" "srtp_ok srtp \<Longrightarrow> srtp_ok srtp1"
    "ssrcs srtp1 = insert ssrc (ssrcs srtp)"
proof -
  have *: "strm = stream_of srtp ssrc \<and> ssrc \<in> ssrcs srtp1 \<and> stream_of srtp1 x = stream_of srtp x \<and>
    sr_rtp srtp1 = sr_rtp srtp \<and> sr_rtcp srtp1 = sr_rtcp srtp \<and> (srtp_ok srtp \<longrightarrow> srtp_ok srtp1) \<and>
    ssrcs srtp1 = insert ssrc (ssrcs srtp)"
  proof (cases "stream_find srtp ssrc")
    case (Some s)
    then show ?thesis using assms stream_find_Some [OF Some]
      by (auto simp: stream_get_def stream_of_def ssrcs_def)
  next
    case None
    then have n: "ssrc \<notin> ssrcs srtp" by (simp add: stream_find_None)
    have s: "strm = stream_fresh ssrc" "srtp1 = srtp\<lparr>sr_streaml := sr_streaml srtp @ [strm]\<rparr>"
      "length (sr_streaml srtp) < SRTP_MAX_STREAMS"
      using assms None by (auto simp: stream_get_def stream_new_def Let_def split: if_splits option.splits)
    have "find P (xs @ [y]) = (case find P xs of None \<Rightarrow> if P y then Some y else None | Some z \<Rightarrow> Some z)"
      for P xs and y :: srtp_stream by (induction xs) auto
    then have "stream_of srtp1 x = stream_of srtp x" using s None
      by (auto simp: stream_of_def stream_find_def stream_fresh_def split: option.splits)
    then show ?thesis using n s None
      by (auto simp: stream_of_def ssrcs_def stream_fresh_def srtp_ok_def image_iff)
  qed
  then show "strm = stream_of srtp ssrc" "ssrc \<in> ssrcs srtp1" "stream_of srtp1 x = stream_of srtp x"
    "sr_rtp srtp1 = sr_rtp srtp" "sr_rtcp srtp1 = sr_rtcp srtp" "srtp_ok srtp \<Longrightarrow> srtp_ok srtp1"
    "ssrcs srtp1 = insert ssrc (ssrcs srtp)"
    by simp_all
qed

definition seq_start :: "u16 \<Rightarrow> srtp_stream \<Rightarrow> srtp_stream" where
  "seq_start seq strm = (if st_s_l_set strm then strm else strm\<lparr>st_s_l := seq, st_s_l_set := True\<rparr>)"

lemma seq_start_simps [simp]:
  "st_ssrc (seq_start seq strm) = st_ssrc strm" "st_roc (seq_start seq strm) = st_roc strm"
  "st_replay_rtp (seq_start seq strm) = st_replay_rtp strm" "st_s_l_set (seq_start seq strm)"
  "seq_start s (seq_start seq strm) = seq_start seq strm"
  by (simp_all add: seq_start_def)

lemma stream_get_seq_ok:
  assumes "stream_get_seq al srtp ssrc seq = Inr (strm, srtp1)"
  shows "strm = seq_start seq (stream_of srtp ssrc)" "ssrc \<in> ssrcs srtp1"
    "stream_of srtp1 x = (if x = ssrc then strm else stream_of srtp x)"
    "sr_rtp srtp1 = sr_rtp srtp" "sr_rtcp srtp1 = sr_rtcp srtp" "srtp_ok srtp \<Longrightarrow> srtp_ok srtp1"
proof -
  obtain s0 srtp0 where g: "stream_get al srtp ssrc = Inr (s0, srtp0)"
    using assms by (auto simp: stream_get_seq_def split: sum.splits)
  note k = stream_get_ok [OF g]
  have e: "strm = seq_start seq s0 \<and> srtp1 = (if st_s_l_set s0 then srtp0 else stream_put srtp0 (seq_start seq s0))"
    using assms g by (auto simp: stream_get_seq_def seq_start_def Let_def split: if_splits)
  have s: "st_ssrc (seq_start seq s0) = ssrc" by (simp add: k(1))
  have "seq_start seq s0 = s0" if "st_s_l_set s0" using that by (simp add: seq_start_def)
  then show "stream_of srtp1 x = (if x = ssrc then strm else stream_of srtp x)"
    using e k stream_of_put [of "seq_start seq s0" srtp0 x] s by (auto split: if_splits)
  show "strm = seq_start seq (stream_of srtp ssrc)" using e k(1) by simp
  show "ssrc \<in> ssrcs srtp1" "sr_rtp srtp1 = sr_rtp srtp" "sr_rtcp srtp1 = sr_rtcp srtp" using e k by auto
  show "srtp_ok srtp \<Longrightarrow> srtp_ok srtp1" using e k(6) by auto
qed

lemma stream_get_slot: "srtp_slot al srtp ssrc \<Longrightarrow> \<exists>r. stream_get al srtp ssrc = Inr r"
  using stream_find_None [of srtp ssrc]
  by (cases "stream_find srtp ssrc") (auto simp: srtp_slot_def stream_get_def stream_new_def Let_def)

lemma stream_get_seq_slot: "srtp_slot al srtp ssrc \<Longrightarrow> \<exists>r. stream_get_seq al srtp ssrc seq = Inr r"
  using stream_get_slot [of al srtp ssrc] by (auto simp: stream_get_seq_def Let_def)


section \<open>The RTP header is a prefix of the packet\<close>

text \<open>What the header decoder answers depends on the bytes of the header only: on another buffer
  that starts with them, whatever follows, it answers the same.\<close>

lemma take_eq_mono: "take n xs = take n ys \<Longrightarrow> m \<le> n \<Longrightarrow> take m xs = take m ys"
  by (metis min.absorb1 take_take)

lemma take_drop_eq: "take n xs = take n ys \<Longrightarrow> k + m \<le> n \<Longrightarrow> take m (drop k xs) = take m (drop k ys)"
  by (metis add.commute take_drop take_eq_mono)

lemma rtp_csrc_loop_local:
  "mbuf_wf mb \<Longrightarrow> mbuf_wf mb2 \<Longrightarrow> 4 * k \<le> length (mbuf_left mb) \<Longrightarrow> 4 * k \<le> length (mbuf_left mb2) \<Longrightarrow>
   take (4 * k) (mbuf_left mb) = take (4 * k) (mbuf_left mb2) \<Longrightarrow>
   \<exists>h'. rtp_csrc_loop i k h mb = (h', mbuf_skip mb (4 * k)) \<and> rtp_csrc_loop i k h mb2 = (h', mbuf_skip mb2 (4 * k)) \<and>
        rh_ext h' = rh_ext h \<and> rh_ssrc h' = rh_ssrc h \<and> rh_seq h' = rh_seq h"
proof (induction k arbitrary: i h mb mb2)
  case 0
  then show ?case by simp
next
  case (Suc k)
  let ?h = "h\<lparr>rh_csrc := (rh_csrc h)[i := ntohl (word_of_le (take 4 (mbuf_left mb)))]\<rparr>"
  have t: "take 4 (mbuf_left mb2) = take 4 (mbuf_left mb)"
    using take_eq_mono [OF Suc.prems(5), of 4] by simp
  have "take (4 * k) (mbuf_left (mbuf_skip mb 4)) = take (4 * k) (mbuf_left (mbuf_skip mb2 4))"
    using take_drop_eq [OF Suc.prems(5), of 4 "4 * k"] by (simp add: mbuf_left_skip)
  from Suc.IH [OF _ _ _ _ this, of "Suc i" ?h] Suc.prems(1-4) t show ?case
    by (simp add: mbuf_rd ac_simps)
qed

definition rtp_fixed :: "rtp_header \<Rightarrow> bytes \<Rightarrow> rtp_header" where
  "rtp_fixed old bs = (let buf = take 2 bs in old\<lparr>
     rh_ver := drop_bit 6 (buf ! 0) AND 0x03, rh_pad := (drop_bit 5 (buf ! 0) AND 0x01 \<noteq> 0),
     rh_ext := (drop_bit 4 (buf ! 0) AND 0x01 \<noteq> 0), rh_cc := drop_bit 0 (buf ! 0) AND 0x0f,
     rh_m := (drop_bit 7 (buf ! 1) AND 0x01 \<noteq> 0), rh_pt := drop_bit 0 (buf ! 1) AND 0x7f,
     rh_seq := ntohs (word_of_le (take 2 (drop 2 bs))),
     rh_ts := ntohl (word_of_le (take 4 (drop 4 bs))),
     rh_ssrc := ntohl (word_of_le (take 4 (drop 8 bs)))\<rparr>)"

lemma rtp_fixed_local: "take 12 bs = take 12 cs \<Longrightarrow> rtp_fixed old bs = rtp_fixed old cs"
  using take_drop_eq [of 12 bs cs 2 2] take_drop_eq [of 12 bs cs 4 4] take_drop_eq [of 12 bs cs 8 4]
    take_eq_mono [of 12 bs cs 2] by (simp add: rtp_fixed_def)

lemma rtp_hdr_decode_eq:
  assumes "mbuf_wf mb" "12 \<le> length (mbuf_left mb)"
  shows "rtp_hdr_decode old mb =
    (let h1 = rtp_fixed old (mbuf_left mb) in
     if length (mbuf_left mb) - 12 < unat (rh_cc h1) * 4 then (EBADMSG, h1, mbuf_skip mb 12)
     else (case rtp_csrc_loop 0 (unat (rh_cc h1)) h1 (mbuf_skip mb 12) of (hdr2, mb5) \<Rightarrow>
             if rh_ext hdr2 then rtp_ext_decode hdr2 mb5 else (0, hdr2, mb5)))"
  using assms by (simp add: rtp_hdr_decode_def mbuf_rd RTP_HEADER_SIZE_def Let_def rtp_fixed_def)

lemma rtp_ext_decode_local:
  assumes wf: "mbuf_wf mb" and d: "rtp_ext_decode h mb = (0, h', mb')"
  shows "\<exists>n\<le>length (mbuf_left mb). mb' = mbuf_skip mb n \<and> rh_ssrc h' = rh_ssrc h \<and> rh_seq h' = rh_seq h \<and>
    (\<forall>mb2. mbuf_wf mb2 \<longrightarrow> n \<le> length (mbuf_left mb2) \<longrightarrow> take n (mbuf_left mb2) = take n (mbuf_left mb) \<longrightarrow>
       rtp_ext_decode h mb2 = (0, h', mbuf_skip mb2 n))"
proof -
  let ?t = "\<lambda>bs. ntohs (word_of_le (take 2 bs))" and ?l = "\<lambda>bs. ntohs (word_of_le (take 2 (drop 2 bs)))"
  have four: "4 \<le> length (mbuf_left mb)"
    using d wf by (auto simp: rtp_ext_decode_def mbuf_rd EBADMSG_def not_less split: if_splits)
  define l where "l = unat (?l (mbuf_left mb)) * 4"
  have ev: "rtp_ext_decode h m = (if length (mbuf_left m) - 4 < unat (?l (mbuf_left m)) * 4
        then (EBADMSG, h\<lparr>rh_xtype := ?t (mbuf_left m), rh_xlen := ?l (mbuf_left m)\<rparr>, mbuf_skip m 4)
        else (0, h\<lparr>rh_xtype := ?t (mbuf_left m), rh_xlen := ?l (mbuf_left m)\<rparr>,
              mbuf_skip m (4 + unat (?l (mbuf_left m)) * 4)))"
    if m: "mbuf_wf m" "4 \<le> length (mbuf_left m)" for m
  proof -
    have "(mbuf_skip m 4)\<lparr>mb_pos := szt (mb_pos m + 4 + unat (?l (mbuf_left m)) * 4)\<rparr> =
        mbuf_skip m (4 + unat (?l (mbuf_left m)) * 4)"
      if "\<not> length (mbuf_left m) - 4 < unat (?l (mbuf_left m)) * 4"
    proof -
      have "mb_pos m + (4 + unat (?l (mbuf_left m)) * 4) < 2 ^ 64"
        using mbuf_wf_skip [OF m(1), of "4 + unat (?l (mbuf_left m)) * 4"] that m(2) by (simp add: mbuf_wf_def)
      then show ?thesis by (simp add: mbuf_skip_def ac_simps)
    qed
    then show ?thesis using m by (simp add: rtp_ext_decode_def mbuf_rd Let_def)
  qed
  have le: "4 + l \<le> length (mbuf_left mb)"
    using ev [OF wf four] d four by (auto simp: EBADMSG_def l_def split: if_splits)
  then have r: "h' = h\<lparr>rh_xtype := ?t (mbuf_left mb), rh_xlen := ?l (mbuf_left mb)\<rparr>" "mb' = mbuf_skip mb (4 + l)"
    using ev [OF wf four] d by (auto simp: l_def split: if_splits)
  have "rtp_ext_decode h mb2 = (0, h', mbuf_skip mb2 (4 + l))"
    if m: "mbuf_wf mb2" "4 + l \<le> length (mbuf_left mb2)"
      and e: "take (4 + l) (mbuf_left mb2) = take (4 + l) (mbuf_left mb)" for mb2
  proof -
    have "take 2 (mbuf_left mb2) = take 2 (mbuf_left mb)" "take 2 (drop 2 (mbuf_left mb2)) = take 2 (drop 2 (mbuf_left mb))"
      using take_eq_mono [OF e, of 2] take_drop_eq [OF e, of 2 2] by simp_all
    moreover have "\<not> length (mbuf_left mb2) - 4 < l" using m(2) by simp
    ultimately show ?thesis using ev [OF m(1)] m(2) r by (simp add: l_def)
  qed
  then show ?thesis using le r by (intro exI [of _ "4 + l"]) simp
qed

lemma rtp_hdr_decode_local:
  assumes wf: "mbuf_wf mb" and d: "rtp_hdr_decode old mb = (0, h, mb')"
  obtains n where "12 \<le> n" "n \<le> length (mbuf_left mb)" "mb' = mbuf_skip mb n"
    "rh_seq h = ntohs (word_of_le (take 2 (drop 2 (mbuf_left mb))))"
    "rh_ssrc h = ntohl (word_of_le (take 4 (drop 8 (mbuf_left mb))))"
    "\<And>mb2. mbuf_wf mb2 \<Longrightarrow> n \<le> length (mbuf_left mb2) \<Longrightarrow> take n (mbuf_left mb2) = take n (mbuf_left mb) \<Longrightarrow>
       rtp_hdr_decode old mb2 = (0, h, mbuf_skip mb2 n)"
proof -
  have len: "12 \<le> length (mbuf_left mb)"
    using d wf by (auto simp: rtp_hdr_decode_def mbuf_rd RTP_HEADER_SIZE_def EBADMSG_def not_less split: if_splits)
  define h1 where "h1 = rtp_fixed old (mbuf_left mb)"
  define k where "k = unat (rh_cc h1)"
  have sh: "rh_seq h1 = ntohs (word_of_le (take 2 (drop 2 (mbuf_left mb))))"
    "rh_ssrc h1 = ntohl (word_of_le (take 4 (drop 8 (mbuf_left mb))))"
    by (simp_all add: h1_def rtp_fixed_def Let_def)
  let ?L = "\<lambda>m. rtp_csrc_loop 0 k h1 (mbuf_skip m 12)"
  have dec: "rtp_hdr_decode old m =
     (if length (mbuf_left m) - 12 < k * 4 then (EBADMSG, h1, mbuf_skip m 12)
      else (case ?L m of (hdr2, mb5) \<Rightarrow> if rh_ext hdr2 then rtp_ext_decode hdr2 mb5 else (0, hdr2, mb5)))"
    if m: "mbuf_wf m" "12 \<le> length (mbuf_left m)" "take 12 (mbuf_left m) = take 12 (mbuf_left mb)" for m
    using rtp_hdr_decode_eq [OF m(1,2)] rtp_fixed_local [OF m(3)] by (simp add: h1_def k_def Let_def)
  have kl: "12 + 4 * k \<le> length (mbuf_left mb)"
    using dec [OF wf len refl] d len by (auto simp: EBADMSG_def split: if_splits)
  then have kl': "4 * k \<le> length (mbuf_left mb) - 12" by simp
  have w: "mbuf_wf (mbuf_skip mb 12)" using mbuf_wf_skip [OF wf len] .
  obtain h2 where h2: "?L mb = (h2, mbuf_skip mb (12 + 4 * k))" "rh_ext h2 = rh_ext h1" "rh_ssrc h2 = rh_ssrc h1" "rh_seq h2 = rh_seq h1"
    using rtp_csrc_loop_local [OF w w, of k 0 h1] kl' by (auto simp: mbuf_left_skip)
  have loop: "?L m = (h2, mbuf_skip m (12 + 4 * k))"
    if m: "mbuf_wf m" "12 + 4 * k \<le> length (mbuf_left m)" "take (12 + 4 * k) (mbuf_left m) = take (12 + 4 * k) (mbuf_left mb)" for m
  proof -
    have "mbuf_wf (mbuf_skip m 12)" using m by (simp add: mbuf_wf_skip)
    moreover have "take (4 * k) (drop 12 (mbuf_left mb)) = take (4 * k) (drop 12 (mbuf_left m))"
      using take_drop_eq [OF m(3), of 12 "4 * k"] by simp
    ultimately show ?thesis
      using rtp_csrc_loop_local [OF w, of "mbuf_skip m 12" k 0 h1] kl' m(2) h2(1) by (auto simp: mbuf_left_skip)
  qed
  show thesis
  proof (cases "rh_ext h1")
    case False
    have r: "rtp_hdr_decode old m = (0, h2, mbuf_skip m (12 + 4 * k))"
      if m: "mbuf_wf m" "12 + 4 * k \<le> length (mbuf_left m)" "take (12 + 4 * k) (mbuf_left m) = take (12 + 4 * k) (mbuf_left mb)" for m
    proof -
      have "\<not> length (mbuf_left m) - 12 < k * 4" using m(2) by simp
      then show ?thesis using dec [OF m(1)] loop [OF m] take_eq_mono [OF m(3), of 12] m(2) False h2(2) by simp
    qed
    show thesis using that [of "12 + 4 * k"] r r [OF wf kl refl] d kl sh h2 by simp
  next
    case True
    let ?m = "mbuf_skip mb (12 + 4 * k)"
    have "rtp_ext_decode h2 ?m = (0, h, mb')"
      using dec [OF wf len refl] loop [OF wf kl refl] kl' len True h2(2) d by (simp add: not_less ac_simps)
    from rtp_ext_decode_local [OF mbuf_wf_skip [OF wf kl] this] obtain n where
      n: "n \<le> length (mbuf_left ?m)" "mb' = mbuf_skip ?m n" "rh_ssrc h = rh_ssrc h2" "rh_seq h = rh_seq h2"
        "\<And>mb2. mbuf_wf mb2 \<Longrightarrow> n \<le> length (mbuf_left mb2) \<Longrightarrow> take n (mbuf_left mb2) = take n (mbuf_left ?m) \<Longrightarrow>
           rtp_ext_decode h2 mb2 = (0, h, mbuf_skip mb2 n)" by blast
    have "rtp_hdr_decode old m = (0, h, mbuf_skip m (12 + 4 * k + n))"
      if m: "mbuf_wf m" "12 + 4 * k + n \<le> length (mbuf_left m)"
        "take (12 + 4 * k + n) (mbuf_left m) = take (12 + 4 * k + n) (mbuf_left mb)" for m
    proof -
      have "take n (mbuf_left (mbuf_skip m (12 + 4 * k))) = take n (mbuf_left ?m)"
        using take_drop_eq [OF m(3), of "12 + 4 * k" n] by (simp add: mbuf_left_skip)
      then have "rtp_ext_decode h2 (mbuf_skip m (12 + 4 * k)) = (0, h, mbuf_skip m (12 + 4 * k + n))"
        using n(5) [of "mbuf_skip m (12 + 4 * k)"] m(1,2) by (simp add: mbuf_wf_skip mbuf_left_skip ac_simps)
      moreover have "\<not> length (mbuf_left m) - 12 < k * 4" using m(2) by simp
      ultimately show ?thesis
        using dec [OF m(1)] loop [OF m(1)] take_eq_mono [OF m(3)] m(2) True h2(2) by simp
    qed
    then show thesis using that [of "12 + 4 * k + n"] n kl sh h2 by (simp add: mbuf_left_skip ac_simps)
  qed
qed

section \<open>What is asked of the cryptographic library\<close>

text \<open>\<open>aad_run\<close>: associated data handed over in several calls.\<close>

fun aad_run :: "('c \<Rightarrow> bytes \<Rightarrow> errno \<times> 'c) \<Rightarrow> 'c \<Rightarrow> bytes list \<Rightarrow> errno \<times> 'c" where
  "aad_run f c [] = (0, c)"
| "aad_run f c (a # as) = (case f c a of (e, c1) \<Rightarrow> case aad_run f c1 as of (e2, c2) \<Rightarrow> (e OR e2, c2))"

definition crypto_ok :: "('k, 'c) crypto \<Rightarrow> bool" where
  "crypto_ok cr \<longleftrightarrow>
     (\<forall>k iv p q c. aes_encr cr (aes_set_iv cr k iv) p = ((0, q), c) \<longrightarrow>
        length q = length p \<and> (\<exists>d. aes_decr cr (aes_set_iv cr k iv) q = ((0, p), d))) \<and>
     (\<forall>k iv as p q c1 c2 t. aad_run (aes_encr_aad cr) (aes_set_iv cr k iv) as = (0, c1) \<longrightarrow>
        aes_encr cr c1 p = ((0, q), c2) \<longrightarrow> aes_get_authtag cr c2 GCM_TAGLEN = Inr t \<longrightarrow>
        length q = length p \<and> length t = GCM_TAGLEN \<and>
        (\<exists>d1 d2. aad_run (aes_decr_aad cr) (aes_set_iv cr k iv) as = (0, d1) \<and>
           aes_decr cr d1 q = ((0, p), d2) \<and> aes_authenticate cr d2 t = 0)) \<and>
     (\<forall>k d t. hmac_digest cr k d = Inr t \<longrightarrow> length t = SHA_DIGEST_LENGTH) \<and>
     (\<forall>m k. aes_alloc cr m k \<noteq> Inl 0 \<and> hmac_create cr k \<noteq> Inl 0) \<and>
     (\<forall>c n. aes_get_authtag cr c n \<noteq> Inl 0) \<and> (\<forall>k d. hmac_digest cr k d \<noteq> Inl 0)"

lemma crypto_ctr:
  assumes "crypto_ok cr" "aes_encr cr (aes_set_iv cr k iv) p = ((0, q), c)"
  shows "length q = length p" "\<exists>d. aes_decr cr (aes_set_iv cr k iv) q = ((0, p), d)"
  using conjunct1 [OF assms(1) [unfolded crypto_ok_def]] assms(2) by blast+

lemma crypto_gcm:
  assumes "crypto_ok cr" "aad_run (aes_encr_aad cr) (aes_set_iv cr k iv) as = (0, c1)"
    "aes_encr cr c1 p = ((0, q), c2)" "aes_get_authtag cr c2 GCM_TAGLEN = Inr t"
  shows "length q = length p" "length t = GCM_TAGLEN"
    "\<exists>d1 d2. aad_run (aes_decr_aad cr) (aes_set_iv cr k iv) as = (0, d1) \<and>
           aes_decr cr d1 q = ((0, p), d2) \<and> aes_authenticate cr d2 t = 0"
  using conjunct1 [OF conjunct2 [OF assms(1) [unfolded crypto_ok_def]]] assms(2-) by blast+

lemma crypto_fails: "crypto_ok cr \<Longrightarrow> aes_get_authtag cr c n \<noteq> Inl 0" "crypto_ok cr \<Longrightarrow> hmac_digest cr k d \<noteq> Inl 0"
  unfolding crypto_ok_def by blast+

lemma crypto_hmac: "crypto_ok cr \<Longrightarrow> hmac_digest cr k d = Inr t \<Longrightarrow> length t = 20"
  unfolding crypto_ok_def SHA_DIGEST_LENGTH_def by blast

text \<open>The configurations a session can have: counter mode with an HMAC tag, or GCM without.\<close>

definition comp_ok :: "'k comp \<Rightarrow> bool" where
  "comp_ok c \<longleftrightarrow> (c_mode c = AES_MODE_CTR \<and> c_hmac c \<noteq> None \<and> 4 \<le> c_tag_len c \<and> c_tag_len c \<le> 20) \<or>
     (c_mode c = AES_MODE_GCM \<and> c_hmac c = None \<and> c_tag_len c = 0)"

lemma comp_init_ok:
  assumes "crypto_ok cr" "comp_init cr comp_zero offs key s tag_len encrypted hash mode = (0, c)"
  shows "c_mode c = mode \<and> c_tag_len c = tag_len \<and> (c_aes c \<noteq> None \<longleftrightarrow> encrypted) \<and> (c_hmac c \<noteq> None \<longleftrightarrow> hash)"
proof -
  have "aes_alloc cr mode k \<noteq> Inl 0" "hmac_create cr k \<noteq> Inl 0" for k
    using assms(1) unfolding crypto_ok_def by blast+
  then show ?thesis using assms(2)
    by (auto simp: comp_init_def comp_zero_def Let_def EINVAL_def split: if_splits sum.splits)
qed

section \<open>Packet index and initialisation vector\<close>

text \<open>\<open>srtp_ix\<close>: the index the receiver derives once it has settled on a roll-over counter.\<close>

definition srtp_ix :: "u32 \<Rightarrow> u16 \<Rightarrow> u64" where
  "srtp_ix roc seq = ucast seq + of_int (sint roc) * 65536"

text \<open>The roll-over step: a sequence number that lies 32768 or more behind starts a new cycle.\<close>

definition roll_over :: "u16 \<Rightarrow> srtp_stream \<Rightarrow> srtp_stream" where
  "roll_over seq strm = (if seq_diff (st_s_l strm) seq \<le> -32768
     then strm\<lparr>st_roc := st_roc strm + 1, st_s_l := 0\<rparr> else strm)"

lemma roll_over_simps [simp]:
  "st_ssrc (roll_over seq strm) = st_ssrc strm" "st_replay_rtp (roll_over seq strm) = st_replay_rtp strm"
  "st_s_l_set (roll_over seq strm) = st_s_l_set strm"
  by (simp_all add: roll_over_def)

lemma unat_u16: "unat w < 65536" for w :: u16
  using unsigned_less [of w] by simp

lemma srtp_get_index_settled:
  assumes "seq_diff (st_s_l strm) seq \<le> 32768"
  shows "srtp_get_index (st_roc (roll_over seq strm)) (st_s_l (roll_over seq strm)) seq =
    srtp_ix (st_roc (roll_over seq strm)) seq"
proof -
  define s where "s = roll_over seq strm"
  have l: "int (unat seq) - int (unat (st_s_l s)) \<le> 32768" "int (unat (st_s_l s)) - 32768 \<le> int (unat seq)"
    using assms unat_u16 [of "st_s_l strm"]
    by (auto simp: s_def roll_over_def seq_diff_def simp del: of_nat_unat)
  show ?thesis using l by (simp add: srtp_get_index_def srtp_ix_def s_def [symmetric] Let_def not_less)
qed

lemma bit_srtp_ix: "bit (ucast seq + push_bit 16 x :: u64) n \<longleftrightarrow>
    (if n < 16 then bit seq n else n < 64 \<and> bit x (n - 16))" for seq :: u16 and x :: u64
proof -
  have "ucast seq AND push_bit 16 x = (0 :: u64)"
    by (rule bit_word_eqI) (auto simp: bit_and_iff bit_push_bit_iff bit_ucast_iff dest: bit_imp_le_length)
  then have "ucast seq + push_bit 16 x = ucast seq OR push_bit 16 x"
    by (rule disjunctive_add_eq_or)
  then show ?thesis
    by (auto simp: bit_or_iff bit_push_bit_iff bit_ucast_iff dest: bit_imp_le_length)
qed

text \<open>Both vectors use the low 48 bits of the index only: 32 bits of counter and 16 of sequence
  number, so that the sign extension in the receiver's index does not reach them.\<close>

lemma srtp_iv_calc_gcm_parts:
  fixes ix :: u64
  shows "(ucast (drop_bit 32 ix AND 0xffff) :: u16) = ucast (drop_bit 16 (ucast (drop_bit 16 ix) :: u32))"
    "(ucast (drop_bit 16 ix AND 0xffff) :: u16) = ucast (ucast (drop_bit 16 ix) :: u32)"
    "(ucast (ix AND 0xffff) :: u16) = ucast ix"
  by (rule bit_word_eqI; auto simp: bit_ucast_iff bit_drop_bit_eq and_masks bit_take_bit_iff ac_simps
      dest: bit_imp_le_length)+

lemma srtp_iv_local:
  assumes "(ucast (drop_bit 16 ix) :: u32) = ucast (drop_bit 16 ix')" "(ucast ix :: u16) = ucast ix'"
  shows "srtp_iv_calc k_s ssrc ix = srtp_iv_calc k_s ssrc ix'"
    "srtp_iv_calc_gcm k_s ssrc ix = srtp_iv_calc_gcm k_s ssrc ix'"
proof -
  show "srtp_iv_calc k_s ssrc ix = srtp_iv_calc k_s ssrc ix'"
    unfolding srtp_iv_calc_def assms by (rule refl)
  have "(ucast (drop_bit 32 ix AND 0xffff) :: u16) = ucast (drop_bit 32 ix' AND 0xffff)"
    "(ucast (drop_bit 16 ix AND 0xffff) :: u16) = ucast (drop_bit 16 ix' AND 0xffff)"
    "(ucast (ix AND 0xffff) :: u16) = ucast (ix' AND 0xffff)"
    unfolding srtp_iv_calc_gcm_parts(1,2) srtp_iv_calc_gcm_parts(3) [of ix] srtp_iv_calc_gcm_parts(3) [of ix'] assms
    by (rule refl)+
  then show "srtp_iv_calc_gcm k_s ssrc ix = srtp_iv_calc_gcm k_s ssrc ix'"
    unfolding srtp_iv_calc_gcm_def by (simp only:)
qed

lemma ix_parts:
  fixes seq :: u16 and x :: u64
  shows "(ucast (drop_bit 16 (ucast seq + push_bit 16 x :: u64)) :: u32) = ucast x"
    "(ucast (ucast seq + push_bit 16 x :: u64) :: u16) = seq"
  by (rule bit_word_eqI, auto simp: bit_ucast_iff bit_drop_bit_eq bit_srtp_ix dest: bit_imp_le_length)+

lemma srtp_iv_sender_receiver:
  "srtp_iv_calc k_s ssrc (65536 * ucast roc + ucast seq) = srtp_iv_calc k_s ssrc (srtp_ix roc seq)"
  "srtp_iv_calc_gcm k_s ssrc (65536 * ucast roc + ucast seq) = srtp_iv_calc_gcm k_s ssrc (srtp_ix roc seq)"
proof -
  have a: "65536 * ucast roc + ucast seq = (ucast seq + push_bit 16 (ucast roc) :: u64)"
    by (simp add: push_bit_eq_mult)
  have b: "srtp_ix roc seq = (ucast seq + push_bit 16 (scast roc) :: u64)"
    by (simp add: srtp_ix_def push_bit_eq_mult)
  have c: "(ucast (ucast roc :: u64) :: u32) = ucast (scast roc :: u64)"
    by (rule bit_word_eqI) (auto simp: bit_ucast_iff bit_signed_iff)
  show "srtp_iv_calc k_s ssrc (65536 * ucast roc + ucast seq) = srtp_iv_calc k_s ssrc (srtp_ix roc seq)"
    "srtp_iv_calc_gcm k_s ssrc (65536 * ucast roc + ucast seq) = srtp_iv_calc_gcm k_s ssrc (srtp_ix roc seq)"
    unfolding a b by (rule srtp_iv_local; simp only: ix_parts c)+
qed

section \<open>Protect and unprotect\<close>

lemma srtp_encr_ctr_ok:
  assumes cr: "crypto_ok cr" and mb: "mb_at mb (H @ P) (length H)" and e: "srtp_encr_ctr cr k iv mb = (0, mb')"
  obtains Q d where "length Q = length P" "mb_at mb' (H @ Q) (length H)"
    "aes_decr cr (aes_set_iv cr k iv) Q = ((0, P), d)"
proof -
  obtain err Q c where f: "aes_encr cr (aes_set_iv cr k iv) P = ((err, Q), c)" by (metis surj_pair)
  have l: "mbuf_get_left mb = length P" using mb_atD(7) [OF mb] by simp
  have t: "take (length P) (drop (mb_pos mb) (mbuf_bytes mb)) = P"
    using mb_at_bytes [OF mb, of "length H" "length P"] mb_atD(4) [OF mb] by simp
  have "err = 0" using e f by (simp add: srtp_encr_ctr_def mbuf_crypt_def l t)
  with f have f: "aes_encr cr (aes_set_iv cr k iv) P = ((0, Q), c)" by simp
  note c = crypto_ctr [OF cr f]
  from mb_at_crypt [of mb H P "[]" _ "aes_encr cr (aes_set_iv cr k iv)", OF _ refl f c(1) refl] mb
  obtain mb1 where "mbuf_crypt (aes_encr cr (aes_set_iv cr k iv)) mb (length P) = (0, mb1, c)"
    "mb_at mb1 (H @ Q) (length H)" by auto
  then show thesis using that c e l by (auto simp: srtp_encr_ctr_def)
qed

lemma srtp_decr_ctr_ok:
  assumes "mb_at mb (H @ Q) (length H)" "aes_decr cr (aes_set_iv cr k iv) Q = ((0, P), d)" "length Q = length P"
  shows "\<exists>mb'. srtp_decr_ctr cr k iv mb = (0, mb') \<and> mb_at mb' (H @ P) (length H)"
proof -
  have l: "mbuf_get_left mb = length Q" using mb_atD(7) [OF assms(1)] by simp
  from mb_at_crypt [of mb H Q "[]" _ "aes_decr cr (aes_set_iv cr k iv)", OF _ refl assms(2) assms(3) [symmetric] refl] assms(1)
  show ?thesis by (auto simp: srtp_decr_ctr_def l)
qed

lemma srtp_encr_gcm_ok:
  assumes cr: "crypto_ok cr" and mb: "mb_at mb (H0 @ Hd @ P) (length H0 + length Hd)"
    and e: "srtp_encr_gcm al cr k iv (length H0) mb = (0, mb')"
  obtains Q t d1 d2 where "length Q = length P" "length t = GCM_TAGLEN"
    "mb_at mb' (H0 @ Hd @ Q @ t) (length H0 + length Hd + length Q + length t)"
    "aad_run (aes_decr_aad cr) (aes_set_iv cr k iv) [Hd] = (0, d1)"
    "aes_decr cr d1 Q = ((0, P), d2)" "aes_authenticate cr d2 t = 0"
proof -
  note m = mb_atD [OF mb]
  have hd: "take (mb_pos mb - length H0) (drop (length H0) (mbuf_bytes mb)) = Hd"
    using mb_at_bytes [OF mb, of "length H0" "length Hd"] m(4) by simp
  obtain err c where a: "aes_encr_aad cr (aes_set_iv cr k iv) Hd = (err, c)" by fastforce
  then have aad: "aad_run (aes_encr_aad cr) (aes_set_iv cr k iv) [Hd] = (err, c)" by simp
  have z: "err = 0" using e by (simp add: srtp_encr_gcm_def hd a split: if_splits)
  obtain err2 Q c2 where f: "aes_encr cr c P = ((err2, Q), c2)" by (metis surj_pair)
  have l: "mbuf_get_left mb = length P" using m(7) by simp
  have t: "take (length P) (drop (mb_pos mb) (mbuf_bytes mb)) = P"
    using mb_at_bytes [OF mb, of "length H0 + length Hd" "length P"] m(4) by simp
  have z2: "err2 = 0" using e by (simp add: srtp_encr_gcm_def hd a z mbuf_crypt_def l t f split: if_splits)
  have f: "aes_encr cr c P = ((0, Q), c2)" using f z2 by simp
  obtain mb1 where w: "mbuf_crypt (aes_encr cr c) mb (length P) = (0, mb1, c2)" 
    using f by (simp add: mbuf_crypt_def t)
  obtain tg where tg: "aes_get_authtag cr c2 GCM_TAGLEN = Inr tg"
    using e w crypto_fails(1) [OF cr, of c2 GCM_TAGLEN]
    by (auto simp: srtp_encr_gcm_def hd a z l f split: sum.splits)
  note g = crypto_gcm [OF cr aad [unfolded z] f tg]
  have mb1: "mb_at mb1 ((H0 @ Hd) @ Q) (length H0 + length Hd)"
    using mb_at_crypt [of mb "H0 @ Hd" P "[]" _ "aes_encr cr c", OF _ _ f g(1) refl] mb w by auto
  have "mb_at (mb1\<lparr>mb_pos := mb_end mb1\<rparr>) ((H0 @ Hd) @ Q) (length ((H0 @ Hd) @ Q))"
    using mb_at_pos [OF mb1] mb_atD(3) [OF mb1] by simp
  moreover have "mbuf_write_mem al (mb1\<lparr>mb_pos := mb_end mb1\<rparr>) (Some tg) = (0, mb')"
    using e w tg by (simp add: srtp_encr_gcm_def hd a z l)
  moreover have "length tg < 2 ^ 32" using g(2) by (simp add: GCM_TAGLEN_def)
  ultimately have "mb_at mb' (((H0 @ Hd) @ Q) @ tg) (length ((H0 @ Hd) @ Q) + length tg)" by (rule mb_at_append)
  then have "mb_at mb' (H0 @ Hd @ Q @ tg) (length H0 + length Hd + length Q + length tg)" by (simp add: add.assoc)
  then show thesis using that [OF g(1,2)] g(3) by blast
qed

lemma srtp_decr_gcm_ok:
  assumes mb: "mb_at mb (H0 @ Hd @ Q @ t) (length H0 + length Hd)" and len: "length t = GCM_TAGLEN" "length Q = length P"
    and a: "aad_run (aes_decr_aad cr) (aes_set_iv cr k iv) [Hd] = (0, d1)"
    and d: "aes_decr cr d1 Q = ((0, P), d2)" and au: "aes_authenticate cr d2 t = 0"
    and rp: "srtp_replay_check (st_replay_rtp strm) ix = (True, r)"
  shows "\<exists>mb'. srtp_decr_gcm cr k iv (length H0) ix strm mb = (0, strm\<lparr>st_replay_rtp := r\<rparr>, mb') \<and>
    mb_at mb' (H0 @ Hd @ P) (length H0 + length Hd)"
proof -
  note m = mb_atD [OF mb]
  have hd: "take (length Hd) (drop (length H0) (mbuf_bytes mb)) = Hd"
    using mb_at_bytes [OF mb, of "length H0" "length Hd"] by simp
  have a: "aes_decr_aad cr (aes_set_iv cr k iv) Hd = (0, d1)" using a by (simp split: prod.splits)
  have ts: "mb_end mb - GCM_TAGLEN = length H0 + length Hd + length Q" "\<not> mbuf_get_left mb < GCM_TAGLEN"
    using m(3,7) len by simp_all
  obtain mb1 where w: "mbuf_crypt (aes_decr cr d1) mb (length Q) = (0, mb1, d2)"
      "mb_at mb1 ((H0 @ Hd) @ P @ t) (length H0 + length Hd)"
    using mb_at_crypt [of mb "H0 @ Hd" Q t _ "aes_decr cr d1", OF _ _ d len(2) [symmetric] refl] mb by auto
  have tg: "take GCM_TAGLEN (drop (length H0 + length Hd + length Q) (mbuf_bytes mb1)) = t"
    using mb_at_bytes [OF w(2), of "length H0 + length Hd + length Q" GCM_TAGLEN] len by simp
  have "mb_at (mb1\<lparr>mb_end := length H0 + length Hd + length Q\<rparr>) ((H0 @ Hd) @ P) (length H0 + length Hd)"
    using mb_at_end [of mb1 "(H0 @ Hd) @ P" t "length H0 + length Hd" "length H0 + length Hd + length Q"]
      w(2) len(2) by (simp add: add.assoc)
  then show ?thesis using w(1) rp au
    by (simp add: srtp_decr_gcm_def hd a ts m(4) Let_def tg)
qed

lemma srtp_encr_auth_ok:
  assumes cr: "crypto_ok cr" and mb: "mb_at mb (H0 @ X) n" and tn: "tn \<le> 20"
    and e: "srtp_encr_auth al cr k tn roc (length H0) mb = (0, mb')"
  obtains tag where "hmac_digest cr k (X @ be32 roc) = Inr tag" "length tag = 20"
    "mb_at mb' (H0 @ X @ take tn tag) (length H0 + length X + tn)"
proof -
  note m = mb_atD [OF mb]
  let ?n = "length H0 + length X"
  have en: "mb_end mb = ?n" using m(3) by simp
  obtain mb1 where w1: "mbuf_write_mem al (mb\<lparr>mb_pos := ?n\<rparr>) (Some (be32 roc)) = (0, mb1)"
    using e by (auto simp: srtp_encr_auth_def mbuf_write_u32_def en Let_def split: prod.splits if_splits)
  have "mb_at (mb\<lparr>mb_pos := ?n\<rparr>) (H0 @ X) (length (H0 @ X))" using mb_at_pos [OF mb, of ?n] by simp
  from mb_at_append [OF this w1] have m1: "mb_at mb1 (H0 @ X @ be32 roc) (?n + 4)" by (simp add: ac_simps)
  have m2: "mb_at (mb1\<lparr>mb_pos := length H0\<rparr>) (H0 @ X @ be32 roc) (length H0)" using mb_at_pos [OF m1] by simp
  have l2: "mbuf_left (mb1\<lparr>mb_pos := length H0\<rparr>) = X @ be32 roc" using mb_atD(6) [OF m2] by simp
  obtain tag where tag: "hmac_digest cr k (X @ be32 roc) = Inr tag"
    using e w1 crypto_fails(2) [OF cr, of k "X @ be32 roc"]
    by (auto simp: srtp_encr_auth_def mbuf_write_u32_def en Let_def l2 split: sum.splits)
  have tlen: "length tag = 20" by (rule crypto_hmac [OF cr tag])
  have "mb_at (mb1\<lparr>mb_pos := ?n, mb_end := ?n\<rparr>) (H0 @ X) (length (H0 @ X))"
    using mb_at_pos_end [of mb1 "H0 @ X" "be32 roc" _ ?n ?n] m1 by simp
  moreover have "mbuf_write_mem al (mb1\<lparr>mb_pos := ?n, mb_end := ?n\<rparr>) (Some (take tn tag)) = (0, mb')"
    using e w1 tag by (simp add: srtp_encr_auth_def mbuf_write_u32_def en Let_def l2)
  moreover have "length (take tn tag) < 2 ^ 32" using tn tlen by simp
  ultimately have "mb_at mb' ((H0 @ X) @ take tn tag) (length (H0 @ X) + length (take tn tag))" by (rule mb_at_append)
  then show thesis using that [OF tag tlen] tn tlen by simp
qed

lemma srtp_decr_auth_eval:
  assumes mb: "mb_at mb (H0 @ Hd @ Q @ t) (length H0 + length Hd)" and t: "length t = tn" "4 \<le> tn"
  obtains mb' mb'' where "mb_at mb' (H0 @ Hd @ Q) (length H0 + length Hd)"
    "srtp_decr_auth al cr k tn (length H0) ix strm mb =
       (case hmac_digest cr k (Hd @ Q @ be32 (st_roc strm)) of Inl e \<Rightarrow> (e, strm, mb'') | Inr tag \<Rightarrow>
        if take tn tag \<noteq> t then (EAUTH, strm, mb')
        else case srtp_replay_check (st_replay_rtp strm) ix of (ok, r) \<Rightarrow>
          (if ok then 0 else EALREADY, strm\<lparr>st_replay_rtp := r\<rparr>, mb'))"
proof -
  note m = mb_atD [OF mb]
  let ?n = "length H0 + length Hd + length Q"
  have en: "mb_end mb - tn = ?n" "\<not> mbuf_get_left mb < tn" using m(3,7) t by simp_all
  have m1: "mb_at (mb\<lparr>mb_pos := ?n\<rparr>) (H0 @ Hd @ Q @ t) ?n" using mb_at_pos [OF mb, of ?n] by simp
  have r: "mbuf_read_mem (mb\<lparr>mb_pos := ?n\<rparr>) tn = Inr (t, mbuf_skip (mb\<lparr>mb_pos := ?n\<rparr>) tn)"
    using mb_atD(2,6) [OF m1] t(1) by (simp add: mbuf_read_mem_rd)
  have s: "(mbuf_skip (mb\<lparr>mb_pos := ?n\<rparr>) tn)\<lparr>mb_pos := ?n, mb_end := ?n\<rparr> = mb\<lparr>mb_pos := ?n, mb_end := ?n\<rparr>"
    by (simp add: mbuf_skip_def)
  have m2: "mb_at (mb\<lparr>mb_pos := ?n, mb_end := ?n\<rparr>) (H0 @ Hd @ Q) (length (H0 @ Hd @ Q))"
    using mb_at_pos_end [of mb "H0 @ Hd @ Q" t _ ?n ?n] mb by (simp add: ac_simps)
  have sz: "length (H0 @ Hd @ Q) + length (be32 (st_roc strm)) \<le> mb_size (mb\<lparr>mb_pos := ?n, mb_end := ?n\<rparr>)"
    using m(3,8) t by simp
  obtain mb3 where w: "mbuf_write_mem al (mb\<lparr>mb_pos := ?n, mb_end := ?n\<rparr>) (Some (be32 (st_roc strm))) = (0, mb3)"
      "mb_at mb3 ((H0 @ Hd @ Q) @ be32 (st_roc strm)) (length (H0 @ Hd @ Q) + length (be32 (st_roc strm)))"
    by (rule mb_at_append_room [OF m2 sz, of al]) simp_all
  have m4: "mb_at (mb3\<lparr>mb_pos := length H0\<rparr>) (H0 @ Hd @ Q @ be32 (st_roc strm)) (length H0)"
    using mb_at_pos [OF w(2), of "length H0"] by simp
  have l4: "mbuf_left (mb3\<lparr>mb_pos := length H0\<rparr>) = Hd @ Q @ be32 (st_roc strm)" using mb_atD(6) [OF m4] by simp
  have m5: "mb_at (mb3\<lparr>mb_pos := length H0 + length Hd, mb_end := ?n\<rparr>) (H0 @ Hd @ Q) (length H0 + length Hd)"
    using mb_at_pos_end [of mb3 "H0 @ Hd @ Q" "be32 (st_roc strm)" _ ?n "length H0 + length Hd"] w(2) by (simp add: ac_simps)
  have "srtp_decr_auth al cr k tn (length H0) ix strm mb =
       (case hmac_digest cr k (Hd @ Q @ be32 (st_roc strm)) of Inl e \<Rightarrow> (e, strm, mb3\<lparr>mb_pos := length H0\<rparr>) | Inr tag \<Rightarrow>
        if take tn tag \<noteq> t then (EAUTH, strm, mb3\<lparr>mb_pos := length H0 + length Hd, mb_end := ?n\<rparr>)
        else case srtp_replay_check (st_replay_rtp strm) ix of (ok, r) \<Rightarrow>
          (if ok then 0 else EALREADY, strm\<lparr>st_replay_rtp := r\<rparr>, mb3\<lparr>mb_pos := length H0 + length Hd, mb_end := ?n\<rparr>))"
    unfolding srtp_decr_auth_def mbuf_write_u32_def Let_def
    by (simp add: en r s w(1) l4 m(4) split: sum.split)
  then show thesis by (rule that [OF m5])
qed

text \<open>The cryptographic part of \<open>srtp_encrypt\<close> and of \<open>srtp_decrypt\<close>, on a packet whose header
  is read and whose stream is known.\<close>

definition srtp_protect ::
  "malloc_env \<Rightarrow> ('k, 'c) crypto \<Rightarrow> 'k comp \<Rightarrow> u32 \<Rightarrow> u32 \<Rightarrow> u64 \<Rightarrow> nat \<Rightarrow> mbuf \<Rightarrow> errno \<times> mbuf" where
  "srtp_protect al cr cm ssrc roc ix start mb =
     (case (case (c_aes cm, c_mode cm) of
              (Some aes, AES_MODE_CTR) \<Rightarrow> srtp_encr_ctr cr aes (srtp_iv_calc (c_k_s cm) ssrc ix) mb
            | (Some aes, AES_MODE_GCM) \<Rightarrow> srtp_encr_gcm al cr aes (srtp_iv_calc_gcm (c_k_s cm) ssrc ix) start mb
            | (None, _) \<Rightarrow> (0, mb)) of (err, mb2) \<Rightarrow>
        if err \<noteq> 0 then (err, mb2)
        else case c_hmac cm of None \<Rightarrow> (0, mb2)
             | Some hmac \<Rightarrow> srtp_encr_auth al cr hmac (c_tag_len cm) roc start mb2)"

definition srtp_unprotect ::
  "malloc_env \<Rightarrow> ('k, 'c) crypto \<Rightarrow> 'k comp \<Rightarrow> nat \<Rightarrow> u64 \<Rightarrow> srtp_stream \<Rightarrow> mbuf \<Rightarrow> errno \<times> srtp_stream \<times> mbuf" where
  "srtp_unprotect al cr cm start ix strm mb =
     (case (case c_hmac cm of None \<Rightarrow> (0, strm, mb)
            | Some hmac \<Rightarrow> srtp_decr_auth al cr hmac (c_tag_len cm) start ix strm mb) of (err, strm2, mb2) \<Rightarrow>
        if err \<noteq> 0 then (err, strm2, mb2)
        else case (c_aes cm, c_mode cm) of
               (Some aes, AES_MODE_CTR) \<Rightarrow>
                  (case srtp_decr_ctr cr aes (srtp_iv_calc (c_k_s cm) (st_ssrc strm2) ix) mb2 of
                     (err, mb3) \<Rightarrow> (err, strm2, mb3))
             | (Some aes, AES_MODE_GCM) \<Rightarrow>
                  srtp_decr_gcm cr aes (srtp_iv_calc_gcm (c_k_s cm) (st_ssrc strm2) ix) start ix strm2 mb2
             | (None, _) \<Rightarrow> (0, strm2, mb2))"

definition seq_top :: "u16 \<Rightarrow> srtp_stream \<Rightarrow> srtp_stream" where
  "seq_top seq strm = (if seq > st_s_l strm then strm\<lparr>st_s_l := seq\<rparr> else strm)"

lemma seq_top_simps [simp]:
  "st_ssrc (seq_top seq strm) = st_ssrc strm" "st_roc (seq_top seq strm) = st_roc strm"
  "st_replay_rtp (seq_top seq strm) = st_replay_rtp strm" "st_s_l_set (seq_top seq strm) = st_s_l_set strm"
  by (simp_all add: seq_top_def)

lemma srtp_encrypt_eq:
  assumes "rtp_hdr_decode rtp_zero mb = (0, h, mbh)" "stream_get_seq al srtp (rh_ssrc h) (rh_seq h) = Inr (strm, srtp1)"
  shows "srtp_encrypt al cr srtp mb =
    (let strm1 = roll_over (rh_seq h) strm; srtp2 = stream_put srtp1 strm1 in
     case srtp_protect al cr (sr_rtp srtp) (st_ssrc strm) (st_roc strm1)
            (65536 * ucast (st_roc strm1) + ucast (rh_seq h)) (mb_pos mb) mbh of (err, mb3) \<Rightarrow>
       if err \<noteq> 0 then (err, srtp2, mb3)
       else (0, stream_put srtp2 (seq_top (rh_seq h) strm1), mb3\<lparr>mb_pos := mb_pos mb\<rparr>))"
proof -
  have r: "(if seq_diff (st_s_l strm) (rh_seq h) \<le> - 32768 then strm\<lparr>st_roc := st_roc strm + 1, st_s_l := 0\<rparr> else strm) =
    roll_over (rh_seq h) strm" by (simp add: roll_over_def)
  show ?thesis
    unfolding srtp_encrypt_def srtp_protect_def Let_def assms prod.case sum.case seq_top_def r roll_over_simps
    by (simp split: prod.splits)
qed

lemma srtp_decrypt_eq:
  assumes "rtp_hdr_decode rtp_zero mb = (0, h, mbh)" "stream_get_seq al srtp (rh_ssrc h) (rh_seq h) = Inr (strm, srtp1)"
  shows "srtp_decrypt al cr srtp mb =
    (if seq_diff (st_s_l strm) (rh_seq h) > 32768 then (ETIMEDOUT, srtp1, mbh)
     else
       let strm1 = roll_over (rh_seq h) strm in
       case srtp_unprotect al cr (sr_rtp srtp) (mb_pos mb) (srtp_ix (st_roc strm1) (rh_seq h)) strm1 mbh of
         (err, strm3, mb3) \<Rightarrow>
         if err \<noteq> 0 then (err, stream_put srtp1 strm3, mb3)
         else (0, stream_put srtp1 (seq_top (rh_seq h) strm3), mb3\<lparr>mb_pos := mb_pos mb\<rparr>))"
proof (cases "seq_diff (st_s_l strm) (rh_seq h) > 32768")
  case True
  then show ?thesis by (simp add: srtp_decrypt_def assms)
next
  case False
  have r: "(if seq_diff (st_s_l strm) (rh_seq h) \<le> - 32768 then strm\<lparr>st_roc := st_roc strm + 1, st_s_l := 0\<rparr> else strm) =
    roll_over (rh_seq h) strm" by (simp add: roll_over_def)
  have i: "srtp_get_index (st_roc (roll_over (rh_seq h) strm)) (st_s_l (roll_over (rh_seq h) strm)) (rh_seq h) =
      srtp_ix (st_roc (roll_over (rh_seq h) strm)) (rh_seq h)"
    using False by (intro srtp_get_index_settled) simp
  from False show ?thesis
    unfolding srtp_decrypt_def srtp_unprotect_def Let_def assms prod.case sum.case seq_top_def r i
    by (simp split: prod.splits)
qed

lemma srtp_protect_unprotect:
  assumes cr: "crypto_ok cr" and co: "comp_ok cm" "c_aes cm \<noteq> None"
    and mb: "mb_at mb (H0 @ Hd @ P) (length H0 + length Hd)"
    and p: "srtp_protect al cr cm ssrc roc (65536 * ucast roc + ucast seq) (length H0) mb = (0, mb')"
  obtains Y n where "mb_at mb' (H0 @ Hd @ Y) n"
    "\<And>rmb R0 strm r. mb_at rmb (R0 @ Hd @ Y) (length R0 + length Hd) \<Longrightarrow> st_roc strm = roc \<Longrightarrow> st_ssrc strm = ssrc \<Longrightarrow>
       srtp_replay_check (st_replay_rtp strm) (srtp_ix roc seq) = (True, r) \<Longrightarrow>
       \<exists>mb2. srtp_unprotect al' cr cm (length R0) (srtp_ix roc seq) strm rmb =
               (0, strm\<lparr>st_replay_rtp := r\<rparr>, mb2) \<and> mb_at mb2 (R0 @ Hd @ P) (length R0 + length Hd)"
proof (cases "c_mode cm")
  case AES_MODE_CTR
  let ?iv = "srtp_iv_calc (c_k_s cm) ssrc (srtp_ix roc seq)"
  obtain k where k: "c_hmac cm = Some k" "4 \<le> c_tag_len cm" "c_tag_len cm \<le> 20"
    using co(1) AES_MODE_CTR by (auto simp: comp_ok_def)
  define mb2 where "mb2 = (case c_aes cm of Some aes \<Rightarrow> snd (srtp_encr_ctr cr aes ?iv mb) | None \<Rightarrow> mb)"
  have p2: "srtp_encr_auth al cr k (c_tag_len cm) roc (length H0) mb2 = (0, mb')"
    and e2: "\<And>aes. c_aes cm = Some aes \<Longrightarrow> srtp_encr_ctr cr aes ?iv mb = (0, mb2)"
    using p by (auto simp: srtp_protect_def AES_MODE_CTR k mb2_def srtp_iv_sender_receiver
        split: option.splits prod.splits if_splits)
  have "\<exists>Q. mb_at mb2 (H0 @ Hd @ Q) (length H0 + length Hd) \<and>
      (\<forall>rmb R0. mb_at rmb (R0 @ Hd @ Q) (length R0 + length Hd) \<longrightarrow>
        (\<exists>mb3. (case c_aes cm of Some aes \<Rightarrow> srtp_decr_ctr cr aes ?iv rmb | None \<Rightarrow> (0, rmb)) = (0, mb3) \<and>
               mb_at mb3 (R0 @ Hd @ P) (length R0 + length Hd)))"
  proof (cases "c_aes cm")
    case None
    then show ?thesis using mb by (auto simp: mb2_def)
  next
    case (Some aes)
    from srtp_encr_ctr_ok [OF cr _ e2 [OF Some], of "H0 @ Hd" P] mb obtain Q d where
      Q: "length Q = length P" "mb_at mb2 (H0 @ Hd @ Q) (length H0 + length Hd)"
        "aes_decr cr (aes_set_iv cr aes ?iv) Q = ((0, P), d)" by auto
    have "\<exists>mb3. srtp_decr_ctr cr aes ?iv rmb = (0, mb3) \<and> mb_at mb3 (R0 @ Hd @ P) (length R0 + length Hd)"
      if "mb_at rmb (R0 @ Hd @ Q) (length R0 + length Hd)" for rmb R0
      using srtp_decr_ctr_ok [of rmb "R0 @ Hd" Q, OF _ Q(3,1)] that by simp
    then show ?thesis using Q(2) Some by auto
  qed
  then obtain Q where Q: "mb_at mb2 (H0 @ Hd @ Q) (length H0 + length Hd)"
    "\<And>rmb R0. mb_at rmb (R0 @ Hd @ Q) (length R0 + length Hd) \<Longrightarrow>
       \<exists>mb3. (case c_aes cm of Some aes \<Rightarrow> srtp_decr_ctr cr aes ?iv rmb | None \<Rightarrow> (0, rmb)) = (0, mb3) \<and>
               mb_at mb3 (R0 @ Hd @ P) (length R0 + length Hd)" by blast
  from srtp_encr_auth_ok [OF cr Q(1) k(3) p2] obtain tag where
    tag: "hmac_digest cr k ((Hd @ Q) @ be32 roc) = Inr tag" "length tag = 20"
      "mb_at mb' (H0 @ (Hd @ Q) @ take (c_tag_len cm) tag) (length H0 + length (Hd @ Q) + c_tag_len cm)" .
  show thesis
  proof (rule that [of "Q @ take (c_tag_len cm) tag"])
    show "mb_at mb' (H0 @ Hd @ Q @ take (c_tag_len cm) tag) (length H0 + length (Hd @ Q) + c_tag_len cm)"
      using tag(3) by simp
    fix rmb R0 and strm :: srtp_stream and r
    assume a: "mb_at rmb (R0 @ Hd @ Q @ take (c_tag_len cm) tag) (length R0 + length Hd)"
      "st_roc strm = roc" "st_ssrc strm = ssrc"
      "srtp_replay_check (st_replay_rtp strm) (srtp_ix roc seq) = (True, r)"
    have l: "length (take (c_tag_len cm) tag) = c_tag_len cm" using k(3) tag(2) by simp
    obtain rmb1 where r1: "mb_at rmb1 (R0 @ Hd @ Q) (length R0 + length Hd)"
      "srtp_decr_auth al' cr k (c_tag_len cm) (length R0) (srtp_ix roc seq) strm rmb = (0, strm\<lparr>st_replay_rtp := r\<rparr>, rmb1)"
      using srtp_decr_auth_eval [OF a(1) l k(2), of al' cr k "srtp_ix roc seq" strm] tag(1) a(2,4) by auto
    from Q(2) [OF r1(1)] obtain mb3 where "(case c_aes cm of Some aes \<Rightarrow> srtp_decr_ctr cr aes ?iv rmb1 | None \<Rightarrow> (0, rmb1)) = (0, mb3)"
      "mb_at mb3 (R0 @ Hd @ P) (length R0 + length Hd)" by blast
    then show "\<exists>mb2. srtp_unprotect al' cr cm (length R0) (srtp_ix roc seq) strm rmb =
               (0, strm\<lparr>st_replay_rtp := r\<rparr>, mb2) \<and> mb_at mb2 (R0 @ Hd @ P) (length R0 + length Hd)"
      using r1(2) a(3) by (auto simp: srtp_unprotect_def k AES_MODE_CTR split: option.splits)
  qed
next
  case AES_MODE_GCM
  let ?iv = "srtp_iv_calc_gcm (c_k_s cm) ssrc (srtp_ix roc seq)"
  have n: "c_hmac cm = None" using co(1) AES_MODE_GCM by (auto simp: comp_ok_def)
  obtain aes where Some: "c_aes cm = Some aes" using co by blast
  have "srtp_encr_gcm al cr aes ?iv (length H0) mb = (0, mb')"
    using p by (auto simp: srtp_protect_def AES_MODE_GCM n Some srtp_iv_sender_receiver split: prod.splits if_splits)
  from srtp_encr_gcm_ok [OF cr mb this] obtain Q t d1 d2 where
    Q: "length Q = length P" "length t = GCM_TAGLEN"
    "mb_at mb' (H0 @ Hd @ Q @ t) (length H0 + length Hd + length Q + length t)"
    "aad_run (aes_decr_aad cr) (aes_set_iv cr aes ?iv) [Hd] = (0, d1)"
    "aes_decr cr d1 Q = ((0, P), d2)" "aes_authenticate cr d2 t = 0" .
  show thesis
  proof (rule that [OF Q(3)])
    fix rmb R0 and strm :: srtp_stream and r
    assume a: "mb_at rmb (R0 @ Hd @ Q @ t) (length R0 + length Hd)" "st_roc strm = roc" "st_ssrc strm = ssrc"
      "srtp_replay_check (st_replay_rtp strm) (srtp_ix roc seq) = (True, r)"
    from srtp_decr_gcm_ok [OF a(1) Q(2,1,4,5,6) a(4)] a(3)
    show "\<exists>mb2. srtp_unprotect al' cr cm (length R0) (srtp_ix roc seq) strm rmb =
             (0, strm\<lparr>st_replay_rtp := r\<rparr>, mb2) \<and> mb_at mb2 (R0 @ Hd @ P) (length R0 + length Hd)"
      by (auto simp: srtp_unprotect_def n AES_MODE_GCM Some)
  qed
qed

section \<open>A session from set-up on\<close>

lemma stream_get_Inl: "stream_get al srtp ssrc = Inl e \<Longrightarrow> e \<noteq> 0"
  by (auto simp: stream_get_def stream_new_def Let_def ENOSR_def ENOMEM_def split: option.splits if_splits)

lemma stream_get_seq_Inl: "stream_get_seq al srtp ssrc seq = Inl e \<Longrightarrow> e \<noteq> 0"
  by (auto simp: stream_get_seq_def Let_def split: sum.splits if_splits dest: stream_get_Inl)

text \<open>\<open>same_session a b\<close>: same keys and configuration, and the stream table stays well formed.\<close>

definition same_session :: "'k srtp \<Rightarrow> 'k srtp \<Rightarrow> bool" where
  "same_session a b \<longleftrightarrow> sr_rtp b = sr_rtp a \<and> sr_rtcp b = sr_rtcp a \<and> (srtp_ok a \<longrightarrow> srtp_ok b)"

lemma same_session_simps [simp]:
  "same_session a a" "same_session a (stream_put b s) = same_session a b"
  by (simp_all add: same_session_def)

lemma same_session_get:
  "stream_get al srtp ssrc = Inr (strm, srtp1) \<Longrightarrow> same_session srtp srtp1"
  "stream_get_seq al srtp ssrc seq = Inr (strm, srtp1) \<Longrightarrow> same_session srtp srtp1"
  using stream_get_ok(4-6) [of al srtp ssrc strm srtp1] stream_get_seq_ok(4-6) [of al srtp ssrc seq strm srtp1]
  by (auto simp: same_session_def)

lemma srtp_decrypt_hdr:
  assumes "srtp_decrypt al cr srtp mb = (0, srtp', mb')"
  obtains h mbh where "rtp_hdr_decode rtp_zero mb = (0, h, mbh)"
proof -
  obtain e h mbh where d: "rtp_hdr_decode rtp_zero mb = (e, h, mbh)" by (metis surj_pair)
  have "srtp_decrypt al cr srtp mb = (e, srtp, mbh)" if "e \<noteq> 0" using that by (simp add: srtp_decrypt_def d)
  then have "e = 0" using assms by auto
  then show thesis using that d by blast
qed

lemma srtp_encrypt_session: "same_session srtp (fst (snd (srtp_encrypt al cr srtp mb)))"
proof -
  obtain e h mbh where d: "rtp_hdr_decode rtp_zero mb = (e, h, mbh)" by (metis surj_pair)
  show ?thesis
  proof (cases "e = 0")
    case e: True
    show ?thesis
    proof (cases "stream_get_seq al srtp (rh_ssrc h) (rh_seq h)")
      case (Inl a)
      then show ?thesis using d e by (simp add: srtp_encrypt_def)
    next
      case (Inr b)
      obtain strm srtp1 where b: "b = (strm, srtp1)" by fastforce
      show ?thesis
        using srtp_encrypt_eq [OF d [unfolded e] Inr [unfolded b], of cr] same_session_get(2) [OF Inr [unfolded b]]
        by (simp add: Let_def split: prod.splits)
    qed
  qed (simp add: srtp_encrypt_def d)
qed

lemma srtp_decrypt_session: "same_session srtp (fst (snd (srtp_decrypt al cr srtp mb)))"
proof -
  obtain e h mbh where d: "rtp_hdr_decode rtp_zero mb = (e, h, mbh)" by (metis surj_pair)
  show ?thesis
  proof (cases "e = 0")
    case e: True
    show ?thesis
    proof (cases "stream_get_seq al srtp (rh_ssrc h) (rh_seq h)")
      case (Inl a)
      then show ?thesis using d e by (simp add: srtp_decrypt_def)
    next
      case (Inr b)
      obtain strm srtp1 where b: "b = (strm, srtp1)" by fastforce
      show ?thesis
        using srtp_decrypt_eq [OF d [unfolded e] Inr [unfolded b], of cr] same_session_get(2) [OF Inr [unfolded b]]
        by (simp add: Let_def split: prod.splits)
    qed
  qed (simp add: srtp_decrypt_def d)
qed

lemma srtcp_session:
  "same_session srtp (fst (snd (srtcp_encrypt al cr srtp mb)))"
  "same_session srtp (fst (snd (srtcp_decrypt al cr srtp mb)))"
proof -
  obtain e ssrc mbh where d: "get_rtcp_ssrc mb = (e, ssrc, mbh)" by (metis surj_pair)
  have *: "same_session srtp (fst (snd (srtcp_encrypt al cr srtp mb))) \<and>
        same_session srtp (fst (snd (srtcp_decrypt al cr srtp mb)))"
  proof (cases "stream_get al srtp ssrc")
    case (Inl a)
    then show ?thesis unfolding srtcp_encrypt_def srtcp_decrypt_def Let_def d prod.case by simp
  next
    case (Inr b)
    obtain strm srtp1 where b: "b = (strm, srtp1)" by fastforce
    have s: "same_session srtp srtp1" using same_session_get(1) [OF Inr [unfolded b]] .
    have "same_session srtp (fst (snd (srtcp_encrypt al cr srtp mb)))"
      unfolding srtcp_encrypt_def Let_def d Inr b prod.case sum.case using s by (simp split: prod.splits)
    moreover have "same_session srtp (fst (snd (srtcp_decrypt al cr srtp mb)))"
      unfolding srtcp_decrypt_def Let_def d Inr b prod.case sum.case using s by (simp split: prod.splits)
    ultimately show ?thesis ..
  qed
  show "same_session srtp (fst (snd (srtcp_encrypt al cr srtp mb)))"
    "same_session srtp (fst (snd (srtcp_decrypt al cr srtp mb)))" using * by blast+
qed

text \<open>The sessions a program can hold: set up by \<open>srtp_alloc\<close>, then changed by packets in any
  order, whatever they contain and whatever the allocator answers.\<close>

inductive srtp_reach :: "('k, 'c) crypto \<Rightarrow> 'k srtp \<Rightarrow> bool" for cr where
  reach_alloc: "srtp_alloc al cr suite key fl = Inr srtp \<Longrightarrow> srtp_reach cr srtp"
| reach_encrypt: "srtp_reach cr srtp \<Longrightarrow> srtp_encrypt al cr srtp mb = (e, srtp', mb') \<Longrightarrow> srtp_reach cr srtp'"
| reach_decrypt: "srtp_reach cr srtp \<Longrightarrow> srtp_decrypt al cr srtp mb = (e, srtp', mb') \<Longrightarrow> srtp_reach cr srtp'"
| reach_rtcp_encrypt: "srtp_reach cr srtp \<Longrightarrow> srtcp_encrypt al cr srtp mb = (e, srtp', mb') \<Longrightarrow> srtp_reach cr srtp'"
| reach_rtcp_decrypt: "srtp_reach cr srtp \<Longrightarrow> srtcp_decrypt al cr srtp mb = (e, srtp', mb') \<Longrightarrow> srtp_reach cr srtp'"

definition session_ok :: "'k srtp \<Rightarrow> bool" where
  "session_ok srtp \<longleftrightarrow> srtp_ok srtp \<and> comp_ok (sr_rtp srtp) \<and> comp_ok (sr_rtcp srtp) \<and> c_aes (sr_rtp srtp) \<noteq> None \<and>
     c_mode (sr_rtcp srtp) = c_mode (sr_rtp srtp)"

lemma suite_params_ok:
  "srtp_suite_params suite = Some (mode, cb, sb, tb, hash) \<Longrightarrow>
     (mode = AES_MODE_CTR \<and> hash \<and> 4 \<le> tb \<and> tb \<le> 20) \<or> (mode = AES_MODE_GCM \<and> \<not> hash \<and> tb = 0)"
  by (cases suite) auto

lemma srtp_alloc_ok:
  assumes cr: "crypto_ok cr" and a: "srtp_alloc al cr suite key fl = Inr srtp"
  shows "session_ok srtp"
proof -
  obtain mode cb sb tb hash where p: "srtp_suite_params suite = Some (mode, cb, sb, tb, hash)"
    using a by (auto simp: srtp_alloc_def split: option.splits)
  obtain e1 c1 where i1: "comp_init cr comp_zero 0 (take cb key) (drop cb key) tb True hash mode = (e1, c1)" by fastforce
  obtain e2 c2 where i2: "comp_init cr comp_zero 3 (take cb key) (drop cb key) tb (\<not> fl) hash mode = (e2, c2)" by fastforce
  have s: "e1 = 0" "e2 = 0" "srtp = \<lparr>sr_rtp = c1, sr_rtcp = c2, sr_streaml = []\<rparr>"
    using a by (auto simp: srtp_alloc_def p i1 i2 or_eq_0_iff split: if_splits option.splits)
  from suite_params_ok [OF p] comp_init_ok [OF cr i1 [unfolded s]] comp_init_ok [OF cr i2 [unfolded s]]
  show ?thesis by (auto simp: session_ok_def srtp_ok_def comp_ok_def s)
qed

lemma same_session_ok: "same_session a b \<Longrightarrow> session_ok a \<Longrightarrow> session_ok b"
  by (simp add: same_session_def session_ok_def)

lemma srtp_reach_ok: "srtp_reach cr srtp \<Longrightarrow> crypto_ok cr \<Longrightarrow> session_ok srtp"
proof (induction rule: srtp_reach.induct)
  case (reach_alloc al suite key fl srtp)
  then show ?case by (simp add: srtp_alloc_ok)
next
  case (reach_encrypt srtp al mb e srtp' mb')
  then show ?case using same_session_ok [OF srtp_encrypt_session [of srtp al cr mb]] by simp
next
  case (reach_decrypt srtp al mb e srtp' mb')
  then show ?case using same_session_ok [OF srtp_decrypt_session [of srtp al cr mb]] by simp
next
  case (reach_rtcp_encrypt srtp al mb e srtp' mb')
  then show ?case using same_session_ok [OF srtcp_session(1) [of srtp al cr mb]] by simp
next
  case (reach_rtcp_decrypt srtp al mb e srtp' mb')
  then show ?case using same_session_ok [OF srtcp_session(2) [of srtp al cr mb]] by simp
qed

text \<open>The roll-over counter a receiver settles on for a sequence number; none where it drops the
  packet as too old.\<close>

definition rx_roc :: "srtp_stream \<Rightarrow> u16 \<Rightarrow> u32 option" where
  "rx_roc strm seq = (let s = seq_start seq strm in
     if seq_diff (st_s_l s) seq > 32768 then None else Some (st_roc (roll_over seq s)))"

text \<open>Where a header ends: the buffer as the bytes before the packet, the header, the payload.\<close>

lemma packet_split:
  assumes rd: "mbuf_ready mb" and n: "n \<le> length (mbuf_left mb)"
  obtains H0 Hd P where "mbuf_left mb = Hd @ P" "length Hd = n" "length H0 = mb_pos mb"
    "mb_at mb (H0 @ Hd @ P) (length H0)" "mb_at (mbuf_skip mb n) (H0 @ Hd @ P) (length H0 + length Hd)"
proof -
  let ?H0 = "take (mb_pos mb) (mbuf_content mb)" and ?Hd = "take n (mbuf_left mb)" and ?P = "drop n (mbuf_left mb)"
  have at: "mb_at mb (mbuf_content mb) (mb_pos mb)" by (rule mb_at_start [OF rd])
  have l: "mbuf_left mb = drop (mb_pos mb) (mbuf_content mb)" by (rule mbuf_left_content)
  have "?Hd @ ?P = drop (mb_pos mb) (mbuf_content mb)" unfolding l [symmetric] by (rule append_take_drop_id)
  then have c: "mbuf_content mb = ?H0 @ ?Hd @ ?P" by (simp only: append_take_drop_id)
  have lh: "length ?H0 = mb_pos mb" using mb_atD(5) [OF at] by simp
  have "mb_at (mb\<lparr>mb_pos := mb_pos mb + n\<rparr>) (mbuf_content mb) (mb_pos mb + n)"
    using n mb_atD(5) [OF at] l by (intro mb_at_pos [OF at]) simp
  then have "mb_at (mbuf_skip mb n) (?H0 @ ?Hd @ ?P) (length ?H0 + length ?Hd)"
    using c lh n by (simp add: mbuf_skip_def)
  moreover have "mb_at mb (?H0 @ ?Hd @ ?P) (length ?H0)" using at c lh by simp
  ultimately show thesis using that [of ?Hd ?P ?H0] n lh by simp
qed

lemma srtp_roundtrip_aux:
  assumes cr: "crypto_ok cr" and ok: "session_ok tx" and same: "sr_rtp rx = sr_rtp tx"
    and rd: "mbuf_ready mb" and e: "srtp_encrypt al cr tx mb = (0, tx', pkt)"
    and d: "rtp_hdr_decode rtp_zero mb = (0, h, mbh)"
    and rrd: "mbuf_ready rmb" and net: "mbuf_left rmb = mbuf_left pkt" and slot: "srtp_slot al' rx (rh_ssrc h)"
    and roc: "rx_roc (stream_of rx (rh_ssrc h)) (rh_seq h) = Some (st_roc (stream_of tx' (rh_ssrc h)))"
    and fresh: "fst (srtp_replay_check (st_replay_rtp (stream_of rx (rh_ssrc h)))
                      (srtp_ix (st_roc (stream_of tx' (rh_ssrc h))) (rh_seq h)))"
  shows "\<exists>rx' mb2. srtp_decrypt al' cr rx rmb = (0, rx', mb2) \<and> mbuf_left mb2 = mbuf_left mb \<and>
    mb_pos mb2 = mb_pos rmb \<and> mbuf_ready mb2"
proof -
  let ?ssrc = "rh_ssrc h" and ?seq = "rh_seq h"
  have wf: "mbuf_wf mb" using rd by (simp add: mbuf_ready_def)
  obtain n where n: "n \<le> length (mbuf_left mb)" "mbh = mbuf_skip mb n"
    "\<And>mb2. mbuf_wf mb2 \<Longrightarrow> n \<le> length (mbuf_left mb2) \<Longrightarrow> take n (mbuf_left mb2) = take n (mbuf_left mb) \<Longrightarrow>
       rtp_hdr_decode rtp_zero mb2 = (0, h, mbuf_skip mb2 n)"
    using rtp_hdr_decode_local [OF wf d] by metis
  obtain H0 Hd P where s: "mbuf_left mb = Hd @ P" "length Hd = n" "length H0 = mb_pos mb"
    "mb_at (mbuf_skip mb n) (H0 @ Hd @ P) (length H0 + length Hd)" by (rule packet_split [OF rd n(1)])
  obtain strm tx1 where g: "stream_get_seq al tx ?ssrc ?seq = Inr (strm, tx1)"
    using e d stream_get_seq_Inl [of al tx ?ssrc ?seq]
    by (cases "stream_get_seq al tx ?ssrc ?seq") (auto simp: srtp_encrypt_def)
  note gk = stream_get_seq_ok [OF g]
  define roc where "roc = st_roc (roll_over ?seq strm)"
  obtain mb3 where p: "srtp_protect al cr (sr_rtp tx) ?ssrc roc (65536 * ucast roc + ucast ?seq) (length H0) (mbuf_skip mb n) = (0, mb3)"
    and r: "tx' = stream_put (stream_put tx1 (roll_over ?seq strm)) (seq_top ?seq (roll_over ?seq strm))"
      "pkt = mb3\<lparr>mb_pos := mb_pos mb\<rparr>"
    using e srtp_encrypt_eq [OF d g, of cr] gk(1)
    by (auto simp: Let_def roc_def s(3) n(2) split: prod.splits if_splits)
  have ss: "st_ssrc strm = ?ssrc" by (simp add: gk(1))
  have roc': "st_roc (stream_of tx' ?ssrc) = roc"
    unfolding r(1) roc_def by (subst stream_of_put) (simp_all add: ss gk(2))
  have co: "comp_ok (sr_rtp tx)" "c_aes (sr_rtp tx) \<noteq> None" using ok by (simp_all add: session_ok_def)
  obtain Y m where Y: "mb_at mb3 (H0 @ Hd @ Y) m"
    "\<And>rmb R0 strm r. mb_at rmb (R0 @ Hd @ Y) (length R0 + length Hd) \<Longrightarrow> st_roc strm = roc \<Longrightarrow> st_ssrc strm = ?ssrc \<Longrightarrow>
       srtp_replay_check (st_replay_rtp strm) (srtp_ix roc ?seq) = (True, r) \<Longrightarrow>
       \<exists>mb2. srtp_unprotect al' cr (sr_rtp tx) (length R0) (srtp_ix roc ?seq) strm rmb =
               (0, strm\<lparr>st_replay_rtp := r\<rparr>, mb2) \<and> mb_at mb2 (R0 @ Hd @ P) (length R0 + length Hd)"
    using srtp_protect_unprotect [OF cr co s(4) p] by metis
  have "mb_at pkt (H0 @ Hd @ Y) (length H0)" unfolding r(2) s(3) [symmetric] by (rule mb_at_pos [OF Y(1)]) simp
  then have left: "mbuf_left rmb = Hd @ Y" using mb_atD(6) [of pkt "H0 @ Hd @ Y" "length H0"] net by simp
  have rwf: "mbuf_wf rmb" using rrd by (simp add: mbuf_ready_def)
  have rd': "rtp_hdr_decode rtp_zero rmb = (0, h, mbuf_skip rmb n)"
    using n(3) [OF rwf] left s(1,2) by simp
  obtain R0 Hd' Y' where q: "mbuf_left rmb = Hd' @ Y'" "length Hd' = n" "length R0 = mb_pos rmb"
    "mb_at (mbuf_skip rmb n) (R0 @ Hd' @ Y') (length R0 + length Hd')"
    by (rule packet_split [OF rrd, of n]) (use left s(2) in simp_all)
  have hy: "Hd' = Hd" "Y' = Y" using q(1,2) left s(2) by simp_all
  obtain rstrm rx1 where rg: "stream_get_seq al' rx ?ssrc ?seq = Inr (rstrm, rx1)"
    using stream_get_seq_slot [OF slot, of ?seq] by auto
  note rk = stream_get_seq_ok [OF rg]
  have nd: "\<not> seq_diff (st_s_l rstrm) ?seq > 32768" and rr: "st_roc (roll_over ?seq rstrm) = roc"
    using roc unfolding rx_roc_def Let_def roc' rk(1) [symmetric] by (auto split: if_splits)
  obtain rp where rp: "srtp_replay_check (st_replay_rtp (roll_over ?seq rstrm)) (srtp_ix roc ?seq) = (True, rp)"
    using fresh unfolding roc' by (cases "srtp_replay_check (st_replay_rtp (stream_of rx ?ssrc)) (srtp_ix roc ?seq)") (simp add: rk(1))
  have rs: "st_ssrc (roll_over ?seq rstrm) = ?ssrc" by (simp add: rk(1))
  from Y(2) [OF q(4) [unfolded hy] rr rs rp] obtain mb2 where
    u: "srtp_unprotect al' cr (sr_rtp tx) (length R0) (srtp_ix roc ?seq) (roll_over ?seq rstrm) (mbuf_skip rmb n) =
               (0, (roll_over ?seq rstrm)\<lparr>st_replay_rtp := rp\<rparr>, mb2)"
    and m2: "mb_at mb2 (R0 @ Hd @ P) (length R0 + length Hd)" by blast
  have m3: "mb_at (mb2\<lparr>mb_pos := mb_pos rmb\<rparr>) (R0 @ Hd @ P) (length R0)"
    using mb_at_pos [OF m2, of "length R0"] q(3) by simp
  have "srtp_decrypt al' cr rx rmb = (0, stream_put rx1 (seq_top ?seq ((roll_over ?seq rstrm)\<lparr>st_replay_rtp := rp\<rparr>)),
      mb2\<lparr>mb_pos := mb_pos rmb\<rparr>)"
    using srtp_decrypt_eq [OF rd' rg, of cr] nd u by (simp add: same rr q(3))
  then show ?thesis using mb_atD(1,4,6) [OF m3] s(1) q(3) by simp
qed

section \<open>Replayed and forged packets\<close>

lemma srtp_replay_twice:
  assumes "srtp_replay_check r ix = (True, r')"
  shows "srtp_replay_check r' ix = (False, r')"
proof (cases "ix > rp_lix r")
  case True
  then have l: "rp_lix r' = ix" and "bit (rp_bitmap r') 0"
    using assms by (auto simp: srtp_replay_check_def Let_def bit_or_iff split: if_splits)
  then have "rp_bitmap r' AND push_bit 0 1 \<noteq> 0" using and_push_bit_1 [of 0 "rp_bitmap r'"] by simp
  then show ?thesis by (simp add: srtp_replay_check_def SRTP_WINDOW_SIZE_def l)
next
  case False
  let ?n = "unat (rp_lix r - ix)"
  have w: "\<not> SRTP_WINDOW_SIZE \<le> rp_lix r - ix" and r': "r' = r\<lparr>rp_bitmap := rp_bitmap r OR push_bit ?n 1\<rparr>"
    using assms False by (auto simp: srtp_replay_check_def Let_def split: if_splits)
  have n: "?n < 64" using w by (simp add: SRTP_WINDOW_SIZE_def word_le_nat_alt)
  have "bit (rp_bitmap r') ?n" unfolding r' using bit_push_bit_1 [of ?n ?n] n by (simp add: bit_or_iff)
  then have "rp_bitmap r' AND push_bit ?n 1 \<noteq> 0" using and_push_bit_1 [OF n] by blast
  moreover have "rp_lix r' = rp_lix r" by (simp add: r')
  ultimately show ?thesis using False w by (simp add: srtp_replay_check_def Let_def)
qed

lemma srtp_decr_auth_keeps:
  assumes "srtp_decr_auth al cr k tn start ix strm mb = (e, strm', mb')"
  shows "st_roc strm' = st_roc strm \<and> st_s_l strm' = st_s_l strm \<and> st_s_l_set strm' = st_s_l_set strm \<and> st_ssrc strm' = st_ssrc strm"
    and "crypto_ok cr \<Longrightarrow> e = 0 \<Longrightarrow> \<exists>r. srtp_replay_check (st_replay_rtp strm) ix = (True, r) \<and> strm' = strm\<lparr>st_replay_rtp := r\<rparr>"
  using assms crypto_fails(2) [of cr k]
  by (auto simp: srtp_decr_auth_def Let_def EBADMSG_def EAUTH_def EALREADY_def EOVERFLOW_def mbuf_read_mem_def
      split: if_splits sum.splits prod.splits)

lemma srtp_decr_gcm_keeps:
  assumes "srtp_decr_gcm cr k iv start ix strm mb = (e, strm', mb')"
  shows "st_roc strm' = st_roc strm \<and> st_s_l strm' = st_s_l strm \<and> st_s_l_set strm' = st_s_l_set strm \<and> st_ssrc strm' = st_ssrc strm"
    and "e = 0 \<Longrightarrow> \<exists>r. srtp_replay_check (st_replay_rtp strm) ix = (True, r) \<and> strm' = strm\<lparr>st_replay_rtp := r\<rparr>"
  using assms
  by (auto simp: srtp_decr_gcm_def Let_def EBADMSG_def EALREADY_def split: if_splits prod.splits)

lemma srtp_unprotect_keeps:
  assumes "srtp_unprotect al cr cm start ix strm mb = (e, strm', mb')"
  shows "st_roc strm' = st_roc strm \<and> st_s_l strm' = st_s_l strm \<and> st_s_l_set strm' = st_s_l_set strm \<and> st_ssrc strm' = st_ssrc strm"
proof -
  obtain e2 strm2 mb2 where a: "(case c_hmac cm of None \<Rightarrow> (0, strm, mb)
        | Some hmac \<Rightarrow> srtp_decr_auth al cr hmac (c_tag_len cm) start ix strm mb) = (e2, strm2, mb2)" by (metis surj_pair)
  have k: "st_roc strm2 = st_roc strm \<and> st_s_l strm2 = st_s_l strm \<and> st_s_l_set strm2 = st_s_l_set strm \<and> st_ssrc strm2 = st_ssrc strm"
  proof (cases "c_hmac cm")
    case (Some hmac)
    then show ?thesis using a srtp_decr_auth_keeps(1) [of al cr hmac "c_tag_len cm" start ix strm mb] by simp
  qed (use a in simp)
  show ?thesis
  proof (cases "e2 = 0")
    case False
    then show ?thesis using assms a k by (simp add: srtp_unprotect_def)
  next
    case True
    then have "(case (c_aes cm, c_mode cm) of
               (Some aes, AES_MODE_CTR) \<Rightarrow>
                  (case srtp_decr_ctr cr aes (srtp_iv_calc (c_k_s cm) (st_ssrc strm2) ix) mb2 of
                     (err, mb3) \<Rightarrow> (err, strm2, mb3))
             | (Some aes, AES_MODE_GCM) \<Rightarrow>
                  srtp_decr_gcm cr aes (srtp_iv_calc_gcm (c_k_s cm) (st_ssrc strm2) ix) start ix strm2 mb2
             | (None, _) \<Rightarrow> (0, strm2, mb2)) = (e, strm', mb')"
      using assms unfolding srtp_unprotect_def a by simp
    then show ?thesis using k
      by (cases "c_aes cm"; cases "c_mode cm") (auto split: prod.splits dest: srtp_decr_gcm_keeps(1))
  qed
qed

lemma srtp_unprotect_accepts:
  assumes cr: "crypto_ok cr" and co: "comp_ok cm" "c_aes cm \<noteq> None"
    and u: "srtp_unprotect al cr cm start ix strm mb = (0, strm', mb')"
  shows "\<exists>r. srtp_replay_check (st_replay_rtp strm) ix = (True, r) \<and> strm' = strm\<lparr>st_replay_rtp := r\<rparr>"
proof (cases "c_mode cm")
  case AES_MODE_CTR
  then obtain k aes where k: "c_hmac cm = Some k" "c_aes cm = Some aes" using co by (auto simp: comp_ok_def)
  obtain strm2 mb2 where a: "srtp_decr_auth al cr k (c_tag_len cm) start ix strm mb = (0, strm2, mb2)" and s: "strm' = strm2"
    using u by (auto simp: srtp_unprotect_def k AES_MODE_CTR split: prod.splits if_splits)
  show ?thesis unfolding s by (rule srtp_decr_auth_keeps(2) [OF a cr refl])
next
  case AES_MODE_GCM
  then have k: "c_hmac cm = None" using co(1) by (auto simp: comp_ok_def)
  obtain aes where "c_aes cm = Some aes" using co(2) by blast
  then have "srtp_decr_gcm cr aes (srtp_iv_calc_gcm (c_k_s cm) (st_ssrc strm) ix) start ix strm mb = (0, strm', mb')"
    using u by (simp add: srtp_unprotect_def k AES_MODE_GCM)
  from srtp_decr_gcm_keeps(2) [OF this refl] show ?thesis .
qed

lemma srtp_decrypt_ok:
  assumes cr: "crypto_ok cr" and ok: "session_ok rx"
    and d: "rtp_hdr_decode rtp_zero mb = (0, h, mbh)" and s: "srtp_decrypt al cr rx mb = (0, rx', mb')"
  obtains strm r where "strm = roll_over (rh_seq h) (seq_start (rh_seq h) (stream_of rx (rh_ssrc h)))"
    "srtp_replay_check (st_replay_rtp strm) (srtp_ix (st_roc strm) (rh_seq h)) = (True, r)"
    "stream_of rx' (rh_ssrc h) = seq_top (rh_seq h) (strm\<lparr>st_replay_rtp := r\<rparr>)"
    "seq_diff (st_s_l (seq_start (rh_seq h) (stream_of rx (rh_ssrc h)))) (rh_seq h) \<le> 32768"
proof -
  let ?ssrc = "rh_ssrc h" and ?seq = "rh_seq h"
  obtain st1 rx1 where g: "stream_get_seq al rx ?ssrc ?seq = Inr (st1, rx1)"
    using s d stream_get_seq_Inl [of al rx ?ssrc ?seq]
    by (cases "stream_get_seq al rx ?ssrc ?seq") (auto simp: srtp_decrypt_def)
  note k = stream_get_seq_ok [OF g]
  have eq: "\<not> seq_diff (st_s_l st1) ?seq > 32768"
    using s srtp_decrypt_eq [OF d g, of cr] by (auto simp: ETIMEDOUT_def)
  obtain st3 mb3 where u: "srtp_unprotect al cr (sr_rtp rx) (mb_pos mb) (srtp_ix (st_roc (roll_over ?seq st1)) ?seq) (roll_over ?seq st1) mbh = (0, st3, mb3)"
    and r: "rx' = stream_put rx1 (seq_top ?seq st3)"
    using s srtp_decrypt_eq [OF d g, of cr] eq by (auto simp: Let_def split: prod.splits if_splits)
  have co: "comp_ok (sr_rtp rx)" "c_aes (sr_rtp rx) \<noteq> None" using ok by (simp_all add: session_ok_def)
  from srtp_unprotect_accepts [OF cr co u] obtain rp where
    a: "srtp_replay_check (st_replay_rtp (roll_over ?seq st1)) (srtp_ix (st_roc (roll_over ?seq st1)) ?seq) = (True, rp)"
      "st3 = (roll_over ?seq st1)\<lparr>st_replay_rtp := rp\<rparr>" by blast
  have s3: "st_ssrc (seq_top ?seq st3) = ?ssrc" by (simp add: a(2) k(1))
  have "stream_of rx' ?ssrc = seq_top ?seq st3"
    unfolding r using stream_of_put [of "seq_top ?seq st3" rx1 ?ssrc] k(2) unfolding s3 by simp
  then show thesis using that [OF refl] a eq unfolding k(1) by simp
qed

lemma srtp_replay_rejected_aux:
  assumes cr: "crypto_ok cr" and ok: "session_ok rx"
    and d: "rtp_hdr_decode rtp_zero mb = (0, h, mbh)" and s: "srtp_decrypt al cr rx mb = (0, rx', mb')"
    and d2: "rtp_hdr_decode rtp_zero mb2 = (0, h2, mbh2)" "rh_ssrc h2 = rh_ssrc h" "rh_seq h2 = rh_seq h"
    and s2: "srtp_decrypt al2 cr rx' mb2 = (e, rx'', mb'')"
  shows "e \<noteq> 0"
proof
  assume "e = 0"
  let ?ssrc = "rh_ssrc h" and ?seq = "rh_seq h" and ?st = "seq_start (rh_seq h) (stream_of rx (rh_ssrc h))"
  obtain strm r where 1: "strm = roll_over ?seq ?st"
    "srtp_replay_check (st_replay_rtp strm) (srtp_ix (st_roc strm) ?seq) = (True, r)"
    "stream_of rx' ?ssrc = seq_top ?seq (strm\<lparr>st_replay_rtp := r\<rparr>)" "seq_diff (st_s_l ?st) ?seq \<le> 32768"
    by (rule srtp_decrypt_ok [OF cr ok d s])
  have ok': "session_ok rx'" using same_session_ok [OF srtp_decrypt_session [of rx al cr mb] ok] s by simp
  let ?t = "seq_top ?seq (strm\<lparr>st_replay_rtp := r\<rparr>)"
  have "st_s_l_set ?t" by (simp add: 1(1))
  then have ss: "seq_start ?seq ?t = ?t" by (simp add: seq_start_def)
  have "\<not> seq_diff (st_s_l ?t) ?seq \<le> -32768"
  proof (cases "seq_diff (st_s_l ?st) ?seq \<le> -32768")
    case True
    then have z: "st_s_l strm = 0" by (simp add: 1(1) roll_over_def)
    have "st_s_l ?t = ?seq" using z by (auto simp: seq_top_def not_less)
    then show ?thesis by (simp add: seq_diff_def)
  next
    case False
    then show ?thesis by (auto simp: 1(1) roll_over_def seq_top_def seq_diff_def)
  qed
  then have ro: "roll_over ?seq ?t = ?t" by (simp add: roll_over_def)
  obtain strm2 r2 where "strm2 = roll_over ?seq (seq_start ?seq (stream_of rx' ?ssrc))"
    "srtp_replay_check (st_replay_rtp strm2) (srtp_ix (st_roc strm2) ?seq) = (True, r2)"
    using srtp_decrypt_ok [OF cr ok' d2(1) s2 [unfolded \<open>e = 0\<close>]] d2(2,3) by metis
  then have "srtp_replay_check r (srtp_ix (st_roc strm) ?seq) = (True, r2)" by (simp add: 1(3) ss ro)
  with srtp_replay_twice [OF 1(2)] show False by simp
qed

lemma srtp_forged_rollover_aux:
  assumes d: "rtp_hdr_decode rtp_zero mb = (0, h, mbh)" and known: "rh_ssrc h \<in> ssrcs rx" "st_s_l_set (stream_of rx (rh_ssrc h))"
    and far: "seq_diff (st_s_l (stream_of rx (rh_ssrc h))) (rh_seq h) \<le> -32768"
    and s: "srtp_decrypt al cr rx mb = (e, rx', mb')"
  shows "st_roc (stream_of rx' (rh_ssrc h)) = st_roc (stream_of rx (rh_ssrc h)) + 1"
    "e \<noteq> 0 \<Longrightarrow> st_s_l (stream_of rx' (rh_ssrc h)) = 0" "st_s_l_set (stream_of rx' (rh_ssrc h))" "rh_ssrc h \<in> ssrcs rx'"
proof -
  let ?ssrc = "rh_ssrc h" and ?seq = "rh_seq h"
  have "srtp_slot al rx ?ssrc" using known by (simp add: srtp_slot_def)
  from stream_get_seq_slot [OF this, of ?seq] obtain st1 rx1 where g: "stream_get_seq al rx ?ssrc ?seq = Inr (st1, rx1)" by auto
  note k = stream_get_seq_ok [OF g]
  have st1: "st1 = stream_of rx ?ssrc" using k(1) known(2) by (simp add: seq_start_def)
  have ro: "roll_over ?seq st1 = st1\<lparr>st_roc := st_roc st1 + 1, st_s_l := 0\<rparr>" using far by (simp add: st1 roll_over_def)
  obtain e3 st3 mb3 where u: "srtp_unprotect al cr (sr_rtp rx) (mb_pos mb) (srtp_ix (st_roc (roll_over ?seq st1)) ?seq) (roll_over ?seq st1) mbh = (e3, st3, mb3)"
    by (metis surj_pair)
  have k3: "st_roc st3 = st_roc st1 + 1" "st_s_l st3 = 0" "st_s_l_set st3" "st_ssrc st3 = ?ssrc"
    using srtp_unprotect_keeps [OF u] known(2) unfolding ro by (simp_all add: st1)
  have nf: "\<not> seq_diff (st_s_l st1) ?seq > 32768" using far st1 by simp
  have "srtp_decrypt al cr rx mb = (if e3 \<noteq> 0 then (e3, stream_put rx1 st3, mb3)
         else (0, stream_put rx1 (seq_top ?seq st3), mb3\<lparr>mb_pos := mb_pos mb\<rparr>))"
    using srtp_decrypt_eq [OF d g, of cr] nf unfolding Let_def u by simp
  then have r: "rx' = stream_put rx1 (if e3 = 0 then seq_top ?seq st3 else st3)" "e3 = 0 \<longleftrightarrow> e = 0"
    using s by (simp_all split: if_splits)
  have s4: "st_ssrc (if e3 = 0 then seq_top ?seq st3 else st3) = ?ssrc" using k3(4) by simp
  have "stream_of rx' ?ssrc = (if e3 = 0 then seq_top ?seq st3 else st3)"
    unfolding r(1) by (subst stream_of_put) (simp_all only: s4 k(2) refl if_True)
  then show "st_roc (stream_of rx' ?ssrc) = st_roc (stream_of rx ?ssrc) + 1"
    "e \<noteq> 0 \<Longrightarrow> st_s_l (stream_of rx' ?ssrc) = 0" "st_s_l_set (stream_of rx' ?ssrc)"
    using k3(1-3) r(2) by (simp_all add: st1)
  show "?ssrc \<in> ssrcs rx'" using k(2) by (simp add: r(1))
qed

section \<open>Protected RTCP packets\<close>

lemma get_rtcp_ssrc_eval:
  assumes "mbuf_wf mb" "8 \<le> length (mbuf_left mb)"
  shows "get_rtcp_ssrc mb = (0, ntohl (word_of_le (take 4 (drop 4 (mbuf_left mb)))), mbuf_skip mb 8)"
  using assms mbuf_advance_skip [OF assms(1), of 4]
  by (simp add: get_rtcp_ssrc_def mbuf_rd)

lemma get_rtcp_ssrc_short:
  "mbuf_wf mb \<Longrightarrow> length (mbuf_left mb) < 8 \<Longrightarrow> get_rtcp_ssrc mb = (EBADMSG, 0, mb)"
  by (simp add: get_rtcp_ssrc_def mbuf_rd)

text \<open>The word behind an SRTCP packet: the E flag above a 31 bit index.\<close>

definition eix :: "bool \<Rightarrow> u32 \<Rightarrow> u32" where
  "eix e index = push_bit 31 (of_bool e) OR index"

lemma bit_7fffffff: "bit (0x7fffffff :: u32) n \<longleftrightarrow> n < 31"
proof -
  have "(0x7fffffff :: u32) = mask 31" by (simp add: mask_eq_exp_minus_1)
  then show ?thesis by (simp only: bit_mask_iff) auto
qed

lemma eix_parts:
  assumes "index = index AND 0x7fffffff"
  shows "drop_bit 31 (eix e index) AND 1 \<noteq> 0 \<longleftrightarrow> e" "eix e index AND 0x7fffffff = index"
proof -
  have b: "bit index n \<Longrightarrow> n < 31" for n using assms bit_and_iff [of index "0x7fffffff" n] bit_7fffffff [of n] by metis
  have x: "bit (eix e index) n \<longleftrightarrow> (n = 31 \<and> e) \<or> bit index n" for n
    by (auto simp: eix_def bit_or_iff bit_push_bit_iff bit_of_bool_iff)
  have "drop_bit 31 (eix e index) AND 1 \<noteq> 0 \<longleftrightarrow> bit (eix e index) 31"
    by (simp add: and_one_eq odd_iff_mod_2_eq_one [symmetric] bit_0 [symmetric] bit_drop_bit_eq del: bit_0)
  then show "drop_bit 31 (eix e index) AND 1 \<noteq> 0 \<longleftrightarrow> e" using x [of 31] b [of 31] by auto
  show "eix e index AND 0x7fffffff = index"
    by (rule bit_word_eqI) (use x b bit_7fffffff in \<open>auto simp: bit_and_iff\<close>)
qed

lemma srtcp_encr_gcm_ok:
  assumes cr: "crypto_ok cr" and mb: "mb_at mb (H0 @ Hd @ P) (length H0 + length Hd)"
    and e: "srtcp_encr_gcm al cr k iv index (length H0) mb = (0, mb')"
  obtains Q t d1 d2 where "length Q = length P" "length t = GCM_TAGLEN"
    "mb_at mb' (H0 @ Hd @ Q @ t) (length H0 + length Hd + length Q + length t)"
    "aad_run (aes_decr_aad cr) (aes_set_iv cr k iv) [Hd, be32 (eix True index)] = (0, d1)"
    "aes_decr cr d1 Q = ((0, P), d2)" "aes_authenticate cr d2 t = 0"
proof -
  note m = mb_atD [OF mb]
  have hd: "take (mb_pos mb - length H0) (drop (length H0) (mbuf_bytes mb)) = Hd"
    using mb_at_bytes [OF mb, of "length H0" "length Hd"] m(4) by simp
  have ix: "word_to_le 4 (htonl (push_bit 31 1 OR index)) = be32 (eix True index)" by (simp add: eix_def)
  obtain e1 c0 where a: "aes_encr_aad cr (aes_set_iv cr k iv) Hd = (e1, c0)" by fastforce
  obtain e2 c where a2: "aes_encr_aad cr c0 (be32 (eix True index)) = (e2, c)" by fastforce
  have aad: "aad_run (aes_encr_aad cr) (aes_set_iv cr k iv) [Hd, be32 (eix True index)] = (e1 OR e2, c)" using a a2 by simp
  have z: "e1 OR e2 = 0"
    using e unfolding srtcp_encr_gcm_def Let_def hd a ix prod.case a2 by (auto split: if_splits)
  obtain err2 Q c2 where f: "aes_encr cr c P = ((err2, Q), c2)" by (metis surj_pair)
  have l: "mbuf_get_left mb = length P" using m(7) by simp
  have t: "take (length P) (drop (mb_pos mb) (mbuf_bytes mb)) = P"
    using mb_at_bytes [OF mb, of "length H0 + length Hd" "length P"] m(4) by simp
  obtain mb1 where w: "mbuf_crypt (aes_encr cr c) mb (length P) = (err2, mb1, c2)"
    using f by (simp add: mbuf_crypt_def t)
  have ev: "srtcp_encr_gcm al cr k iv index (length H0) mb =
     (if err2 \<noteq> 0 then (err2, mb1) else case aes_get_authtag cr c2 GCM_TAGLEN of Inl err \<Rightarrow> (err, mb1)
          | Inr tag \<Rightarrow> mbuf_write_mem al (mb1\<lparr>mb_pos := mb_end mb1\<rparr>) (Some tag))"
    unfolding srtcp_encr_gcm_def Let_def hd a ix prod.case a2 l w using z by simp
  have z2: "err2 = 0" using e ev by (auto split: if_splits)
  obtain tg where tg: "aes_get_authtag cr c2 GCM_TAGLEN = Inr tg"
    using e ev z2 crypto_fails(1) [OF cr, of c2 GCM_TAGLEN] by (auto split: sum.splits)
  note g = crypto_gcm [OF cr aad [unfolded z] f [unfolded z2] tg]
  have mb1: "mb_at mb1 ((H0 @ Hd) @ Q) (length H0 + length Hd)"
    using mb_at_crypt [of mb "H0 @ Hd" P "[]" _ "aes_encr cr c", OF _ _ f g(1) refl] mb w by auto
  have "mb_at (mb1\<lparr>mb_pos := mb_end mb1\<rparr>) ((H0 @ Hd) @ Q) (length ((H0 @ Hd) @ Q))"
    using mb_at_pos [OF mb1] mb_atD(3) [OF mb1] by simp
  moreover have "mbuf_write_mem al (mb1\<lparr>mb_pos := mb_end mb1\<rparr>) (Some tg) = (0, mb')" using e ev z2 tg by simp
  moreover have "length tg < 2 ^ 32" using g(2) by (simp add: GCM_TAGLEN_def)
  ultimately have "mb_at mb' (((H0 @ Hd) @ Q) @ tg) (length ((H0 @ Hd) @ Q) + length tg)" by (rule mb_at_append)
  then have "mb_at mb' (H0 @ Hd @ Q @ tg) (length H0 + length Hd + length Q + length tg)" by (simp add: add.assoc)
  then show thesis using that [OF g(1,2)] g(3) by blast
qed

lemma srtcp_decr_gcm_ok:
  assumes mbF: "mb_at mbF (H0 @ Hd @ (Q @ t) @ E @ T) n" and len: "length t = GCM_TAGLEN" "length Q = length P" "length E = 4"
    and a: "aad_run (aes_decr_aad cr) (aes_set_iv cr k iv) [Hd, E] = (0, d1)"
    and d: "aes_decr cr d1 Q = ((0, P), d2)" and au: "aes_authenticate cr d2 t = 0"
    and pld: "pld = length H0 + length Hd" and es: "es = pld + length Q + length t"
  shows "\<exists>mb'. srtcp_decr_gcm cr k iv (length H0) pld es (mbF\<lparr>mb_pos := m, mb_end := es\<rparr>) = (0, mb') \<and>
    mb_at mb' (H0 @ Hd @ P) pld"
proof -
  let ?mb = "mbF\<lparr>mb_pos := m, mb_end := es\<rparr>"
  have bb: "mbuf_bytes ?mb = mbuf_bytes mbF" by (simp add: mbuf_bytes_def)
  have hd: "take (pld - length H0) (drop (length H0) (mbuf_bytes ?mb)) = Hd"
    unfolding bb using mb_at_bytes [OF mbF, of "length H0" "length Hd"] by (simp add: pld)
  have e4: "take 4 (drop es (mbuf_bytes ?mb)) = E"
    unfolding bb using mb_at_bytes [OF mbF, of es 4] len by (simp add: pld es)
  obtain e1 c0 where a1: "aes_decr_aad cr (aes_set_iv cr k iv) Hd = (e1, c0)" by fastforce
  obtain e2 c where a2: "aes_decr_aad cr c0 E = (e2, c)" by fastforce
  have z: "e1 OR e2 = 0" "c = d1" using a a1 a2 by simp_all
  have m0: "mb_at (mbF\<lparr>mb_pos := pld, mb_end := es\<rparr>) (H0 @ Hd @ Q @ t) pld"
    using mb_at_pos_end [of mbF "H0 @ Hd @ Q @ t" "E @ T" n es pld] mbF by (simp add: pld es)
  note k = mb_atD [OF m0]
  have gl: "\<not> mbuf_get_left (mbF\<lparr>mb_pos := pld, mb_end := es\<rparr>) < GCM_TAGLEN" using k(7) len by (simp add: pld)
  have ts: "es - GCM_TAGLEN = pld + length Q" "es - GCM_TAGLEN - pld = length Q" using len by (simp_all add: es)
  obtain mb1 where w: "mbuf_crypt (aes_decr cr d1) (mbF\<lparr>mb_pos := pld, mb_end := es\<rparr>) (length Q) = (0, mb1, d2)"
      "mb_at mb1 ((H0 @ Hd) @ P @ t) pld"
    using mb_at_crypt [of "mbF\<lparr>mb_pos := pld, mb_end := es\<rparr>" "H0 @ Hd" Q t pld "aes_decr cr d1", OF _ _ d len(2) [symmetric] refl] m0
    by (auto simp: pld)
  have tg: "take GCM_TAGLEN (drop (pld + length Q) (mbuf_bytes mb1)) = t"
    using mb_at_bytes [OF w(2), of "pld + length Q" GCM_TAGLEN] len by (simp add: pld)
  have "mb_at (mb1\<lparr>mb_end := pld + length Q\<rparr>) (H0 @ Hd @ P) pld"
    using mb_at_end [of mb1 "(H0 @ Hd) @ P" t pld "pld + length Q"] w(2) len(2) by (simp add: pld add.assoc)
  note m1 = this
  have pp: "?mb\<lparr>mb_pos := pld\<rparr> = mbF\<lparr>mb_pos := pld, mb_end := es\<rparr>" by simp
  have en: "mb_end (mbF\<lparr>mb_pos := pld, mb_end := es\<rparr>) = es" by simp
  have "srtcp_decr_gcm cr k iv (length H0) pld es ?mb = (0, mb1\<lparr>mb_end := pld + length Q\<rparr>)"
    unfolding srtcp_decr_gcm_def Let_def hd e4 a1 a2 prod.case z pp en ts w(1) if_not_P [OF gl]
    using tg au w(1) by simp
  with m1 show ?thesis by blast
qed

text \<open>Authenticating an SRTCP packet: the tag covers everything before it, the flag and index
  included.\<close>

lemma srtcp_decr_auth_eval:
  assumes mb: "mb_at mb (H0 @ X @ T) (length H0 + length X)" and t: "length T = tn" "tn \<le> 20"
    and h: "hmac_digest cr k X = Inr tag"
  shows "srtcp_decr_auth cr k tn (length H0) ix strm mb =
    (let mb' = mb\<lparr>mb_pos := length H0, mb_end := length H0 + length X\<rparr> in
     if take tn tag \<noteq> T then (EAUTH, strm, mb')
     else case srtp_replay_check (st_replay_rtcp strm) ix of (ok, r) \<Rightarrow>
       (if ok then 0 else EALREADY, strm\<lparr>st_replay_rtcp := r\<rparr>, mb'))"
proof -
  note m = mb_atD [OF mb]
  have r: "mbuf_read_mem mb tn = Inr (T, mbuf_skip mb tn)" using m(2,6) t(1) by (simp add: mbuf_read_mem_rd)
  have s: "(mbuf_skip mb tn)\<lparr>mb_pos := length H0, mb_end := length H0 + length X\<rparr> =
      mb\<lparr>mb_pos := length H0, mb_end := length H0 + length X\<rparr>" by (simp add: mbuf_skip_def)
  have m2: "mb_at (mb\<lparr>mb_pos := length H0, mb_end := length H0 + length X\<rparr>) (H0 @ X) (length H0)"
    using mb_at_pos_end [of mb "H0 @ X" T _ "length H0 + length X" "length H0"] mb by simp
  have l: "mbuf_left (mb\<lparr>mb_pos := length H0, mb_end := length H0 + length X\<rparr>) = X" using mb_atD(6) [OF m2] by simp
  show ?thesis using t(2)
    by (simp add: srtcp_decr_auth_def r s l h m(4) Let_def SHA_DIGEST_LENGTH_def)
qed

lemma mb_at_pos_end_pos:
  assumes "mb_at mb (X @ Y) n" "e = length X" "m \<le> e"
  shows "mb_at ((mb\<lparr>mb_pos := k, mb_end := e\<rparr>)\<lparr>mb_pos := m\<rparr>) X m"
proof -
  have "(mb\<lparr>mb_pos := k, mb_end := e\<rparr>)\<lparr>mb_pos := m\<rparr> = mb\<lparr>mb_pos := m, mb_end := e\<rparr>" by simp
  then show ?thesis using mb_at_pos_end [OF assms] by (simp only:)
qed

definition srtcp_seal ::
  "malloc_env \<Rightarrow> ('k, 'c) crypto \<Rightarrow> 'k comp \<Rightarrow> u32 \<Rightarrow> u32 \<Rightarrow> nat \<Rightarrow> mbuf \<Rightarrow> errno \<times> mbuf \<times> u32" where
  "srtcp_seal al cr rtcp ssrc index start mb1 =
     (case (c_aes rtcp, c_mode rtcp) of
        (Some aes, AES_MODE_CTR) \<Rightarrow>
          (case srtp_encr_ctr cr aes (srtp_iv_calc (c_k_s rtcp) ssrc (ucast index)) mb1 of
             (err, mb2) \<Rightarrow> (err, mb2, 1))
      | (Some aes, AES_MODE_GCM) \<Rightarrow>
          (case srtcp_encr_gcm al cr aes (srtp_iv_calc_gcm (c_k_s rtcp) ssrc (ucast index))
                  index start mb1 of (err, mb2) \<Rightarrow> (err, mb2, 1))
      | (None, _) \<Rightarrow> (0, mb1, 0))"

definition srtcp_open ::
  "('k, 'c) crypto \<Rightarrow> 'k comp \<Rightarrow> u32 \<Rightarrow> u32 \<Rightarrow> bool \<Rightarrow> nat \<Rightarrow> nat \<Rightarrow> nat \<Rightarrow> mbuf \<Rightarrow> errno \<times> mbuf" where
  "srtcp_open cr rtcp ssrc ix ep start pld_start eix_start mb4 =
     (case (c_aes rtcp, ep, c_mode rtcp) of
        (Some aes, True, AES_MODE_CTR) \<Rightarrow>
          srtp_decr_ctr cr aes (srtp_iv_calc (c_k_s rtcp) ssrc (ucast ix)) (mb4\<lparr>mb_pos := pld_start\<rparr>)
      | (Some aes, True, AES_MODE_GCM) \<Rightarrow>
          srtcp_decr_gcm cr aes (srtp_iv_calc_gcm (c_k_s rtcp) ssrc (ucast ix)) start pld_start eix_start mb4
      | _ \<Rightarrow> (0, mb4))"

lemma srtcp_seal_open:
  assumes cr: "crypto_ok cr" and mb: "mb_at mb (H0 @ Hd @ P) (length H0 + length Hd)"
    and s: "srtcp_seal al cr rtcp ssrc index (length H0) mb = (0, mb2, ep)"
  obtains Y e n where "ep = of_bool e" "mb_at mb2 (H0 @ Hd @ Y) n"
    "\<And>rmb R0 T n' m. mb_at rmb (R0 @ Hd @ Y @ be32 (eix e index) @ T) n' \<Longrightarrow>
       \<exists>mb'. srtcp_open cr rtcp ssrc index e (length R0) (length R0 + length Hd) (length R0 + length Hd + length Y)
                (rmb\<lparr>mb_pos := m, mb_end := length R0 + length Hd + length Y\<rparr>) = (0, mb') \<and>
              mb_at (mb'\<lparr>mb_pos := length R0\<rparr>) (R0 @ Hd @ P) (length R0)"
proof (cases "c_aes rtcp")
  case None
  have "mb_at ((rmb\<lparr>mb_pos := m, mb_end := length R0 + length Hd + length P\<rparr>)\<lparr>mb_pos := length R0\<rparr>) (R0 @ Hd @ P) (length R0)"
    if "mb_at rmb (R0 @ Hd @ P @ be32 (eix False index) @ T) n'" for rmb R0 T n' m
    by (rule mb_at_pos_end_pos [of rmb "R0 @ Hd @ P" "be32 (eix False index) @ T" n']) (use that in simp_all)
  then show thesis using that [of False P] mb s by (simp add: srtcp_seal_def srtcp_open_def None)
next
  case (Some aes)
  show thesis
  proof (cases "c_mode rtcp")
    case AES_MODE_CTR
    let ?iv = "srtp_iv_calc (c_k_s rtcp) ssrc (ucast index)"
    have e: "srtp_encr_ctr cr aes ?iv mb = (0, mb2)" "ep = 1"
      using s by (auto simp: srtcp_seal_def Some AES_MODE_CTR split: prod.splits)
    from srtp_encr_ctr_ok [OF cr _ e(1), of "H0 @ Hd" P] mb obtain Q d where
      Q: "length Q = length P" "mb_at mb2 (H0 @ Hd @ Q) (length H0 + length Hd)"
        "aes_decr cr (aes_set_iv cr aes ?iv) Q = ((0, P), d)" by auto
    have "\<exists>mb'. srtcp_open cr rtcp ssrc index True (length R0) (length R0 + length Hd) (length R0 + length Hd + length Q)
                (rmb\<lparr>mb_pos := m, mb_end := length R0 + length Hd + length Q\<rparr>) = (0, mb') \<and>
              mb_at (mb'\<lparr>mb_pos := length R0\<rparr>) (R0 @ Hd @ P) (length R0)"
      if a: "mb_at rmb (R0 @ Hd @ Q @ be32 (eix True index) @ T) n'" for rmb R0 T n' m
    proof -
      let ?r = "(rmb\<lparr>mb_pos := m, mb_end := length R0 + length Hd + length Q\<rparr>)\<lparr>mb_pos := length R0 + length Hd\<rparr>"
      have "mb_at ?r (R0 @ Hd @ Q) (length R0 + length Hd)"
        by (rule mb_at_pos_end_pos [of rmb "R0 @ Hd @ Q" "be32 (eix True index) @ T" n']) (use a in simp_all)
      then have "mb_at ?r ((R0 @ Hd) @ Q) (length (R0 @ Hd))" by (simp only: append_assoc length_append)
      from srtp_decr_ctr_ok [OF this Q(3,1)] obtain mb' where
        op: "srtp_decr_ctr cr aes ?iv ?r = (0, mb')" "mb_at mb' ((R0 @ Hd) @ P) (length (R0 @ Hd))" by blast
      have "mb_at (mb'\<lparr>mb_pos := length R0\<rparr>) (R0 @ Hd @ P) (length R0)" using mb_at_pos [OF op(2), of "length R0"] by simp
      then show ?thesis using op(1) by (simp add: srtcp_open_def Some AES_MODE_CTR)
    qed
    then show thesis using that [of True Q] e(2) Q(2) by simp
  next
    case AES_MODE_GCM
    let ?iv = "srtp_iv_calc_gcm (c_k_s rtcp) ssrc (ucast index)"
    have e: "srtcp_encr_gcm al cr aes ?iv index (length H0) mb = (0, mb2)" "ep = 1"
      using s by (auto simp: srtcp_seal_def Some AES_MODE_GCM split: prod.splits)
    from srtcp_encr_gcm_ok [OF cr mb e(1)] obtain Q t d1 d2 where
      Q: "length Q = length P" "length t = GCM_TAGLEN"
      "mb_at mb2 (H0 @ Hd @ Q @ t) (length H0 + length Hd + length Q + length t)"
      "aad_run (aes_decr_aad cr) (aes_set_iv cr aes ?iv) [Hd, be32 (eix True index)] = (0, d1)"
      "aes_decr cr d1 Q = ((0, P), d2)" "aes_authenticate cr d2 t = 0" .
    have "\<exists>mb'. srtcp_open cr rtcp ssrc index True (length R0) (length R0 + length Hd) (length R0 + length Hd + length (Q @ t))
                (rmb\<lparr>mb_pos := m, mb_end := length R0 + length Hd + length (Q @ t)\<rparr>) = (0, mb') \<and>
              mb_at (mb'\<lparr>mb_pos := length R0\<rparr>) (R0 @ Hd @ P) (length R0)"
      if a: "mb_at rmb (R0 @ Hd @ (Q @ t) @ be32 (eix True index) @ T) n'" for rmb R0 T n' m
    proof -
      have es: "length R0 + length Hd + length (Q @ t) = length R0 + length Hd + length Q + length t" by simp
      from srtcp_decr_gcm_ok [OF a Q(2,1) _ Q(4-6) refl es, of m] obtain mb' where
        op: "srtcp_decr_gcm cr aes ?iv (length R0) (length R0 + length Hd) (length R0 + length Hd + length (Q @ t))
             (rmb\<lparr>mb_pos := m, mb_end := length R0 + length Hd + length (Q @ t)\<rparr>) = (0, mb')"
          "mb_at mb' (R0 @ Hd @ P) (length R0 + length Hd)" by auto
      have "mb_at (mb'\<lparr>mb_pos := length R0\<rparr>) (R0 @ Hd @ P) (length R0)" using mb_at_pos [OF op(2), of "length R0"] by simp
      then show ?thesis using op(1) unfolding srtcp_open_def Some AES_MODE_GCM by simp
    qed
    then show thesis using that [of True "Q @ t"] e(2) Q(3) by simp
  qed
qed

definition srtcp_tag :: "malloc_env \<Rightarrow> ('k, 'c) crypto \<Rightarrow> 'k comp \<Rightarrow> nat \<Rightarrow> mbuf \<Rightarrow> errno \<times> mbuf" where
  "srtcp_tag al cr rtcp start mb3 =
     (case c_hmac rtcp of None \<Rightarrow> (0, mb3)
      | Some hmac \<Rightarrow>
          let mb4 = mb3\<lparr>mb_pos := start\<rparr> in
          (case hmac_digest cr hmac (mbuf_left mb4) of Inl err \<Rightarrow> (err, mb4)
           | Inr tag \<Rightarrow> mbuf_write_mem al (mb4\<lparr>mb_pos := mb_end mb4\<rparr>) (Some (take (c_tag_len rtcp) tag))))"

lemma srtcp_tag_ok:
  assumes cr: "crypto_ok cr" and co: "comp_ok rtcp" and mb: "mb_at mb (H0 @ X) n"
    and s: "srtcp_tag al cr rtcp (length H0) mb = (0, mb')"
  obtains T m where "length T = c_tag_len rtcp" "mb_at mb' (H0 @ X @ T) m"
    "\<And>k. c_hmac rtcp = Some k \<Longrightarrow> \<exists>tag. hmac_digest cr k X = Inr tag \<and> T = take (c_tag_len rtcp) tag"
proof (cases "c_hmac rtcp")
  case None
  then have "c_tag_len rtcp = 0" using co by (auto simp: comp_ok_def)
  then show thesis using that [of "[]"] mb s None by (simp add: srtcp_tag_def)
next
  case (Some k)
  then have tn: "c_tag_len rtcp \<le> 20" using co by (auto simp: comp_ok_def)
  have m1: "mb_at (mb\<lparr>mb_pos := length H0\<rparr>) (H0 @ X) (length H0)" using mb_at_pos [OF mb] by simp
  have l: "mbuf_left (mb\<lparr>mb_pos := length H0\<rparr>) = X" using mb_atD(6) [OF m1] by simp
  obtain tag where tag: "hmac_digest cr k X = Inr tag"
    using s crypto_fails(2) [OF cr, of k X] by (auto simp: srtcp_tag_def Some l Let_def split: sum.splits)
  have tl: "length tag = 20" by (rule crypto_hmac [OF cr tag])
  have "mb_at (mb\<lparr>mb_pos := mb_end mb\<rparr>) (H0 @ X) (length (H0 @ X))"
    using mb_at_pos [OF mb, of "mb_end mb"] mb_atD(3) [OF mb] by simp
  moreover have "mbuf_write_mem al (mb\<lparr>mb_pos := mb_end mb\<rparr>) (Some (take (c_tag_len rtcp) tag)) = (0, mb')"
    using s by (simp add: srtcp_tag_def Some l Let_def tag)
  moreover have "length (take (c_tag_len rtcp) tag) < 2 ^ 32" using tn tl by simp
  ultimately have "mb_at mb' ((H0 @ X) @ take (c_tag_len rtcp) tag) (length (H0 @ X) + length (take (c_tag_len rtcp) tag))"
    by (rule mb_at_append)
  then show thesis using that [of "take (c_tag_len rtcp) tag"] tn tl tag Some by simp
qed

definition rtcp_ssrc :: "bytes \<Rightarrow> u32" where
  "rtcp_ssrc bs = ntohl (word_of_le (take 4 (drop 4 bs)))"

lemma srtcp_encrypt_ok:
  assumes cr: "crypto_ok cr" and ok: "session_ok tx" and rd: "mbuf_ready mb"
    and e: "srtcp_encrypt al cr tx mb = (0, tx', pkt)"
  obtains Hd P Y ep index T where "mbuf_ready pkt" "mbuf_left mb = Hd @ P" "length Hd = 8"
    "mbuf_left pkt = Hd @ Y @ be32 (eix ep index) @ T" "length T = c_tag_len (sr_rtcp tx)"
    "index = index AND 0x7fffffff" "st_rtcp_index (stream_of tx' (rtcp_ssrc (mbuf_left mb))) = index"
    "\<And>k. c_hmac (sr_rtcp tx) = Some k \<Longrightarrow>
       \<exists>tag. hmac_digest cr k (Hd @ Y @ be32 (eix ep index)) = Inr tag \<and> T = take (c_tag_len (sr_rtcp tx)) tag"
    "\<And>rmb R0 n' m. mb_at rmb (R0 @ Hd @ Y @ be32 (eix ep index) @ T) n' \<Longrightarrow>
       \<exists>mb'. srtcp_open cr (sr_rtcp tx) (rtcp_ssrc (mbuf_left mb)) index ep (length R0) (length R0 + length Hd) (length R0 + length Hd + length Y)
                (rmb\<lparr>mb_pos := m, mb_end := length R0 + length Hd + length Y\<rparr>) = (0, mb') \<and>
              mb_at (mb'\<lparr>mb_pos := length R0\<rparr>) (R0 @ Hd @ P) (length R0)"
proof -
  let ?ssrc = "rtcp_ssrc (mbuf_left mb)" and ?rtcp = "sr_rtcp tx"
  have wf: "mbuf_wf mb" using rd by (simp add: mbuf_ready_def)
  have len: "8 \<le> length (mbuf_left mb)"
  proof (rule ccontr)
    assume "\<not> 8 \<le> length (mbuf_left mb)"
    then show False using e get_rtcp_ssrc_short [OF wf] by (simp add: srtcp_encrypt_def EBADMSG_def)
  qed
  have g: "get_rtcp_ssrc mb = (0, ?ssrc, mbuf_skip mb 8)" using get_rtcp_ssrc_eval [OF wf len] by (simp add: rtcp_ssrc_def)
  obtain strm tx1 where sg: "stream_get al tx ?ssrc = Inr (strm, tx1)"
    using e g stream_get_Inl [of al tx ?ssrc] by (cases "stream_get al tx ?ssrc") (auto simp: srtcp_encrypt_def)
  note k = stream_get_ok [OF sg]
  define index where "index = (st_rtcp_index strm + 1) AND 0x7fffffff"
  obtain H0 Hd P where s: "mbuf_left mb = Hd @ P" "length Hd = 8" "length H0 = mb_pos mb"
    "mb_at (mbuf_skip mb 8) (H0 @ Hd @ P) (length H0 + length Hd)" by (rule packet_split [OF rd len])
  obtain er mb2 ep where se: "srtcp_seal al cr ?rtcp ?ssrc index (length H0) (mbuf_skip mb 8) = (er, mb2, ep)" by (metis surj_pair)
  have ev: "srtcp_encrypt al cr tx mb = (if er \<noteq> 0 then (er, stream_put tx1 (strm\<lparr>st_rtcp_index := index\<rparr>), mb2)
      else case mbuf_write_u32 al (mb2\<lparr>mb_pos := mb_end mb2\<rparr>) (htonl (push_bit 31 ep OR index)) of (err, mb3) \<Rightarrow>
           if err \<noteq> 0 then (err, stream_put tx1 (strm\<lparr>st_rtcp_index := index\<rparr>), mb3)
           else case srtcp_tag al cr ?rtcp (mb_pos mb) mb3 of (err, mb5) \<Rightarrow>
             if err \<noteq> 0 then (err, stream_put tx1 (strm\<lparr>st_rtcp_index := index\<rparr>), mb5)
             else (0, stream_put tx1 (strm\<lparr>st_rtcp_index := index\<rparr>), mb5\<lparr>mb_pos := mb_pos mb\<rparr>))"
    using se unfolding srtcp_encrypt_def srtcp_seal_def srtcp_tag_def Let_def g prod.case sg sum.case index_def s(3) by simp
  have er: "er = 0" using e ev by (auto split: if_splits)
  from srtcp_seal_open [OF cr s(4) se [unfolded er]] obtain Y b n where
    Y: "ep = of_bool b" "mb_at mb2 (H0 @ Hd @ Y) n"
    "\<And>rmb R0 T n' m. mb_at rmb (R0 @ Hd @ Y @ be32 (eix b index) @ T) n' \<Longrightarrow>
       \<exists>mb'. srtcp_open cr ?rtcp ?ssrc index b (length R0) (length R0 + length Hd) (length R0 + length Hd + length Y)
                (rmb\<lparr>mb_pos := m, mb_end := length R0 + length Hd + length Y\<rparr>) = (0, mb') \<and>
              mb_at (mb'\<lparr>mb_pos := length R0\<rparr>) (R0 @ Hd @ P) (length R0)" by metis
  have we: "word_to_le 4 (htonl (push_bit 31 ep OR index)) = be32 (eix b index)" by (simp add: eix_def Y(1))
  obtain mb3 where w: "mbuf_write_mem al (mb2\<lparr>mb_pos := mb_end mb2\<rparr>) (Some (be32 (eix b index))) = (0, mb3)"
    and t: "\<exists>mb5. srtcp_tag al cr ?rtcp (length H0) mb3 = (0, mb5) \<and> pkt = mb5\<lparr>mb_pos := length H0\<rparr>"
    and tx': "tx' = stream_put tx1 (strm\<lparr>st_rtcp_index := index\<rparr>)"
    using e unfolding ev mbuf_write_u32_def we s(3) by (auto simp: er split: prod.splits if_splits)
  have m2: "mb_at (mb2\<lparr>mb_pos := mb_end mb2\<rparr>) (H0 @ Hd @ Y) (length (H0 @ Hd @ Y))"
    using mb_at_pos [OF Y(2), of "mb_end mb2"] mb_atD(3) [OF Y(2)] by simp
  have m3: "mb_at mb3 (H0 @ (Hd @ Y @ be32 (eix b index))) (length (H0 @ Hd @ Y) + 4)"
    using mb_at_append [OF m2 w] by simp
  obtain mb5 where t5: "srtcp_tag al cr ?rtcp (length H0) mb3 = (0, mb5)" "pkt = mb5\<lparr>mb_pos := length H0\<rparr>" using t by blast
  have co: "comp_ok ?rtcp" using ok by (simp add: session_ok_def)
  from srtcp_tag_ok [OF cr co m3 t5(1)] obtain T m where
    T: "length T = c_tag_len ?rtcp" "mb_at mb5 (H0 @ (Hd @ Y @ be32 (eix b index)) @ T) m"
    "\<And>k. c_hmac ?rtcp = Some k \<Longrightarrow> \<exists>tag. hmac_digest cr k (Hd @ Y @ be32 (eix b index)) = Inr tag \<and> T = take (c_tag_len ?rtcp) tag"
    by metis
  have ap: "mb_at pkt (H0 @ (Hd @ Y @ be32 (eix b index)) @ T) (length H0)" unfolding t5(2) by (rule mb_at_pos [OF T(2)]) simp
  then have lp: "mbuf_left pkt = Hd @ Y @ be32 (eix b index) @ T" using mb_atD(6) by fastforce
  have "index AND 0x7fffffff = index" by (simp add: index_def and.assoc)
  then have ii: "index = index AND 0x7fffffff" by simp
  have ss: "st_ssrc (strm\<lparr>st_rtcp_index := index\<rparr>) = ?ssrc" by (simp add: k(1))
  have "stream_of tx' ?ssrc = strm\<lparr>st_rtcp_index := index\<rparr>"
    unfolding tx' using stream_of_put [of "strm\<lparr>st_rtcp_index := index\<rparr>" tx1 ?ssrc] k(2) unfolding ss by simp
  then have "st_rtcp_index (stream_of tx' ?ssrc) = index" by simp
  from that [OF mb_atD(1) [OF ap] s(1,2) lp T(1) ii this T(3) Y(3)] show thesis .
qed

lemma srtcp_decrypt_eval:
  assumes rd: "mbuf_ready rmb" and left: "mbuf_left rmb = Hd @ Y @ be32 v @ T" and len: "length Hd = 8"
    and tn: "length T = c_tag_len (sr_rtcp rx)" "c_tag_len (sr_rtcp rx) \<le> 20"
    and ssrc: "ssrc = rtcp_ssrc (mbuf_left rmb)" and slot: "srtp_slot al rx ssrc"
    and auth: "\<And>k. c_hmac (sr_rtcp rx) = Some k \<Longrightarrow> \<exists>tag. hmac_digest cr k (Hd @ Y @ be32 v) = Inr tag \<and>
       T = take (c_tag_len (sr_rtcp rx)) tag"
    and fresh: "c_hmac (sr_rtcp rx) \<noteq> None \<Longrightarrow>
       fst (srtp_replay_check (st_replay_rtcp (stream_of rx ssrc)) (ucast (v AND 0x7fffffff)))"
  obtains R0 n m rx' where "mb_at rmb (R0 @ Hd @ Y @ be32 v @ T) n" "length R0 = mb_pos rmb"
    "srtcp_decrypt al cr rx rmb =
      (case srtcp_open cr (sr_rtcp rx) ssrc (v AND 0x7fffffff) (drop_bit 31 v AND 1 \<noteq> 0)
              (length R0) (length R0 + length Hd) (length R0 + length Hd + length Y)
              (rmb\<lparr>mb_pos := m, mb_end := length R0 + length Hd + length Y\<rparr>) of (err, mb5) \<Rightarrow>
         if err \<noteq> 0 then (err, rx', mb5) else (0, rx', mb5\<lparr>mb_pos := length R0\<rparr>))"
    "sr_rtcp rx' = sr_rtcp rx"
proof -
  let ?rtcp = "sr_rtcp rx" and ?ix = "v AND 0x7fffffff" and ?ep = "drop_bit 31 v AND 1 \<noteq> 0"
  have wf: "mbuf_wf rmb" using rd by (simp add: mbuf_ready_def)
  have l8: "8 \<le> length (mbuf_left rmb)" using left len by simp
  have g: "get_rtcp_ssrc rmb = (0, ssrc, mbuf_skip rmb 8)" using get_rtcp_ssrc_eval [OF wf l8] ssrc by (simp add: rtcp_ssrc_def)
  obtain R0 Hd' Y' where s: "mbuf_left rmb = Hd' @ Y'" "length Hd' = 8" "length R0 = mb_pos rmb"
    "mb_at rmb (R0 @ Hd' @ Y') (length R0)" "mb_at (mbuf_skip rmb 8) (R0 @ Hd' @ Y') (length R0 + length Hd')"
    by (rule packet_split [OF rd l8])
  have hy: "Hd' = Hd" "Y' = Y @ be32 v @ T" using s(1,2) left len by simp_all
  note at = s(4,5) [unfolded hy]
  let ?es = "length R0 + length Hd + length Y"
  have a1: "mb_at ((mbuf_skip rmb 8)\<lparr>mb_pos := ?es\<rparr>) (R0 @ Hd @ Y @ be32 v @ T) ?es"
    using mb_at_pos [OF at(2), of ?es] by simp
  have le: "mbuf_left ((mbuf_skip rmb 8)\<lparr>mb_pos := ?es\<rparr>) = be32 v @ T" using mb_atD(6) [OF a1] by simp
  let ?mb2 = "mbuf_skip ((mbuf_skip rmb 8)\<lparr>mb_pos := ?es\<rparr>) 4"
  have rdv: "mbuf_read_u32 ((mbuf_skip rmb 8)\<lparr>mb_pos := ?es\<rparr>) = (htonl v, ?mb2)"
    by (rule mbuf_read_ints(3) [OF mb_atD(2) [OF a1] le])
  have gl: "\<not> mbuf_get_left (mbuf_skip rmb 8) < 4 + c_tag_len ?rtcp" "mb_pos (mbuf_skip rmb 8) = length R0 + length Hd"
    "mb_end (mbuf_skip rmb 8) - (4 + c_tag_len ?rtcp) = ?es"
    using mb_atD(3,4,7) [OF at(2)] tn(1) by simp_all
  obtain strm rx1 where sg: "stream_get al rx ssrc = Inr (strm, rx1)" using stream_get_slot [OF slot] by auto
  note k = stream_get_ok [OF sg]
  have ex: "\<exists>strm1 mb3 m. (case c_hmac ?rtcp of None \<Rightarrow> (0, strm, ?mb2)
      | Some hmac \<Rightarrow> srtcp_decr_auth cr hmac (c_tag_len ?rtcp) (length R0) (ucast ?ix) strm ?mb2) = (0, strm1, mb3) \<and>
      mb3\<lparr>mb_end := ?es\<rparr> = rmb\<lparr>mb_pos := m, mb_end := ?es\<rparr>"
  proof (cases "c_hmac ?rtcp")
    case None
    have "?mb2\<lparr>mb_end := ?es\<rparr> = rmb\<lparr>mb_pos := ?es + 4, mb_end := ?es\<rparr>" by (simp add: mbuf_skip_def)
    then show ?thesis using None by auto
  next
    case (Some hmac)
    obtain tag where tag: "hmac_digest cr hmac (Hd @ Y @ be32 v) = Inr tag" "T = take (c_tag_len ?rtcp) tag"
      using auth [OF Some] by blast
    obtain r where r: "srtp_replay_check (st_replay_rtcp strm) (ucast ?ix) = (True, r)"
      using fresh Some k(1) by (cases "srtp_replay_check (st_replay_rtcp strm) (ucast ?ix)") simp
    have a2: "mb_at ?mb2 (R0 @ (Hd @ Y @ be32 v) @ T) (length R0 + length (Hd @ Y @ be32 v))"
    proof -
      have "?mb2 = (mbuf_skip rmb 8)\<lparr>mb_pos := ?es + 4\<rparr>" by (simp add: mbuf_skip_def)
      then show ?thesis using mb_at_pos [OF at(2), of "?es + 4"] by (simp add: add.assoc)
    qed
    have "srtcp_decr_auth cr hmac (c_tag_len ?rtcp) (length R0) (ucast ?ix) strm ?mb2 =
       (0, strm\<lparr>st_replay_rtcp := r\<rparr>, ?mb2\<lparr>mb_pos := length R0, mb_end := length R0 + length (Hd @ Y @ be32 v)\<rparr>)"
      unfolding srtcp_decr_auth_eval [OF a2 tn tag(1)] Let_def r prod.case using tag(2) by simp
    moreover have "(?mb2\<lparr>mb_pos := length R0, mb_end := length R0 + length (Hd @ Y @ be32 v)\<rparr>)\<lparr>mb_end := ?es\<rparr> =
        rmb\<lparr>mb_pos := length R0, mb_end := ?es\<rparr>" by (simp add: mbuf_skip_def)
    ultimately show ?thesis using Some by auto
  qed
  then obtain strm1 mb3 m where au: "(case c_hmac ?rtcp of None \<Rightarrow> (0, strm, ?mb2)
      | Some hmac \<Rightarrow> srtcp_decr_auth cr hmac (c_tag_len ?rtcp) (length R0) (ucast ?ix) strm ?mb2) = (0, strm1, mb3)"
    "mb3\<lparr>mb_end := ?es\<rparr> = rmb\<lparr>mb_pos := m, mb_end := ?es\<rparr>" by blast
  have "srtcp_decrypt al cr rx rmb =
      (case srtcp_open cr ?rtcp ssrc ?ix ?ep (length R0) (length R0 + length Hd) ?es
              (rmb\<lparr>mb_pos := m, mb_end := ?es\<rparr>) of (err, mb5) \<Rightarrow>
         if err \<noteq> 0 then (err, stream_put rx1 strm1, mb5) else (0, stream_put rx1 strm1, mb5\<lparr>mb_pos := length R0\<rparr>))"
    unfolding srtcp_decrypt_def srtcp_open_def Let_def g prod.case sg sum.case gl(2,3) rdv htonl_htonl s(3) [symmetric] au
    using gl(1) by simp
  then show thesis using that [OF at(1) s(3)] k(5) by simp
qed

lemma srtcp_roundtrip_aux:
  assumes cr: "crypto_ok cr" and ok: "session_ok tx" and same: "sr_rtcp rx = sr_rtcp tx"
    and rd: "mbuf_ready mb" and e: "srtcp_encrypt al cr tx mb = (0, tx', pkt)"
    and rrd: "mbuf_ready rmb" and net: "mbuf_left rmb = mbuf_left pkt"
    and ssrc: "ssrc = rtcp_ssrc (mbuf_left mb)" and slot: "srtp_slot al' rx ssrc"
    and fresh: "c_hmac (sr_rtcp rx) \<noteq> None \<Longrightarrow>
       fst (srtp_replay_check (st_replay_rtcp (stream_of rx ssrc)) (ucast (st_rtcp_index (stream_of tx' ssrc))))"
  shows "\<exists>rx' mb2. srtcp_decrypt al' cr rx rmb = (0, rx', mb2) \<and> mbuf_left mb2 = mbuf_left mb \<and>
    mb_pos mb2 = mb_pos rmb \<and> mbuf_ready mb2"
proof -
  obtain Hd P Y ep index T where "mbuf_ready pkt" and
    p: "mbuf_left mb = Hd @ P" "length Hd = 8" "mbuf_left pkt = Hd @ Y @ be32 (eix ep index) @ T"
    "length T = c_tag_len (sr_rtcp tx)" "index = index AND 0x7fffffff"
    "st_rtcp_index (stream_of tx' (rtcp_ssrc (mbuf_left mb))) = index"
    "\<And>k. c_hmac (sr_rtcp tx) = Some k \<Longrightarrow>
       \<exists>tag. hmac_digest cr k (Hd @ Y @ be32 (eix ep index)) = Inr tag \<and> T = take (c_tag_len (sr_rtcp tx)) tag"
    and op: "\<And>rmb R0 n' m. mb_at rmb (R0 @ Hd @ Y @ be32 (eix ep index) @ T) n' \<Longrightarrow>
       \<exists>mb'. srtcp_open cr (sr_rtcp tx) (rtcp_ssrc (mbuf_left mb)) index ep (length R0) (length R0 + length Hd) (length R0 + length Hd + length Y)
                (rmb\<lparr>mb_pos := m, mb_end := length R0 + length Hd + length Y\<rparr>) = (0, mb') \<and>
              mb_at (mb'\<lparr>mb_pos := length R0\<rparr>) (R0 @ Hd @ P) (length R0)"
    by (rule srtcp_encrypt_ok [OF cr ok rd e]) blast
  note ep = eix_parts [OF p(5), of ep]
  have tn: "c_tag_len (sr_rtcp rx) \<le> 20" using ok by (auto simp: same session_ok_def comp_ok_def)
  have left: "mbuf_left rmb = Hd @ Y @ be32 (eix ep index) @ T" using net p(3) by simp
  have ss: "ssrc = rtcp_ssrc (mbuf_left rmb)" using ssrc p(1,2) left by (simp add: rtcp_ssrc_def)
  have tl: "length T = c_tag_len (sr_rtcp rx)" using p(4) same by simp
  have fr: "fst (srtp_replay_check (st_replay_rtcp (stream_of rx ssrc)) (ucast (eix ep index AND 0x7fffffff)))"
    if "c_hmac (sr_rtcp rx) \<noteq> None" using fresh [OF that] p(6) by (simp only: ep(2) ssrc)
  obtain R0 n m rx' where d: "mb_at rmb (R0 @ Hd @ Y @ be32 (eix ep index) @ T) n" "length R0 = mb_pos rmb"
    "srtcp_decrypt al' cr rx rmb =
      (case srtcp_open cr (sr_rtcp rx) ssrc (eix ep index AND 0x7fffffff) (drop_bit 31 (eix ep index) AND 1 \<noteq> 0)
              (length R0) (length R0 + length Hd) (length R0 + length Hd + length Y)
              (rmb\<lparr>mb_pos := m, mb_end := length R0 + length Hd + length Y\<rparr>) of (err, mb5) \<Rightarrow>
         if err \<noteq> 0 then (err, rx', mb5) else (0, rx', mb5\<lparr>mb_pos := length R0\<rparr>))"
    by (rule srtcp_decrypt_eval [OF rrd left p(2) tl tn ss slot p(7) [folded same] fr])
  from op [OF d(1), of m] obtain mb' where
    op2: "srtcp_open cr (sr_rtcp rx) ssrc index ep (length R0) (length R0 + length Hd) (length R0 + length Hd + length Y)
          (rmb\<lparr>mb_pos := m, mb_end := length R0 + length Hd + length Y\<rparr>) = (0, mb')"
      "mb_at (mb'\<lparr>mb_pos := length R0\<rparr>) (R0 @ Hd @ P) (length R0)" unfolding same ssrc by blast
  have "srtcp_decrypt al' cr rx rmb = (0, rx', mb'\<lparr>mb_pos := length R0\<rparr>)" unfolding d(3) ep op2(1) by simp
  then show ?thesis using mb_atD(1,4,6) [OF op2(2)] p(1) d(2) by simp
qed

lemma srtcp_clear_accepted_aux:
  assumes rd: "mbuf_ready rmb" and left: "mbuf_left rmb = Hd @ Y @ be32 v" and len: "length Hd = 8"
    and cm: "c_hmac (sr_rtcp rx) = None" "c_tag_len (sr_rtcp rx) = 0" and v: "\<not> bit v 31"
    and slot: "srtp_slot al rx (rtcp_ssrc (mbuf_left rmb))"
  shows "\<exists>rx' mb2. srtcp_decrypt al cr rx rmb = (0, rx', mb2) \<and> mbuf_left mb2 = Hd @ Y"
proof -
  have l: "mbuf_left rmb = Hd @ Y @ be32 v @ []" using left by simp
  obtain R0 n m rx' where d: "mb_at rmb (R0 @ Hd @ Y @ be32 v @ []) n" "length R0 = mb_pos rmb"
    "srtcp_decrypt al cr rx rmb =
      (case srtcp_open cr (sr_rtcp rx) (rtcp_ssrc (mbuf_left rmb)) (v AND 0x7fffffff) (drop_bit 31 v AND 1 \<noteq> 0)
              (length R0) (length R0 + length Hd) (length R0 + length Hd + length Y)
              (rmb\<lparr>mb_pos := m, mb_end := length R0 + length Hd + length Y\<rparr>) of (err, mb5) \<Rightarrow>
         if err \<noteq> 0 then (err, rx', mb5) else (0, rx', mb5\<lparr>mb_pos := length R0\<rparr>))"
    by (rule srtcp_decrypt_eval [OF rd l len _ _ refl slot]) (use cm in simp_all)
  have "drop_bit 31 v AND 1 \<noteq> 0 \<longleftrightarrow> bit v 31"
    by (simp add: and_one_eq odd_iff_mod_2_eq_one [symmetric] bit_0 [symmetric] bit_drop_bit_eq del: bit_0)
  then have f: "(drop_bit 31 v AND 1 \<noteq> 0) = False" using v by simp
  have op2: "srtcp_open cr (sr_rtcp rx) ssrc ix False st pl es mb = (0, mb)" for ssrc ix st pl es mb
    by (simp add: srtcp_open_def split: option.splits)
  have "mb_at ((rmb\<lparr>mb_pos := m, mb_end := length R0 + length Hd + length Y\<rparr>)\<lparr>mb_pos := length R0\<rparr>) (R0 @ Hd @ Y) (length R0)"
    by (rule mb_at_pos_end_pos [of rmb "R0 @ Hd @ Y" "be32 v" n]) (use d(1) in simp_all)
  from mb_atD(6) [OF this] show ?thesis unfolding d(3) f op2 by simp
qed

text \<open>An accepted packet carries the HMAC of what precedes the tag and the roll-over counter.\<close>

lemma srtp_authentic_aux:
  assumes cr: "crypto_ok cr" and ok: "session_ok rx" and hm: "c_hmac (sr_rtp rx) = Some k" and rd: "mbuf_ready mb"
    and d: "rtp_hdr_decode rtp_zero mb = (0, h, mbh)" and s: "srtp_decrypt al cr rx mb = (0, rx', mb')"
  shows "\<exists>X T tag. mbuf_left mb = X @ T \<and> length T = c_tag_len (sr_rtp rx) \<and>
    hmac_digest cr k (X @ be32 (st_roc (stream_of rx' (rh_ssrc h)))) = Inr tag \<and> T = take (c_tag_len (sr_rtp rx)) tag"
proof -
  let ?ssrc = "rh_ssrc h" and ?seq = "rh_seq h" and ?cm = "sr_rtp rx" and ?tn = "c_tag_len (sr_rtp rx)"
  have wf: "mbuf_wf mb" using rd by (simp add: mbuf_ready_def)
  obtain n where n: "n \<le> length (mbuf_left mb)" "mbh = mbuf_skip mb n" using rtp_hdr_decode_local [OF wf d] by metis
  obtain H0 Hd R where p: "mbuf_left mb = Hd @ R" "length Hd = n" "length H0 = mb_pos mb"
    "mb_at (mbuf_skip mb n) (H0 @ Hd @ R) (length H0 + length Hd)" by (rule packet_split [OF rd n(1)])
  obtain strm rx1 where g: "stream_get_seq al rx ?ssrc ?seq = Inr (strm, rx1)"
    using s d stream_get_seq_Inl [of al rx ?ssrc ?seq]
    by (cases "stream_get_seq al rx ?ssrc ?seq") (auto simp: srtp_decrypt_def)
  let ?st = "roll_over ?seq strm"
  have nt: "\<not> seq_diff (st_s_l strm) ?seq > 32768"
    using s srtp_decrypt_eq [OF d g, of cr] by (auto simp: ETIMEDOUT_def)
  let ?ix = "srtp_ix (st_roc ?st) ?seq"
  obtain st3 mb3 where u: "srtp_unprotect al cr ?cm (mb_pos mb) ?ix ?st mbh = (0, st3, mb3)"
    using s srtp_decrypt_eq [OF d g, of cr] nt by (auto simp: Let_def split: prod.splits if_splits)
  have "stream_of rx' ?ssrc = seq_top ?seq ((roll_over ?seq (seq_start ?seq (stream_of rx ?ssrc)))\<lparr>st_replay_rtp := r\<rparr>) \<Longrightarrow>
      st_roc (stream_of rx' ?ssrc) = st_roc ?st" for r using stream_get_seq_ok(1) [OF g] by simp
  with srtp_decrypt_ok [OF cr ok d s] have roc: "st_roc (stream_of rx' ?ssrc) = st_roc ?st" by metis
  obtain st2 mb2 where a: "srtp_decr_auth al cr k ?tn (length H0) ?ix ?st (mbuf_skip mb n) = (0, st2, mb2)"
    using u unfolding srtp_unprotect_def hm n(2) p(3) [symmetric] by (auto split: prod.splits if_splits)
  have tn: "4 \<le> ?tn" "?tn \<le> 20" using ok hm by (auto simp: session_ok_def comp_ok_def)
  have len: "?tn \<le> length R"
    using a mb_atD(7) [OF p(4)] by (auto simp: srtp_decr_auth_def EBADMSG_def not_less split: if_splits)
  define Q where "Q = take (length R - ?tn) R"
  define T where "T = drop (length R - ?tn) R"
  have R: "R = Q @ T" "length T = ?tn" using len by (simp_all add: Q_def T_def)
  have at: "mb_at (mbuf_skip mb n) (H0 @ Hd @ Q @ T) (length H0 + length Hd)" using p(4) R(1) by simp
  obtain mb4 mb5 where ev: "srtp_decr_auth al cr k ?tn (length H0) ?ix ?st (mbuf_skip mb n) =
       (case hmac_digest cr k (Hd @ Q @ be32 (st_roc ?st)) of Inl e \<Rightarrow> (e, ?st, mb5) | Inr tag \<Rightarrow>
        if take ?tn tag \<noteq> T then (EAUTH, ?st, mb4)
        else case srtp_replay_check (st_replay_rtp ?st) ?ix of (ok, r) \<Rightarrow>
          (if ok then 0 else EALREADY, ?st\<lparr>st_replay_rtp := r\<rparr>, mb4))"
    by (rule srtp_decr_auth_eval [OF at R(2) tn(1)])
  then obtain tag where tag: "hmac_digest cr k (Hd @ Q @ be32 (st_roc ?st)) = Inr tag"
    using a crypto_fails(2) [OF cr, of k "Hd @ Q @ be32 (st_roc ?st)"] by (auto split: sum.splits)
  then have "T = take ?tn tag" using a ev by (auto simp: EAUTH_def split: if_splits)
  then show ?thesis using tag R p(1) roc by (intro exI [of _ "Hd @ Q"] exI [of _ T] exI [of _ tag]) simp
qed

section \<open>Properties\<close>

text \<open>Concrete parameters for the examples below: a cipher that XORs every byte with one byte of key
  stream, and checksums in place of the tags.\<close>

definition xsum :: "bytes \<Rightarrow> u8 \<Rightarrow> u8" where
  "xsum bs k = foldl (XOR) k bs"

definition cr_wit :: "(u8, u8) crypto" where
  "cr_wit = \<lparr>aes_alloc = (\<lambda>m k. Inr (xsum k 0)), aes_set_iv = (\<lambda>k iv. xsum iv k),
     aes_encr_aad = (\<lambda>c a. (0, xsum a c)), aes_encr = (\<lambda>c p. ((0, map (\<lambda>b. b XOR c) p), c)),
     aes_get_authtag = (\<lambda>c n. Inr (replicate n c)),
     aes_decr_aad = (\<lambda>c a. (0, xsum a c)), aes_decr = (\<lambda>c p. ((0, map (\<lambda>b. b XOR c) p), c)),
     aes_authenticate = (\<lambda>c t. if t = replicate (length t) c then 0 else EAUTH),
     hmac_create = (\<lambda>k. Inr (xsum k 0)), hmac_digest = (\<lambda>k d. Inr (replicate 20 (xsum d k)))\<rparr>"

lemma aad_run_wit: "aad_run (\<lambda>c a. (0, xsum a c)) c as = (0, foldl (\<lambda>c a. xsum a c) c as)"
  by (induction as arbitrary: c) simp_all

lemma cr_wit_ok: "crypto_ok cr_wit"
  unfolding crypto_ok_def cr_wit_def
  by (auto simp: comp_def xor.assoc GCM_TAGLEN_def SHA_DIGEST_LENGTH_def aad_run_wit)

definition comp_wit :: "aes_mode \<Rightarrow> u8 comp" where
  "comp_wit m = \<lparr>c_aes = Some 3, c_mode = m, c_hmac = (if m = AES_MODE_CTR then Some 9 else None),
     c_k_s = replicate 16 0, c_tag_len = (if m = AES_MODE_CTR then 10 else 0)\<rparr>"

definition sess_wit :: "aes_mode \<Rightarrow> u8 srtp" where
  "sess_wit m = \<lparr>sr_rtp = comp_wit m, sr_rtcp = comp_wit m, sr_streaml = []\<rparr>"

lemma sess_wit_ok: "session_ok (sess_wit m)"
  by (cases m) (simp_all add: session_ok_def sess_wit_def comp_wit_def srtp_ok_def comp_ok_def)

definition pkt_wit :: mbuf where
  "pkt_wit = \<lparr>mb_buf = Some ([0x80, 0, 0, 1, 0, 0, 0, 0, 0, 0, 0, 7, 65, 66] @ replicate 50 0),
     mb_size = 64, mb_pos = 0, mb_end = 14\<rparr>"

lemma pkt_wit_left: "mbuf_left pkt_wit = [0x80, 0, 0, 1, 0, 0, 0, 0, 0, 0, 0, 7, 65, 66]" "mbuf_ready pkt_wit"
  by (simp_all add: pkt_wit_def mbuf_left_def mbuf_get_left_def mbuf_bytes_def mbuf_ready_def mbuf_wf_def MEM_SIZE_MAX_def)

lemma pkt_wit_dec: "\<exists>h. rtp_hdr_decode rtp_zero pkt_wit = (0, h, mbuf_skip pkt_wit 12) \<and> rh_ssrc h = 7 \<and> rh_seq h = 1"
proof -
  have wf: "mbuf_wf pkt_wit" using pkt_wit_left(2) by (simp add: mbuf_ready_def)
  show ?thesis
    by (simp add: rtp_hdr_decode_eq [OF wf] pkt_wit_left rtp_fixed_def htons_def htonl_def word_to_le_def upt_rec rtp_zero_def)
qed

lemma slot_wit: "srtp_slot al_all (sess_wit m) x"
  by (simp add: srtp_slot_def sess_wit_def SRTP_MAX_STREAMS_def mem_zalloc_def mem_alloc_def malloc_def
      sizeof_srtp_stream_def MEM_SIZE_MAX_def)

lemma enc_wit: "\<exists>h tx' pkt. rtp_hdr_decode rtp_zero pkt_wit = (0, h, mbuf_skip pkt_wit 12) \<and> rh_ssrc h = 7 \<and> rh_seq h = 1 \<and>
  srtp_encrypt al_all cr_wit (sess_wit AES_MODE_CTR) pkt_wit = (0, tx', pkt) \<and> mbuf_ready pkt \<and> st_roc (stream_of tx' 7) = 0"
proof -
  let ?s = "sess_wit AES_MODE_CTR"
  obtain h where h: "rtp_hdr_decode rtp_zero pkt_wit = (0, h, mbuf_skip pkt_wit 12)" "rh_ssrc h = 7" "rh_seq h = 1"
    using pkt_wit_dec by blast
  obtain strm s1 where g: "stream_get_seq al_all ?s (rh_ssrc h) (rh_seq h) = Inr (strm, s1)"
    using stream_get_seq_slot [OF slot_wit] by (metis surj_pair)
  note k = stream_get_seq_ok [OF g]
  have st: "strm = (stream_fresh 7)\<lparr>st_s_l := 1, st_s_l_set := True\<rparr>" "roll_over 1 strm = strm"
    by (simp_all add: k(1) h stream_of_def stream_find_def sess_wit_def seq_start_def stream_fresh_def roll_over_def seq_diff_def)
  let ?ix = "65536 * ucast (st_roc strm) + ucast (rh_seq h)"
  obtain mb3 where p: "srtp_protect al_all cr_wit (sr_rtp ?s) (st_ssrc strm) (st_roc strm) ?ix 0 (mbuf_skip pkt_wit 12) = (0, mb3)"
    by (simp add: srtp_protect_def sess_wit_def comp_wit_def cr_wit_def srtp_encr_ctr_def mbuf_crypt_def srtp_encr_auth_def
      mbuf_write_u32_def mbuf_write_mem_def mbuf_grow_def pkt_wit_def mbuf_skip_def Let_def szt_def)
  have z: "mb_pos pkt_wit = 0" by (simp add: pkt_wit_def)
  have e: "srtp_encrypt al_all cr_wit ?s pkt_wit = (0, stream_put (stream_put s1 strm) (seq_top 1 strm), mb3\<lparr>mb_pos := 0\<rparr>)"
    using srtp_encrypt_eq [OF h(1) g, of cr_wit] p by (simp add: h z st(2))
  have n: "12 \<le> length (mbuf_left pkt_wit)" by (simp add: pkt_wit_left)
  obtain H0 Hd P where s: "length H0 = mb_pos pkt_wit" "mb_at (mbuf_skip pkt_wit 12) (H0 @ Hd @ P) (length H0 + length Hd)"
    by (rule packet_split [OF pkt_wit_left(2) n])
  have co: "comp_ok (sr_rtp ?s)" "c_aes (sr_rtp ?s) \<noteq> None" using sess_wit_ok [of AES_MODE_CTR] by (simp_all add: session_ok_def)
  obtain Y m where "mb_at mb3 (H0 @ Hd @ Y) m"
    using srtp_protect_unprotect [OF cr_wit_ok co s(2)] p s(1) z by (metis list.size(3))
  from mb_at_pos [OF this, of 0] have "mbuf_ready (mb3\<lparr>mb_pos := 0\<rparr>)" by (simp add: mb_at_def)
  moreover have "st_roc (stream_of (stream_put (stream_put s1 strm) (seq_top 1 strm)) 7) = 0"
    by (subst stream_of_put) (use k(2) h in \<open>simp_all add: st(1) stream_fresh_def\<close>)
  ultimately show ?thesis using e h by blast
qed

text \<open>C1: an SRTP packet survives the journey. If \<open>srtp_encrypt\<close> succeeds on a packet and its
  result reaches a receiver with the same keys in some buffer, \<open>srtp_decrypt\<close> succeeds and
  restores the packet byte by byte, for counter mode with HMAC and for GCM, whatever the header
  (CSRC list, extension). The receiver may have lost or reordered packets: it is enough that it
  settles on the sender's roll-over counter and has not accepted this index before.
\<close>

theorem srtp_roundtrip:
  assumes "crypto_ok cr" "session_ok tx" "sr_rtp rx = sr_rtp tx" "mbuf_ready mb"
    "srtp_encrypt al cr tx mb = (0, tx', pkt)" "rtp_hdr_decode rtp_zero mb = (0, h, mbh)"
    "mbuf_ready rmb" "mbuf_left rmb = mbuf_left pkt" "srtp_slot al' rx (rh_ssrc h)"
    "rx_roc (stream_of rx (rh_ssrc h)) (rh_seq h) = Some (st_roc (stream_of tx' (rh_ssrc h)))"
    "fst (srtp_replay_check (st_replay_rtp (stream_of rx (rh_ssrc h)))
            (srtp_ix (st_roc (stream_of tx' (rh_ssrc h))) (rh_seq h)))"
  shows "\<exists>rx' mb2. srtp_decrypt al' cr rx rmb = (0, rx', mb2) \<and> mbuf_left mb2 = mbuf_left mb \<and>
    mb_pos mb2 = mb_pos rmb \<and> mbuf_ready mb2"
  by (rule srtp_roundtrip_aux [OF assms])

lemma fresh_wit: "stream_of (sess_wit m) x = stream_fresh x"
  by (simp add: stream_of_def stream_find_def sess_wit_def)

lemma rx_wit:
  assumes "rh_ssrc h = 7" "rh_seq h = 1" "st_roc t = 0"
  shows "rx_roc (stream_of (sess_wit m) (rh_ssrc h)) (rh_seq h) = Some (st_roc t)"
    "fst (srtp_replay_check (st_replay_rtp (stream_of (sess_wit m) (rh_ssrc h))) (srtp_ix (st_roc t) (rh_seq h)))"
  by (simp_all add: assms fresh_wit rx_roc_def seq_start_def stream_fresh_def seq_diff_def roll_over_def
      srtp_replay_init_def srtp_ix_def srtp_replay_check_def Let_def)

theorem srtp_roundtrip_witness:
  "\<exists>tx' pkt rx' mb2. srtp_encrypt al_all cr_wit (sess_wit AES_MODE_CTR) pkt_wit = (0, tx', pkt) \<and>
     srtp_decrypt al_all cr_wit (sess_wit AES_MODE_CTR) pkt = (0, rx', mb2) \<and> mbuf_left mb2 = mbuf_left pkt_wit"
proof -
  obtain h tx' pkt where e: "rtp_hdr_decode rtp_zero pkt_wit = (0, h, mbuf_skip pkt_wit 12)" "rh_ssrc h = 7" "rh_seq h = 1"
    "srtp_encrypt al_all cr_wit (sess_wit AES_MODE_CTR) pkt_wit = (0, tx', pkt)" "mbuf_ready pkt" "st_roc (stream_of tx' 7) = 0"
    using enc_wit by blast
  note w = rx_wit [of h "stream_of tx' (rh_ssrc h)", OF e(2,3) e(6) [folded e(2)]]
  show ?thesis
    using srtp_roundtrip [OF cr_wit_ok sess_wit_ok refl pkt_wit_left(2) e(4,1,5) refl slot_wit w] e(4) by blast
qed


lemma dec_wit: "\<exists>pkt rx' mb2. srtp_decrypt al_all cr_wit (sess_wit AES_MODE_CTR) pkt = (0, rx', mb2) \<and> mbuf_ready pkt \<and>
  (\<exists>h mbh. rtp_hdr_decode rtp_zero pkt = (0, h, mbh))"
proof -
  obtain h tx' pkt where e: "rtp_hdr_decode rtp_zero pkt_wit = (0, h, mbuf_skip pkt_wit 12)" "rh_ssrc h = 7" "rh_seq h = 1"
    "srtp_encrypt al_all cr_wit (sess_wit AES_MODE_CTR) pkt_wit = (0, tx', pkt)" "mbuf_ready pkt" "st_roc (stream_of tx' 7) = 0"
    using enc_wit by blast
  note w = rx_wit [of h "stream_of tx' (rh_ssrc h)", OF e(2,3) e(6) [folded e(2)]]
  obtain rx' mb2 where d: "srtp_decrypt al_all cr_wit (sess_wit AES_MODE_CTR) pkt = (0, rx', mb2)"
    using srtp_roundtrip_aux [OF cr_wit_ok sess_wit_ok refl pkt_wit_left(2) e(4,1,5) refl slot_wit w] by blast
  obtain h' mbh where "rtp_hdr_decode rtp_zero pkt = (0, h', mbh)" by (rule srtp_decrypt_hdr [OF d])
  then show ?thesis using d e(5) by blast
qed


text \<open>C2: only authentic packets are accepted by the HMAC suites. If \<open>srtp_decrypt\<close> succeeds, the
  packet ends with the first \<open>tag_len\<close> bytes of the HMAC, under the session's key, of everything
  before the tag followed by the roll-over counter the receiver settled on.
\<close>

theorem srtp_authentic:
  assumes "crypto_ok cr" "session_ok rx" "c_hmac (sr_rtp rx) = Some k" "mbuf_ready mb"
    "rtp_hdr_decode rtp_zero mb = (0, h, mbh)" "srtp_decrypt al cr rx mb = (0, rx', mb')"
  shows "\<exists>X T tag. mbuf_left mb = X @ T \<and> length T = c_tag_len (sr_rtp rx) \<and>
    hmac_digest cr k (X @ be32 (st_roc (stream_of rx' (rh_ssrc h)))) = Inr tag \<and> T = take (c_tag_len (sr_rtp rx)) tag"
  by (rule srtp_authentic_aux [OF assms])

theorem srtp_authentic_witness:
  "\<exists>pkt X T tag roc. mbuf_left pkt = X @ T \<and> length T = 10 \<and>
     hmac_digest cr_wit 9 (X @ be32 roc) = Inr tag \<and> T = take 10 tag"
proof -
  obtain pkt rx' mb2 h mbh where d: "srtp_decrypt al_all cr_wit (sess_wit AES_MODE_CTR) pkt = (0, rx', mb2)" "mbuf_ready pkt"
    "rtp_hdr_decode rtp_zero pkt = (0, h, mbh)" using dec_wit by blast
  have "c_hmac (sr_rtp (sess_wit AES_MODE_CTR)) = Some 9" "c_tag_len (sr_rtp (sess_wit AES_MODE_CTR)) = 10"
    by (simp_all add: sess_wit_def comp_wit_def)
  with srtp_authentic [OF cr_wit_ok sess_wit_ok _ d(2,3,1), of 9] show ?thesis by metis
qed

text \<open>C9: a single packet that fails authentication can silence a stream. The roll-over counter is
  advanced and the highest sequence number reset before the tag is verified, and they stay so when
  the packet is refused. From then on every packet of that stream with a sequence number above
  32768 is dropped with \<open>ETIMEDOUT\<close>, until the receiver accepts one with a small number.
\<close>

theorem srtp_forged_rollover:
  assumes "rtp_hdr_decode rtp_zero mb = (0, h, mbh)" "rh_ssrc h \<in> ssrcs rx" "st_s_l_set (stream_of rx (rh_ssrc h))"
    "seq_diff (st_s_l (stream_of rx (rh_ssrc h))) (rh_seq h) \<le> -32768"
    "srtp_decrypt al cr rx mb = (e, rx', mb')" "e \<noteq> 0"
    "rtp_hdr_decode rtp_zero mb2 = (0, h2, mbh2)" "rh_ssrc h2 = rh_ssrc h" "unat (rh_seq h2) > 32768"
  shows "st_roc (stream_of rx' (rh_ssrc h)) = st_roc (stream_of rx (rh_ssrc h)) + 1 \<and>
    fst (srtp_decrypt al2 cr rx' mb2) = ETIMEDOUT"
proof -
  note k = srtp_forged_rollover_aux [OF assms(1-5)]
  have "srtp_slot al2 rx' (rh_ssrc h2)" using k(4) by (simp add: srtp_slot_def assms(8))
  then obtain strm rx1 where g: "stream_get_seq al2 rx' (rh_ssrc h2) (rh_seq h2) = Inr (strm, rx1)"
    using stream_get_seq_slot by (metis surj_pair)
  have "strm = stream_of rx' (rh_ssrc h)" using stream_get_seq_ok(1) [OF g] k(3) by (simp add: assms(8) seq_start_def)
  then have "seq_diff (st_s_l strm) (rh_seq h2) > 32768"
    using k(2) [OF assms(6)] assms(9) by (simp add: seq_diff_def del: of_nat_unat)
  then show ?thesis using srtp_decrypt_eq [OF assms(7) g, of cr] k(1) by simp
qed

definition strm_wit :: srtp_stream where
  "strm_wit = (stream_fresh 7)\<lparr>st_s_l := 40000, st_s_l_set := True\<rparr>"

definition rx_late :: "u8 srtp" where
  "rx_late = (sess_wit AES_MODE_CTR)\<lparr>sr_streaml := [strm_wit]\<rparr>"

definition pkt_late :: mbuf where
  "pkt_late = \<lparr>mb_buf = Some ([0x80, 0, 0x9c, 0x41, 0, 0, 0, 0, 0, 0, 0, 7, 65, 66] @ replicate 50 0),
     mb_size = 64, mb_pos = 0, mb_end = 14\<rparr>"

lemma pkt_late_dec: "\<exists>h. rtp_hdr_decode rtp_zero pkt_late = (0, h, mbuf_skip pkt_late 12) \<and> rh_ssrc h = 7 \<and> rh_seq h = 40001"
proof -
  have l: "mbuf_left pkt_late = [0x80, 0, 0x9c, 0x41, 0, 0, 0, 0, 0, 0, 0, 7, 65, 66]" "mbuf_wf pkt_late"
    by (simp_all add: pkt_late_def mbuf_left_def mbuf_get_left_def mbuf_bytes_def mbuf_wf_def MEM_SIZE_MAX_def)
  show ?thesis
    by (simp add: rtp_hdr_decode_eq [OF l(2)] l(1) rtp_fixed_def htons_def htonl_def word_to_le_def upt_rec rtp_zero_def)
qed

theorem srtp_forged_rollover_witness:
  "\<exists>rx' mb'. srtp_decrypt al_all cr_wit rx_late pkt_wit = (EBADMSG, rx', mb') \<and>
     fst (srtp_decrypt al_all cr_wit rx' pkt_late) = ETIMEDOUT"
proof -
  obtain h where h: "rtp_hdr_decode rtp_zero pkt_wit = (0, h, mbuf_skip pkt_wit 12)" "rh_ssrc h = 7" "rh_seq h = 1"
    using pkt_wit_dec by blast
  obtain h2 where h2: "rtp_hdr_decode rtp_zero pkt_late = (0, h2, mbuf_skip pkt_late 12)" "rh_ssrc h2 = 7" "rh_seq h2 = 40001"
    using pkt_late_dec by blast
  have st: "stream_of rx_late 7 = strm_wit" "7 \<in> ssrcs rx_late"
    by (simp_all add: stream_of_def stream_find_def rx_late_def strm_wit_def stream_fresh_def ssrcs_def)
  have g: "stream_get_seq al_all rx_late (rh_ssrc h) (rh_seq h) = Inr (strm_wit, rx_late)"
    by (simp add: h stream_get_seq_def stream_get_def stream_find_def rx_late_def strm_wit_def stream_fresh_def)
  have u: "\<exists>s mb'. srtp_unprotect al_all cr_wit (sr_rtp rx_late) st ix strm (mbuf_skip pkt_wit 12) = (EBADMSG, s, mb')" for st ix strm
    by (simp add: srtp_unprotect_def rx_late_def sess_wit_def comp_wit_def srtp_decr_auth_def pkt_wit_def
        mbuf_skip_def mbuf_get_left_def EBADMSG_def)
  have nd: "\<not> seq_diff (st_s_l strm_wit) (rh_seq h) > 32768" by (simp add: h strm_wit_def seq_diff_def)
  obtain s3 mb3 where u3: "srtp_unprotect al_all cr_wit (sr_rtp rx_late) (mb_pos pkt_wit)
      (srtp_ix (st_roc (roll_over (rh_seq h) strm_wit)) (rh_seq h)) (roll_over (rh_seq h) strm_wit) (mbuf_skip pkt_wit 12) =
      (EBADMSG, s3, mb3)" using u by blast
  have "\<exists>rx' mb'. srtp_decrypt al_all cr_wit rx_late pkt_wit = (EBADMSG, rx', mb')"
    unfolding srtp_decrypt_eq [OF h(1) g] Let_def u3 using nd by (simp add: EBADMSG_def)
  then obtain rx' mb' where d: "srtp_decrypt al_all cr_wit rx_late pkt_wit = (EBADMSG, rx', mb')" by blast
  have "seq_diff (st_s_l (stream_of rx_late (rh_ssrc h))) (rh_seq h) \<le> -32768" "rh_ssrc h \<in> ssrcs rx_late"
    "st_s_l_set (stream_of rx_late (rh_ssrc h))" "rh_ssrc h2 = rh_ssrc h" "unat (rh_seq h2) > 32768" "EBADMSG \<noteq> 0"
    by (simp_all add: h h2 st strm_wit_def seq_diff_def EBADMSG_def)
  from srtp_forged_rollover [OF h(1) this(2,3,1) d this(6) h2(1) this(4,5)] d show ?thesis by blast
qed

text \<open>C5: an SRTCP packet survives the journey: what \<open>srtcp_encrypt\<close> makes of it, arriving in some
  buffer at a receiver with the same keys, is restored by \<open>srtcp_decrypt\<close> byte by byte, with and
  without encryption, unless the replay list (used by the HMAC suites) has its index already.
\<close>

theorem srtcp_roundtrip:
  assumes "crypto_ok cr" "session_ok tx" "sr_rtcp rx = sr_rtcp tx" "mbuf_ready mb"
    "srtcp_encrypt al cr tx mb = (0, tx', pkt)" "mbuf_ready rmb" "mbuf_left rmb = mbuf_left pkt"
    "ssrc = rtcp_ssrc (mbuf_left mb)" "srtp_slot al' rx ssrc"
    "c_hmac (sr_rtcp rx) \<noteq> None \<Longrightarrow>
       fst (srtp_replay_check (st_replay_rtcp (stream_of rx ssrc)) (ucast (st_rtcp_index (stream_of tx' ssrc))))"
  shows "\<exists>rx' mb2. srtcp_decrypt al' cr rx rmb = (0, rx', mb2) \<and> mbuf_left mb2 = mbuf_left mb \<and>
    mb_pos mb2 = mb_pos rmb \<and> mbuf_ready mb2"
  by (rule srtcp_roundtrip_aux [OF assms])

lemma rtcp_enc_wit: "\<exists>tx' pkt. srtcp_encrypt al_all cr_wit (sess_wit AES_MODE_GCM) pkt_wit = (0, tx', pkt)"
proof -
  have wf: "mbuf_wf pkt_wit" using pkt_wit_left(2) by (simp add: mbuf_ready_def)
  have g: "get_rtcp_ssrc pkt_wit = (0, rtcp_ssrc (mbuf_left pkt_wit), mbuf_skip pkt_wit 8)"
    using get_rtcp_ssrc_eval [OF wf] by (simp add: rtcp_ssrc_def pkt_wit_left)
  obtain strm s1 where sg: "stream_get al_all (sess_wit AES_MODE_GCM) (rtcp_ssrc (mbuf_left pkt_wit)) = Inr (strm, s1)"
    using stream_get_slot [OF slot_wit] by (metis surj_pair)
  show ?thesis
    unfolding srtcp_encrypt_def Let_def g prod.case sg sum.case
    by (simp add: sess_wit_def comp_wit_def cr_wit_def srtcp_encr_gcm_def mbuf_crypt_def
      mbuf_write_u32_def mbuf_write_mem_def mbuf_grow_def pkt_wit_def mbuf_skip_def Let_def szt_def GCM_TAGLEN_def)
qed

theorem srtcp_roundtrip_witness:
  "\<exists>tx' pkt rx' mb2. srtcp_encrypt al_all cr_wit (sess_wit AES_MODE_GCM) pkt_wit = (0, tx', pkt) \<and>
     srtcp_decrypt al_all cr_wit (sess_wit AES_MODE_GCM) pkt = (0, rx', mb2) \<and> mbuf_left mb2 = mbuf_left pkt_wit"
proof -
  obtain tx' pkt where e: "srtcp_encrypt al_all cr_wit (sess_wit AES_MODE_GCM) pkt_wit = (0, tx', pkt)" using rtcp_enc_wit by blast
  have r: "mbuf_ready pkt" by (rule srtcp_encrypt_ok [OF cr_wit_ok sess_wit_ok pkt_wit_left(2) e])
  have "c_hmac (sr_rtcp (sess_wit AES_MODE_GCM)) = None" by (simp add: sess_wit_def comp_wit_def)
  then show ?thesis
    using srtcp_roundtrip [OF cr_wit_ok sess_wit_ok refl pkt_wit_left(2) e r refl refl slot_wit] e by blast
qed

text \<open>C10: with the GCM suites the E flag decides whether an SRTCP packet is authenticated at all. A
  packet of any content whose E flag is clear is accepted and handed on, whatever the key, the
  cipher and the history of the session.
\<close>

theorem srtcp_clear_accepted:
  assumes "session_ok rx" "c_mode (sr_rtcp rx) = AES_MODE_GCM" "mbuf_ready rmb"
    "mbuf_left rmb = Hd @ Y @ be32 v" "length Hd = 8" "\<not> bit v 31"
    "srtp_slot al rx (rtcp_ssrc (mbuf_left rmb))"
  shows "\<exists>rx' mb2. srtcp_decrypt al cr rx rmb = (0, rx', mb2) \<and> mbuf_left mb2 = Hd @ Y"
proof -
  have "c_hmac (sr_rtcp rx) = None" "c_tag_len (sr_rtcp rx) = 0"
    using assms(1,2) by (auto simp: session_ok_def comp_ok_def)
  from srtcp_clear_accepted_aux [OF assms(3-5) this assms(6,7)] show ?thesis .
qed

definition pkt_clear :: mbuf where
  "pkt_clear = \<lparr>mb_buf = Some ([0x80, 0xc9, 0, 1, 0, 0, 0, 7] @ [1, 2] @ be32 5), mb_size = 14, mb_pos = 0, mb_end = 14\<rparr>"

theorem srtcp_clear_accepted_witness:
  "\<exists>rx' mb2. srtcp_decrypt al_all cr_wit (sess_wit AES_MODE_GCM) pkt_clear = (0, rx', mb2) \<and>
     mbuf_left mb2 = [0x80, 0xc9, 0, 1, 0, 0, 0, 7] @ [1, 2]"
proof (rule srtcp_clear_accepted [OF sess_wit_ok _ _ _ _ _ slot_wit])
  show "c_mode (sr_rtcp (sess_wit AES_MODE_GCM)) = AES_MODE_GCM" by (simp add: sess_wit_def comp_wit_def)
  show "mbuf_ready pkt_clear" by (simp add: pkt_clear_def mbuf_ready_def mbuf_wf_def mbuf_bytes_def MEM_SIZE_MAX_def)
  show "mbuf_left pkt_clear = [0x80, 0xc9, 0, 1, 0, 0, 0, 7] @ [1, 2] @ be32 5"
    by (simp add: pkt_clear_def mbuf_left_def mbuf_get_left_def mbuf_bytes_def)
qed simp_all


definition key_wit :: bytes where
  "key_wit = replicate 16 5 @ replicate 12 9"

lemma alloc_wit: "\<exists>s. srtp_alloc al_all cr_wit SRTP_AES_128_GCM key_wit False = Inr s"
  by (simp add: srtp_alloc_def key_wit_def mem_zalloc_def mem_alloc_def malloc_def MEM_SIZE_MAX_def sizeof_srtp_def
      comp_init_def comp_zero_def Let_def srtp_derive_def cr_wit_def res_err_def res_val_def MAX_KEYLEN_def
      SHA_DIGEST_LENGTH_def AES_BLOCK_SIZE_def)


end
