(* ===== verification/Dns.thy ===== *)
theory Dns
  imports Codec Str Hash
begin

text \<open>
  DNS messages: header (\<^verbatim>\<open>dns/hdr.c\<close>), domain names with compression (\<^verbatim>\<open>dns/dname.c\<close>),
  character strings (\<^verbatim>\<open>dns/cstr.c\<close>) and resource records (\<^verbatim>\<open>dns/rr.c\<close>).

  The table of names already written (\<^verbatim>\<open>struct hash *ht_dname\<close>) is the sequence of its entries in
  the order of insertion. A lookup visits one bucket and compares without case; names that compare
  equal have the same hash value (\<open>dname_same_bucket\<close>), hence share the bucket, where insertion
  order is kept. The table may be absent (NULL), then nothing is found and nothing stored.
\<close>

unbundle bit_operations_syntax

section \<open>Header\<close>

record dnshdr =
  dh_id :: u16
  dh_qr :: bool
  dh_opcode :: u8
  dh_aa :: bool
  dh_tc :: bool
  dh_rd :: bool
  dh_ra :: bool
  dh_z :: u8
  dh_rcode :: u8
  dh_nq :: u16
  dh_nans :: u16
  dh_nauth :: u16
  dh_nadd :: u16

definition DNS_HEADER_SIZE :: nat where
  "DNS_HEADER_SIZE = 12"

definition dns_flags :: "dnshdr \<Rightarrow> u16" where
  "dns_flags hdr =
     ((((((push_bit 15 (of_bool (dh_qr hdr)) OR push_bit 11 (ucast (dh_opcode hdr)))
       OR push_bit 10 (of_bool (dh_aa hdr))) OR push_bit 9 (of_bool (dh_tc hdr)))
       OR push_bit 8 (of_bool (dh_rd hdr))) OR push_bit 7 (of_bool (dh_ra hdr)))
       OR push_bit 4 (ucast (dh_z hdr))) OR ucast (dh_rcode hdr)"

definition dns_hdr_encode :: "malloc_env \<Rightarrow> mbuf \<Rightarrow> dnshdr \<Rightarrow> errno \<times> mbuf" where
  "dns_hdr_encode al mb hdr =
     err_or (err_or (err_or (err_or (err_or
       (mbuf_write_u16 al mb (htons (dh_id hdr)))
       (\<lambda>mb. mbuf_write_u16 al mb (htons (dns_flags hdr))))
       (\<lambda>mb. mbuf_write_u16 al mb (htons (dh_nq hdr))))
       (\<lambda>mb. mbuf_write_u16 al mb (htons (dh_nans hdr))))
       (\<lambda>mb. mbuf_write_u16 al mb (htons (dh_nauth hdr))))
       (\<lambda>mb. mbuf_write_u16 al mb (htons (dh_nadd hdr)))"

text \<open>\<open>d_left n e d\<close>: the guard \<^verbatim>\<open>if (mbuf_get_left(mb) < n) return e;\<close>.\<close>

definition d_left :: "nat \<Rightarrow> errno \<Rightarrow> 'a dec \<Rightarrow> 'a dec" where
  "d_left n e d mb = (if mbuf_get_left mb < n then (Inl e, mb) else d mb)"

definition dns_hdr_decode :: "dnshdr dec" where
  "dns_hdr_decode =
     d_left DNS_HEADER_SIZE EINVAL (d_bind d_u16 (\<lambda>id. d_bind d_u16 (\<lambda>flags.
       d_bind d_u16 (\<lambda>nq. d_bind d_u16 (\<lambda>nans. d_bind d_u16 (\<lambda>nauth. d_bind d_u16 (\<lambda>nadd.
         d_ret \<lparr>dh_id = id,
                dh_qr = (0x1 AND drop_bit 15 flags \<noteq> 0),
                dh_opcode = ucast (0xf AND drop_bit 11 flags),
                dh_aa = (0x1 AND drop_bit 10 flags \<noteq> 0),
                dh_tc = (0x1 AND drop_bit 9 flags \<noteq> 0),
                dh_rd = (0x1 AND drop_bit 8 flags \<noteq> 0),
                dh_ra = (0x1 AND drop_bit 7 flags \<noteq> 0),
                dh_z = ucast (0x7 AND drop_bit 4 flags),
                dh_rcode = ucast (0xf AND drop_bit 0 flags),
                dh_nq = nq, dh_nans = nans, dh_nauth = nauth, dh_nadd = nadd\<rparr>)))))))"

definition dns_hdr_opcodename :: "u8 \<Rightarrow> bytes" where
  "dns_hdr_opcodename opcode =
     (if opcode = 0 then str_bytes ''QUERY'' else if opcode = 1 then str_bytes ''IQUERY''
      else if opcode = 2 then str_bytes ''STATUS'' else if opcode = 4 then str_bytes ''NOTIFY''
      else str_bytes ''??'')"

definition dns_hdr_rcodename :: "u8 \<Rightarrow> bytes" where
  "dns_hdr_rcodename rcode =
     (if rcode = 0 then str_bytes ''OK'' else if rcode = 1 then str_bytes ''Format Error''
      else if rcode = 2 then str_bytes ''Server Failure'' else if rcode = 3 then str_bytes ''Name Error''
      else if rcode = 4 then str_bytes ''Not Implemented'' else if rcode = 5 then str_bytes ''Refused''
      else if rcode = 9 then str_bytes ''Server Not Authoritative for zone''
      else str_bytes ''??'')"

section \<open>Domain names\<close>

definition COMP_MASK :: u8 where
  "COMP_MASK = 0xc0"

definition OFFSET_MASK :: nat where
  "OFFSET_MASK = 0x3fff"

definition COMP_LOOP :: nat where
  "COMP_LOOP = 255"

definition DNAME_BUF :: nat where
  "DNAME_BUF = 256"

definition sizeof_dname :: nat where
  "sizeof_dname = 48"

type_synonym dname_tab = "(bytes \<times> nat) list option"

definition dname_append :: "malloc_env \<Rightarrow> dname_tab \<Rightarrow> bytes \<Rightarrow> nat \<Rightarrow> dname_tab" where
  "dname_append al ht name pos =
     (case ht of None \<Rightarrow> None
      | Some t \<Rightarrow>
         if pos > OFFSET_MASK \<or> name = [] then ht
         else case mem_zalloc al sizeof_dname of None \<Rightarrow> ht
         | Some _ \<Rightarrow> (case str_dup al (Some name) of Inl _ \<Rightarrow> ht
                      | Inr s \<Rightarrow> Some (t @ [(s, pos)])))"

definition dname_lookup :: "dname_tab \<Rightarrow> bytes \<Rightarrow> nat option" where
  "dname_lookup ht name =
     (case ht of None \<Rightarrow> None
      | Some t \<Rightarrow> map_option snd (find (\<lambda>dn. str_casecmp (Some (fst dn)) (Some name) = 0) t))"

definition dname_encode_pointer :: "malloc_env \<Rightarrow> mbuf \<Rightarrow> nat \<Rightarrow> errno \<times> mbuf" where
  "dname_encode_pointer al mb pos = mbuf_write_u16 al mb (htons (word_of_nat pos OR push_bit 8 0xc0))"

text \<open>\<^verbatim>\<open>mb->buf[pos] = v\<close>.\<close>

definition mbuf_poke :: "mbuf \<Rightarrow> nat \<Rightarrow> u8 \<Rightarrow> mbuf" where
  "mbuf_poke mb pos v = mb\<lparr>mb_buf := map_option (\<lambda>b. b[pos := v]) (mb_buf mb)\<rparr>"

fun dname_enc_loop ::
  "malloc_env \<Rightarrow> bool \<Rightarrow> nat \<Rightarrow> dname_tab \<Rightarrow> nat \<Rightarrow> bytes \<Rightarrow> mbuf \<Rightarrow> errno \<times> mbuf \<times> dname_tab" where
  "dname_enc_loop al cmp start ht pos [] mb =
     (let lablen = mb_pos mb - pos - 1 in
      if lablen = 0 then (0, mb, ht)
      else case mbuf_write_u8 al (mbuf_poke mb pos (word_of_nat lablen)) 0 of (err, mb1) \<Rightarrow> (err, mb1, ht))"
| "dname_enc_loop al cmp start ht pos (c # name) mb =
     (let lablen = mb_pos mb - pos - 1 in
      if c = 0x2e then
        (if lablen = 0 then (EINVAL, mb, ht)
         else
           let mb1 = mbuf_poke mb pos (word_of_nat lablen); dn = dname_lookup ht name in
           if dn \<noteq> None \<and> cmp then
             (case dname_encode_pointer al mb1 (the dn) of (err, mb2) \<Rightarrow> (err, mb2, ht))
           else
             let pos1 = mb_pos mb1;
                 ht1 = (if dn = None then dname_append al ht name (sz_sub pos1 start) else ht) in
             case mbuf_write_u8 al mb1 0 of (err, mb2) \<Rightarrow>
               if err \<noteq> 0 then (err, mb2, ht1) else dname_enc_loop al cmp start ht1 pos1 name mb2)
      else
        case mbuf_write_u8 al mb c of (err, mb1) \<Rightarrow>
          if err \<noteq> 0 then (err, mb1, ht) else dname_enc_loop al cmp start ht pos name mb1)"

definition dns_dname_encode ::
  "malloc_env \<Rightarrow> bytes \<Rightarrow> nat \<Rightarrow> bool \<Rightarrow> mbuf \<times> dname_tab \<Rightarrow> errno \<times> mbuf \<times> dname_tab" where
  "dns_dname_encode al name start cmp st =
     (case st of (mb, ht) \<Rightarrow>
      let dn = dname_lookup ht name in
      if dn \<noteq> None \<and> cmp then
        (case dname_encode_pointer al mb (the dn) of (err, mb1) \<Rightarrow> (err, mb1, ht))
      else
        let pos = mb_pos mb;
            ht1 = (if dn = None then dname_append al ht name (sz_sub pos start) else ht) in
        case mbuf_write_u8 al mb 0 of (err, mb1) \<Rightarrow>
          if name = [0x2e] \<or> err \<noteq> 0 then (err, mb1, ht1)
          else dname_enc_loop al cmp start ht1 pos name mb1)"

text \<open>
  The decoder. \<open>acc\<close> is what has been stored in \<^verbatim>\<open>buf[256]\<close>, so that \<^verbatim>\<open>i\<close> is its length;
  \<open>ret\<close> is \<^verbatim>\<open>pos\<close> once a pointer has been followed (\<^verbatim>\<open>comp\<close>). The result is a C string: it
  ends at the first NUL among the bytes copied.
\<close>

function dname_dec_loop ::
  "malloc_env \<Rightarrow> nat \<Rightarrow> nat \<Rightarrow> nat option \<Rightarrow> bytes \<Rightarrow> mbuf \<Rightarrow> (errno + bytes) \<times> mbuf" where
  "dname_dec_loop al start loopc ret acc mb =
     (if \<not> mb_pos mb < mb_end mb then (Inl EINVAL, mb)
      else
        let len = mbuf_bytes mb ! mb_pos mb; mb1 = mb\<lparr>mb_pos := mb_pos mb + 1\<rparr> in
        if len = 0 then
          let mb2 = (case ret of None \<Rightarrow> mb1 | Some pos \<Rightarrow> mb1\<lparr>mb_pos := pos\<rparr>) in
          (case mem_alloc al (length acc + 1) of None \<Rightarrow> (Inl ENOMEM, mb2)
           | Some _ \<Rightarrow> (Inr (str_ncpy (takeWhile (\<lambda>c. c \<noteq> 0) acc) (length acc + 1)), mb2))
        else if len AND COMP_MASK = COMP_MASK then
          (if loopc > COMP_LOOP then (Inl EINVAL, mb1)
           else if mbuf_get_left mb < 2 then (Inl EINVAL, mb)
           else case mbuf_read_u16 mb of (v, mb2) \<Rightarrow>
             let offset = unat (ntohs v AND 0x3fff) in
             dname_dec_loop al start (loopc + 1)
               (case ret of None \<Rightarrow> Some (mb_pos mb2) | Some pos \<Rightarrow> Some pos)
               acc (mb2\<lparr>mb_pos := szt (offset + start)\<rparr>))
        else if unat len > mbuf_get_left mb1 then (Inl EINVAL, mb1)
        else if unat len + length acc + 2 > DNAME_BUF then (Inl EINVAL, mb1)
        else
          dname_dec_loop al start loopc ret
            ((if acc \<noteq> [] then acc @ [0x2e] else acc) @ take (unat len) (drop (mb_pos mb1) (mbuf_bytes mb1)))
            (mb1\<lparr>mb_pos := mb_pos mb1 + unat len\<rparr>))"
  by pat_completeness auto

termination
  by (relation "measures [\<lambda>(al, start, loopc, ret, acc, mb). COMP_LOOP + 1 - loopc,
      \<lambda>(al, start, loopc, ret, acc, mb). mb_end mb - mb_pos mb]")
    (auto simp: mbuf_read_u16_def mbuf_read_int_def mbuf_get_left_def)

declare dname_dec_loop.simps [simp del]

definition dns_dname_decode :: "malloc_env \<Rightarrow> nat \<Rightarrow> bytes dec" where
  "dns_dname_decode al start mb = dname_dec_loop al start 0 None [] mb"

section \<open>Character strings\<close>

definition dns_cstr_encode :: "malloc_env \<Rightarrow> mbuf \<Rightarrow> bytes \<Rightarrow> errno \<times> mbuf" where
  "dns_cstr_encode al mb str =
     (let len = word_of_nat (length str) :: u8 in
      err_or (mbuf_write_u8 al mb len) (\<lambda>mb. mbuf_write_mem al mb (Some (take (unat len) str))))"

text \<open>The C string in the block that \<^verbatim>\<open>mbuf_strdup\<close> returns ends at its first NUL.\<close>

definition dns_cstr_decode :: "malloc_env \<Rightarrow> bytes dec" where
  "dns_cstr_decode al =
     d_left 1 EINVAL (d_bind d_u8 (\<lambda>len. d_left (unat len) EBADMSG
       (d_bind (d_strdup al (unat len)) (\<lambda>str. d_ret (takeWhile (\<lambda>c. c \<noteq> 0) str)))))"

section \<open>Resource records\<close>

datatype dns_rdata =
    DNS_A u32
  | DNS_NS bytes
  | DNS_CNAME bytes
  | DNS_SOA bytes bytes u32 u32 u32 u32 u32
  | DNS_PTR bytes
  | DNS_MX u16 bytes
  | DNS_TXT bytes
  | DNS_AAAA bytes
  | DNS_SRV u16 u16 u16 bytes
  | DNS_NAPTR u16 u16 bytes bytes bytes bytes
  | DNS_OTHER u16

record dnsrr =
  rr_name :: bytes
  rr_dnsclass :: u16
  rr_ttl :: int
  rr_rdlen :: u16
  rr_rdata :: dns_rdata

definition sizeof_dnsrr :: nat where
  "sizeof_dnsrr = 136"

fun rr_type :: "dns_rdata \<Rightarrow> u16" where
  "rr_type (DNS_A _) = 0x0001"
| "rr_type (DNS_NS _) = 0x0002"
| "rr_type (DNS_CNAME _) = 0x0005"
| "rr_type (DNS_SOA _ _ _ _ _ _ _) = 0x0006"
| "rr_type (DNS_PTR _) = 0x000c"
| "rr_type (DNS_MX _ _) = 0x000f"
| "rr_type (DNS_TXT _) = 0x0010"
| "rr_type (DNS_AAAA _) = 0x001c"
| "rr_type (DNS_SRV _ _ _ _) = 0x0021"
| "rr_type (DNS_NAPTR _ _ _ _ _ _) = 0x0023"
| "rr_type (DNS_OTHER t) = t"

text \<open>A writer that does not use the table of names.\<close>

definition w_mb :: "(mbuf \<Rightarrow> errno \<times> mbuf) \<Rightarrow> mbuf \<times> dname_tab \<Rightarrow> errno \<times> mbuf \<times> dname_tab" where
  "w_mb f st = (case st of (mb, ht) \<Rightarrow> (case f mb of (err, mb1) \<Rightarrow> (err, mb1, ht)))"

text \<open>The loop over the strings of a TXT record: \<^verbatim>\<open>slen = min((uint8_t)dlen, 0xff)\<close>.\<close>

partial_function (option) txt_loop ::
  "malloc_env \<Rightarrow> bytes \<Rightarrow> errno \<times> mbuf \<Rightarrow> (errno \<times> mbuf) option" where
  "txt_loop al data r =
     (let slen = unat (word_of_nat (length data) :: u8);
          r1 = err_or (err_or r (\<lambda>mb. mbuf_write_u8 al mb (word_of_nat slen)))
                 (\<lambda>mb. mbuf_write_mem al mb (Some (take slen data)))
      in if length data - slen > 0 then txt_loop al (drop slen data) r1 else Some r1)"

definition e_u16 :: "malloc_env \<Rightarrow> u16 \<Rightarrow> mbuf \<times> dname_tab \<Rightarrow> errno \<times> mbuf \<times> dname_tab" where
  "e_u16 al v = w_mb (\<lambda>mb. mbuf_write_u16 al mb (htons v))"

definition e_u32 :: "malloc_env \<Rightarrow> u32 \<Rightarrow> mbuf \<times> dname_tab \<Rightarrow> errno \<times> mbuf \<times> dname_tab" where
  "e_u32 al v = w_mb (\<lambda>mb. mbuf_write_u32 al mb (htonl v))"

fun dns_rdata_encode ::
  "malloc_env \<Rightarrow> nat \<Rightarrow> dns_rdata \<Rightarrow> errno \<times> mbuf \<times> dname_tab \<Rightarrow> (errno \<times> mbuf \<times> dname_tab) option" where
  "dns_rdata_encode al start (DNS_A addr) r = Some (err_or r (e_u32 al addr))"
| "dns_rdata_encode al start (DNS_NS n) r = Some (err_or r (dns_dname_encode al n start True))"
| "dns_rdata_encode al start (DNS_CNAME n) r = Some (err_or r (dns_dname_encode al n start True))"
| "dns_rdata_encode al start (DNS_SOA mname rname serial refresh retry expire ttlmin) r =
     Some (err_or (err_or (err_or (err_or (err_or (err_or (err_or r
       (dns_dname_encode al mname start True)) (dns_dname_encode al rname start True))
       (e_u32 al serial)) (e_u32 al refresh)) (e_u32 al retry)) (e_u32 al expire)) (e_u32 al ttlmin))"
| "dns_rdata_encode al start (DNS_PTR n) r = Some (err_or r (dns_dname_encode al n start True))"
| "dns_rdata_encode al start (DNS_MX pref n) r =
     Some (err_or (err_or r (e_u16 al pref)) (dns_dname_encode al n start True))"
| "dns_rdata_encode al start (DNS_TXT data) r =
     (case r of (err, mb, ht) \<Rightarrow>
        map_option (\<lambda>(err1, mb1). (err1, mb1, ht)) (txt_loop al data (err, mb)))"
| "dns_rdata_encode al start (DNS_AAAA addr) r =
     Some (err_or r (w_mb (\<lambda>mb. mbuf_write_mem al mb (Some addr))))"
| "dns_rdata_encode al start (DNS_SRV pri weight port target) r =
     Some (err_or (err_or (err_or (err_or r (e_u16 al pri)) (e_u16 al weight)) (e_u16 al port))
       (dns_dname_encode al target start False))"
| "dns_rdata_encode al start (DNS_NAPTR ord pref flags services regexp replace) r =
     Some (err_or (err_or (err_or (err_or (err_or (err_or r (e_u16 al ord)) (e_u16 al pref))
       (w_mb (\<lambda>mb. dns_cstr_encode al mb flags))) (w_mb (\<lambda>mb. dns_cstr_encode al mb services)))
       (w_mb (\<lambda>mb. dns_cstr_encode al mb regexp))) (dns_dname_encode al replace start False))"
| "dns_rdata_encode al start (DNS_OTHER t) r = Some (EINVAL, snd r)"

definition dns_rr_encode ::
  "malloc_env \<Rightarrow> dnsrr \<Rightarrow> int \<Rightarrow> nat \<Rightarrow> mbuf \<times> dname_tab \<Rightarrow> (errno \<times> mbuf \<times> dname_tab) option" where
  "dns_rr_encode al rr ttl_offs start st =
     (let ttl = word_of_int (if rr_ttl rr > ttl_offs then rr_ttl rr - ttl_offs else 0);
          r = err_or (err_or (err_or (err_or
                (dns_dname_encode al (rr_name rr) start True st)
                (e_u16 al (rr_type (rr_rdata rr)))) (e_u16 al (rr_dnsclass rr)))
                (e_u32 al ttl)) (e_u16 al (rr_rdlen rr));
          start_rdata = mb_pos (fst (snd r))
      in
      case dns_rdata_encode al start (rr_rdata rr) r of None \<Rightarrow> None
      | Some (err, mb, ht) \<Rightarrow>
          let len = sz_sub (mb_pos mb) start_rdata in
          if len > 0xffff then Some (EOVERFLOW, mb, ht)
          else
            case err_or (err, mb\<lparr>mb_pos := sz_sub start_rdata 2\<rparr>)
                   (\<lambda>mb. mbuf_write_u16 al mb (htons (word_of_nat len))) of (err, mb1) \<Rightarrow>
              Some (err, mb1\<lparr>mb_pos := szt (mb_pos mb1 + len)\<rparr>, ht))"

text \<open>The strings of a TXT record of \<open>rdlen\<close> bytes; \<open>acc\<close> is what \<^verbatim>\<open>ptr\<close> has advanced over.\<close>

function txt_dec_loop :: "nat \<Rightarrow> bytes \<Rightarrow> bytes dec" where
  "txt_dec_loop rdlen acc mb =
     (if rdlen = 0 then (Inr (takeWhile (\<lambda>c. c \<noteq> 0) acc), mb)
      else case mbuf_read_u8 mb of (len, mb1) \<Rightarrow>
        if unat len > rdlen - 1 then (Inl EINVAL, mb1)
        else case mbuf_read_mem mb1 (unat len) of Inl err \<Rightarrow> (Inl err, mb1)
        | Inr (bs, mb2) \<Rightarrow> txt_dec_loop (rdlen - 1 - unat len) (acc @ bs) mb2)"
  by pat_completeness auto

termination
  by (relation "measure (\<lambda>(rdlen, acc, mb). rdlen)") auto

declare txt_dec_loop.simps [simp del]

definition dns_rdata_decode :: "malloc_env \<Rightarrow> nat \<Rightarrow> u16 \<Rightarrow> u16 \<Rightarrow> dns_rdata dec" where
  "dns_rdata_decode al start type rdlen =
     (let dname = dns_dname_decode al start in
      if type = 0x0001 then d_check (rdlen = 4) EINVAL (d_bind d_u32 (\<lambda>a. d_ret (DNS_A a)))
      else if type = 0x0002 then d_bind dname (\<lambda>n. d_ret (DNS_NS n))
      else if type = 0x0005 then d_bind dname (\<lambda>n. d_ret (DNS_CNAME n))
      else if type = 0x0006 then
        d_bind dname (\<lambda>mname. d_bind dname (\<lambda>rname. d_left 20 EINVAL (
          d_bind d_u32 (\<lambda>serial. d_bind d_u32 (\<lambda>refresh. d_bind d_u32 (\<lambda>retry.
          d_bind d_u32 (\<lambda>expire. d_bind d_u32 (\<lambda>ttlmin.
            d_ret (DNS_SOA mname rname serial refresh retry expire ttlmin)))))))))
      else if type = 0x000c then d_bind dname (\<lambda>n. d_ret (DNS_PTR n))
      else if type = 0x000f then
        d_left 2 EINVAL (d_bind d_u16 (\<lambda>pref. d_bind dname (\<lambda>n. d_ret (DNS_MX pref n))))
      else if type = 0x0010 then
        d_alloc al (unat rdlen + 1) (d_bind (txt_dec_loop (unat rdlen) []) (\<lambda>s. d_ret (DNS_TXT s)))
      else if type = 0x001c then d_check (rdlen = 16) EINVAL (d_bind (d_mem 16) (\<lambda>a. d_ret (DNS_AAAA a)))
      else if type = 0x0021 then
        d_left 6 EINVAL (d_bind d_u16 (\<lambda>pri. d_bind d_u16 (\<lambda>weight. d_bind d_u16 (\<lambda>port.
          d_bind dname (\<lambda>n. d_ret (DNS_SRV pri weight port n))))))
      else if type = 0x0023 then
        d_left 4 EINVAL (d_bind d_u16 (\<lambda>ord. d_bind d_u16 (\<lambda>pref.
          d_bind (dns_cstr_decode al) (\<lambda>flags. d_bind (dns_cstr_decode al) (\<lambda>services.
          d_bind (dns_cstr_decode al) (\<lambda>regexp. d_bind dname (\<lambda>replace.
            d_ret (DNS_NAPTR ord pref flags services regexp replace))))))))
      else d_bind (d_advance (unat rdlen)) (\<lambda>_. d_ret (DNS_OTHER type)))"

definition dns_rr_decode :: "malloc_env \<Rightarrow> nat \<Rightarrow> dnsrr dec" where
  "dns_rr_decode al start =
     d_alloc al sizeof_dnsrr (d_bind (dns_dname_decode al start) (\<lambda>name. d_left 10 EINVAL (
       d_bind d_u16 (\<lambda>type. d_bind d_u16 (\<lambda>dnsclass. d_bind d_u32 (\<lambda>ttl. d_bind d_u16 (\<lambda>rdlen.
         d_left (unat rdlen) EINVAL (d_bind (dns_rdata_decode al start type rdlen) (\<lambda>rdata.
           d_ret \<lparr>rr_name = name, rr_dnsclass = dnsclass, rr_ttl = int (unat ttl), rr_rdlen = rdlen,
                  rr_rdata = rdata\<rparr>)))))))))"

definition dns_rdata_cmp :: "dns_rdata \<Rightarrow> dns_rdata \<Rightarrow> bool" where
  "dns_rdata_cmp r1 r2 =
     (case r1 of
        DNS_A a \<Rightarrow> (case r2 of DNS_A b \<Rightarrow> a = b | _ \<Rightarrow> False)
      | DNS_NS a \<Rightarrow> (case r2 of DNS_NS b \<Rightarrow> str_casecmp (Some a) (Some b) = 0 | _ \<Rightarrow> False)
      | DNS_CNAME a \<Rightarrow> (case r2 of DNS_CNAME b \<Rightarrow> str_casecmp (Some a) (Some b) = 0 | _ \<Rightarrow> False)
      | DNS_SOA m r a b c d e \<Rightarrow>
          (case r2 of DNS_SOA m' r' a' b' c' d' e' \<Rightarrow>
             str_casecmp (Some m) (Some m') = 0 \<and> str_casecmp (Some r) (Some r') = 0 \<and>
             a = a' \<and> b = b' \<and> c = c' \<and> d = d' \<and> e = e'
           | _ \<Rightarrow> False)
      | DNS_PTR a \<Rightarrow> (case r2 of DNS_PTR b \<Rightarrow> str_casecmp (Some a) (Some b) = 0 | _ \<Rightarrow> False)
      | DNS_MX p a \<Rightarrow> (case r2 of DNS_MX q b \<Rightarrow> p = q \<and> str_casecmp (Some a) (Some b) = 0 | _ \<Rightarrow> False)
      | DNS_TXT a \<Rightarrow> (case r2 of DNS_TXT b \<Rightarrow> str_casecmp (Some a) (Some b) = 0 | _ \<Rightarrow> False)
      | DNS_AAAA a \<Rightarrow> (case r2 of DNS_AAAA b \<Rightarrow> a = b | _ \<Rightarrow> False)
      | DNS_SRV p w t a \<Rightarrow>
          (case r2 of DNS_SRV p' w' t' b \<Rightarrow>
             p = p' \<and> w = w' \<and> t = t' \<and> str_casecmp (Some a) (Some b) = 0
           | _ \<Rightarrow> False)
      | DNS_NAPTR p q f s r n \<Rightarrow>
          (case r2 of DNS_NAPTR p' q' f' s' r' n' \<Rightarrow>
             p = p' \<and> q = q' \<and> str_casecmp (Some f) (Some f') = 0 \<and> str_casecmp (Some s) (Some s') = 0 \<and>
             str_casecmp (Some r) (Some r') = 0 \<and> str_casecmp (Some n) (Some n') = 0
           | _ \<Rightarrow> False)
      | DNS_OTHER t \<Rightarrow> False)"

text \<open>The records are different objects (for one object the answer is true at once).\<close>

definition dns_rr_cmp :: "dnsrr \<Rightarrow> dnsrr \<Rightarrow> bool \<Rightarrow> bool" where
  "dns_rr_cmp rr1 rr2 rdata =
     (if rr_type (rr_rdata rr1) \<noteq> rr_type (rr_rdata rr2) then False
      else if rr_dnsclass rr1 \<noteq> rr_dnsclass rr2 then False
      else if str_casecmp (Some (rr_name rr1)) (Some (rr_name rr2)) \<noteq> 0 then False
      else if \<not> rdata then True
      else dns_rdata_cmp (rr_rdata rr1) (rr_rdata rr2))"

definition dns_rr_typename :: "u16 \<Rightarrow> bytes" where
  "dns_rr_typename type =
     (if type = 0x0001 then str_bytes ''A'' else if type = 0x0002 then str_bytes ''NS''
      else if type = 0x0005 then str_bytes ''CNAME'' else if type = 0x0006 then str_bytes ''SOA''
      else if type = 0x000c then str_bytes ''PTR'' else if type = 0x000f then str_bytes ''MX''
      else if type = 0x0010 then str_bytes ''TXT'' else if type = 0x001c then str_bytes ''AAAA''
      else if type = 0x0021 then str_bytes ''SRV'' else if type = 0x0023 then str_bytes ''NAPTR''
      else if type = 0x00fb then str_bytes ''IXFR'' else if type = 0x00fc then str_bytes ''AXFR''
      else if type = 0x00ff then str_bytes ''ANY'' else str_bytes ''??'')"

definition dns_rr_classname :: "u16 \<Rightarrow> bytes" where
  "dns_rr_classname dnsclass =
     (if dnsclass = 0x0001 then str_bytes ''IN'' else if dnsclass = 0x00ff then str_bytes ''ANY''
      else str_bytes ''??'')"

section \<open>Lists of resource records\<close>

text \<open>
  Sorting works on the list heap of \<^verbatim>\<open>list.c\<close>; \<open>rrs\<close> gives the record a data pointer stands
  for. A traversal is over the sequence of records; the handler threads a state (its \<^verbatim>\<open>arg\<close>) and
  leaves the list alone.
\<close>

definition CNAME_RECURSE_MAX :: nat where
  "CNAME_RECURSE_MAX = 16"

definition DNS_QTYPE_ANY :: u16 where
  "DNS_QTYPE_ANY = 0x00ff"

definition DNS_QCLASS_ANY :: u16 where
  "DNS_QCLASS_ANY = 0x00ff"

definition DNS_TYPE_CNAME :: u16 where
  "DNS_TYPE_CNAME = 0x0005"

record rrsort =
  so_type :: u16
  so_key :: u32

definition sidx :: "dnsrr \<Rightarrow> u32 \<Rightarrow> u32" where
  "sidx rr key =
     (case rr_rdata rr of
        DNS_A addr \<Rightarrow> addr XOR key
      | DNS_AAAA addr \<Rightarrow>
          (let w = (\<lambda>i. word_of_le (take 4 (drop (4 * i) addr)))
           in w 0 XOR w 1 XOR w 2 XOR w 3 XOR key)
      | DNS_SRV pri weight port target \<Rightarrow> ((hash_fast_str (Some target) AND 0xfff) XOR key) + ucast weight
      | _ \<Rightarrow> 0)"

definition std_sort_handler :: "rrsort \<Rightarrow> dnsrr \<Rightarrow> dnsrr \<Rightarrow> bool" where
  "std_sort_handler srt rr1 rr2 =
     (if so_type srt \<noteq> rr_type (rr_rdata rr1) then so_type srt \<noteq> rr_type (rr_rdata rr2)
      else if so_type srt \<noteq> rr_type (rr_rdata rr2) then True
      else case (rr_rdata rr1, rr_rdata rr2) of
        (DNS_MX pref1 _, DNS_MX pref2 _) \<Rightarrow> pref1 \<le> pref2
      | (DNS_SRV pri1 _ _ _, DNS_SRV pri2 _ _ _) \<Rightarrow>
          if pri1 = pri2 then sidx rr1 (so_key srt) \<ge> sidx rr2 (so_key srt) else pri1 < pri2
      | (DNS_NAPTR order1 pref1 _ _ _ _, DNS_NAPTR order2 pref2 _ _ _ _) \<Rightarrow>
          if order1 = order2 then pref1 \<le> pref2 else order1 < order2
      | _ \<Rightarrow> True)"

definition addr_sort_handler :: "rrsort \<Rightarrow> dnsrr \<Rightarrow> dnsrr \<Rightarrow> bool" where
  "addr_sort_handler srt rr1 rr2 = (sidx rr1 (so_key srt) \<ge> sidx rr2 (so_key srt))"

definition dns_rrlist_sort ::
  "(nat option \<Rightarrow> dnsrr) \<Rightarrow> nat \<Rightarrow> u16 \<Rightarrow> u64 \<Rightarrow> list_heap \<Rightarrow> list_heap option" where
  "dns_rrlist_sort rrs rrl type key =
     list_sort rrl (\<lambda>d1 d2. std_sort_handler \<lparr>so_type = type, so_key = drop_bit 5 (ucast key)\<rparr> (rrs d1) (rrs d2))"

definition dns_rrlist_sort_addr :: "(nat option \<Rightarrow> dnsrr) \<Rightarrow> nat \<Rightarrow> u64 \<Rightarrow> list_heap \<Rightarrow> list_heap option" where
  "dns_rrlist_sort_addr rrs rrl key =
     list_sort rrl (\<lambda>d1 d2. addr_sort_handler \<lparr>so_type = 0, so_key = drop_bit 5 (ucast key)\<rparr> (rrs d1) (rrs d2))"

type_synonym 's dns_rrlist_h = "dnsrr \<Rightarrow> 's \<Rightarrow> bool \<times> 's"

text \<open>The filters of \<^verbatim>\<open>rrlist_apply\<close> in front of the call of the handler.\<close>

definition rr_selected :: "bytes option \<Rightarrow> u16 \<Rightarrow> u16 \<Rightarrow> u16 \<Rightarrow> bool \<Rightarrow> dnsrr \<Rightarrow> bool" where
  "rr_selected name type1 type2 dnsclass recurse rr =
     (if name \<noteq> None \<and> str_casecmp name (Some (rr_name rr)) \<noteq> 0 then False
      else if type1 \<noteq> DNS_QTYPE_ANY \<and> type2 \<noteq> DNS_QTYPE_ANY \<and>
         rr_type (rr_rdata rr) \<noteq> type1 \<and> rr_type (rr_rdata rr) \<noteq> type2 \<and>
         (rr_type (rr_rdata rr) \<noteq> DNS_TYPE_CNAME \<or> \<not> recurse) then False
      else if dnsclass \<noteq> DNS_QCLASS_ANY \<and> rr_dnsclass rr \<noteq> dnsclass then False
      else True)"

text \<open>\<^verbatim>\<open>rr->rdata.cname.cname\<close>, used for records of type CNAME only.\<close>

definition rr_cname :: "dns_rdata \<Rightarrow> bytes" where
  "rr_cname rdata = (case rdata of DNS_CNAME cname \<Rightarrow> cname | _ \<Rightarrow> [])"

text \<open>The loop over the records \<open>rest\<close> that are left; \<^verbatim>\<open>depth\<close> is a counter of the call.\<close>

function rrlist_loop ::
  "dnsrr list \<Rightarrow> u16 \<Rightarrow> u16 \<Rightarrow> u16 \<Rightarrow> bool \<Rightarrow> 's dns_rrlist_h option \<Rightarrow>
   bytes option \<Rightarrow> nat \<Rightarrow> dnsrr list \<Rightarrow> 's \<Rightarrow> dnsrr option \<times> 's" where
  "rrlist_loop rrl type1 type2 dnsclass recurse rrlh name depth [] s = (None, s)"
| "rrlist_loop rrl type1 type2 dnsclass recurse rrlh name depth (rr # rest) s =
     (if \<not> rr_selected name type1 type2 dnsclass recurse rr then
        rrlist_loop rrl type1 type2 dnsclass recurse rrlh name depth rest s
      else
        case (case rrlh of None \<Rightarrow> (True, s) | Some f \<Rightarrow> f rr s) of (stop, s1) \<Rightarrow>
          if stop then (Some rr, s1)
          else
            if recurse \<and> DNS_QTYPE_ANY \<noteq> type1 \<and> DNS_QTYPE_ANY \<noteq> type2 \<and>
               DNS_TYPE_CNAME \<noteq> type1 \<and> DNS_TYPE_CNAME \<noteq> type2 \<and> DNS_TYPE_CNAME = rr_type (rr_rdata rr) then
              (case (if depth + 1 > CNAME_RECURSE_MAX then (None, s1)
                     else rrlist_loop rrl type1 type2 dnsclass recurse rrlh (Some (rr_cname (rr_rdata rr)))
                            (depth + 1) rrl s1) of
                 (Some r, s2) \<Rightarrow> (Some r, s2)
               | (None, s2) \<Rightarrow>
                   rrlist_loop rrl type1 type2 dnsclass recurse rrlh name (depth + 1) rest s2)
            else rrlist_loop rrl type1 type2 dnsclass recurse rrlh name depth rest s1)"
  by pat_completeness auto

termination
  by (relation "measures [\<lambda>(rrl, t1, t2, c, r, h, name, depth, rest, s). CNAME_RECURSE_MAX + 1 - depth,
      \<lambda>(rrl, t1, t2, c, r, h, name, depth, rest, s). length rest]") auto

definition rrlist_apply ::
  "dnsrr list \<Rightarrow> bytes option \<Rightarrow> u16 \<Rightarrow> u16 \<Rightarrow> u16 \<Rightarrow> bool \<Rightarrow> nat \<Rightarrow> 's dns_rrlist_h option \<Rightarrow>
   's \<Rightarrow> dnsrr option \<times> 's" where
  "rrlist_apply rrl name type1 type2 dnsclass recurse depth rrlh s =
     (if depth > CNAME_RECURSE_MAX then (None, s)
      else rrlist_loop rrl type1 type2 dnsclass recurse rrlh name depth rrl s)"

definition dns_rrlist_apply ::
  "dnsrr list \<Rightarrow> bytes option \<Rightarrow> u16 \<Rightarrow> u16 \<Rightarrow> bool \<Rightarrow> 's dns_rrlist_h option \<Rightarrow> 's \<Rightarrow> dnsrr option \<times> 's" where
  "dns_rrlist_apply rrl name type dnsclass recurse rrlh s =
     rrlist_apply rrl name type type dnsclass recurse 0 rrlh s"

definition dns_rrlist_apply2 ::
  "dnsrr list \<Rightarrow> bytes option \<Rightarrow> u16 \<Rightarrow> u16 \<Rightarrow> u16 \<Rightarrow> bool \<Rightarrow> 's dns_rrlist_h option \<Rightarrow> 's \<Rightarrow>
   dnsrr option \<times> 's" where
  "dns_rrlist_apply2 rrl name type1 type2 dnsclass recurse rrlh s =
     rrlist_apply rrl name type1 type2 dnsclass recurse 0 rrlh s"

definition find_handler :: "u16 \<Rightarrow> unit dns_rrlist_h" where
  "find_handler type rr s = (rr_type (rr_rdata rr) = type, s)"

definition dns_rrlist_find ::
  "dnsrr list \<Rightarrow> bytes option \<Rightarrow> u16 \<Rightarrow> u16 \<Rightarrow> bool \<Rightarrow> dnsrr option" where
  "dns_rrlist_find rrl name type dnsclass recurse =
     fst (rrlist_apply rrl name type type dnsclass recurse 0 (Some (find_handler type)) ())"

section \<open>Names that compare equal share a bucket\<close>

lemma dname_same_bucket:
  "map tolower s = map tolower t \<Longrightarrow> hash_joaat_str_ci s = hash_joaat_str_ci t"
proof -
  have "joaat_str_loop (\<lambda>c. scast (tolower c)) h s = joaat_str_loop (\<lambda>c. scast (tolower c)) h t"
    if "map tolower s = map tolower t" for h
    using that
  proof (induction s arbitrary: t h)
    case (Cons c s)
    from Cons.prems obtain d t' where t: "t = d # t'" "tolower c = tolower d" "map tolower s = map tolower t'"
      by (cases t) auto
    have "c = 0 \<longleftrightarrow> d = 0" using t(2) tolower_zero by metis
    then show ?case using Cons.IH [OF t(3)] t(1,2) by simp
  qed simp
  then show "map tolower s = map tolower t \<Longrightarrow> hash_joaat_str_ci s = hash_joaat_str_ci t"
    by (simp add: hash_joaat_str_ci_def)
qed

section \<open>Safety of the name decoder\<close>

text \<open>
  \<open>dec_ok m ret mb\<close>: the loop that started on \<open>m\<close> has only moved the cursor; forward within
  the data until the first pointer, whose end is \<open>ret\<close>.
\<close>

definition dec_ok :: "mbuf \<Rightarrow> nat option \<Rightarrow> mbuf \<Rightarrow> bool" where
  "dec_ok m ret mb \<longleftrightarrow> mb = m\<lparr>mb_pos := mb_pos mb\<rparr> \<and>
     (case ret of None \<Rightarrow> mb_pos m \<le> mb_pos mb | Some q \<Rightarrow> mb_pos m < q \<and> q \<le> mb_end m)"

lemma dec_ok_keeps:
  assumes "dec_ok m ret mb"
  shows "mb_end mb = mb_end m" "mbuf_bytes mb = mbuf_bytes m" "mb_size mb = mb_size m"
  using assms unfolding dec_ok_def by (metis mbuf.select_convs mbuf.surjective mbuf.update_convs mbuf_bytes_def)+

lemma dec_ok_label:
  "dec_ok m ret mb \<Longrightarrow> dec_ok m ret (mb\<lparr>mb_pos := mb_pos mb + n\<rparr>)"
  by (cases m; cases mb) (auto simp: dec_ok_def split: option.splits)

lemma dec_ok_jump:
  assumes "dec_ok m ret mb" "mb_pos mb + 2 \<le> mb_end mb"
  shows "dec_ok m (case ret of None \<Rightarrow> Some (mb_pos mb + 2) | Some q \<Rightarrow> Some q) (mb\<lparr>mb_pos := p\<rparr>)"
  using assms by (cases m; cases mb) (auto simp: dec_ok_def split: option.splits)

lemma mbuf_read_u16_at:
  assumes "mbuf_get_left mb \<ge> 2" "mb_end mb < 2 ^ 64"
  shows "mbuf_read_u16 mb =
    (word_of_le (take 2 (drop (mb_pos mb) (mbuf_bytes mb))), mb\<lparr>mb_pos := mb_pos mb + 2\<rparr>)"
  using assms by (auto simp: mbuf_read_u16_def mbuf_read_int_def mbuf_read_mem_def mbuf_get_left_def split: if_splits)

lemma dname_dec_loop_safe:
  assumes "dec_ok m ret mb" "mbuf_wf m" "length acc < DNAME_BUF" "dname_dec_loop al start loopc ret acc mb = (r, mb')"
  shows "mb' = m\<lparr>mb_pos := mb_pos mb'\<rparr> \<and>
    (case r of Inl err \<Rightarrow> err = EINVAL \<or> err = ENOMEM
     | Inr name \<Rightarrow> length name < DNAME_BUF \<and> 0 \<notin> set name \<and> mb_pos m < mb_pos mb' \<and> mb_pos mb' \<le> mb_end m)"
  using assms
proof (induction al start loopc ret acc mb rule: dname_dec_loop.induct)
  case (1 al start loopc ret acc mb)
  note k = dec_ok_keeps [OF 1(3)]
  have e64: "mb_end mb < 2 ^ 64" using 1(4) k by (simp add: mbuf_wf_def MEM_SIZE_MAX_def)
  have only: "mb = m\<lparr>mb_pos := mb_pos mb\<rparr>" using 1(3) by (simp add: dec_ok_def)
  have only': "mb\<lparr>mb_pos := p\<rparr> = m\<lparr>mb_pos := p\<rparr>" for p using only by (metis mbuf.update_convs(3) mbuf.surjective)
  note eq = 1(6) [unfolded dname_dec_loop.simps [of al start loopc ret acc mb] Let_def]
  show ?case
  proof (cases "mb_pos mb < mb_end mb")
    case False
    then show ?thesis using eq only by auto
  next
    case lt: True
    let ?len = "mbuf_bytes mb ! mb_pos mb" and ?mb1 = "mb\<lparr>mb_pos := mb_pos mb + 1\<rparr>"
    consider (fin) "?len = 0" | (ptr) "?len \<noteq> 0" "?len AND COMP_MASK = COMP_MASK"
      | (lab) "?len \<noteq> 0" "?len AND COMP_MASK \<noteq> COMP_MASK" by blast
    then show ?thesis
    proof cases
      case fin
      have tw: "length (takeWhile (\<lambda>c. c \<noteq> 0) acc) \<le> length acc" "0 \<notin> set (takeWhile (\<lambda>c. c \<noteq> 0) acc)"
        by (simp_all add: length_takeWhile_le) (metis set_takeWhileD)
      show ?thesis using eq fin lt tw 1(3,5) k only'
        by (auto simp: dec_ok_def str_ncpy_def split: option.splits)
    next
      case ptr
      show ?thesis
      proof (cases "loopc > COMP_LOOP \<or> mbuf_get_left mb < 2")
        case True
        then show ?thesis using eq ptr lt only only' by (auto split: if_splits)
      next
        case False
        then have left: "2 \<le> mbuf_get_left mb" by simp
        then have p2: "mb_pos mb + 2 \<le> mb_end mb" by (auto simp: mbuf_get_left_def split: if_splits)
        note rd = mbuf_read_u16_at [OF left e64]
        let ?p = "szt (unat (ntohs (word_of_le (take 2 (drop (mb_pos mb) (mbuf_bytes mb)))) AND 0x3fff) + start)"
        have "dname_dec_loop al start (loopc + 1)
            (case ret of None \<Rightarrow> Some (mb_pos mb + 2) | Some q \<Rightarrow> Some q) acc (mb\<lparr>mb_pos := ?p\<rparr>) = (r, mb')"
          using eq ptr lt False by (simp add: rd cong: option.case_cong)
        with 1(1) [OF _ refl refl _ _ _ _ rd [symmetric] refl] dec_ok_jump [OF 1(3) p2] 1(4,5) ptr lt False
        show ?thesis by (simp cong: option.case_cong)
      qed
    next
      case lab
      show ?thesis
      proof (cases "unat ?len > mbuf_get_left ?mb1 \<or> unat ?len + length acc + 2 > DNAME_BUF")
        case True
        then show ?thesis using eq lab lt only' by (auto split: if_splits)
      next
        case False
        let ?acc = "(if acc \<noteq> [] then acc @ [0x2e] else acc) @ take (unat ?len) (drop (mb_pos ?mb1) (mbuf_bytes ?mb1))"
        have "length ?acc < DNAME_BUF" using False by (auto simp: DNAME_BUF_def)
        moreover have "dec_ok m ret (?mb1\<lparr>mb_pos := mb_pos ?mb1 + unat ?len\<rparr>)"
          by (rule dec_ok_label [OF dec_ok_label [OF 1(3)]])
        moreover have "dname_dec_loop al start loopc ret ?acc (?mb1\<lparr>mb_pos := mb_pos ?mb1 + unat ?len\<rparr>) = (r, mb')"
          using eq lab lt False by simp
        ultimately show ?thesis
          using 1(2) [OF _ refl refl] 1(4) lab lt False by simp
      qed
    qed
  qed
qed

lemma dns_dname_decode_safe:
  assumes "mbuf_wf mb" "dns_dname_decode al start mb = (r, mb')"
  shows "mb' = mb\<lparr>mb_pos := mb_pos mb'\<rparr> \<and>
    (case r of Inl err \<Rightarrow> err = EINVAL \<or> err = ENOMEM
     | Inr name \<Rightarrow> length name < DNAME_BUF \<and> 0 \<notin> set name \<and> mb_pos mb < mb_pos mb' \<and> mb_pos mb' \<le> mb_end mb)"
  by (rule dname_dec_loop_safe [where ret = None and loopc = 0 and acc = "[]" and mb = mb])
    (use assms in \<open>simp_all add: dns_dname_decode_def dec_ok_def DNAME_BUF_def\<close>)

section \<open>Names as the wire has them\<close>

text \<open>
  \<open>names c s A p ls h e\<close>: at position \<open>p\<close> of the message data \<open>c\<close> stands the name with labels
  \<open>ls\<close>, spelled with \<open>h\<close> pointers (offsets count from \<open>s\<close>), and the position behind it is
  \<open>e\<close>. This is the format of RFC 1035, section 4.1.4. The spelling does not use the positions
  in \<open>A\<close>, which may still be overwritten.
\<close>

definition label_ok :: "bytes \<Rightarrow> bool" where
  "label_ok l \<longleftrightarrow> l \<noteq> [] \<and> length l \<le> 63 \<and> 0x2e \<notin> set l \<and> 0 \<notin> set l"

definition pointer_to :: "nat \<Rightarrow> bytes" where
  "pointer_to off = be16 (word_of_nat off OR push_bit 8 0xc0)"

definition clear_of :: "nat set \<Rightarrow> nat \<Rightarrow> nat \<Rightarrow> bool" where
  "clear_of A p k \<longleftrightarrow> (\<forall>i\<in>A. i < p \<or> p + k \<le> i)"

inductive names :: "bytes \<Rightarrow> nat \<Rightarrow> nat set \<Rightarrow> nat \<Rightarrow> bytes list \<Rightarrow> nat \<Rightarrow> nat \<Rightarrow> bool" for c s A where
  root: "drop p c = 0 # r \<Longrightarrow> clear_of A p 1 \<Longrightarrow> names c s A p [] 0 (p + 1)"
| label: "drop p c = word_of_nat (length l) # l @ r \<Longrightarrow> clear_of A p (1 + length l) \<Longrightarrow> label_ok l \<Longrightarrow>
     names c s A (p + 1 + length l) ls h e \<Longrightarrow> names c s A p (l # ls) h e"
| pointer: "drop p c = pointer_to off @ r \<Longrightarrow> clear_of A p 2 \<Longrightarrow> off \<le> OFFSET_MASK \<Longrightarrow>
     names c s A (s + off) ls h e \<Longrightarrow> names c s A p ls (h + 1) (p + 2)"

lemma names_append: "names c s A p ls h e \<Longrightarrow> names (c @ x) s A p ls h e"
proof (induction rule: names.induct)
  case (root p r)
  then have "drop p (c @ x) = 0 # r @ x" by (cases "p \<le> length c") simp_all
  then show ?case using root(2) by (rule names.root)
next
  case (label p l r ls h e)
  then have "drop p (c @ x) = word_of_nat (length l) # l @ r @ x" by (cases "p \<le> length c") simp_all
  then show ?case using label by (blast intro: names.label)
next
  case (pointer p off r ls h e)
  have "pointer_to off \<noteq> []" by (metis length_be(1) list.size(3) pointer_to_def zero_neq_numeral)
  then have "drop p (c @ x) = pointer_to off @ r @ x" using pointer(1) by (cases "p \<le> length c") simp_all
  then show ?case using pointer by (blast intro: names.pointer)
qed

lemma names_labels_ok: "names c s A p ls h e \<Longrightarrow> l \<in> set ls \<Longrightarrow> label_ok l"
  by (induction rule: names.induct) auto

lemma names_pos: "names c s A p ls h e \<Longrightarrow> p < e \<and> e \<le> length c"
proof (induction rule: names.induct)
  case (root p r)
  from arg_cong [OF root(1), of length] show ?case by simp
next
  case (pointer p off r ls h e)
  have "length (pointer_to off) = 2" by (simp add: pointer_to_def)
  with arg_cong [OF pointer(1), of length] show ?case by simp
qed simp

text \<open>The text of a name, and the same built up label by label.\<close>

fun dn_text :: "bytes list \<Rightarrow> bytes" where
  "dn_text [] = []"
| "dn_text [l] = l"
| "dn_text (l # ls) = l @ 0x2e # dn_text ls"

fun dn_join :: "bytes \<Rightarrow> bytes list \<Rightarrow> bytes" where
  "dn_join acc [] = acc"
| "dn_join acc (l # ls) = dn_join ((if acc \<noteq> [] then acc @ [0x2e] else acc) @ l) ls"

lemma dn_text_Cons: "dn_text (l # ls) = l @ (if ls = [] then [] else 0x2e # dn_text ls)"
  by (cases ls) simp_all

lemma dn_join_text:
  "(\<And>l. l \<in> set ls \<Longrightarrow> label_ok l) \<Longrightarrow>
     dn_join acc ls = (if ls = [] then acc else if acc = [] then dn_text ls else acc @ 0x2e # dn_text ls)"
proof (induction ls arbitrary: acc)
  case (Cons l ls)
  have "l \<noteq> []" using Cons.prems by (simp add: label_ok_def)
  then show ?case using Cons.IH [of "(if acc \<noteq> [] then acc @ [0x2e] else acc) @ l"] Cons.prems
    by (auto simp: dn_text_Cons)
qed simp

lemma dn_join_length: "length acc \<le> length (dn_join acc ls)"
proof (induction ls arbitrary: acc)
  case (Cons l ls)
  show ?case using Cons [of "(if acc \<noteq> [] then acc @ [0x2e] else acc) @ l"] by (auto split: if_splits)
qed simp

lemma dn_text_zero: "(\<And>l. l \<in> set ls \<Longrightarrow> label_ok l) \<Longrightarrow> 0 \<notin> set (dn_text ls)"
proof (induction ls)
  case (Cons l ls)
  have "0 \<notin> set l" using Cons.prems by (simp add: label_ok_def)
  then show ?case using Cons by (simp add: dn_text_Cons)
qed simp

lemma dn_text_length: "(\<And>l. l \<in> set ls \<Longrightarrow> label_ok l) \<Longrightarrow> length ls \<le> length (dn_text ls)"
proof (induction ls)
  case (Cons l ls)
  have "l \<noteq> []" using Cons.prems by (simp add: label_ok_def)
  then have "1 \<le> length l" by (cases l) simp_all
  then show ?case using Cons by (auto simp: dn_text_Cons)
qed simp

section \<open>What the decoder reads\<close>

lemma length_pointer_to [simp]: "length (pointer_to off) = 2"
  by (simp add: pointer_to_def)

lemma pointer_to_bytes:
  "pointer_to off = [ucast (drop_bit 8 (word_of_nat off :: u16)) OR 0xc0, ucast (word_of_nat off :: u16)]"
proof -
  have "(ucast (drop_bit 8 (w OR 0xc000 :: u16)) :: u8) = ucast (drop_bit 8 w) OR 0xc0"
    and "(ucast (w OR 0xc000 :: u16) :: u8) = ucast w" for w :: u16
    by (rule bit_word_eqI; simp add: bit_simps bit_0 numeral_eq_Suc; auto simp: less_Suc_eq)+
  then show ?thesis
    by (simp add: pointer_to_def be16_def word_to_le_def upt_rec push_bit_numeral)
qed

lemma pointer_to_cases:
  obtains b b' where "pointer_to off = [b, b']" "b \<noteq> 0" "b AND COMP_MASK = COMP_MASK"
proof
  show "pointer_to off = [ucast (drop_bit 8 (word_of_nat off :: u16)) OR 0xc0, ucast (word_of_nat off :: u16)]"
    by (rule pointer_to_bytes)
  show 1: "(ucast (drop_bit 8 (word_of_nat off :: u16)) OR 0xc0 :: u8) AND COMP_MASK = COMP_MASK"
    unfolding COMP_MASK_def by (rule bit_word_eqI) (auto simp: bit_and_iff bit_or_iff)
  show "(ucast (drop_bit 8 (word_of_nat off :: u16)) OR 0xc0 :: u8) \<noteq> 0"
  proof
    assume "(ucast (drop_bit 8 (word_of_nat off :: u16)) OR 0xc0 :: u8) = 0"
    with 1 show False by (simp add: COMP_MASK_def)
  qed
qed

lemma pointer_to_offset:
  assumes "off \<le> OFFSET_MASK"
  shows "unat (ntohs (word_of_le (pointer_to off)) AND 0x3fff) = off"
proof -
  have lt: "off < 2 ^ 14" using assms by (simp add: OFFSET_MASK_def)
  have "(w OR push_bit 8 0xc0) AND 0x3fff = take_bit 14 w" for w :: u16
    by (rule bit_word_eqI; simp add: bit_simps bit_0 numeral_eq_Suc push_bit_numeral; auto simp: less_Suc_eq)
  then have "unat (ntohs (word_of_le (pointer_to off)) AND 0x3fff) = unat (take_bit 14 (word_of_nat off :: u16))"
    unfolding pointer_to_def by simp
  also have "\<dots> = off" using lt by (simp add: unat_take_bit unat_of_nat)
  finally show ?thesis .
qed

lemma label_len:
  assumes "label_ok l"
  shows "unat (word_of_nat (length l) :: u8) = length l" "(word_of_nat (length l) :: u8) \<noteq> 0"
    "(word_of_nat (length l) :: u8) AND COMP_MASK \<noteq> COMP_MASK"
proof -
  have le: "length l \<le> 63" "l \<noteq> []" using assms by (simp_all add: label_ok_def)
  show u: "unat (word_of_nat (length l) :: u8) = length l" using le by (simp add: unat_of_nat)
  show "(word_of_nat (length l) :: u8) \<noteq> 0" using u le by (metis length_0_conv unsigned_0)
  have "unat (w AND COMP_MASK) \<le> unat w" for w :: u8
    by (metis word_and_le2 word_le_nat_alt)
  then have "unat ((word_of_nat (length l) :: u8) AND COMP_MASK) \<le> 63" using u le by (metis order_trans)
  then show "(word_of_nat (length l) :: u8) AND COMP_MASK \<noteq> COMP_MASK" by (auto simp: COMP_MASK_def)
qed

lemma drop_Cons_nth: "drop p xs = a # ys \<Longrightarrow> p < length xs \<and> xs ! p = a \<and> drop (Suc p) xs = ys"
  by (metis drop_eq_Nil2 list.distinct(1) list.inject linorder_not_less Cons_nth_drop_Suc)

text \<open>A cursor inside the data, with the bytes it reads.\<close>

lemma content_at:
  assumes "mbuf_wf mb" "mbuf_content mb = c" "drop (mb_pos mb) c = a # ys"
  shows "mb_pos mb < mb_end mb" "mbuf_bytes mb ! mb_pos mb = a" "mb_end mb = length c" "length c < 2 ^ 32"
    "k \<le> length ys \<Longrightarrow> take k (drop (Suc (mb_pos mb)) (mbuf_bytes mb)) = take k ys"
proof -
  show e: "mb_end mb = length c" using length_mbuf_content [OF assms(1)] assms(2) by simp
  show "length c < 2 ^ 32" using assms(1) e by (simp add: mbuf_wf_def MEM_SIZE_MAX_def)
  note d = drop_Cons_nth [OF assms(3)]
  then show p: "mb_pos mb < mb_end mb" using e by simp
  have c: "c = take (mb_end mb) (mbuf_bytes mb)" using assms(2) by (simp add: mbuf_content_def)
  then show "mbuf_bytes mb ! mb_pos mb = a" using d p by (metis nth_take)
  show "take k (drop (Suc (mb_pos mb)) (mbuf_bytes mb)) = take k ys" if "k \<le> length ys"
  proof -
    have "Suc (mb_pos mb) + k \<le> length c" using d that p e by auto
    moreover have "ys = drop (Suc (mb_pos mb)) (take (mb_end mb) (mbuf_bytes mb))" using d c by simp
    ultimately show ?thesis using e by (simp add: drop_take min_def)
  qed
qed

lemma names_decoded:
  assumes "names c s A p ls h e"
  shows "mbuf_wf mb \<Longrightarrow> mbuf_content mb = c \<Longrightarrow> mb_pos mb = p \<Longrightarrow> loopc + h \<le> COMP_LOOP + 1 \<Longrightarrow>
    0 \<notin> set acc \<Longrightarrow> length (dn_join acc ls) < DNAME_BUF \<Longrightarrow> mem_alloc al (length (dn_join acc ls) + 1) \<noteq> None \<Longrightarrow>
    dname_dec_loop al s loopc ret acc mb =
      (Inr (dn_join acc ls), mb\<lparr>mb_pos := (case ret of None \<Rightarrow> e | Some q \<Rightarrow> q)\<rparr>)"
  using assms
proof (induction arbitrary: mb loopc ret acc rule: names.induct)
  case (root p r)
  note at = content_at [OF root.prems(1,2), of 0 r]
  have d: "drop (mb_pos mb) c = 0 # r" using root by simp
  have tw: "takeWhile (\<lambda>c. c \<noteq> 0) acc = acc" using root.prems(5) by (auto simp: takeWhile_eq_all_conv)
  show ?case using root.prems at(1,2) [OF d]
    by (auto simp: dname_dec_loop.simps [of al s loopc ret acc mb] str_ncpy_def tw split: option.splits)
next
  case (label p l r ls h e)
  have d: "drop (mb_pos mb) c = word_of_nat (length l) # l @ r" using label by simp
  note at = content_at [OF label.prems(1,2) d]
  note ll = label_len [OF label(3)]
  let ?acc = "(if acc \<noteq> [] then acc @ [0x2e] else acc) @ l"
  let ?mb = "mb\<lparr>mb_pos := mb_pos mb + 1 + length l\<rparr>"
  have lenc: "length (drop (mb_pos mb) c) = 1 + length l + length r" using d by simp
  then have le: "mb_pos mb + 1 + length l \<le> mb_end mb" using at(3) by simp
  have gl: "length l \<le> mbuf_get_left (mb\<lparr>mb_pos := Suc (mb_pos mb)\<rparr>)" using le by (cases l) (auto simp: mbuf_get_left_def)
  have tk: "take (length l) (drop (Suc (mb_pos mb)) (mbuf_bytes mb)) = l" using at(5) [of "length l"] by simp
  have room: "length l + length acc + 2 \<le> DNAME_BUF"
    using dn_join_length [of ?acc ls] label.prems(6) label(3) by (auto simp: DNAME_BUF_def label_ok_def split: if_splits)
  have z: "0 \<notin> set ?acc" using label.prems(5) label(3) by (auto simp: label_ok_def)
  have wf: "mbuf_wf ?mb" using label.prems(1) le by (auto simp: mbuf_wf_def mbuf_bytes_def MEM_SIZE_MAX_def)
  have "dname_dec_loop al s loopc ret acc mb = dname_dec_loop al s loopc ret ?acc ?mb"
    using at(1,2) ll gl tk room
    by (simp add: dname_dec_loop.simps [of al s loopc ret acc mb] mbuf_bytes_def Let_def)
  also have "\<dots> = (Inr (dn_join ?acc ls), ?mb\<lparr>mb_pos := (case ret of None \<Rightarrow> e | Some q \<Rightarrow> q)\<rparr>)"
    by (rule label.IH [OF wf]) (use label.prems z in \<open>simp_all add: mbuf_content_def mbuf_bytes_def\<close>)
  finally show ?case by simp
next
  case (pointer p off r ls h e)
  obtain b b' where bb: "pointer_to off = [b, b']" "b \<noteq> 0" "b AND COMP_MASK = COMP_MASK" by (rule pointer_to_cases)
  have d: "drop (mb_pos mb) c = b # b' # r" using pointer bb(1) by simp
  note at = content_at [OF pointer.prems(1,2) d]
  have lenc: "length (drop (mb_pos mb) c) = 2 + length r" using d by simp
  then have le: "mb_pos mb + 2 \<le> mb_end mb" using at(3) by simp
  then have gl: "2 \<le> mbuf_get_left mb" by (auto simp: mbuf_get_left_def)
  have e64: "mb_end mb < 2 ^ 64" using at(3,4) by simp
  have tk: "take 2 (drop (mb_pos mb) (mbuf_bytes mb)) = pointer_to off"
  proof -
    have "drop (mb_pos mb) (mbuf_bytes mb) = mbuf_bytes mb ! mb_pos mb # drop (Suc (mb_pos mb)) (mbuf_bytes mb)"
      using at(1) pointer.prems(1) by (simp add: Cons_nth_drop_Suc mbuf_wf_def)
    moreover have "take 1 (drop (Suc (mb_pos mb)) (mbuf_bytes mb)) = [b']" using at(5) [of 1] by simp
    ultimately show ?thesis using bb(1) at(2) by (simp add: numeral_2_eq_2)
  qed
  note rd = mbuf_read_u16_at [OF gl e64]
  have tgt: "s + off < length c" using names_pos [OF pointer(4)] by simp
  have szt: "szt (off + s) = s + off" using tgt at(4) by (simp add: add.commute)
  let ?mb = "mb\<lparr>mb_pos := s + off\<rparr>"
  let ?ret = "case ret of None \<Rightarrow> Some (mb_pos mb + 2) | Some q \<Rightarrow> Some q"
  have wf: "mbuf_wf ?mb" using pointer.prems(1) tgt at(4) by (auto simp: mbuf_wf_def mbuf_bytes_def)
  have "dname_dec_loop al s loopc ret acc mb = dname_dec_loop al s (loopc + 1) ?ret acc ?mb"
    using at(1,2) bb(2,3) gl pointer.prems(4) pointer_to_offset [OF pointer(3)] szt
    by (simp add: dname_dec_loop.simps [of al s loopc ret acc mb] rd tk Let_def cong: option.case_cong)
  also have "\<dots> = (Inr (dn_join acc ls), ?mb\<lparr>mb_pos := (case ?ret of None \<Rightarrow> e | Some q \<Rightarrow> q)\<rparr>)"
    by (rule pointer.IH [OF wf]) (use pointer.prems in \<open>simp_all add: mbuf_content_def mbuf_bytes_def\<close>)
  finally show ?case using pointer.prems(3) by (simp split: option.splits)
qed

section \<open>What the encoder writes\<close>

lemma mb_at_poke:
  assumes "mb_at mb (C @ v0 # R) n" "p = length C"
  shows "mb_at (mbuf_poke mb p v) (C @ v # R) n"
proof -
  note m = mb_atD [OF assms(1)]
  have c: "take (mb_end mb) (mbuf_bytes mb) = C @ v0 # R" using assms(1) by (simp add: mb_at_def mbuf_content_def)
  have b: "mbuf_bytes (mbuf_poke mb p v) = (mbuf_bytes mb)[p := v]"
    using assms m(2,3) by (auto simp: mbuf_bytes_def mbuf_poke_def mbuf_wf_def split: option.splits)
  have k: "mb_end (mbuf_poke mb p v) = mb_end mb" "mb_pos (mbuf_poke mb p v) = mb_pos mb"
    "mb_size (mbuf_poke mb p v) = mb_size mb" by (simp_all add: mbuf_poke_def)
  have "mbuf_content (mbuf_poke mb p v) = (C @ v0 # R)[p := v]"
    unfolding mbuf_content_def b k c [symmetric] by (simp add: take_update_swap)
  then show ?thesis using m(1,4) assms(2) b k by (simp add: mb_at_def mbuf_ready_def mbuf_wf_def)
qed

lemma mb_at_write_u8:
  assumes "mb_at mb X (length X)" "mbuf_write_u8 al mb v = (0, mb')"
  shows "mb_at mb' (X @ [v]) (length (X @ [v]))"
  using mb_at_append [OF assms(1), of al "[v]" mb'] assms(2) by (simp add: mbuf_write_u8_def)

lemma mb_at_write_pointer:
  assumes "mb_at mb X (length X)" "dname_encode_pointer al mb pos = (0, mb')"
  shows "mb_at mb' (X @ pointer_to pos) (length (X @ pointer_to pos))"
  using mb_at_append [OF assms(1), of al "pointer_to pos" mb'] assms(2)
  by (simp add: dname_encode_pointer_def mbuf_write_u16_def pointer_to_def)

lemma mb_at_small: "mb_at mb X n \<Longrightarrow> length X < 2 ^ 32"
  using mb_atD(2,3) [of mb X n] by (simp add: mbuf_wf_def MEM_SIZE_MAX_def)

lemma dname_enc_label:
  assumes "mb_at mb (C @ 0 # w) (length (C @ 0 # w))" "0x2e \<notin> set l"
    "dname_enc_loop al cmp start ht (length C) (l @ rest) mb = (0, mb', ht')"
  obtains mb1 where "mb_at mb1 (C @ 0 # w @ l) (length (C @ 0 # w @ l))"
    "dname_enc_loop al cmp start ht (length C) rest mb1 = (0, mb', ht')"
  using assms
proof (induction l arbitrary: mb w thesis)
  case (Cons c l)
  have c: "c \<noteq> 0x2e" "0x2e \<notin> set l" using Cons.prems(3) by auto
  obtain err mb1 where w: "mbuf_write_u8 al mb c = (err, mb1)" by fastforce
  have ok: "err = 0" "dname_enc_loop al cmp start ht (length C) (l @ rest) mb1 = (0, mb', ht')"
    using Cons.prems(4) c(1) w by (auto simp: Let_def split: if_splits)
  have "mb_at mb1 (C @ 0 # (w @ [c])) (length (C @ 0 # (w @ [c])))"
    using mb_at_write_u8 [OF Cons.prems(2)] w ok(1) by simp
  note m1 = this
  show ?case
  proof (rule Cons.IH [OF _ m1 c(2) ok(2)])
    fix mb2 assume "mb_at mb2 (C @ 0 # (w @ [c]) @ l) (length (C @ 0 # (w @ [c]) @ l))"
      "dname_enc_loop al cmp start ht (length C) rest mb2 = (0, mb', ht')"
    then show thesis by (intro Cons.prems(1)) simp_all
  qed
qed simp

text \<open>
  An entry of the table is good for the data \<open>X\<close> when the name it records stands, up to case,
  at its offset, and is found with fewer pointers than it has labels. While a name is being
  written, the entries made for it and its parents are not good yet; they are at least as long
  as what is still to be written (\<open>k\<close>), so that no lookup meets them.
\<close>

definition dn_like :: "bytes list \<Rightarrow> bytes \<Rightarrow> bool" where
  "dn_like ls name \<longleftrightarrow> (\<forall>l\<in>set ls. label_ok l) \<and> map tolower (dn_text ls) = map tolower name"

definition entry_ok :: "bytes \<Rightarrow> nat \<Rightarrow> nat set \<Rightarrow> bytes \<times> nat \<Rightarrow> bool" where
  "entry_ok X s A en \<longleftrightarrow> snd en \<le> OFFSET_MASK \<and>
     (\<exists>ls h e. names X s A (s + snd en) ls h e \<and> h < length ls \<and> dn_like ls (fst en))"

definition tab_ok :: "bytes \<Rightarrow> nat \<Rightarrow> nat set \<Rightarrow> nat \<Rightarrow> dname_tab \<Rightarrow> bool" where
  "tab_ok X s A k ht \<longleftrightarrow> (\<forall>t. ht = Some t \<longrightarrow>
     (\<forall>en\<in>set t. 0 \<notin> set (fst en) \<and> (k \<le> length (fst en) \<or> entry_ok X s A en)))"

text \<open>\<open>grows X s A ht ht'\<close>: good entries were added.\<close>

definition grows :: "bytes \<Rightarrow> nat \<Rightarrow> nat set \<Rightarrow> dname_tab \<Rightarrow> dname_tab \<Rightarrow> bool" where
  "grows X s A ht ht' \<longleftrightarrow> (ht = None \<longleftrightarrow> ht' = None) \<and> (\<forall>t t'. ht = Some t \<longrightarrow> ht' = Some t' \<longrightarrow>
     (\<forall>en\<in>set t'. en \<in> set t \<or> entry_ok X s A en \<and> 0 \<notin> set (fst en)))"

lemma entry_ok_append: "entry_ok X s A en \<Longrightarrow> entry_ok (X @ Y) s A en"
  unfolding entry_ok_def by (blast intro: names_append)

lemma tab_ok_append: "tab_ok X s A k ht \<Longrightarrow> j \<le> k \<Longrightarrow> tab_ok (X @ Y) s A j ht"
  unfolding tab_ok_def by (fastforce intro: entry_ok_append)

lemma grows_refl [simp]: "grows X s A ht ht"
  by (simp add: grows_def)

lemma dn_like_length: "dn_like ls name \<Longrightarrow> length (dn_text ls) = length name"
  unfolding dn_like_def by (metis length_map)

lemma dname_lookup_good:
  assumes "dname_lookup ht name = Some pos" "tab_ok X s A k ht" "length name < k" "0 \<notin> set name"
  obtains ls h e where "pos \<le> OFFSET_MASK" "names X s A (s + pos) ls h e" "h < length ls" "dn_like ls name"
proof -
  obtain t n where t: "ht = Some t" "(n, pos) \<in> set t" "str_casecmp (Some n) (Some name) = 0"
    using assms(1) by (auto simp: dname_lookup_def find_Some_iff split: option.splits) (metis fst_conv nth_mem)
  have z: "0 \<notin> set n" and c: "k \<le> length n \<or> entry_ok X s A (n, pos)"
    using assms(2) t(1,2) unfolding tab_ok_def by fastforce+
  have like: "map tolower n = map tolower name" using t(3) str_casecmp_Some [OF z assms(4)] by simp
  then have "length n = length name" by (metis length_map)
  then have "entry_ok X s A (n, pos)" using c assms(3) by simp
  then show thesis using that like unfolding entry_ok_def dn_like_def by auto
qed

lemma dname_append_tab:
  assumes "tab_ok X s A k ht" "k \<le> length name" "0 \<notin> set name"
  shows "tab_ok X s A k (dname_append al ht name pos)"
  using assms by (auto simp: tab_ok_def dname_append_def str_dup_def split: option.splits if_splits sum.splits)

lemma dname_append_grows:
  assumes "grows X s A (dname_append al ht name pos) ht'" "pos \<le> OFFSET_MASK \<Longrightarrow> entry_ok X s A (name, pos)"
    "0 \<notin> set name"
  shows "grows X s A ht ht'"
proof -
  have "dname_append al ht name pos = ht \<or>
      (\<exists>t. ht = Some t \<and> dname_append al ht name pos = Some (t @ [(name, pos)]) \<and> pos \<le> OFFSET_MASK)"
    by (auto simp: dname_append_def str_dup_def split: option.split)
  then consider "dname_append al ht name pos = ht"
    | t where "ht = Some t" "dname_append al ht name pos = Some (t @ [(name, pos)])" "pos \<le> OFFSET_MASK"
    by blast
  then show ?thesis
  proof cases
    case 2
    then show ?thesis using assms unfolding grows_def by fastforce
  qed (use assms in simp)
qed

definition written :: "bytes \<Rightarrow> nat \<Rightarrow> nat set \<Rightarrow> bytes \<Rightarrow> bytes \<Rightarrow> mbuf \<Rightarrow> bool" where
  "written X s A E name mb \<longleftrightarrow> mb_at mb (X @ E) (length (X @ E)) \<and>
     (\<exists>ls h. names (X @ E) s A (length X) ls h (length (X @ E)) \<and> h \<le> length ls \<and> dn_like ls name)"

lemma dname_enc_loop_written:
  assumes "mb_at mb (X @ [0]) (length (X @ [0]))" "ls \<noteq> []" "\<forall>l\<in>set ls. label_ok l" "s \<le> length X"
    "tab_ok X s A (length (dn_text ls)) ht"
    "dname_enc_loop al cmp s ht (length X) (dn_text ls) mb = (0, mb', ht')"
    "\<forall>a\<in>A. a < length X"
  shows "\<exists>E ls' h. mb_at mb' (X @ E) (length (X @ E)) \<and> names (X @ E) s A (length X) ls' h (length (X @ E)) \<and>
    h < length ls' \<and> dn_like ls' (dn_text ls) \<and> grows (X @ E) s A ht ht'"
  using assms
proof (induction ls arbitrary: X mb ht)
  case (Cons l ls)
  have l: "label_ok l" "l \<noteq> []" "0x2e \<notin> set l" and lsok: "\<forall>l\<in>set ls. label_ok l"
    using Cons.prems(3) by (simp_all add: label_ok_def)
  have cl: "clear_of A p k" if "length X \<le> p" for p k
    using Cons.prems(7) that by (auto simp: clear_of_def)
  let ?rest = "if ls = [] then [] else 0x2e # dn_text ls"
  let ?n = "word_of_nat (length l) :: u8"
  have eq: "dname_enc_loop al cmp s ht (length X) (l @ ?rest) mb = (0, mb', ht')"
    using Cons.prems(6) unfolding dn_text_Cons .
  obtain mb1 where m1: "mb_at mb1 (X @ 0 # l) (length (X @ 0 # l))"
    and eq1: "dname_enc_loop al cmp s ht (length X) ?rest mb1 = (0, mb', ht')"
    using dname_enc_label [of mb X "[]" l al cmp s ht ?rest] Cons.prems(1) l(3) eq by auto
  have lab: "mb_pos mb1 = Suc (length X + length l)" "length l \<noteq> 0" using mb_atD(4) [OF m1] l(2) by simp_all
  let ?mb2 = "mbuf_poke mb1 (length X) ?n" and ?Y = "X @ ?n # l"
  have m2: "mb_at ?mb2 ?Y (length ?Y)" using mb_at_poke [OF m1 refl, of ?n] by simp
  show ?case
  proof (cases "ls = []")
    case True
    obtain err mb3 where w: "mbuf_write_u8 al ?mb2 0 = (err, mb3)" by fastforce
    have r: "err = 0" "mb3 = mb'" "ht' = ht" using eq1 True lab w by (auto simp: Let_def)
    have m3: "mb_at mb' (?Y @ [0]) (length (?Y @ [0]))" using mb_at_write_u8 [OF m2] w r by simp
    have "names (?Y @ [0]) s A (length ?Y) [] 0 (length ?Y + 1)" by (rule names.root [of _ _ "[]"]) (simp_all add: cl)
    then have "names (?Y @ [0]) s A (length X) [l] 0 (length ?Y + 1)"
      by (intro names.label [of _ _ _ "[0]"]) (simp_all add: l(1) cl)
    moreover have "dn_like [l] (dn_text (l # ls))" using True l(1) by (simp add: dn_like_def)
    ultimately show ?thesis using m3 r(3) by (intro exI [of _ "?n # l @ [0]"] exI [of _ "[l]"] exI [of _ 0]) simp
  next
    case False
    let ?name = "dn_text ls"
    let ?dn = "dname_lookup ht ?name"
    have z: "0 \<notin> set ?name" by (rule dn_text_zero) (use lsok in blast)
    have short: "length ?name < length (dn_text (l # ls))" using False by (simp add: dn_text_Cons)
    have stepnames: "names (?Y @ E) s A (length X) (l # ls') h e"
      if "names (?Y @ E) s A (length ?Y) ls' h e" for E ls' h e
      using that by (intro names.label [of _ _ _ E]) (simp_all add: l(1) cl)
    have steplike: "dn_like (l # ls') (dn_text (l # ls))" if "dn_like ls' ?name" "ls' \<noteq> []" for ls'
      using that l(1) False by (simp add: dn_like_def dn_text_Cons)
    show ?thesis
    proof (cases "?dn \<noteq> None \<and> cmp")
      case True
      then obtain pos where pos: "?dn = Some pos" by auto
      obtain ls' h e where g: "pos \<le> OFFSET_MASK" "names X s A (s + pos) ls' h e" "h < length ls'" "dn_like ls' ?name"
        by (rule dname_lookup_good [OF pos Cons.prems(5) short z])
      obtain err mb3 where w: "dname_encode_pointer al ?mb2 pos = (err, mb3)" by fastforce
      have r: "err = 0" "mb3 = mb'" "ht' = ht" using eq1 True False lab w pos by (auto simp: Let_def)
      let ?E = "?n # l @ pointer_to pos"
      have m3: "mb_at mb' (?Y @ pointer_to pos) (length (?Y @ pointer_to pos))"
        using mb_at_write_pointer [OF m2] w r by simp
      have "names (?Y @ pointer_to pos) s A (s + pos) ls' h e"
        using names_append [OF g(2), of "?n # l @ pointer_to pos"] by simp
      then have "names (?Y @ pointer_to pos) s A (length ?Y) ls' (h + 1) (length ?Y + 2)"
        by (intro names.pointer [of _ _ pos "[]"]) (simp_all add: g(1) cl)
      from stepnames [OF this] have "names (X @ ?E) s A (length X) (l # ls') (h + 1) (length (X @ ?E))" by simp
      moreover have "dn_like (l # ls') (dn_text (l # ls))" by (rule steplike) (use g(3,4) in auto)
      ultimately show ?thesis using m3 r(3) g(3)
        by (intro exI [of _ ?E] exI [of _ "l # ls'"] exI [of _ "h + 1"]) simp
    next
      case nf: False
      let ?ht = "if ?dn = None then dname_append al ht ?name (sz_sub (mb_pos ?mb2) s) else ht"
      have p2: "mb_pos ?mb2 = length ?Y" by (rule mb_atD(4) [OF m2])
      have sub: "sz_sub (mb_pos ?mb2) s = length ?Y - s"
        unfolding p2 by (rule sz_sub_eq) (use Cons.prems(4) mb_at_small [OF m2] in simp_all)
      obtain err mb3 where w: "mbuf_write_u8 al ?mb2 0 = (err, mb3)" by fastforce
      have r: "err = 0" "dname_enc_loop al cmp s ?ht (length ?Y) ?name mb3 = (0, mb', ht')"
        using eq1 False nf lab w p2 by (auto simp: Let_def split: if_splits)
      have m3: "mb_at mb3 (?Y @ [0]) (length (?Y @ [0]))" using mb_at_write_u8 [OF m2] w r(1) by simp
      have t0: "tab_ok ?Y s A (length ?name) ht"
        by (rule tab_ok_append [OF Cons.prems(5)]) (use short in simp)
      have t1: "tab_ok ?Y s A (length ?name) ?ht" using t0 dname_append_tab [OF t0 order.refl z] by simp
      have hA: "\<forall>a\<in>A. a < length ?Y" using Cons.prems(7) by auto
      from Cons.IH [OF m3 False lsok _ t1 r(2) hA] Cons.prems(4) obtain E ls' h where
        ih: "mb_at mb' (?Y @ E) (length (?Y @ E))" "names (?Y @ E) s A (length ?Y) ls' h (length (?Y @ E))"
        "h < length ls'" "dn_like ls' ?name" "grows (?Y @ E) s A ?ht ht'" by auto
      have "entry_ok (?Y @ E) s A (?name, sz_sub (mb_pos ?mb2) s)" if "sz_sub (mb_pos ?mb2) s \<le> OFFSET_MASK"
        unfolding entry_ok_def using that ih(2-4) Cons.prems(4) by (auto simp: sub)
      then have "grows (?Y @ E) s A ht ht'"
        using ih(5) by (cases "?dn = None") (auto intro: dname_append_grows [OF _ _ z])
      moreover have "dn_like (l # ls') (dn_text (l # ls))" by (rule steplike) (use ih(3,4) in auto)
      ultimately show ?thesis using ih(1,3) stepnames [OF ih(2)]
        by (intro exI [of _ "?n # l @ E"] exI [of _ "l # ls'"] exI [of _ h]) simp
    qed
  qed
qed simp

theorem dns_dname_encode_written:
  assumes "mb_at mb X (length X)" "\<forall>l\<in>set ls. label_ok l" "s \<le> length X"
    "tab_ok X s A DNAME_BUF ht" "length (dn_text ls) < DNAME_BUF"
    "dns_dname_encode al (dn_text ls) s cmp (mb, ht) = (0, mb', ht')"
    "\<forall>a\<in>A. a < length X"
  shows "\<exists>E. written X s A E (dn_text ls) mb' \<and> tab_ok (X @ E) s A DNAME_BUF ht' \<and> grows (X @ E) s A ht ht'"
proof -
  let ?name = "dn_text ls"
  let ?dn = "dname_lookup ht ?name"
  have z: "0 \<notin> set ?name" by (rule dn_text_zero) (use assms(2) in blast)
  have cl: "clear_of A p k" if "length X \<le> p" for p k
    using assms(7) that by (auto simp: clear_of_def)
  have nodot: "?name \<noteq> [0x2e]"
    using assms(2) by (cases ls) (auto simp: dn_text_Cons label_ok_def Cons_eq_append_conv append_eq_Cons_conv)
  have tabok: "tab_ok (X @ E) s A DNAME_BUF ht'" if "grows (X @ E) s A ht ht'" for E
    using that tab_ok_append [OF assms(4) order.refl, of E] unfolding grows_def tab_ok_def by blast
  have main: "\<exists>E. written X s A E ?name mb' \<and> grows (X @ E) s A ht ht'"
  proof (cases "?dn \<noteq> None \<and> cmp")
    case True
    then obtain pos where pos: "?dn = Some pos" by auto
    obtain ls' h e where g: "pos \<le> OFFSET_MASK" "names X s A (s + pos) ls' h e" "h < length ls'" "dn_like ls' ?name"
      by (rule dname_lookup_good [OF pos assms(4) _ z]) (use assms(5) in \<open>simp_all add: DNAME_BUF_def\<close>)
    obtain err mb3 where w: "dname_encode_pointer al mb pos = (err, mb3)" by fastforce
    have r: "err = 0" "mb3 = mb'" "ht' = ht" using assms(6) True w pos by (auto simp: dns_dname_encode_def Let_def)
    have m3: "mb_at mb' (X @ pointer_to pos) (length (X @ pointer_to pos))"
      using mb_at_write_pointer [OF assms(1)] w r by simp
    have "names (X @ pointer_to pos) s A (length X) ls' (h + 1) (length X + 2)"
      by (rule names.pointer [OF _ _ g(1) names_append [OF g(2)], of _ _ "[]"]) (simp_all add: cl)
    then show ?thesis using m3 g(3,4) r(3) unfolding written_def
      by (intro exI [of _ "pointer_to pos"] conjI exI [of _ ls'] exI [of _ "h + 1"]) simp_all
  next
    case nf: False
    let ?ht = "if ?dn = None then dname_append al ht ?name (sz_sub (mb_pos mb) s) else ht"
    have p: "mb_pos mb = length X" by (rule mb_atD(4) [OF assms(1)])
    have sub: "sz_sub (mb_pos mb) s = length X - s"
      unfolding p by (rule sz_sub_eq) (use assms(3) mb_at_small [OF assms(1)] in simp_all)
    obtain err mb3 where w: "mbuf_write_u8 al mb 0 = (err, mb3)" by fastforce
    have r: "err = 0" "dname_enc_loop al cmp s ?ht (length X) ?name mb3 = (0, mb', ht')"
      using assms(6) nf w p nodot by (auto simp: dns_dname_encode_def Let_def split: if_splits)
    have m3: "mb_at mb3 (X @ [0]) (length (X @ [0]))" using mb_at_write_u8 [OF assms(1)] w r(1) by simp
    show ?thesis
    proof (cases "ls = []")
      case True
      have pe: "mb_pos mb3 - length X - 1 = 0" using mb_atD(4) [OF m3] by simp
      have q: "mb' = mb3" "ht' = ht"
        using r(2) True pe by (auto simp: Let_def dname_append_def split: if_splits option.splits)
      have "names (X @ [0]) s A (length X) [] 0 (length X + 1)" by (rule names.root [of _ _ "[]"]) (simp_all add: cl)
      then show ?thesis using m3 q True unfolding written_def
        by (intro exI [of _ "[0]"] conjI exI [of _ "[]"] exI [of _ 0]) (simp_all add: dn_like_def)
    next
      case False
      have t0: "tab_ok X s A (length ?name) ht"
        using tab_ok_append [OF assms(4), of "length ?name" "[]"] assms(5) by (simp add: DNAME_BUF_def)
      have t1: "tab_ok X s A (length ?name) ?ht" using t0 dname_append_tab [OF t0 order.refl z] by simp
      from dname_enc_loop_written [OF m3 False assms(2,3) t1 r(2) assms(7)] obtain E ls' h where
        ih: "mb_at mb' (X @ E) (length (X @ E))" "names (X @ E) s A (length X) ls' h (length (X @ E))"
        "h < length ls'" "dn_like ls' ?name" "grows (X @ E) s A ?ht ht'" by auto
      have "entry_ok (X @ E) s A (?name, sz_sub (mb_pos mb) s)" if "sz_sub (mb_pos mb) s \<le> OFFSET_MASK"
        unfolding entry_ok_def using that ih(2-4) assms(3) by (auto simp: sub)
      then have "grows (X @ E) s A ht ht'"
        using ih(5) by (cases "?dn = None") (auto intro: dname_append_grows [OF _ _ z])
      then show ?thesis using ih(1-4) unfolding written_def by (meson less_imp_le)
    qed
  qed
  then show ?thesis using tabok by blast
qed

section \<open>Reading back inside a message\<close>

text \<open>
  Pointers look back into the message, so a decoder is related to the whole data \<open>c\<close>:
  \<open>reads c d p P e\<close> says that \<open>d\<close>, started at position \<open>p\<close> of \<open>c\<close>, returns a value with
  \<open>P\<close> and stops at \<open>e\<close>. \<open>matches A Z c\<close>: the data \<open>c\<close> extends \<open>Z\<close>, except at the positions in \<open>A\<close>.
\<close>

definition reads :: "bytes \<Rightarrow> 'a dec \<Rightarrow> nat \<Rightarrow> ('a \<Rightarrow> bool) \<Rightarrow> nat \<Rightarrow> bool" where
  "reads c d p P e \<longleftrightarrow> (\<forall>mb. mbuf_wf mb \<longrightarrow> mbuf_content mb = c \<longrightarrow> mb_pos mb = p \<longrightarrow>
     (\<exists>x. P x \<and> d mb = (Inr x, mb\<lparr>mb_pos := e\<rparr>) \<and> mbuf_wf (mb\<lparr>mb_pos := e\<rparr>)))"

definition matches :: "nat set \<Rightarrow> bytes \<Rightarrow> bytes \<Rightarrow> bool" where
  "matches A Z c \<longleftrightarrow> length Z \<le> length c \<and> (\<forall>i<length Z. i \<notin> A \<longrightarrow> c ! i = Z ! i)"

named_theorems reads_intros \<open>what decoders read at a position of a message\<close>

lemma mbuf_content_pos [simp]: "mbuf_content (mb\<lparr>mb_pos := p\<rparr>) = mbuf_content mb"
  by (simp add: mbuf_content_def mbuf_bytes_def)

lemma reads_bind [reads_intros]:
  assumes "reads c d p P q" "\<And>x. P x \<Longrightarrow> reads c (f x) q Q e"
  shows "reads c (d_bind d f) p Q e"
  unfolding reads_def
proof (intro allI impI)
  fix mb :: mbuf assume mb: "mbuf_wf mb" "mbuf_content mb = c" "mb_pos mb = p"
  then obtain x where x: "P x" "d mb = (Inr x, mb\<lparr>mb_pos := q\<rparr>)" "mbuf_wf (mb\<lparr>mb_pos := q\<rparr>)"
    using assms(1) unfolding reads_def by blast
  from assms(2) [OF x(1), unfolded reads_def, rule_format, OF x(3)] mb(2)
  show "\<exists>y. Q y \<and> d_bind d f mb = (Inr y, mb\<lparr>mb_pos := e\<rparr>) \<and> mbuf_wf (mb\<lparr>mb_pos := e\<rparr>)"
    using x(2) by (auto simp: d_bind_def)
qed

lemma reads_ret [reads_intros]: "P x \<Longrightarrow> reads c (d_ret x) p P p"
  unfolding reads_def d_ret_def by (auto simp: mbuf_wf_def mbuf_bytes_def)

lemma reads_left [reads_intros]:
  "p + n \<le> length c \<Longrightarrow> reads c d p P e \<Longrightarrow> reads c (d_left n err d) p P e"
  by (auto simp: reads_def d_left_def mbuf_get_left_def dest: length_mbuf_content)

lemma reads_guards [reads_intros]:
  "b \<Longrightarrow> reads c d p P e \<Longrightarrow> reads c (d_check b err d) p P e"
  "mem_alloc al n \<noteq> None \<Longrightarrow> reads c d p P e \<Longrightarrow> reads c (d_alloc al n d) p P e"
  by (auto simp: d_check_def d_alloc_def)

lemma reads_bytes:
  assumes "parses d bs x" "take (length bs) (drop p c) = bs" "P x" "p \<le> length c"
  shows "reads c d p P (p + length bs)"
  unfolding reads_def
proof (intro allI impI)
  fix mb :: mbuf assume mb: "mbuf_wf mb" "mbuf_content mb = c" "mb_pos mb = p"
  have l: "mbuf_left mb = bs @ drop (length bs) (drop p c)"
    using mb(2,3) assms(2) by (metis append_take_drop_id mbuf_left_content)
  have "d mb = (Inr x, mbuf_skip mb (length bs))" by (rule parsesD [OF assms(1) mb(1) l])
  moreover have "mbuf_wf (mbuf_skip mb (length bs))" by (rule mbuf_skip_left(2) [OF mb(1) l refl])
  ultimately show "\<exists>x. P x \<and> d mb = (Inr x, mb\<lparr>mb_pos := p + length bs\<rparr>) \<and> mbuf_wf (mb\<lparr>mb_pos := p + length bs\<rparr>)"
    using assms(3) mb(3) by (auto simp: mbuf_skip_def)
qed

lemma reads_mono: "reads c d p P e \<Longrightarrow> (\<And>x. P x \<Longrightarrow> Q x) \<Longrightarrow> reads c d p Q e"
  unfolding reads_def by blast

lemma matches_take:
  assumes "matches A Z c" "clear_of A p k" "p + k \<le> length Z"
  shows "take k (drop p c) = take k (drop p Z)"
proof (rule nth_equalityI)
  show "length (take k (drop p c)) = length (take k (drop p Z))" using assms(1,3) by (auto simp: matches_def)
  fix i assume "i < length (take k (drop p c))"
  then have i: "i < k" by simp
  have "p + i \<notin> A" using assms(2) i by (auto simp: clear_of_def)
  then show "take k (drop p c) ! i = take k (drop p Z) ! i"
    using assms(1,3) i by (simp add: matches_def)
qed

lemma matches_drop:
  assumes "matches A Z c" "clear_of A p (length bs)" "drop p Z = bs @ r" "bs \<noteq> []"
  shows "\<exists>r'. drop p c = bs @ r'"
proof -
  have len: "p + length bs \<le> length Z" using arg_cong [OF assms(3), of length] assms(4) by (cases bs) simp_all
  have "take (length bs) (drop p c) = bs" using matches_take [OF assms(1,2) len] assms(3) by simp
  then show ?thesis by (metis append_take_drop_id)
qed

lemma names_matches:
  "names Z s A p ls h e \<Longrightarrow> matches A Z c \<Longrightarrow> names c s A p ls h e"
proof (induction rule: names.induct)
  case (root p r)
  then obtain r' where "drop p c = [0] @ r'" using matches_drop [of A Z c p "[0]" r] by auto
  then show ?case using root(2) by (intro names.root) simp_all
next
  case (label p l r ls h e)
  then obtain r' where "drop p c = (word_of_nat (length l) # l) @ r'"
    using matches_drop [of A Z c p "word_of_nat (length l) # l" r] by auto
  then show ?case using label by (intro names.label) simp_all
next
  case (pointer p off r ls h e)
  have "pointer_to off \<noteq> []" by (metis length_pointer_to list.size(3) zero_neq_numeral)
  then obtain r' where "drop p c = pointer_to off @ r'"
    using matches_drop [of A Z c p "pointer_to off" r] pointer by auto
  then show ?case using pointer by (intro names.pointer) simp_all
qed

lemma names_protect:
  assumes B: "\<forall>i\<in>B. i \<in> A \<or> length Z \<le> i"
  shows "names Z s A p ls h e \<Longrightarrow> names Z s B p ls h e"
proof (induction rule: names.induct)
  case (root p r)
  have "p + 1 \<le> length Z" using arg_cong [OF root(1), of length] by simp
  then have "clear_of B p 1" using root(2) B by (fastforce simp: clear_of_def)
  then show ?case using root(1) by (intro names.root)
next
  case (label p l r ls h e)
  have "p + (1 + length l) \<le> length Z" using arg_cong [OF label(1), of length] by simp
  then have "clear_of B p (1 + length l)" using label(2) B by (fastforce simp: clear_of_def)
  then show ?case using label(1,3,5) by (intro names.label)
next
  case (pointer p off r ls h e)
  have "p + 2 \<le> length Z" using arg_cong [OF pointer(1), of length] by simp
  then have "clear_of B p 2" using pointer(2) B by (fastforce simp: clear_of_def)
  then show ?case using pointer(1,3,5) by (intro names.pointer)
qed

lemma entry_ok_matches: "entry_ok Z s A en \<Longrightarrow> matches A Z c \<Longrightarrow> entry_ok c s A en"
  unfolding entry_ok_def by (blast intro: names_matches)

lemma entry_ok_protect: "entry_ok Z s A en \<Longrightarrow> \<forall>i\<in>B. i \<in> A \<or> length Z \<le> i \<Longrightarrow> entry_ok Z s B en"
  unfolding entry_ok_def by (blast intro: names_protect)

lemma tab_ok_matches: "tab_ok Z s A k ht \<Longrightarrow> matches A Z c \<Longrightarrow> tab_ok c s A k ht"
  unfolding tab_ok_def by (fastforce intro: entry_ok_matches)

lemma tab_ok_protect: "tab_ok Z s A k ht \<Longrightarrow> \<forall>i\<in>B. i \<in> A \<or> length Z \<le> i \<Longrightarrow> tab_ok Z s B k ht"
  unfolding tab_ok_def by (fastforce intro: entry_ok_protect)

section \<open>Encoders and decoders of a message\<close>

text \<open>
  \<open>encodes s A f d P\<close>: what \<open>f\<close> appends to a message, with whatever table of names, \<open>d\<close> reads
  back as a value with \<open>P\<close>, also when more data follows and when the positions in \<open>A\<close> are
  rewritten. \<open>d\<close> is given the number of bytes written.
\<close>

definition encodes ::
  "nat \<Rightarrow> nat set \<Rightarrow> (mbuf \<times> dname_tab \<Rightarrow> errno \<times> mbuf \<times> dname_tab) \<Rightarrow> (nat \<Rightarrow> 'a dec) \<Rightarrow> ('a \<Rightarrow> bool) \<Rightarrow> bool" where
  "encodes s A f d P \<longleftrightarrow> (\<forall>X mb ht mb' ht'. mb_at mb X (length X) \<longrightarrow> s \<le> length X \<longrightarrow> (\<forall>a\<in>A. a < length X) \<longrightarrow>
     tab_ok X s A DNAME_BUF ht \<longrightarrow> f (mb, ht) = (0, mb', ht') \<longrightarrow>
     (\<exists>E. mb_at mb' (X @ E) (length (X @ E)) \<and> tab_ok (X @ E) s A DNAME_BUF ht' \<and>
          (\<forall>c. matches A (X @ E) c \<longrightarrow> reads c (d (length E)) (length X) P (length (X @ E)))))"

lemma encodesD:
  assumes "encodes s A f d P" "mb_at mb X (length X)" "s \<le> length X" "\<forall>a\<in>A. a < length X"
    "tab_ok X s A DNAME_BUF ht" "f (mb, ht) = (0, mb', ht')"
  obtains E where "mb_at mb' (X @ E) (length (X @ E))" "tab_ok (X @ E) s A DNAME_BUF ht'"
    "\<And>c. matches A (X @ E) c \<Longrightarrow> reads c (d (length E)) (length X) P (length (X @ E))"
  using assms unfolding encodes_def by blast

named_theorems encodes_intros \<open>encoders and the decoders that read them back\<close>

lemma mb_at_unique: "mb_at mb X n \<Longrightarrow> mb_at mb Y m \<Longrightarrow> X = Y"
  by (simp add: mb_at_def)

lemma matches_refl [simp]: "matches A Z Z"
  by (simp add: matches_def)

lemma matches_prefix: "matches A (Z @ Y) c \<Longrightarrow> matches A Z c"
  by (auto simp: matches_def nth_append split: if_splits)

lemma encodes_bind:
  assumes "encodes s A f (\<lambda>_. d) P" "\<And>x. P x \<Longrightarrow> encodes s A g (\<lambda>_. k x) Q"
  shows "encodes s A (\<lambda>st. err_or (f st) g) (\<lambda>_. d_bind d k) Q"
  unfolding encodes_def
proof (intro allI impI)
  fix X mb ht mb' ht'
  assume mb: "mb_at mb X (length X)" and s: "s \<le> length X" and A: "\<forall>a\<in>A. a < length X"
    and t: "tab_ok X s A DNAME_BUF ht" and eq: "err_or (f (mb, ht)) g = (0, mb', ht')"
  from eq obtain mb1 ht1 where 1: "f (mb, ht) = (0, mb1, ht1)" and 2: "g (mb1, ht1) = (0, mb', ht')"
    by (auto simp: err_or_ok)
  obtain E where E: "mb_at mb1 (X @ E) (length (X @ E))" "tab_ok (X @ E) s A DNAME_BUF ht1"
    "\<And>c. matches A (X @ E) c \<Longrightarrow> reads c d (length X) P (length (X @ E))"
    using encodesD [OF assms(1) mb s A t 1] by blast
  have s': "s \<le> length (X @ E)" and A': "\<forall>a\<in>A. a < length (X @ E)" using s A by auto
  have wf: "mbuf_wf (mb1\<lparr>mb_pos := length X\<rparr>)" "mbuf_content (mb1\<lparr>mb_pos := length X\<rparr>) = X @ E"
    using mb_at_pos [OF E(1), of "length X"] by (auto simp: mb_at_def mbuf_ready_def)
  obtain x0 where x0: "P x0" using E(3) [of "X @ E"] wf unfolding reads_def by fastforce
  obtain F where F: "mb_at mb' ((X @ E) @ F) (length ((X @ E) @ F))" "tab_ok ((X @ E) @ F) s A DNAME_BUF ht'"
    using encodesD [OF assms(2) [OF x0] E(1) s' A' E(2) 2] by blast
  have rd: "reads c (k x) (length (X @ E)) Q (length ((X @ E) @ F))"
    if x: "P x" and c: "matches A ((X @ E) @ F) c" for x c
  proof -
    obtain G where G: "mb_at mb' ((X @ E) @ G) (length ((X @ E) @ G))"
      "\<And>c. matches A ((X @ E) @ G) c \<Longrightarrow> reads c (k x) (length (X @ E)) Q (length ((X @ E) @ G))"
      using encodesD [OF assms(2) [OF x] E(1) s' A' E(2) 2] by blast
    have "F = G" using mb_at_unique [OF F(1) G(1)] by simp
    then show ?thesis using G(2) c by simp
  qed
  have "reads c (d_bind d k) (length X) Q (length (X @ E @ F))" if c: "matches A (X @ E @ F) c" for c
    by (rule reads_bind [OF E(3)]) (use c rd matches_prefix [of A "X @ E" F c] in auto)
  then show "\<exists>E. mb_at mb' (X @ E) (length (X @ E)) \<and> tab_ok (X @ E) s A DNAME_BUF ht' \<and>
      (\<forall>c. matches A (X @ E) c \<longrightarrow> reads c (d_bind d k) (length X) Q (length (X @ E)))"
    using F by (intro exI [of _ "E @ F"]) simp
qed

lemma encodes_bytes:
  assumes "adds bs f" "parses (d (length bs)) bs x" "P x"
  shows "encodes s A (w_mb f) d P"
  unfolding encodes_def
proof (intro allI impI)
  fix X mb ht mb' ht'
  assume mb: "mb_at mb X (length X)" and A: "\<forall>a\<in>A. a < length X" and t: "tab_ok X s A DNAME_BUF ht"
    and eq: "w_mb f (mb, ht) = (0, mb', ht')"
  have f: "f mb = (0, mb')" "ht' = ht" using eq by (auto simp: w_mb_def split: prod.splits)
  have r: "mbuf_ready mb" "mb_pos mb = mb_end mb" using mb_atD [OF mb] by simp_all
  note a = adds_at_end [OF r assms(1) f(1)]
  have at: "mb_at mb' (X @ bs) (length (X @ bs))"
    using a mb mb_atD(3) [OF mb] by (simp add: mb_at_def)
  have cl: "clear_of A (length X) (length bs)" using A by (auto simp: clear_of_def)
  have "reads c (d (length bs)) (length X) P (length (X @ bs))" if c: "matches A (X @ bs) c" for c
  proof -
    have "take (length bs) (drop (length X) c) = bs" using matches_take [OF c cl] by simp
    moreover have "length X \<le> length c" using c by (simp add: matches_def)
    ultimately show ?thesis using reads_bytes [OF assms(2), of "length X" c P] assms(3) by simp
  qed
  then show "\<exists>E. mb_at mb' (X @ E) (length (X @ E)) \<and> tab_ok (X @ E) s A DNAME_BUF ht' \<and>
      (\<forall>c. matches A (X @ E) c \<longrightarrow> reads c (d (length E)) (length X) P (length (X @ E)))"
    using at tab_ok_append [OF t order.refl] f(2) by blast
qed

text \<open>A name that can be encoded: labels of 1 to 63 bytes, fewer than 256 bytes in all.\<close>

definition dname_ok :: "bytes \<Rightarrow> bool" where
  "dname_ok n \<longleftrightarrow> (\<exists>ls. n = dn_text ls \<and> (\<forall>l\<in>set ls. label_ok l)) \<and> length n < DNAME_BUF"

definition same_name :: "bytes \<Rightarrow> bytes \<Rightarrow> bool" where
  "same_name n m \<longleftrightarrow> map tolower m = map tolower n \<and> 0 \<notin> set n \<and> 0 \<notin> set m"

lemma same_name_cmp: "same_name n m \<Longrightarrow> str_casecmp (Some n) (Some m) = 0"
  by (simp add: same_name_def str_casecmp_Some)

lemma encodes_dname:
  assumes "dname_ok n" "small_allocs al"
  shows "encodes s A (dns_dname_encode al n s cmp) (\<lambda>_. dns_dname_decode al s) (same_name n)"
  unfolding encodes_def
proof (intro allI impI)
  fix X mb ht mb' ht'
  assume mb: "mb_at mb X (length X)" and s: "s \<le> length X" and A: "\<forall>a\<in>A. a < length X"
    and t: "tab_ok X s A DNAME_BUF ht" and eq: "dns_dname_encode al n s cmp (mb, ht) = (0, mb', ht')"
  obtain ls0 where ls0: "n = dn_text ls0" "\<forall>l\<in>set ls0. label_ok l" "length (dn_text ls0) < DNAME_BUF"
    using assms(1) unfolding dname_ok_def by blast
  have nz: "0 \<notin> set n" unfolding ls0(1) by (rule dn_text_zero) (use ls0(2) in blast)
  obtain E where E: "written X s A E n mb'" "tab_ok (X @ E) s A DNAME_BUF ht'"
    using dns_dname_encode_written [OF mb ls0(2) s t ls0(3) eq [unfolded ls0(1)] A] ls0(1) by blast
  obtain ls h where w: "names (X @ E) s A (length X) ls h (length (X @ E))" "h \<le> length ls" "dn_like ls n"
    using E(1) unfolding written_def by blast
  have lok: "l \<in> set ls \<Longrightarrow> label_ok l" for l using w(3) by (simp add: dn_like_def)
  have len: "length (dn_text ls) < DNAME_BUF" using dn_like_length [OF w(3)] ls0 by simp
  have h: "0 + h \<le> COMP_LOOP + 1"
    using w(2) dn_text_length [of ls] lok len by (simp add: COMP_LOOP_def DNAME_BUF_def)
  have j: "dn_join [] ls = dn_text ls" using dn_join_text [of ls "[]"] lok by simp
  have al: "mem_alloc al (length (dn_join [] ls) + 1) \<noteq> None"
    using assms(2) len unfolding j small_allocs_def by (simp add: DNAME_BUF_def)
  have same: "same_name n (dn_text ls)"
    using w(3) nz dn_text_zero [of ls] lok by (simp add: same_name_def dn_like_def)
  have "reads c (dns_dname_decode al s) (length X) (same_name n) (length (X @ E))" if c: "matches A (X @ E) c" for c
    unfolding reads_def
  proof (intro allI impI)
    fix m :: mbuf assume m: "mbuf_wf m" "mbuf_content m = c" "mb_pos m = length X"
    note nc = names_matches [OF w(1) c]
    have len_c: "length (X @ E) \<le> length c" "length c < 2 ^ 64"
      using c length_mbuf_content [OF m(1)] m(1,2) by (auto simp: matches_def mbuf_wf_def MEM_SIZE_MAX_def)
    have "dns_dname_decode al s m = (Inr (dn_text ls), m\<lparr>mb_pos := length (X @ E)\<rparr>)"
      using names_decoded [OF nc m h _ len [folded j] al, of None] by (simp add: dns_dname_decode_def j)
    moreover have "mbuf_wf (m\<lparr>mb_pos := length (X @ E)\<rparr>)"
      using m(1) len_c by (simp add: mbuf_wf_def mbuf_bytes_def)
    ultimately show "\<exists>x. same_name n x \<and> dns_dname_decode al s m = (Inr x, m\<lparr>mb_pos := length (X @ E)\<rparr>) \<and>
        mbuf_wf (m\<lparr>mb_pos := length (X @ E)\<rparr>)" using same by blast
  qed
  then show "\<exists>E. mb_at mb' (X @ E) (length (X @ E)) \<and> tab_ok (X @ E) s A DNAME_BUF ht' \<and>
      (\<forall>c. matches A (X @ E) c \<longrightarrow>
        reads c (dns_dname_decode al s) (length X) (same_name n) (length (X @ E)))"
    using E unfolding written_def by blast
qed

section \<open>Resource records\<close>

lemma parses_left [parses_intros]: "n \<le> length bs \<Longrightarrow> parses d bs x \<Longrightarrow> parses (d_left n e d) bs x"
  by (simp add: parses_def d_left_def mbuf_rd)

lemma d_left_bind: "d_left n e (d_bind d k) = d_bind (d_left n e d) k"
  by (rule ext) (simp add: d_left_def d_bind_def)

definition cstr_ok :: "bytes \<Rightarrow> bool" where
  "cstr_ok str \<longleftrightarrow> length str \<le> 255 \<and> 0 \<notin> set str"

definition cstr_img :: "bytes \<Rightarrow> bytes" where
  "cstr_img str = word_of_nat (length str) # str"

lemma cstr_len: "length str \<le> 255 \<Longrightarrow> unat (word_of_nat (length str) :: u8) = length str"
  by (simp add: unat_of_nat)

lemma dns_cstr_adds: "cstr_ok str \<Longrightarrow> adds (cstr_img str) (\<lambda>mb. dns_cstr_encode al mb str)"
  using adds_seq [OF adds_ints(1) adds_write [of str], of "word_of_nat (length str)" al al]
  by (simp add: cstr_ok_def dns_cstr_encode_def cstr_img_def cstr_len Let_def)

lemma dns_cstr_parses:
  assumes "cstr_ok str" "small_allocs al"
  shows "parses (dns_cstr_decode al) (cstr_img str) str"
proof -
  have l: "length str \<le> 255" "0 \<notin> set str" using assms(1) by (simp_all add: cstr_ok_def)
  have "parses (d_strdup al (length str)) str (str @ [0])"
    using assms(2) l by (intro parses_strdup) (simp_all add: small_allocs_def)
  from parses_bind_Nil [OF this, of "\<lambda>str. d_ret (takeWhile (\<lambda>c. c \<noteq> 0) str)" str]
  have "parses (d_left (length str) EBADMSG (d_bind (d_strdup al (length str)) (\<lambda>str. d_ret (takeWhile (\<lambda>c. c \<noteq> 0) str)))) str str"
    by (intro parses_left) (simp_all add: takeWhile_str l parses_ret)
  then have "parses (d_bind d_u8 (\<lambda>len. d_left (unat len) EBADMSG
       (d_bind (d_strdup al (unat len)) (\<lambda>str. d_ret (takeWhile (\<lambda>c. c \<noteq> 0) str))))) ([word_of_nat (length str)] @ str) str"
    by (intro parses_bind [OF parses_u8]) (simp add: cstr_len l)
  then show ?thesis unfolding dns_cstr_decode_def cstr_img_def by (intro parses_left) simp_all
qed

lemma txt_loop_short:
  "length data \<le> 255 \<Longrightarrow> txt_loop al data r =
     Some (err_or r (\<lambda>mb. dns_cstr_encode al mb data))"
  by (simp add: txt_loop.simps [of al data r] cstr_len Let_def dns_cstr_encode_def err_or_assoc)

lemma txt_dec_parses:
  assumes "cstr_ok data"
  shows "parses (txt_dec_loop (length data + 1) []) (cstr_img data) data"
  unfolding parses_def
proof (intro allI impI)
  fix mb rest assume wf: "mbuf_wf mb" and l: "mbuf_left mb = cstr_img data @ rest"
  have ok: "length data \<le> 255" "0 \<notin> set data" using assms by (simp_all add: cstr_ok_def)
  have 1: "mbuf_read_u8 mb = (word_of_nat (length data), mbuf_skip mb 1)"
    using wf l by (simp add: mbuf_rd cstr_img_def)
  have s: "mbuf_wf (mbuf_skip mb 1)" "mbuf_left (mbuf_skip mb 1) = data @ rest"
    using mbuf_skip_left [OF wf, of "[word_of_nat (length data)]" "data @ rest" 1] l by (simp_all add: cstr_img_def)
  have 2: "mbuf_read_mem (mbuf_skip mb 1) (length data) = Inr (data, mbuf_skip mb (1 + length data))"
    using mbuf_read_mem_left(1) [OF s] by simp
  show "txt_dec_loop (length data + 1) [] mb = (Inr data, mbuf_skip mb (length (cstr_img data)))"
    using ok by (simp add: txt_dec_loop.simps [of "Suc _"] txt_dec_loop.simps [of 0] 1 [simplified] 2 [simplified]
        cstr_len takeWhile_str cstr_img_def)
qed

fun rdata_ok :: "dns_rdata \<Rightarrow> bool" where
  "rdata_ok (DNS_A addr) = True"
| "rdata_ok (DNS_NS n) = dname_ok n"
| "rdata_ok (DNS_CNAME n) = dname_ok n"
| "rdata_ok (DNS_SOA m r _ _ _ _ _) = (dname_ok m \<and> dname_ok r)"
| "rdata_ok (DNS_PTR n) = dname_ok n"
| "rdata_ok (DNS_MX _ n) = dname_ok n"
| "rdata_ok (DNS_TXT data) = cstr_ok data"
| "rdata_ok (DNS_AAAA addr) = (length addr = 16)"
| "rdata_ok (DNS_SRV _ _ _ n) = dname_ok n"
| "rdata_ok (DNS_NAPTR _ _ flags services regexp n) = (cstr_ok flags \<and> cstr_ok services \<and> cstr_ok regexp \<and> dname_ok n)"
| "rdata_ok (DNS_OTHER _) = False"

lemma encodes_u16: "encodes s A (e_u16 al v) (\<lambda>_. d_u16) (\<lambda>x. x = v)"
  unfolding e_u16_def by (rule encodes_bytes [OF adds_ints(2) parses_u16 refl])

lemma encodes_u32: "encodes s A (e_u32 al v) (\<lambda>_. d_u32) (\<lambda>x. x = v)"
  unfolding e_u32_def by (rule encodes_bytes [OF adds_ints(3) parses_u32 refl])

lemma encodes_cstr:
  "cstr_ok str \<Longrightarrow> small_allocs al \<Longrightarrow>
     encodes s A (w_mb (\<lambda>mb. dns_cstr_encode al mb str)) (\<lambda>_. dns_cstr_decode al) (\<lambda>x. x = str)"
  by (rule encodes_bytes [OF dns_cstr_adds dns_cstr_parses refl])

lemma str_casecmp_same: "str_casecmp (Some x) (Some x) = 0"
  by (simp add: str_casecmp_def)

lemma d_bind_laws:
  "d_bind (d_ret x) k = k x" "d_bind (d_bind d j) k = d_bind d (\<lambda>x. d_bind (j x) k)"
  by (rule ext; simp add: d_bind_def d_ret_def split: prod.split sum.split)+

lemma w_mb_seq: "w_mb (\<lambda>mb. err_or (f mb) g) = (\<lambda>st. err_or (w_mb f st) (w_mb g))"
  by (rule ext) (simp add: w_mb_def err_or_def split: prod.split)

lemma encodes_ret: "encodes s A f (\<lambda>_. d) P \<Longrightarrow> (\<And>x. P x \<Longrightarrow> Q (k x)) \<Longrightarrow> encodes s A f (\<lambda>_. d_bind d (\<lambda>x. d_ret (k x))) Q"
  unfolding encodes_def
proof (intro allI impI)
  fix X mb ht mb' ht'
  assume e: "\<forall>X mb ht mb' ht'. mb_at mb X (length X) \<longrightarrow> s \<le> length X \<longrightarrow> (\<forall>a\<in>A. a < length X) \<longrightarrow>
     tab_ok X s A DNAME_BUF ht \<longrightarrow> f (mb, ht) = (0, mb', ht') \<longrightarrow>
     (\<exists>E. mb_at mb' (X @ E) (length (X @ E)) \<and> tab_ok (X @ E) s A DNAME_BUF ht' \<and>
          (\<forall>c. matches A (X @ E) c \<longrightarrow> reads c d (length X) P (length (X @ E))))"
    and k: "\<And>x. P x \<Longrightarrow> Q (k x)" and pre: "mb_at mb X (length X)" "s \<le> length X" "\<forall>a\<in>A. a < length X"
      "tab_ok X s A DNAME_BUF ht" "f (mb, ht) = (0, mb', ht')"
  from e pre obtain E where E: "mb_at mb' (X @ E) (length (X @ E))" "tab_ok (X @ E) s A DNAME_BUF ht'"
    "\<And>c. matches A (X @ E) c \<Longrightarrow> reads c d (length X) P (length (X @ E))" by blast
  have "reads c (d_bind d (\<lambda>x. d_ret (k x))) (length X) Q (length (X @ E))" if "matches A (X @ E) c" for c
    by (rule reads_bind [OF E(3) [OF that]]) (rule reads_ret, erule k)
  then show "\<exists>E. mb_at mb' (X @ E) (length (X @ E)) \<and> tab_ok (X @ E) s A DNAME_BUF ht' \<and>
      (\<forall>c. matches A (X @ E) c \<longrightarrow> reads c (d_bind d (\<lambda>x. d_ret (k x))) (length X) Q (length (X @ E)))"
    using E(1,2) by blast
qed

definition rdata_coded :: "malloc_env \<Rightarrow> nat \<Rightarrow> nat set \<Rightarrow> dns_rdata \<Rightarrow> bool" where
  "rdata_coded al s A rd \<longleftrightarrow> (\<exists>F. (\<forall>r. dns_rdata_encode al s rd r = Some (err_or r F)) \<and>
     encodes s A F (\<lambda>n. dns_rdata_decode al s (rr_type rd) (word_of_nat n))
       (\<lambda>rd'. dns_rdata_cmp rd rd' \<and> rr_type rd' = rr_type rd))"

lemma rdata_codedI:
  assumes "\<And>r. dns_rdata_encode al s rd r = Some (err_or r F)"
    "encodes s A F (\<lambda>n. dns_rdata_decode al s (rr_type rd) (word_of_nat n))
       (\<lambda>rd'. dns_rdata_cmp rd rd' \<and> rr_type rd' = rr_type rd)"
  shows "rdata_coded al s A rd"
  using assms unfolding rdata_coded_def by blast

lemmas rdata_simps = dns_rdata_decode_def dns_rdata_cmp_def Let_def

lemma coded_A: "rdata_coded al s A (DNS_A addr)"
  by (rule rdata_codedI [where F = "e_u32 al addr"], simp)
    (unfold e_u32_def, rule encodes_bytes [OF adds_ints(3)],
      auto simp: rdata_simps d_check_def intro!: parses_bind_Nil [OF parses_u32] parses_ret)

lemma coded_name:
  assumes al: "small_allocs al" and ok: "dname_ok n"
  shows "rdata_coded al s A (DNS_NS n)" "rdata_coded al s A (DNS_CNAME n)" "rdata_coded al s A (DNS_PTR n)"
  by (rule rdata_codedI [where F = "dns_dname_encode al n s True"], simp,
      simp add: rdata_simps, rule encodes_ret [OF encodes_dname [OF ok al]],
      simp add: same_name_cmp)+

lemma coded_SOA:
  assumes al: "small_allocs al" and ok: "dname_ok m" "dname_ok r"
  shows "rdata_coded al s A (DNS_SOA m r a b c d e)"
proof -
  let ?ints = "\<lambda>mb. err_or (err_or (err_or (err_or (mbuf_write_u32 al mb (htonl a))
    (\<lambda>mb. mbuf_write_u32 al mb (htonl b))) (\<lambda>mb. mbuf_write_u32 al mb (htonl c)))
    (\<lambda>mb. mbuf_write_u32 al mb (htonl d))) (\<lambda>mb. mbuf_write_u32 al mb (htonl e))"
  let ?bs = "(((be32 a @ be32 b) @ be32 c) @ be32 d) @ be32 e"
  let ?F = "\<lambda>st. err_or (dns_dname_encode al m s True st) (\<lambda>st. err_or (dns_dname_encode al r s True st) (w_mb ?ints))"
  have ints: "adds ?bs ?ints" by (intro adds_seq adds_ints)
  have rd: "parses (d_left 20 EINVAL (d_bind d_u32 (\<lambda>serial. d_bind d_u32 (\<lambda>refresh. d_bind d_u32 (\<lambda>retry.
          d_bind d_u32 (\<lambda>expire. d_bind d_u32 (\<lambda>ttlmin. d_ret (DNS_SOA x y serial refresh retry expire ttlmin))))))))
      ?bs (DNS_SOA x y a b c d e)" for x y
    unfolding append_assoc
    by (intro parses_left parses_bind [OF parses_u32] parses_bind_Nil [OF parses_u32] parses_ret) simp
  show ?thesis
  proof (rule rdata_codedI [where F = ?F])
    show "dns_rdata_encode al s (DNS_SOA m r a b c d e) t = Some (err_or t ?F)" for t
      by (simp add: err_or_assoc e_u32_def w_mb_seq)
    show "encodes s A ?F (\<lambda>n. dns_rdata_decode al s (rr_type (DNS_SOA m r a b c d e)) (word_of_nat n))
       (\<lambda>rd'. dns_rdata_cmp (DNS_SOA m r a b c d e) rd' \<and> rr_type rd' = rr_type (DNS_SOA m r a b c d e))"
      by (simp add: rdata_simps, rule encodes_bind [OF encodes_dname [OF ok(1) al]],
          rule encodes_bind [OF encodes_dname [OF ok(2) al]], rule encodes_bytes [OF ints rd])
        (simp add: same_name_cmp)
  qed
qed

lemma coded_MX:
  assumes al: "small_allocs al" and ok: "dname_ok n"
  shows "rdata_coded al s A (DNS_MX p n)"
proof (rule rdata_codedI [where F = "\<lambda>st. err_or (e_u16 al p st) (dns_dname_encode al n s True)"])
  have "encodes s A (e_u16 al p) (\<lambda>_. d_left 2 EINVAL d_u16) (\<lambda>x. x = p)"
    unfolding e_u16_def by (rule encodes_bytes [OF adds_ints(2)]) (simp_all add: parses_left parses_u16)
  then show "encodes s A (\<lambda>st. err_or (e_u16 al p st) (dns_dname_encode al n s True))
     (\<lambda>k. dns_rdata_decode al s (rr_type (DNS_MX p n)) (word_of_nat k))
     (\<lambda>rd'. dns_rdata_cmp (DNS_MX p n) rd' \<and> rr_type rd' = rr_type (DNS_MX p n))"
    by (simp add: rdata_simps d_left_bind, intro encodes_bind encodes_ret [OF encodes_dname [OF ok al]])
      (assumption, simp add: same_name_cmp)
qed (simp add: err_or_assoc)

lemma coded_TXT:
  assumes al: "small_allocs al" and ok: "cstr_ok data"
  shows "rdata_coded al s A (DNS_TXT data)"
proof (rule rdata_codedI [where F = "w_mb (\<lambda>mb. dns_cstr_encode al mb data)"])
  have l: "length data \<le> 255" using ok by (simp add: cstr_ok_def)
  show "dns_rdata_encode al s (DNS_TXT data) r = Some (err_or r (w_mb (\<lambda>mb. dns_cstr_encode al mb data)))" for r
    using l by (cases r) (simp add: txt_loop_short w_mb_def err_or_def split: prod.split)
  have u: "unat (word_of_nat (Suc (length data)) :: u16) = Suc (length data)" using l by (simp add: unat_of_nat del: of_nat_Suc)
  have "parses (d_bind (txt_dec_loop (length data + 1) []) (\<lambda>s. d_ret (DNS_TXT s))) (cstr_img data) (DNS_TXT data)"
    by (rule parses_bind_Nil [OF txt_dec_parses [OF ok] parses_ret])
  then have "parses (dns_rdata_decode al s (rr_type (DNS_TXT data)) (word_of_nat (length (cstr_img data))))
      (cstr_img data) (DNS_TXT data)"
    using al l by (simp add: rdata_simps cstr_img_def u parses_alloc small_allocs_def del: of_nat_Suc)
  then show "encodes s A (w_mb (\<lambda>mb. dns_cstr_encode al mb data))
     (\<lambda>n. dns_rdata_decode al s (rr_type (DNS_TXT data)) (word_of_nat n))
     (\<lambda>rd'. dns_rdata_cmp (DNS_TXT data) rd' \<and> rr_type rd' = rr_type (DNS_TXT data))"
    by (rule encodes_bytes [OF dns_cstr_adds [OF ok]]) (simp add: rdata_simps str_casecmp_same)
qed

lemma coded_AAAA:
  assumes al: "small_allocs al" and ok: "length addr = 16"
  shows "rdata_coded al s A (DNS_AAAA addr)"
proof (rule rdata_codedI [where F = "w_mb (\<lambda>mb. mbuf_write_mem al mb (Some addr))"])
  have "parses (d_bind (d_mem 16) (\<lambda>a. d_ret (DNS_AAAA a))) addr (DNS_AAAA addr)"
    using ok by (intro parses_bind_Nil [OF parses_mem] parses_ret) simp
  then show "encodes s A (w_mb (\<lambda>mb. mbuf_write_mem al mb (Some addr)))
     (\<lambda>n. dns_rdata_decode al s (rr_type (DNS_AAAA addr)) (word_of_nat n))
     (\<lambda>rd'. dns_rdata_cmp (DNS_AAAA addr) rd' \<and> rr_type rd' = rr_type (DNS_AAAA addr))"
    using ok by (intro encodes_bytes [OF adds_write, where x = "DNS_AAAA addr"]) (simp_all add: rdata_simps d_check_def)
qed simp

lemma coded_SRV:
  assumes al: "small_allocs al" and ok: "dname_ok n"
  shows "rdata_coded al s A (DNS_SRV a b c n)"
proof -
  let ?ints = "\<lambda>mb. err_or (err_or (mbuf_write_u16 al mb (htons a)) (\<lambda>mb. mbuf_write_u16 al mb (htons b)))
    (\<lambda>mb. mbuf_write_u16 al mb (htons c))"
  let ?F = "\<lambda>st. err_or (w_mb ?ints st) (dns_dname_encode al n s False)"
  let ?d = "d_left 6 EINVAL (d_bind d_u16 (\<lambda>a. d_bind d_u16 (\<lambda>b. d_bind d_u16 (\<lambda>c. d_ret (a, b, c)))))"
  have ints: "adds ((be16 a @ be16 b) @ be16 c) ?ints" by (intro adds_seq adds_ints)
  have rd: "parses ?d ((be16 a @ be16 b) @ be16 c) (a, b, c)"
    unfolding append_assoc
    by (intro parses_left parses_bind [OF parses_u16] parses_bind_Nil [OF parses_u16] parses_ret) simp
  have "dns_rdata_decode al s 0x21 k = d_bind ?d (\<lambda>(a, b, c). d_bind (dns_dname_decode al s) (\<lambda>n. d_ret (DNS_SRV a b c n)))" for k
    by (simp add: rdata_simps d_left_bind d_bind_laws)
  then have dec: "(\<lambda>k. dns_rdata_decode al s (rr_type (DNS_SRV a b c n)) (word_of_nat k)) =
      (\<lambda>_. d_bind ?d (\<lambda>(a, b, c). d_bind (dns_dname_decode al s) (\<lambda>n. d_ret (DNS_SRV a b c n))))" by simp
  show ?thesis
  proof (rule rdata_codedI [where F = ?F], unfold dec)
    show "dns_rdata_encode al s (DNS_SRV a b c n) t = Some (err_or t ?F)" for t
      by (simp add: err_or_assoc e_u16_def w_mb_seq)
    show "encodes s A ?F (\<lambda>_. d_bind ?d (\<lambda>(a, b, c). d_bind (dns_dname_decode al s) (\<lambda>n. d_ret (DNS_SRV a b c n))))
       (\<lambda>rd'. dns_rdata_cmp (DNS_SRV a b c n) rd' \<and> rr_type rd' = rr_type (DNS_SRV a b c n))"
      by (rule encodes_bind [OF encodes_bytes [where P = "\<lambda>y. y = (a, b, c)", OF ints rd refl]], clarsimp, rule encodes_ret [OF encodes_dname [OF ok al]])
        (simp add: rdata_simps same_name_cmp)
  qed
qed

lemma coded_NAPTR:
  assumes al: "small_allocs al" and ok: "cstr_ok f" "cstr_ok v" "cstr_ok x" "dname_ok n"
  shows "rdata_coded al s A (DNS_NAPTR a b f v x n)"
proof -
  let ?ints = "\<lambda>mb. err_or (mbuf_write_u16 al mb (htons a)) (\<lambda>mb. mbuf_write_u16 al mb (htons b))"
  let ?d = "d_left 4 EINVAL (d_bind d_u16 (\<lambda>a. d_bind d_u16 (\<lambda>b. d_ret (a, b))))"
  let ?rest = "\<lambda>st. err_or (w_mb (\<lambda>mb. dns_cstr_encode al mb f) st) (\<lambda>st. err_or (w_mb (\<lambda>mb. dns_cstr_encode al mb v) st)
    (\<lambda>st. err_or (w_mb (\<lambda>mb. dns_cstr_encode al mb x) st) (dns_dname_encode al n s False)))"
  let ?k = "\<lambda>(a, b). d_bind (dns_cstr_decode al) (\<lambda>f. d_bind (dns_cstr_decode al) (\<lambda>v. d_bind (dns_cstr_decode al)
    (\<lambda>x. d_bind (dns_dname_decode al s) (\<lambda>n. d_ret (DNS_NAPTR a b f v x n)))))"
  let ?F = "\<lambda>st. err_or (w_mb ?ints st) ?rest"
  have ints: "adds (be16 a @ be16 b) ?ints" by (intro adds_seq adds_ints)
  have rd: "parses ?d (be16 a @ be16 b) (a, b)"
    by (intro parses_left parses_bind [OF parses_u16] parses_bind_Nil [OF parses_u16] parses_ret) simp
  have "dns_rdata_decode al s 0x23 k = d_bind ?d ?k" for k
    by (simp add: rdata_simps d_left_bind d_bind_laws)
  then have dec: "(\<lambda>k. dns_rdata_decode al s (rr_type (DNS_NAPTR a b f v x n)) (word_of_nat k)) = (\<lambda>_. d_bind ?d ?k)"
    by simp
  show ?thesis
  proof (rule rdata_codedI [where F = ?F], unfold dec)
    show "dns_rdata_encode al s (DNS_NAPTR a b f v x n) t = Some (err_or t ?F)" for t
      by (simp add: err_or_assoc e_u16_def w_mb_seq)
    show "encodes s A ?F (\<lambda>_. d_bind ?d ?k)
       (\<lambda>rd'. dns_rdata_cmp (DNS_NAPTR a b f v x n) rd' \<and> rr_type rd' = rr_type (DNS_NAPTR a b f v x n))"
      by (rule encodes_bind [OF encodes_bytes [where P = "\<lambda>y. y = (a, b)", OF ints rd refl]], clarsimp,
          intro encodes_bind [OF encodes_cstr [OF _ al]] encodes_ret [OF encodes_dname [OF ok(4) al]] ok(1-3))
        (simp add: rdata_simps same_name_cmp str_casecmp_same)
  qed
qed

lemma rdata_coded:
  assumes "rdata_ok rd" "small_allocs al"
  shows "rdata_coded al s A rd"
  using assms(1)
  by (cases rd) (simp_all add: assms(2) coded_A coded_name coded_SOA coded_MX coded_TXT coded_AAAA coded_SRV coded_NAPTR)

definition rr_ok :: "dnsrr \<Rightarrow> bool" where
  "rr_ok rr \<longleftrightarrow> dname_ok (rr_name rr) \<and> rdata_ok (rr_rdata rr)"

definition ttl_sent :: "dnsrr \<Rightarrow> int \<Rightarrow> u32" where
  "ttl_sent rr ttl_offs = word_of_int (if rr_ttl rr > ttl_offs then rr_ttl rr - ttl_offs else 0)"

definition rr_like :: "dnsrr \<Rightarrow> int \<Rightarrow> dnsrr \<Rightarrow> bool" where
  "rr_like rr ttl_offs rr' \<longleftrightarrow> dns_rr_cmp rr rr' True \<and> rr_ttl rr' = int (unat (ttl_sent rr ttl_offs))"

text \<open>The fixed part between the name and the data, with the length field last.\<close>

definition rr_fixed :: "dnsrr \<Rightarrow> int \<Rightarrow> bytes" where
  "rr_fixed rr ttl_offs = be16 (rr_type (rr_rdata rr)) @ be16 (rr_dnsclass rr) @ be32 (ttl_sent rr ttl_offs)"

lemma length_rr_fixed [simp]: "length (rr_fixed rr t) = 8"
  by (simp add: rr_fixed_def)

lemma rr_prefix_written:
  assumes ok: "rr_ok rr" "small_allocs al" and mb: "mb_at mb X (length X)" and s: "s \<le> length X"
    and t: "tab_ok X s {} DNAME_BUF ht"
    and eq: "err_or (err_or (err_or (err_or
                (dns_dname_encode al (rr_name rr) s True (mb, ht))
                (e_u16 al (rr_type (rr_rdata rr)))) (e_u16 al (rr_dnsclass rr)))
                (e_u32 al (ttl_sent rr offs))) (e_u16 al (rr_rdlen rr)) = (0, mb', ht')"
  obtains N where "mb_at mb' (X @ N @ rr_fixed rr offs @ be16 (rr_rdlen rr)) (length (X @ N) + 10)"
    "tab_ok (X @ N) s {} DNAME_BUF ht'"
    "\<And>c. matches {} (X @ N) c \<Longrightarrow> reads c (dns_dname_decode al s) (length X) (same_name (rr_name rr)) (length (X @ N))"
proof -
  let ?ints = "\<lambda>mb. err_or (err_or (err_or (mbuf_write_u16 al mb (htons (rr_type (rr_rdata rr))))
    (\<lambda>mb. mbuf_write_u16 al mb (htons (rr_dnsclass rr)))) (\<lambda>mb. mbuf_write_u32 al mb (htonl (ttl_sent rr offs))))
    (\<lambda>mb. mbuf_write_u16 al mb (htons (rr_rdlen rr)))"
  have "err_or (dns_dname_encode al (rr_name rr) s True (mb, ht)) (w_mb ?ints) = (0, mb', ht')"
    using eq by (simp add: e_u16_def e_u32_def w_mb_seq err_or_assoc)
  then obtain mb1 ht1 where 1: "dns_dname_encode al (rr_name rr) s True (mb, ht) = (0, mb1, ht1)"
    and 2: "w_mb ?ints (mb1, ht1) = (0, mb', ht')" by (auto simp: err_or_ok)
  have no: "\<forall>a\<in>({} :: nat set). a < length X" by simp
  have n: "dname_ok (rr_name rr)" using ok(1) by (simp add: rr_ok_def)
  obtain N where N: "mb_at mb1 (X @ N) (length (X @ N))" "tab_ok (X @ N) s {} DNAME_BUF ht1"
    "\<And>c. matches {} (X @ N) c \<Longrightarrow> reads c (dns_dname_decode al s) (length X) (same_name (rr_name rr)) (length (X @ N))"
    using encodesD [OF encodes_dname [OF n ok(2)] mb s no t 1] by blast
  have i: "?ints mb1 = (0, mb')" "ht' = ht1" using 2 by (auto simp: w_mb_def split: prod.splits)
  have r: "mbuf_ready mb1" "mb_pos mb1 = mb_end mb1" using mb_atD [OF N(1)] by simp_all
  have "adds (((be16 (rr_type (rr_rdata rr)) @ be16 (rr_dnsclass rr)) @ be32 (ttl_sent rr offs)) @ be16 (rr_rdlen rr)) ?ints"
    by (intro adds_seq adds_ints)
  from adds_at_end [OF r this i(1)] N(1) mb_atD(3) [OF N(1)]
  have "mb_at mb' (X @ N @ rr_fixed rr offs @ be16 (rr_rdlen rr)) (length (X @ N) + 10)"
    by (simp add: mb_at_def rr_fixed_def)
  then show thesis using that N(2,3) i(2) by blast
qed

lemma mb_at_put:
  assumes "mb_at mb (C @ R) n" "n = length C" "adds bs f" "f mb = (0, mb')" "length bs \<le> length R"
  shows "mb_at mb' (C @ bs @ drop (length bs) R) (n + length bs)"
  using addsD [OF assms(3) mb_atD(1) [OF assms(1)] assms(4)] assms(1,2,5) mb_atD(4) [OF assms(1)]
  by (simp add: mb_at_def mem_put_def)

lemma reads_fixed:
  assumes "matches {} (Y @ rr_fixed rr offs @ be16 len @ E) c" "unat len \<le> length E"
    "\<And>t c' l. t = rr_type (rr_rdata rr) \<Longrightarrow> c' = rr_dnsclass rr \<Longrightarrow> l = ttl_sent rr offs \<Longrightarrow>
       reads c (k t c' l len) (length Y + 10) P e"
  shows "reads c (d_left 10 EINVAL (d_bind d_u16 (\<lambda>t. d_bind d_u16 (\<lambda>c'. d_bind d_u32 (\<lambda>l. d_bind d_u16 (\<lambda>n.
     d_left (unat n) EINVAL (k t c' l n))))))) (length Y) P e"
proof -
  let ?Z = "Y @ rr_fixed rr offs @ be16 len @ E"
  have tk: "take n (drop p c) = take n (drop p ?Z)" if "p + n \<le> length ?Z" for n p
    by (rule matches_take [OF assms(1) _ that]) (simp add: clear_of_def)
  have lc: "length ?Z \<le> length c" using assms(1) by (simp add: matches_def)
  have rb: "reads c d (length Y + p) (\<lambda>x. x = v) (length Y + q)"
    if "parses d bs v" "take (length bs) (drop p (rr_fixed rr offs @ be16 len @ E)) = bs" "q = p + length bs" "q \<le> 10"
    for d bs v p q
  proof -
    have le: "length Y + p + length bs \<le> length ?Z" using that(3,4) by simp
    have "drop (length Y + p) ?Z = drop p (rr_fixed rr offs @ be16 len @ E)" by (simp only: drop_append) simp
    then have "take (length bs) (drop (length Y + p) c) = bs" using tk [OF le] that(2) by simp
    moreover have "length Y + p \<le> length c" using le lc by linarith
    ultimately have "reads c d (length Y + p) (\<lambda>x. x = v) (length Y + p + length bs)" by (intro reads_bytes [OF that(1)]) simp_all
    then show ?thesis by (simp only: that(3) add.assoc)
  qed
  have 0: "reads c d_u16 (length Y + 0) (\<lambda>x. x = rr_type (rr_rdata rr)) (length Y + 2)"
    by (rule rb [OF parses_u16]) (simp_all add: rr_fixed_def)
  note 1 = 0 [unfolded add_0_right]
  have 2: "reads c d_u16 (length Y + 2) (\<lambda>x. x = rr_dnsclass rr) (length Y + 4)"
    by (rule rb [OF parses_u16]) (simp_all add: rr_fixed_def)
  have 3: "reads c d_u32 (length Y + 4) (\<lambda>x. x = ttl_sent rr offs) (length Y + 8)"
    by (rule rb [OF parses_u32]) (simp_all add: rr_fixed_def)
  have 4: "reads c d_u16 (length Y + 8) (\<lambda>x. x = len) (length Y + 10)"
    by (rule rb [OF parses_u16]) simp_all
  show ?thesis
    by (rule reads_left, use lc in simp, rule reads_bind [OF 1], rule reads_bind [OF 2], rule reads_bind [OF 3],
        rule reads_bind [OF 4], rule reads_left) (use lc assms(2,3) in auto)
qed

lemma dns_rr_encodes:
  assumes "rr_ok rr" "small_allocs al"
  shows "encodes s {} (\<lambda>st. the (dns_rr_encode al rr offs s st)) (\<lambda>_. dns_rr_decode al s) (rr_like rr offs)"
  unfolding encodes_def
proof (intro allI impI)
  fix X mb ht mb' ht'
  assume mb: "mb_at mb X (length X)" and s: "s \<le> length X" and t: "tab_ok X s {} DNAME_BUF ht"
    and eq0: "the (dns_rr_encode al rr offs s (mb, ht)) = (0, mb', ht')"
  have rdok: "rdata_ok (rr_rdata rr)" using assms(1) by (simp add: rr_ok_def)
  let ?type = "rr_type (rr_rdata rr)"
  let ?r = "err_or (err_or (err_or (err_or
                (dns_dname_encode al (rr_name rr) s True (mb, ht))
                (e_u16 al ?type)) (e_u16 al (rr_dnsclass rr)))
                (e_u32 al (ttl_sent rr offs))) (e_u16 al (rr_rdlen rr))"
  obtain e2 mb2 ht2 where r: "?r = (e2, mb2, ht2)" by (metis prod_cases3)
  obtain F0 where F0: "\<And>r. dns_rdata_encode al s (rr_rdata rr) r = Some (err_or r F0)"
    using rdata_coded [OF rdok assms(2), of s "{}"] unfolding rdata_coded_def by blast
  obtain e3 mb3 ht3 where f: "err_or ?r F0 = (e3, mb3, ht3)" by (metis prod_cases3)
  let ?len = "sz_sub (mb_pos mb3) (mb_pos mb2)"
  obtain e4 mb4 where w: "err_or (e3, mb3\<lparr>mb_pos := sz_sub (mb_pos mb2) 2\<rparr>)
      (\<lambda>mb. mbuf_write_u16 al mb (htons (word_of_nat ?len))) = (e4, mb4)" by fastforce
  have "dns_rr_encode al rr offs s (mb, ht) =
      (if ?len > 0xffff then Some (EOVERFLOW, mb3, ht3) else Some (e4, mb4\<lparr>mb_pos := szt (mb_pos mb4 + ?len)\<rparr>, ht3))"
    unfolding dns_rr_encode_def Let_def ttl_sent_def [symmetric] F0 using r f w by simp
  with eq0 have res: "?len \<le> 0xffff" "e4 = 0" "mb' = mb4\<lparr>mb_pos := szt (mb_pos mb4 + ?len)\<rparr>" "ht' = ht3"
    by (auto simp: EOVERFLOW_def split: if_splits)
  have w': "e3 = 0" "mbuf_write_u16 al (mb3\<lparr>mb_pos := sz_sub (mb_pos mb2) 2\<rparr>) (htons (word_of_nat ?len)) = (0, mb4)"
    using w res(2) by (auto simp: err_or_ok)
  have r0: "e2 = 0" and f0: "F0 (mb2, ht2) = (0, mb3, ht3)" using f r w'(1) by (auto simp: err_or_ok)
  obtain N where N: "mb_at mb2 (X @ N @ rr_fixed rr offs @ be16 (rr_rdlen rr)) (length (X @ N) + 10)"
    "tab_ok (X @ N) s {} DNAME_BUF ht2"
    "\<And>c. matches {} (X @ N) c \<Longrightarrow> reads c (dns_dname_decode al s) (length X) (same_name (rr_name rr)) (length (X @ N))"
    using rr_prefix_written [OF assms mb s t r [unfolded r0]] by blast
  let ?Y = "X @ N @ rr_fixed rr offs"
  let ?B = "{length ?Y, length ?Y + 1}"
  have m2: "mb_at mb2 (?Y @ be16 (rr_rdlen rr)) (length (?Y @ be16 (rr_rdlen rr)))" using N(1) by (simp add: add.assoc)
  have "tab_ok (X @ N) s ?B DNAME_BUF ht2" by (rule tab_ok_protect [OF N(2)]) auto
  from tab_ok_append [OF this order.refl, of "rr_fixed rr offs @ be16 (rr_rdlen rr)"]
  have t2: "tab_ok (?Y @ be16 (rr_rdlen rr)) s ?B DNAME_BUF ht2" by simp
  obtain F where F: "\<And>r. dns_rdata_encode al s (rr_rdata rr) r = Some (err_or r F)"
    and enc: "encodes s ?B F (\<lambda>n. dns_rdata_decode al s ?type (word_of_nat n))
       (\<lambda>rd'. dns_rdata_cmp (rr_rdata rr) rd' \<and> rr_type rd' = ?type)"
    using rdata_coded [OF rdok assms(2), of s ?B] unfolding rdata_coded_def by blast
  have "err_or (0, mb2, ht2) F = err_or (0, mb2, ht2) F0" using F [of "(0, mb2, ht2)"] F0 [of "(0, mb2, ht2)"] by simp
  then have f1: "F (mb2, ht2) = (0, mb3, ht3)" using f0 by (simp add: err_or_def split: prod.splits)
  have s2: "s \<le> length (?Y @ be16 (rr_rdlen rr))" and A2: "\<forall>a\<in>?B. a < length (?Y @ be16 (rr_rdlen rr))"
    using s by auto
  obtain E where E: "mb_at mb3 ((?Y @ be16 (rr_rdlen rr)) @ E) (length ((?Y @ be16 (rr_rdlen rr)) @ E))"
    "tab_ok ((?Y @ be16 (rr_rdlen rr)) @ E) s ?B DNAME_BUF ht3"
    "\<And>c. matches ?B ((?Y @ be16 (rr_rdlen rr)) @ E) c \<Longrightarrow>
       reads c (dns_rdata_decode al s ?type (word_of_nat (length E))) (length (?Y @ be16 (rr_rdlen rr)))
        (\<lambda>rd'. dns_rdata_cmp (rr_rdata rr) rd' \<and> rr_type rd' = ?type) (length ((?Y @ be16 (rr_rdlen rr)) @ E))"
    using encodesD [OF enc m2 s2 A2 t2 f1] by blast
  have small: "length ((?Y @ be16 (rr_rdlen rr)) @ E) < 2 ^ 32" by (rule mb_at_small [OF E(1)])
  have p2: "mb_pos mb2 = length ?Y + 2" "mb_pos mb3 = length ?Y + 2 + length E"
    using mb_atD(4) [OF m2] mb_atD(4) [OF E(1)] by simp_all
  have len: "?len = length E" and bk: "sz_sub (mb_pos mb2) 2 = length ?Y"
    using small unfolding p2 by (simp_all add: sz_sub_eq)
  let ?Z = "?Y @ be16 (word_of_nat (length E)) @ E"
  have m4: "mb_at mb4 ?Z (length ?Y + 2)"
    using mb_at_put [OF _ refl adds_ints(2) , of _ ?Y "be16 (rr_rdlen rr) @ E" al "word_of_nat (length E)" mb4]
      mb_at_pos [OF E(1), of "length ?Y"] w'(2) unfolding len bk by simp
  have m': "mb_at mb' ?Z (length ?Z)"
    using mb_at_pos [OF m4, of "length ?Z"] small mb_atD(4) [OF m4] unfolding res(3) len by (simp add: ac_simps)
  have ma: "matches ?B ((?Y @ be16 (rr_rdlen rr)) @ E) ?Z"
    unfolding matches_def by (auto simp: nth_append nth_Cons')
  have "tab_ok ?Z s ?B DNAME_BUF ht3" by (rule tab_ok_matches [OF E(2) ma])
  then have t': "tab_ok ?Z s {} DNAME_BUF ht'" unfolding res(4) by (rule tab_ok_protect) simp
  have ul: "unat (word_of_nat (length E) :: u16) = length E" using res(1) len by (simp add: unat_of_nat)
  have "reads c (dns_rr_decode al s) (length X) (rr_like rr offs) (length ?Z)" if c: "matches {} ?Z c" for c
  proof -
    have c1: "matches {} (X @ N) c" using c by (intro matches_prefix [of _ "X @ N" "rr_fixed rr offs @ be16 (word_of_nat (length E)) @ E"]) simp
    have c2: "matches {} ((X @ N) @ rr_fixed rr offs @ be16 (word_of_nat (length E)) @ E) c" using c by simp
    have c3: "matches ?B ((?Y @ be16 (rr_rdlen rr)) @ E) c" using ma c by (auto simp: matches_def)
    have al': "mem_alloc al sizeof_dnsrr \<noteq> None" using assms(2) by (simp add: small_allocs_def sizeof_dnsrr_def)
    have rd: "reads c (d_bind (dns_rdata_decode al s ?type (word_of_nat (length E))) (\<lambda>rdata.
           d_ret \<lparr>rr_name = nm, rr_dnsclass = rr_dnsclass rr, rr_ttl = int (unat (ttl_sent rr offs)),
                  rr_rdlen = word_of_nat (length E), rr_rdata = rdata\<rparr>)) (length (X @ N) + 10) (rr_like rr offs) (length ?Z)"
      if "same_name (rr_name rr) nm" for nm
    proof -
      have at: "length (X @ N) + 10 = length (?Y @ be16 (rr_rdlen rr))" "length ?Z = length ((?Y @ be16 (rr_rdlen rr)) @ E)"
        by simp_all
      show ?thesis unfolding at
        by (rule reads_bind [OF E(3) [OF c3]], rule reads_ret) (use that in \<open>simp add: rr_like_def dns_rr_cmp_def same_name_cmp\<close>)
    qed
    show ?thesis unfolding dns_rr_decode_def
      by (rule reads_guards(2) [OF al'], rule reads_bind [OF N(3) [OF c1]], rule reads_fixed [OF c2])
        (use ul rd in auto)
  qed
  then show "\<exists>E. mb_at mb' (X @ E) (length (X @ E)) \<and> tab_ok (X @ E) s {} DNAME_BUF ht' \<and>
      (\<forall>c. matches {} (X @ E) c \<longrightarrow> reads c (dns_rr_decode al s) (length X) (rr_like rr offs) (length (X @ E)))"
    using m' t' by (intro exI [of _ "N @ rr_fixed rr offs @ be16 (word_of_nat (length E)) @ E"]) simp
qed

section \<open>Sequences of records\<close>

lemma encodes_rep:
  assumes "\<And>x. x \<in> set xs \<Longrightarrow> encodes s A (f x) (\<lambda>_. d) (P x)"
  shows "encodes s A (\<lambda>st. foldr (\<lambda>x k st. err_or (f x st) k) xs (\<lambda>st. (0, st)) st) (\<lambda>_. d_rep (length xs) d) (list_all2 P xs)"
  using assms
proof (induction xs)
  case Nil
  show ?case unfolding encodes_def
  proof (intro allI impI)
    fix X mb ht mb' ht' assume "mb_at mb X (length X)" "tab_ok X s A DNAME_BUF ht"
      "foldr (\<lambda>x k st. err_or (f x st) k) [] (\<lambda>st. (0, st)) (mb, ht) = (0, mb', ht')"
    then show "\<exists>E. mb_at mb' (X @ E) (length (X @ E)) \<and> tab_ok (X @ E) s A DNAME_BUF ht' \<and> (\<forall>c. matches A (X @ E) c \<longrightarrow>
        reads c (d_rep (length []) d) (length X) (list_all2 P []) (length (X @ E)))"
      by (intro exI [of _ "[]"]) (simp add: reads_ret)
  qed
next
  case (Cons x xs)
  have 1: "encodes s A (f x) (\<lambda>_. d) (P x)" and
    2: "encodes s A (foldr (\<lambda>x k st. err_or (f x st) k) xs (\<lambda>st. (0, st))) (\<lambda>_. d_rep (length xs) d) (list_all2 P xs)"
    using Cons by simp_all
  show ?case unfolding foldr_Cons comp_def list.size(4) add_Suc_right add_0_right d_rep.simps
    by (rule encodes_bind [OF 1], rule encodes_ret [OF 2]) simp
qed

text \<open>The records of a section, one after the other, with one table of names.\<close>

definition dns_rrs_encode ::
  "malloc_env \<Rightarrow> int \<Rightarrow> nat \<Rightarrow> dnsrr list \<Rightarrow> mbuf \<times> dname_tab \<Rightarrow> errno \<times> mbuf \<times> dname_tab" where
  "dns_rrs_encode al offs s rrs =
     foldr (\<lambda>rr k st. err_or (the (dns_rr_encode al rr offs s st)) k) rrs (\<lambda>st. (0, st))"

lemma dns_rr_encode_returns:
  assumes "rdata_ok (rr_rdata rr)" "small_allocs al"
  shows "dns_rr_encode al rr offs s st \<noteq> None"
proof -
  obtain F where F: "\<And>r. dns_rdata_encode al s (rr_rdata rr) r = Some (err_or r F)"
    using rdata_coded [OF assms, of s "{}"] unfolding rdata_coded_def by blast
  show ?thesis unfolding dns_rr_encode_def Let_def F by (simp split: prod.split)
qed

section \<open>TXT records\<close>

lemma txt_loop_not_long:
  assumes "txt_loop al data r = Some x"
  shows "length data < 256"
proof (rule txt_loop.raw_induct [where P = "\<lambda>al data r x. length data < 256", OF _ assms])
  fix f al data r x
  assume IH: "\<And>al data r x. f al data r = Some x \<Longrightarrow> length data < 256"
    and eq: "(let slen = unat (word_of_nat (length data) :: u8);
          r1 = err_or (err_or r (\<lambda>mb. mbuf_write_u8 al mb (word_of_nat slen)))
                 (\<lambda>mb. mbuf_write_mem al mb (Some (take slen data)))
      in if length data - slen > 0 then f al (drop slen data) r1 else Some r1) = Some x"
  let ?slen = "length data mod 256"
  show "length data < 256"
  proof (rule ccontr)
    assume "\<not> length data < 256"
    then have "256 \<le> length data - ?slen"
      by (metis linorder_not_less minus_mod_eq_mult_div mult_le_mono2 nat_mult_1_right zero_less_numeral
          div_greater_zero_iff Suc_leI One_nat_def)
    moreover have "f al (drop ?slen data) (err_or (err_or r (\<lambda>mb. mbuf_write_u8 al mb (word_of_nat ?slen)))
                 (\<lambda>mb. mbuf_write_mem al mb (Some (take ?slen data)))) = Some x"
      using eq calculation by (simp add: unat_of_nat Let_def split: if_splits)
    ultimately show False using IH [of al "drop ?slen data"] by fastforce
  qed
qed

section \<open>The header\<close>

definition dnshdr_ok :: "dnshdr \<Rightarrow> bool" where
  "dnshdr_ok h \<longleftrightarrow> dh_opcode h < 16 \<and> dh_z h < 8 \<and> dh_rcode h < 16"

definition dnshdr_img :: "dnshdr \<Rightarrow> bytes" where
  "dnshdr_img h = ((((be16 (dh_id h) @ be16 (dns_flags h)) @ be16 (dh_nq h)) @ be16 (dh_nans h)) @ be16 (dh_nauth h))
     @ be16 (dh_nadd h)"

lemma small_byte_bits: "unat x < 2 ^ k \<Longrightarrow> k \<le> n \<Longrightarrow> \<not> bit x n" for x :: u8
proof -
  assume x: "unat x < 2 ^ k" "k \<le> n"
  then have "unat x < 2 ^ n" by (meson order_less_le_trans one_le_numeral power_increasing)
  then have "\<not> bit (unat x) n" by (simp add: bit_iff_odd)
  then show ?thesis by (metis bit_imp_le_length bit_unsigned_iff possible_bit_nat)
qed

lemma flag_bit: "bit (push_bit k (of_bool b) :: u16) n \<longleftrightarrow> n = k \<and> k < 16 \<and> b"
  by (auto simp: bit_push_bit_iff bit_simps)

lemma field_bit: "bit (push_bit k (ucast x) :: u16) n \<longleftrightarrow> k \<le> n \<and> n < 16 \<and> bit x (n - k)" for x :: u8
  using bit_imp_le_length [of x "n - k"] by (auto simp: bit_push_bit_iff bit_simps)

lemma byte_bit: "bit (ucast x :: u16) n \<longleftrightarrow> bit x n" for x :: u8
  using bit_imp_le_length [of x n] by (auto simp: bit_simps)

lemma dns_flags_bits:
  assumes "dnshdr_ok h"
  shows "(0x1 AND drop_bit 15 (dns_flags h) \<noteq> 0) = dh_qr h"
    "ucast (0xf AND drop_bit 11 (dns_flags h)) = dh_opcode h"
    "(0x1 AND drop_bit 10 (dns_flags h) \<noteq> 0) = dh_aa h"
    "(0x1 AND drop_bit 9 (dns_flags h) \<noteq> 0) = dh_tc h"
    "(0x1 AND drop_bit 8 (dns_flags h) \<noteq> 0) = dh_rd h"
    "(0x1 AND drop_bit 7 (dns_flags h) \<noteq> 0) = dh_ra h"
    "ucast (0x7 AND drop_bit 4 (dns_flags h)) = dh_z h"
    "ucast (0xf AND drop_bit 0 (dns_flags h)) = dh_rcode h"
proof -
  have op: "\<not> bit (dh_opcode h) n" "\<not> bit (dh_rcode h) n" if "4 \<le> n" for n
    using small_byte_bits [of _ 4 n] that assms by (simp_all add: dnshdr_ok_def word_less_nat_alt)
  have z: "\<not> bit (dh_z h) n" if "3 \<le> n" for n
    using small_byte_bits [of _ 3 n] that assms by (simp_all add: dnshdr_ok_def word_less_nat_alt)
  have d: "bit (dh_opcode h) n \<Longrightarrow> n < 4" "bit (dh_rcode h) n \<Longrightarrow> n < 4" "bit (dh_z h) n \<Longrightarrow> n < 3" for n
    using op z by (meson linorder_not_less)+
  have fl: "bit (dns_flags h) n \<longleftrightarrow> n = 15 \<and> dh_qr h \<or> 11 \<le> n \<and> n < 16 \<and> bit (dh_opcode h) (n - 11) \<or>
     n = 10 \<and> dh_aa h \<or> n = 9 \<and> dh_tc h \<or> n = 8 \<and> dh_rd h \<or> n = 7 \<and> dh_ra h \<or>
     4 \<le> n \<and> n < 16 \<and> bit (dh_z h) (n - 4) \<or> bit (dh_rcode h) n" for n
    unfolding dns_flags_def bit_or_iff flag_bit field_bit byte_bit by (simp only: disj_assoc) simp
  have one: "(0x1 AND w \<noteq> 0) = bit w 0" for w :: u16
    by (simp add: one_and_eq mod_2_eq_odd bit_0)
  have m: "(0xf :: u16) = mask 4" "(0x7 :: u16) = mask 3" by (simp_all add: mask_numeral)
  show "(0x1 AND drop_bit 15 (dns_flags h) \<noteq> 0) = dh_qr h" "(0x1 AND drop_bit 10 (dns_flags h) \<noteq> 0) = dh_aa h"
    "(0x1 AND drop_bit 9 (dns_flags h) \<noteq> 0) = dh_tc h" "(0x1 AND drop_bit 8 (dns_flags h) \<noteq> 0) = dh_rd h"
    "(0x1 AND drop_bit 7 (dns_flags h) \<noteq> 0) = dh_ra h"
    unfolding one bit_drop_bit_eq comp_def fl using op z by simp_all
  show "ucast (0xf AND drop_bit 11 (dns_flags h)) = dh_opcode h"
    unfolding m by (rule bit_word_eqI) (use op z in \<open>auto simp: bit_simps fl dest: d\<close>)
  show "ucast (0x7 AND drop_bit 4 (dns_flags h)) = dh_z h"
    unfolding m by (rule bit_word_eqI) (use op z in \<open>auto simp: bit_simps fl dest: d\<close>)
  show "ucast (0xf AND drop_bit 0 (dns_flags h)) = dh_rcode h"
    unfolding m by (rule bit_word_eqI) (use op z in \<open>auto simp: bit_simps fl dest: d\<close>)
qed

lemma dns_hdr_parses:
  assumes "dnshdr_ok h"
  shows "parses dns_hdr_decode (dnshdr_img h) h"
proof -
  have "parses dns_hdr_decode (dnshdr_img h) \<lparr>dh_id = dh_id h,
                dh_qr = (0x1 AND drop_bit 15 (dns_flags h) \<noteq> 0),
                dh_opcode = ucast (0xf AND drop_bit 11 (dns_flags h)),
                dh_aa = (0x1 AND drop_bit 10 (dns_flags h) \<noteq> 0),
                dh_tc = (0x1 AND drop_bit 9 (dns_flags h) \<noteq> 0),
                dh_rd = (0x1 AND drop_bit 8 (dns_flags h) \<noteq> 0),
                dh_ra = (0x1 AND drop_bit 7 (dns_flags h) \<noteq> 0),
                dh_z = ucast (0x7 AND drop_bit 4 (dns_flags h)),
                dh_rcode = ucast (0xf AND drop_bit 0 (dns_flags h)),
                dh_nq = dh_nq h, dh_nans = dh_nans h, dh_nauth = dh_nauth h, dh_nadd = dh_nadd h\<rparr>"
    unfolding dns_hdr_decode_def dnshdr_img_def append_assoc
    by (intro parses_left parses_bind [OF parses_u16] parses_bind_Nil [OF parses_u16] parses_ret)
      (simp add: DNS_HEADER_SIZE_def)
  then show ?thesis unfolding dns_flags_bits [OF assms] by (cases h) simp
qed

interpretation dnshdr: mbuf_codec dns_hdr_encode dns_hdr_decode dnshdr_img dnshdr_ok
proof
  fix x :: dnshdr and al
  have l: "length (dnshdr_img x) = 2 + 2 + 2 + 2 + 2 + 2" by (simp add: dnshdr_img_def)
  show "adds (dnshdr_img x) (\<lambda>mb. dns_hdr_encode al mb x)"
    unfolding dns_hdr_encode_def dnshdr_img_def by (intro adds_seq adds_ints)
  show "fits (length (dnshdr_img x)) (\<lambda>mb. dns_hdr_encode al mb x)"
    unfolding l dns_hdr_encode_def by (intro fits_seq fits_ints)
qed (rule dns_hdr_parses)

section \<open>Sorting and searching\<close>

lemma std_sort_total: "std_sort_handler srt a b \<or> std_sort_handler srt b a"
  by (auto simp: std_sort_handler_def split: dns_rdata.splits)

lemma addr_sort_order:
  "addr_sort_handler srt a b \<or> addr_sort_handler srt b a"
  "addr_sort_handler srt a b \<Longrightarrow> addr_sort_handler srt b c \<Longrightarrow> addr_sort_handler srt a c"
  by (auto simp: addr_sort_handler_def)

text \<open>What the sort order means: a record of another type comes last, then by preference.\<close>

definition rr_rank :: "rrsort \<Rightarrow> dnsrr \<Rightarrow> nat \<times> nat \<times> int" where
  "rr_rank srt rr = (if so_type srt \<noteq> rr_type (rr_rdata rr) then (2 ^ 16, 0, 0) else case rr_rdata rr of
      DNS_MX pref _ \<Rightarrow> (unat pref, 0, 0)
    | DNS_SRV pri _ _ _ \<Rightarrow> (unat pri, 0, - int (unat (sidx rr (so_key srt))))
    | DNS_NAPTR order pref _ _ _ _ \<Rightarrow> (unat order, unat pref, 0)
    | _ \<Rightarrow> (0, 0, 0))"

definition rank_le :: "nat \<times> nat \<times> int \<Rightarrow> nat \<times> nat \<times> int \<Rightarrow> bool" where
  "rank_le = (\<lambda>(a, b, c) (a', b', c'). a < a' \<or> a = a' \<and> (b < b' \<or> b = b' \<and> c \<le> c'))"

definition rr_known :: "dnsrr \<Rightarrow> bool" where
  "rr_known rr \<longleftrightarrow> (\<forall>t. rr_rdata rr = DNS_OTHER t \<longrightarrow> t \<notin> {1, 2, 5, 6, 0xc, 0xf, 0x10, 0x1c, 0x21, 0x23})"

lemma rr_type_known:
  assumes "rr_known a" "rr_known b" "rr_type (rr_rdata a) = rr_type (rr_rdata b)"
  obtains (mx) p n p' n' where "rr_rdata a = DNS_MX p n" "rr_rdata b = DNS_MX p' n'"
  | (srv) p w q n p' w' q' n' where "rr_rdata a = DNS_SRV p w q n" "rr_rdata b = DNS_SRV p' w' q' n'"
  | (naptr) p q f v x n p' q' f' v' x' n' where "rr_rdata a = DNS_NAPTR p q f v x n" "rr_rdata b = DNS_NAPTR p' q' f' v' x' n'"
  | (other) "\<And>srt. so_type srt = rr_type (rr_rdata a) \<Longrightarrow> rr_rank srt a = (0, 0, 0)"
      "\<And>srt. so_type srt = rr_type (rr_rdata b) \<Longrightarrow> rr_rank srt b = (0, 0, 0)"
      "\<And>srt. so_type srt = rr_type (rr_rdata a) \<Longrightarrow> std_sort_handler srt a b"
  using assms unfolding rr_known_def
  by (cases "rr_rdata a"; cases "rr_rdata b") (simp_all add: rr_rank_def std_sort_handler_def)

lemma std_sort_rank:
  assumes "rr_known a" "rr_known b"
  shows "std_sort_handler srt a b \<longleftrightarrow> rank_le (rr_rank srt a) (rr_rank srt b)"
proof (cases "so_type srt = rr_type (rr_rdata a) \<and> so_type srt = rr_type (rr_rdata b)")
  case True
  then have t: "rr_type (rr_rdata a) = rr_type (rr_rdata b)" by metis
  show ?thesis
  proof (cases rule: rr_type_known [OF assms t, case_names mx srv naptr other])
    case mx
    then show ?thesis using True by (auto simp: std_sort_handler_def rr_rank_def rank_le_def word_le_nat_alt)
  next
    case (srv p w q n p' w' q' n')
    have "p < p' \<longleftrightarrow> unat p < unat p'" "p = p' \<longleftrightarrow> unat p = unat p'"
      "sidx b (so_key srt) \<le> sidx a (so_key srt) \<longleftrightarrow> - int (unat (sidx a (so_key srt))) \<le> - int (unat (sidx b (so_key srt)))"
      by (simp_all add: word_less_nat_alt word_unat_eq_iff word_le_nat_alt del: of_nat_unat)
    then show ?thesis using srv True by (simp add: std_sort_handler_def rr_rank_def rank_le_def del: of_nat_unat)
  next
    case (naptr p q f v x n p' q' f' v' x' n')
    have "p < p' \<longleftrightarrow> unat p < unat p'" "p = p' \<longleftrightarrow> unat p = unat p'" "q \<le> q' \<longleftrightarrow> unat q < unat q' \<or> unat q = unat q'"
      by (auto simp: word_less_nat_alt word_unat_eq_iff word_le_nat_alt)
    then show ?thesis using naptr True by (simp add: std_sort_handler_def rr_rank_def rank_le_def)
  next
    case other
    have "rr_rank srt a = (0, 0, 0)" "rr_rank srt b = (0, 0, 0)" "std_sort_handler srt a b" using True other by blast+
    then show ?thesis by (simp add: rank_le_def)
  qed
next
  case False
  have small: "fst (rr_rank srt r) < 2 ^ 16" if "so_type srt = rr_type (rr_rdata r)" for r
  proof -
    have "unat p < 2 ^ 16" for p :: u16 using unsigned_less [of p] by simp
    then show ?thesis using that by (simp add: rr_rank_def split: dns_rdata.split)
  qed
  show ?thesis using False small [of a] small [of b]
    by (auto simp: std_sort_handler_def rank_le_def rr_rank_def [of srt a] rr_rank_def [of srt b] split: prod.splits if_splits)
qed

lemma rank_le_trans: "rank_le x y \<Longrightarrow> rank_le y z \<Longrightarrow> rank_le x z"
  by (auto simp: rank_le_def split: prod.splits)

lemma rrlist_sort_ranked:
  assumes "is_list h l xs" "\<And>d. rr_known (rrs d)"
  shows "\<exists>h' ys. dns_rrlist_sort rrs l type key h = Some h' \<and> is_list h' l ys \<and> mset ys = mset xs \<and>
    sorted_wrt (\<lambda>a b. rank_le (rr_rank \<lparr>so_type = type, so_key = drop_bit 5 (ucast key)\<rparr> (rrs (le_data (les h' a))))
      (rr_rank \<lparr>so_type = type, so_key = drop_bit 5 (ucast key)\<rparr> (rrs (le_data (les h' b))))) ys \<and>
    (\<forall>a. le_data (les h' a) = le_data (les h a))"
  unfolding dns_rrlist_sort_def std_sort_rank [OF assms(2) assms(2), symmetric]
  by (rule list_sort_sorted [OF assms(1)])
    (use std_sort_total std_sort_rank [OF assms(2) assms(2)] rank_le_trans in blast)+

text \<open>
  \<open>cname_path rrl cls n d m\<close>: \<open>m\<close> is reached from the name \<open>n\<close> over at most \<open>d\<close> alias records (CNAME)
  of the list.
\<close>

definition class_fits :: "u16 \<Rightarrow> dnsrr \<Rightarrow> bool" where
  "class_fits dnsclass rr \<longleftrightarrow> dnsclass = DNS_QCLASS_ANY \<or> rr_dnsclass rr = dnsclass"

inductive cname_path :: "dnsrr list \<Rightarrow> u16 \<Rightarrow> bytes option \<Rightarrow> nat \<Rightarrow> bytes option \<Rightarrow> bool" for rrl dnsclass where
  here: "cname_path rrl dnsclass n d n"
| step: "rr \<in> set rrl \<Longrightarrow> class_fits dnsclass rr \<Longrightarrow> n = None \<or> str_casecmp n (Some (rr_name rr)) = 0 \<Longrightarrow>
     rr_type (rr_rdata rr) = DNS_TYPE_CNAME \<Longrightarrow> cname_path rrl dnsclass (Some (rr_cname (rr_rdata rr))) d m \<Longrightarrow> cname_path rrl dnsclass n (Suc d) m"

lemma cname_path_mono: "cname_path rrl dnsclass n d m \<Longrightarrow> d \<le> d' \<Longrightarrow> cname_path rrl dnsclass n d' m"
proof (induction arbitrary: d' rule: cname_path.induct)
  case (step rr n d m)
  then obtain e where "d' = Suc e" "d \<le> e" by (cases d') auto
  then show ?case using step by (blast intro: cname_path.step)
qed (rule cname_path.here)

lemma rr_selected_iff:
  "rr_selected name type1 type2 dnsclass recurse rr \<longleftrightarrow>
     (name = None \<or> str_casecmp name (Some (rr_name rr)) = 0) \<and> class_fits dnsclass rr \<and>
     (type1 = DNS_QTYPE_ANY \<or> type2 = DNS_QTYPE_ANY \<or> rr_type (rr_rdata rr) \<in> {type1, type2} \<or>
      rr_type (rr_rdata rr) = DNS_TYPE_CNAME \<and> recurse)"
  by (auto simp: rr_selected_def class_fits_def)

lemma rrlist_loop_sound:
  assumes "rrlist_loop rrl type1 type2 dnsclass recurse rrlh name depth rest s = (Some rr, s')" "set rest \<subseteq> set rrl"
  shows "rr \<in> set rrl \<and> class_fits dnsclass rr \<and>
     (\<exists>m. cname_path rrl dnsclass name (CNAME_RECURSE_MAX - depth) m \<and> (m = None \<or> str_casecmp m (Some (rr_name rr)) = 0)) \<and>
     (\<forall>f. rrlh = Some f \<longrightarrow> (\<exists>s1. f rr s1 = (True, s')))"
  using assms
proof (induction rrl type1 type2 dnsclass recurse rrlh name depth rest s rule: rrlist_loop.induct)
  case (2 rrl type1 type2 dnsclass recurse rrlh name depth r rest s)
  let ?goal = "\<lambda>name depth. rr \<in> set rrl \<and> class_fits dnsclass rr \<and>
     (\<exists>m. cname_path rrl dnsclass name (CNAME_RECURSE_MAX - depth) m \<and> (m = None \<or> str_casecmp m (Some (rr_name rr)) = 0)) \<and>
     (\<forall>f. rrlh = Some f \<longrightarrow> (\<exists>s1. f rr s1 = (True, s')))"
  have sub: "set rest \<subseteq> set rrl" "r \<in> set rrl" using 2(6) by simp_all
  have deeper: "?goal name (depth + 1) \<Longrightarrow> ?goal name depth"
  proof -
    assume g: "?goal name (depth + 1)"
    then obtain m where m: "cname_path rrl dnsclass name (CNAME_RECURSE_MAX - (depth + 1)) m"
      "m = None \<or> str_casecmp m (Some (rr_name rr)) = 0" by blast
    have "cname_path rrl dnsclass name (CNAME_RECURSE_MAX - depth) m" by (rule cname_path_mono [OF m(1)]) simp
    then show "?goal name depth" using g m(2) by blast
  qed
  show ?case
  proof (cases "rr_selected name type1 type2 dnsclass recurse r")
    case False
    then show ?thesis using 2(1) [OF False] 2(5) sub by simp
  next
    case sel: True
    then have fits: "class_fits dnsclass r" "name = None \<or> str_casecmp name (Some (rr_name r)) = 0"
      by (simp_all add: rr_selected_iff)
    obtain stop s1 where h: "(case rrlh of None \<Rightarrow> (True, s) | Some f \<Rightarrow> f r s) = (stop, s1)" by fastforce
    show ?thesis
    proof (cases stop)
      case True
      then have "rr = r" "s1 = s'" using 2(5) sel h by simp_all
      moreover have "\<exists>m. cname_path rrl dnsclass name (CNAME_RECURSE_MAX - depth) m \<and>
          (m = None \<or> str_casecmp m (Some (rr_name r)) = 0)"
        by (rule exI [of _ name]) (use fits(2) cname_path.here in blast)
      ultimately show ?thesis using fits(1) sub(2) h True by auto
    next
      case ns: False
      show ?thesis
      proof (cases "recurse \<and> DNS_QTYPE_ANY \<noteq> type1 \<and> DNS_QTYPE_ANY \<noteq> type2 \<and>
                   DNS_TYPE_CNAME \<noteq> type1 \<and> DNS_TYPE_CNAME \<noteq> type2 \<and> DNS_TYPE_CNAME = rr_type (rr_rdata r)")
        case c: True
        let ?cname = "rr_cname (rr_rdata r)"
        obtain x s2 where x: "(if depth + 1 > CNAME_RECURSE_MAX then (None, s1)
            else rrlist_loop rrl type1 type2 dnsclass recurse rrlh (Some ?cname) (depth + 1) rrl s1) = (x, s2)" by fastforce
        have ih2: "rrlist_loop rrl type1 type2 dnsclass recurse rrlh (Some ?cname) (depth + 1) rrl s1 = (Some rr, s') \<Longrightarrow>
            \<not> depth + 1 > CNAME_RECURSE_MAX \<Longrightarrow> ?goal (Some ?cname) (depth + 1)"
          using 2(2) [OF _ h [symmetric]] sel ns c by auto
        have ih3: "rrlist_loop rrl type1 type2 dnsclass recurse rrlh name (depth + 1) rest s2 = (Some rr, s') \<Longrightarrow> x = None \<Longrightarrow>
            ?goal name (depth + 1)"
          using 2(3) [OF _ h [symmetric] _ c x [symmetric]] sel ns sub(1) by auto
        have eq: "(case (x, s2) of (Some r, s2) \<Rightarrow> (Some r, s2)
            | (None, s2) \<Rightarrow> rrlist_loop rrl type1 type2 dnsclass recurse rrlh name (depth + 1) rest s2) = (Some rr, s')"
          using 2(5) unfolding rrlist_loop.simps(2) h prod.case x using sel ns c by simp
        show ?thesis
        proof (cases x)
          case None
          then have "rrlist_loop rrl type1 type2 dnsclass recurse rrlh name (depth + 1) rest s2 = (Some rr, s')"
            using eq by simp
          then show ?thesis using ih3 None deeper by blast
        next
          case (Some y)
          then have d: "\<not> depth + 1 > CNAME_RECURSE_MAX" using x by (auto split: if_splits)
          then have "rrlist_loop rrl type1 type2 dnsclass recurse rrlh (Some ?cname) (depth + 1) rrl s1 = (Some rr, s')"
            using eq x Some by simp
          then have g: "?goal (Some ?cname) (depth + 1)" using ih2 d by blast
          have c1: "rr_type (rr_rdata r) = DNS_TYPE_CNAME" using c by simp
          have "CNAME_RECURSE_MAX - depth = Suc (CNAME_RECURSE_MAX - (depth + 1))" using d by simp
          then show ?thesis using g cname_path.step [OF sub(2) fits(1,2) c1] by metis
        qed
      next
        case False
        then have "rrlist_loop rrl type1 type2 dnsclass recurse rrlh name depth rest s1 = (Some rr, s')"
          using 2(5) sel h ns by auto
        then show ?thesis using 2(4) [OF _ h [symmetric]] sel ns sub(1) False by blast
      qed
    qed
  qed
qed simp

section \<open>Encoding into a block with room\<close>

text \<open>\<open>succeeds n f\<close>: with \<open>n\<close> bytes of room \<open>f\<close> returns 0 and moves the cursor by at most \<open>n\<close>.\<close>

definition succeeds :: "nat \<Rightarrow> (mbuf \<times> dname_tab \<Rightarrow> errno \<times> mbuf \<times> dname_tab) \<Rightarrow> bool" where
  "succeeds n f \<longleftrightarrow> (\<forall>mb ht. mb_pos mb + n \<le> mb_size mb \<longrightarrow> mb_size mb < 2 ^ 64 \<longrightarrow>
     (\<exists>mb' ht'. f (mb, ht) = (0, mb', ht') \<and> mb_size mb' = mb_size mb \<and>
        mb_pos mb \<le> mb_pos mb' \<and> mb_pos mb' \<le> mb_pos mb + n))"

lemma succeedsD:
  assumes "succeeds n f" "mb_pos mb + n \<le> mb_size mb" "mb_size mb < 2 ^ 64"
  obtains mb' ht' where "f (mb, ht) = (0, mb', ht')" "mb_size mb' = mb_size mb"
    "mb_pos mb \<le> mb_pos mb'" "mb_pos mb' \<le> mb_pos mb + n"
  using assms unfolding succeeds_def by blast

lemma succeeds_fits: "fits n f \<Longrightarrow> succeeds n (w_mb f)"
  unfolding succeeds_def fits_def w_mb_def by (fastforce split: prod.splits)

lemma succeeds_seq: "succeeds n f \<Longrightarrow> succeeds m g \<Longrightarrow> succeeds (n + m) (\<lambda>st. err_or (f st) g)"
  unfolding succeeds_def [of "n + m"]
proof (intro allI impI)
  fix mb :: mbuf and ht
  assume f: "succeeds n f" and g: "succeeds m g" and room: "mb_pos mb + (n + m) \<le> mb_size mb" "mb_size mb < 2 ^ 64"
  have r1: "mb_pos mb + n \<le> mb_size mb" using room(1) by simp
  obtain mb1 ht1 where 1: "f (mb, ht) = (0, mb1, ht1)" "mb_size mb1 = mb_size mb" "mb_pos mb \<le> mb_pos mb1"
    "mb_pos mb1 \<le> mb_pos mb + n" by (rule succeedsD [OF f r1 room(2)])
  have r2: "mb_pos mb1 + m \<le> mb_size mb1" "mb_size mb1 < 2 ^ 64" using room 1 by simp_all
  obtain mb2 ht2 where 2: "g (mb1, ht1) = (0, mb2, ht2)" "mb_size mb2 = mb_size mb1" "mb_pos mb1 \<le> mb_pos mb2"
    "mb_pos mb2 \<le> mb_pos mb1 + m" by (rule succeedsD [OF g r2])
  show "\<exists>mb' ht'. err_or (f (mb, ht)) g = (0, mb', ht') \<and> mb_size mb' = mb_size mb \<and>
        mb_pos mb \<le> mb_pos mb' \<and> mb_pos mb' \<le> mb_pos mb + (n + m)"
    using 1 2 by (simp add: err_or_def)
qed

lemma succeeds_ints: "succeeds 2 (e_u16 al v)" "succeeds 4 (e_u32 al w)"
  unfolding e_u16_def e_u32_def by (intro succeeds_fits fits_ints)+

lemma mbuf_write_u8_room:
  assumes "mb_pos mb + 1 \<le> mb_size mb" "mb_size mb < 2 ^ 64"
  obtains mb' where "mbuf_write_u8 al mb v = (0, mb')" "mb_size mb' = mb_size mb" "mb_pos mb' = mb_pos mb + 1"
  by (rule fitsD [OF fits_ints(1) assms])

lemma pointer_fits: "fits 2 (\<lambda>mb. dname_encode_pointer al mb pos)"
  unfolding dname_encode_pointer_def by (rule fits_ints)

lemma mbuf_poke_fields [simp]: "mb_pos (mbuf_poke mb p v) = mb_pos mb" "mb_size (mbuf_poke mb p v) = mb_size mb"
  by (simp_all add: mbuf_poke_def)

text \<open>No empty label: \<open>b\<close> says whether the current label has a byte already.\<close>

fun dots_ok :: "bool \<Rightarrow> bytes \<Rightarrow> bool" where
  "dots_ok b [] = True"
| "dots_ok b (c # n) = (if c = 0x2e then b \<and> dots_ok False n else dots_ok True n)"

lemma dots_ok_label: "0x2e \<notin> set l \<Longrightarrow> dots_ok b (l @ n) = dots_ok (b \<or> l \<noteq> []) n"
  by (induction l arbitrary: b) auto

lemma dots_ok_text: "\<forall>l\<in>set ls. label_ok l \<Longrightarrow> dots_ok False (dn_text ls)"
  by (induction ls) (auto simp: dn_text_Cons dots_ok_label label_ok_def)

lemma dname_enc_loop_room:
  assumes "dots_ok (mb_pos mb > pos + 1) name" "pos < mb_pos mb" "mb_pos mb + length name + 1 \<le> mb_size mb"
    "mb_size mb < 2 ^ 64"
  shows "\<exists>mb' ht'. dname_enc_loop al cmp s ht pos name mb = (0, mb', ht') \<and> mb_size mb' = mb_size mb \<and>
     mb_pos mb \<le> mb_pos mb' \<and> mb_pos mb' \<le> mb_pos mb + length name + 1"
  using assms
proof (induction name arbitrary: ht pos mb)
  case Nil
  show ?case
  proof (cases "mb_pos mb - pos - 1 = 0")
    case False
    have r: "mb_pos (mbuf_poke mb pos (word_of_nat (mb_pos mb - pos - 1))) + 1 \<le> mb_size mb" using Nil(3) by simp
    obtain mb' where "mbuf_write_u8 al (mbuf_poke mb pos (word_of_nat (mb_pos mb - pos - 1))) 0 = (0, mb')"
      "mb_size mb' = mb_size mb" "mb_pos mb' = mb_pos mb + 1"
      using mbuf_write_u8_room [of "mbuf_poke mb pos (word_of_nat (mb_pos mb - pos - 1))" al 0] r Nil(4) by auto
    then show ?thesis using False by (simp add: Let_def)
  qed simp
next
  case (Cons c name)
  show ?case
  proof (cases "c = 0x2e")
    case True
    then have lab: "mb_pos mb - pos - 1 \<noteq> 0" and d: "dots_ok False name" using Cons.prems(1) by auto
    let ?mb1 = "mbuf_poke mb pos (word_of_nat (mb_pos mb - pos - 1))"
    show ?thesis
    proof (cases "dname_lookup ht name \<noteq> None \<and> cmp")
      case found: True
      have r: "mb_pos ?mb1 + 2 \<le> mb_size ?mb1" "mb_size ?mb1 < 2 ^ 64" using Cons.prems(3,4) by simp_all
      obtain mb' where "dname_encode_pointer al ?mb1 (the (dname_lookup ht name)) = (0, mb')"
        "mb_size mb' = mb_size ?mb1" "mb_pos mb' = mb_pos ?mb1 + 2" by (rule fitsD [OF pointer_fits r])
      then show ?thesis using True lab found by (simp add: Let_def)
    next
      case nf: False
      have r: "mb_pos ?mb1 + 1 \<le> mb_size ?mb1" "mb_size ?mb1 < 2 ^ 64" using Cons.prems(3,4) by simp_all
      let ?ht = "if dname_lookup ht name = None then dname_append al ht name (sz_sub (mb_pos ?mb1) s) else ht"
      obtain mb2 where 2: "mbuf_write_u8 al ?mb1 0 = (0, mb2)" "mb_size mb2 = mb_size ?mb1" "mb_pos mb2 = mb_pos ?mb1 + 1"
        by (rule mbuf_write_u8_room [OF r])
      have "dots_ok (mb_pos mb2 > mb_pos mb + 1) name" using d 2(3) by simp
      from Cons.IH [OF this, of ?ht] 2 Cons.prems(3,4) obtain mb' ht' where
        "dname_enc_loop al cmp s ?ht (mb_pos mb) name mb2 = (0, mb', ht')" "mb_size mb' = mb_size mb2"
        "mb_pos mb2 \<le> mb_pos mb'" "mb_pos mb' \<le> mb_pos mb2 + length name + 1" by auto
      then show ?thesis using True lab nf 2 by (auto simp: Let_def)
    qed
  next
    case False
    have r: "mb_pos mb + 1 \<le> mb_size mb" using Cons.prems(3) by simp
    obtain mb2 where 2: "mbuf_write_u8 al mb c = (0, mb2)" "mb_size mb2 = mb_size mb" "mb_pos mb2 = mb_pos mb + 1"
      by (rule mbuf_write_u8_room [OF r Cons.prems(4)])
    have "dots_ok (mb_pos mb2 > pos + 1) name" using Cons.prems(1,2) False 2(3) by simp
    from Cons.IH [OF this, of ht] 2 Cons.prems(2-4) obtain mb' ht' where
      "dname_enc_loop al cmp s ht pos name mb2 = (0, mb', ht')" "mb_size mb' = mb_size mb2"
      "mb_pos mb2 \<le> mb_pos mb'" "mb_pos mb' \<le> mb_pos mb2 + length name + 1" by auto
    then show ?thesis using False 2 by (auto simp: Let_def)
  qed
qed

lemma succeeds_dname:
  assumes "dname_ok n"
  shows "succeeds (length n + 2) (dns_dname_encode al n s cmp)"
  unfolding succeeds_def
proof (intro allI impI)
  fix mb :: mbuf and ht
  assume room: "mb_pos mb + (length n + 2) \<le> mb_size mb" "mb_size mb < 2 ^ 64"
  have d: "dots_ok False n" using assms dots_ok_text unfolding dname_ok_def by blast
  show "\<exists>mb' ht'. dns_dname_encode al n s cmp (mb, ht) = (0, mb', ht') \<and> mb_size mb' = mb_size mb \<and>
        mb_pos mb \<le> mb_pos mb' \<and> mb_pos mb' \<le> mb_pos mb + (length n + 2)"
  proof (cases "dname_lookup ht n \<noteq> None \<and> cmp")
    case True
    have r: "mb_pos mb + 2 \<le> mb_size mb" using room(1) by simp
    obtain mb' where "dname_encode_pointer al mb (the (dname_lookup ht n)) = (0, mb')"
      "mb_size mb' = mb_size mb" "mb_pos mb' = mb_pos mb + 2" by (rule fitsD [OF pointer_fits r room(2)])
    then show ?thesis using True by (simp add: dns_dname_encode_def Let_def)
  next
    case False
    have r: "mb_pos mb + 1 \<le> mb_size mb" using room(1) by simp
    let ?ht = "if dname_lookup ht n = None then dname_append al ht n (sz_sub (mb_pos mb) s) else ht"
    obtain mb2 where 2: "mbuf_write_u8 al mb 0 = (0, mb2)" "mb_size mb2 = mb_size mb" "mb_pos mb2 = mb_pos mb + 1"
      by (rule mbuf_write_u8_room [OF r room(2)])
    have "dots_ok (mb_pos mb2 > mb_pos mb + 1) n" using d 2(3) by simp
    from dname_enc_loop_room [OF this, of al cmp s ?ht] 2 room obtain mb' ht' where
      "dname_enc_loop al cmp s ?ht (mb_pos mb) n mb2 = (0, mb', ht')" "mb_size mb' = mb_size mb2"
      "mb_pos mb2 \<le> mb_pos mb'" "mb_pos mb' \<le> mb_pos mb2 + length n + 1" by auto
    then show ?thesis using False 2 by (auto simp: dns_dname_encode_def Let_def)
  qed
qed

lemma dns_cstr_fits: "cstr_ok str \<Longrightarrow> fits (1 + length str) (\<lambda>mb. dns_cstr_encode al mb str)"
  using fits_seq [OF fits_ints(1) fits_write [OF refl, of str], of al "word_of_nat (length str)" al]
  by (simp add: cstr_ok_def dns_cstr_encode_def cstr_len Let_def)

fun rdata_room :: "dns_rdata \<Rightarrow> nat" where
  "rdata_room (DNS_A _) = 4"
| "rdata_room (DNS_NS n) = length n + 2"
| "rdata_room (DNS_CNAME n) = length n + 2"
| "rdata_room (DNS_SOA m r _ _ _ _ _) = length m + 2 + (length r + 2) + 20"
| "rdata_room (DNS_PTR n) = length n + 2"
| "rdata_room (DNS_MX _ n) = 2 + (length n + 2)"
| "rdata_room (DNS_TXT data) = 1 + length data"
| "rdata_room (DNS_AAAA _) = 16"
| "rdata_room (DNS_SRV _ _ _ n) = 6 + (length n + 2)"
| "rdata_room (DNS_NAPTR _ _ f v x n) = 4 + (1 + length f) + (1 + length v) + (1 + length x) + (length n + 2)"
| "rdata_room (DNS_OTHER _) = 0"

definition rr_room :: "dnsrr \<Rightarrow> nat" where
  "rr_room rr = length (rr_name rr) + 2 + 10 + rdata_room (rr_rdata rr)"

lemma rdata_room_small: "rdata_ok rd \<Longrightarrow> rdata_room rd \<le> 2000"
  by (cases rd) (auto simp: dname_ok_def cstr_ok_def DNAME_BUF_def)

lemma rdata_succeeds:
  assumes "rdata_ok rd"
  shows "\<exists>F. (\<forall>r. dns_rdata_encode al s rd r = Some (err_or r F)) \<and> succeeds (rdata_room rd) F"
proof (cases rd)
  case (DNS_A a)
  then show ?thesis using succeeds_ints(2) [of al a] by auto
next
  case (DNS_NS n)
  then show ?thesis using assms succeeds_dname [of n al s True] by auto
next
  case (DNS_CNAME n)
  then show ?thesis using assms succeeds_dname [of n al s True] by auto
next
  case (DNS_PTR n)
  then show ?thesis using assms succeeds_dname [of n al s True] by auto
next
  case (DNS_SOA m r a b c d e)
  have 20: "(20 :: nat) = 4 + 4 + 4 + 4 + 4" by simp
  let ?F = "\<lambda>st. err_or (err_or (dns_dname_encode al m s True st) (dns_dname_encode al r s True))
    (\<lambda>st. err_or (err_or (err_or (err_or (e_u32 al a st) (e_u32 al b)) (e_u32 al c)) (e_u32 al d)) (e_u32 al e))"
  have "dns_rdata_encode al s rd t = Some (err_or t ?F)" for t by (simp add: DNS_SOA err_or_assoc)
  moreover have "succeeds (rdata_room rd) ?F" using assms unfolding DNS_SOA rdata_room.simps 20
    by (intro succeeds_seq succeeds_dname succeeds_ints) simp_all
  ultimately show ?thesis by blast
next
  case (DNS_MX p n)
  let ?F = "\<lambda>st. err_or (e_u16 al p st) (dns_dname_encode al n s True)"
  have "dns_rdata_encode al s rd t = Some (err_or t ?F)" for t by (simp add: DNS_MX err_or_assoc)
  moreover have "succeeds (rdata_room rd) ?F" using assms unfolding DNS_MX rdata_room.simps
    by (intro succeeds_seq succeeds_dname succeeds_ints) simp_all
  ultimately show ?thesis by blast
next
  case (DNS_TXT data)
  let ?F = "w_mb (\<lambda>mb. dns_cstr_encode al mb data)"
  have "dns_rdata_encode al s rd t = Some (err_or t ?F)" for t
    using assms by (cases t) (simp add: DNS_TXT txt_loop_short cstr_ok_def w_mb_def err_or_def split: prod.split)
  moreover have "succeeds (rdata_room rd) ?F" using assms unfolding DNS_TXT rdata_room.simps
    by (intro succeeds_fits dns_cstr_fits) simp_all
  ultimately show ?thesis by blast
next
  case (DNS_AAAA a)
  have "succeeds 16 (w_mb (\<lambda>mb. mbuf_write_mem al mb (Some a)))"
    using assms DNS_AAAA by (intro succeeds_fits fits_write) simp
  then show ?thesis using DNS_AAAA by auto
next
  case (DNS_SRV a b c n)
  have 6: "(6 :: nat) = 2 + 2 + 2" by simp
  let ?F = "\<lambda>st. err_or (err_or (err_or (e_u16 al a st) (e_u16 al b)) (e_u16 al c)) (dns_dname_encode al n s False)"
  have "dns_rdata_encode al s rd t = Some (err_or t ?F)" for t by (simp add: DNS_SRV err_or_assoc)
  moreover have "succeeds (rdata_room rd) ?F" using assms unfolding DNS_SRV rdata_room.simps 6
    by (intro succeeds_seq succeeds_dname succeeds_ints) simp_all
  ultimately show ?thesis by blast
next
  case (DNS_NAPTR a b f v x n)
  have 4: "(4 :: nat) = 2 + 2" by simp
  let ?F = "\<lambda>st. err_or (err_or (err_or (err_or (err_or (e_u16 al a st) (e_u16 al b)) (w_mb (\<lambda>mb. dns_cstr_encode al mb f)))
    (w_mb (\<lambda>mb. dns_cstr_encode al mb v))) (w_mb (\<lambda>mb. dns_cstr_encode al mb x))) (dns_dname_encode al n s False)"
  have "dns_rdata_encode al s rd t = Some (err_or t ?F)" for t by (simp add: DNS_NAPTR err_or_assoc)
  moreover have "succeeds (rdata_room rd) ?F" using assms unfolding DNS_NAPTR rdata_room.simps 4
    by (intro succeeds_seq succeeds_dname succeeds_ints succeeds_fits dns_cstr_fits) simp_all
  ultimately show ?thesis by blast
qed (use assms in simp)

lemma dns_rr_succeeds:
  assumes "rr_ok rr"
  shows "succeeds (rr_room rr) (\<lambda>st. the (dns_rr_encode al rr offs s st))"
  unfolding succeeds_def
proof (intro allI impI)
  fix mb :: mbuf and ht
  assume room: "mb_pos mb + rr_room rr \<le> mb_size mb" "mb_size mb < 2 ^ 64"
  have ok: "dname_ok (rr_name rr)" "rdata_ok (rr_rdata rr)" using assms by (simp_all add: rr_ok_def)
  obtain F where F: "\<And>r. dns_rdata_encode al s (rr_rdata rr) r = Some (err_or r F)" "succeeds (rdata_room (rr_rdata rr)) F"
    using rdata_succeeds [OF ok(2), of al s] by blast
  let ?P = "\<lambda>st. err_or (err_or (err_or (dns_dname_encode al (rr_name rr) s True st)
                (e_u16 al (rr_type (rr_rdata rr)))) (e_u16 al (rr_dnsclass rr))) (e_u32 al (ttl_sent rr offs))"
  have P: "succeeds (length (rr_name rr) + 2 + 2 + 2 + 4) ?P" by (intro succeeds_seq succeeds_dname succeeds_ints ok)
  have r1: "mb_pos mb + (length (rr_name rr) + 2 + 2 + 2 + 4) \<le> mb_size mb" using room(1) by (simp add: rr_room_def)
  obtain mb1 ht1 where 1: "?P (mb, ht) = (0, mb1, ht1)" "mb_size mb1 = mb_size mb" "mb_pos mb \<le> mb_pos mb1"
    "mb_pos mb1 \<le> mb_pos mb + (length (rr_name rr) + 2 + 2 + 2 + 4)" by (rule succeedsD [OF P r1 room(2)])
  have r2: "mb_pos mb1 + 2 \<le> mb_size mb1" "mb_size mb1 < 2 ^ 64" using room 1 by (simp_all add: rr_room_def)
  obtain mb2 where 2: "mbuf_write_u16 al mb1 (htons (rr_rdlen rr)) = (0, mb2)" "mb_size mb2 = mb_size mb1"
    "mb_pos mb2 = mb_pos mb1 + 2" by (rule fitsD [OF fits_ints(2) r2])
  have two: "err_or (?P (mb, ht)) (e_u16 al (rr_rdlen rr)) = (0, mb2, ht1)"
    unfolding 1(1) by (simp add: err_or_def e_u16_def w_mb_def 2(1))
  have r3: "mb_pos mb2 + rdata_room (rr_rdata rr) \<le> mb_size mb2" "mb_size mb2 < 2 ^ 64"
    using room 1 2 by (simp_all add: rr_room_def)
  obtain mb3 ht3 where 3: "F (mb2, ht1) = (0, mb3, ht3)" "mb_size mb3 = mb_size mb2" "mb_pos mb2 \<le> mb_pos mb3"
    "mb_pos mb3 \<le> mb_pos mb2 + rdata_room (rr_rdata rr)" by (rule succeedsD [OF F(2) r3])
  have len: "sz_sub (mb_pos mb3) (mb_pos mb2) = mb_pos mb3 - mb_pos mb2"
    by (rule sz_sub_eq) (use 3 r3 in simp_all)
  have st: "sz_sub (mb_pos mb2) 2 = mb_pos mb1" using sz_sub_eq [of 2 "mb_pos mb2"] 2(3) r3 by simp
  have small: "mb_pos mb3 - mb_pos mb2 \<le> 2000" using 3(4) rdata_room_small [OF ok(2)] by simp
  let ?w = "word_of_nat (mb_pos mb3 - mb_pos mb2) :: u16"
  have r4: "mb_pos (mb3\<lparr>mb_pos := mb_pos mb1\<rparr>) + 2 \<le> mb_size (mb3\<lparr>mb_pos := mb_pos mb1\<rparr>)"
    "mb_size (mb3\<lparr>mb_pos := mb_pos mb1\<rparr>) < 2 ^ 64" using r2 2(2) 3(2) by simp_all
  obtain mb4 where 4: "mbuf_write_u16 al (mb3\<lparr>mb_pos := mb_pos mb1\<rparr>) (htons ?w) = (0, mb4)"
    "mb_size mb4 = mb_size (mb3\<lparr>mb_pos := mb_pos mb1\<rparr>)" "mb_pos mb4 = mb_pos (mb3\<lparr>mb_pos := mb_pos mb1\<rparr>) + 2"
    by (rule fitsD [OF fits_ints(2) r4])
  have "dns_rr_encode al rr offs s (mb, ht) =
      Some (0, mb4\<lparr>mb_pos := szt (mb_pos mb4 + (mb_pos mb3 - mb_pos mb2))\<rparr>, ht3)"
    unfolding dns_rr_encode_def Let_def ttl_sent_def [symmetric] F(1) two using small
    by (simp add: err_or_def 3(1) len st 4(1))
  moreover have "szt (mb_pos mb4 + (mb_pos mb3 - mb_pos mb2)) = mb_pos mb3"
    using 4(3) 2(3) 3(3,4) r3 by simp
  ultimately show "\<exists>mb' ht'. the (dns_rr_encode al rr offs s (mb, ht)) = (0, mb', ht') \<and> mb_size mb' = mb_size mb \<and>
        mb_pos mb \<le> mb_pos mb' \<and> mb_pos mb' \<le> mb_pos mb + rr_room rr"
    using 1 2 3 4(2) by (simp add: rr_room_def)
qed

lemma dns_rrs_succeed:
  "(\<And>rr. rr \<in> set rrs \<Longrightarrow> rr_ok rr) \<Longrightarrow> succeeds (sum_list (map rr_room rrs)) (dns_rrs_encode al offs s rrs)"
proof (induction rrs)
  case Nil
  then show ?case by (simp add: succeeds_def dns_rrs_encode_def)
next
  case (Cons rr rrs)
  have 1: "rr_ok rr" and 2: "succeeds (sum_list (map rr_room rrs)) (dns_rrs_encode al offs s rrs)" using Cons by simp_all
  from succeeds_seq [OF dns_rr_succeeds [OF 1] 2, of al offs s]
  show ?case by (simp add: dns_rrs_encode_def)
qed

section \<open>Properties\<close>


definition dname_wit :: mbuf where
  "dname_wit = \<lparr>mb_buf = Some [1, 0x61, 0, 1, 0x62, 0xc0, 0], mb_size = 7, mb_pos = 3, mb_end = 7\<rparr>"

lemma dname_wit_decodes:
  "dns_dname_decode al_all 0 dname_wit = (Inr [0x62, 0x2e, 0x61], dname_wit\<lparr>mb_pos := 7\<rparr>)"
proof -
  let ?b = "[1, 0x61, 0, 1, 0x62, 0xc0, 0] :: bytes"
  have "names ?b 0 {} 0 [[0x61]] 0 3"
    using names.label [OF _ _ _ names.root, of 0 ?b "[0x61]" "[0, 1, 0x62, 0xc0, 0]" "{}" "[1, 0x62, 0xc0, 0]" 0]
    by (simp add: clear_of_def label_ok_def numeral_3_eq_3)
  then have p: "names ?b 0 {} 5 [[0x61]] (0 + 1) (5 + 2)"
    by (intro names.pointer [of 5 ?b 0 "[]"]) (simp_all add: clear_of_def pointer_to_bytes OFFSET_MASK_def)
  have "names ?b 0 {} 3 [[0x62], [0x61]] 1 7"
    using names.label [of 3 ?b "[0x62]" "[0xc0, 0]" "{}" 0 "[[0x61]]" 1 7] p by (simp add: clear_of_def label_ok_def)
  from names_decoded [OF this, of dname_wit 0 "[]" al_all None]
  show ?thesis
    by (simp add: dns_dname_decode_def dname_wit_def mbuf_wf_def mbuf_content_def mbuf_bytes_def MEM_SIZE_MAX_def
        COMP_LOOP_def DNAME_BUF_def mem_alloc_def malloc_def)
qed


text \<open>C11: resource records written one after the other with a shared table of names are read back:
  in a buffer with room every record is encoded without error, and the decoder returns records that
  \<^verbatim>\<open>dns_rr_cmp\<close> identifies with the originals, with the remaining time to live, and
  ends where the encoder did. Names may have been replaced by pointers to any earlier name, and
  the data length is patched in behind the data.\<close>

theorem dns_rrs_roundtrip:
  assumes "\<forall>rr\<in>set rrs. rr_ok rr" "small_allocs al" "mbuf_ready mb" "mb_pos mb = mb_end mb" "s \<le> mb_pos mb"
    "mb_pos mb + sum_list (map rr_room rrs) \<le> mb_size mb"
  shows "\<exists>mb' ht' rrs'. dns_rrs_encode al offs s rrs (mb, Some []) = (0, mb', ht') \<and>
    d_rep (length rrs) (dns_rr_decode al s) (mb'\<lparr>mb_pos := mb_pos mb\<rparr>) = (Inr rrs', mb') \<and>
    list_all2 (\<lambda>rr rr'. dns_rr_cmp rr rr' True \<and> rr_ttl rr' = int (unat (ttl_sent rr offs))) rrs rrs'"
proof -
  have sz: "mb_size mb < 2 ^ 64" using assms(3) by (simp add: mbuf_ready_def mbuf_wf_def MEM_SIZE_MAX_def)
  have "succeeds (sum_list (map rr_room rrs)) (dns_rrs_encode al offs s rrs)"
    by (rule dns_rrs_succeed) (use assms(1) in blast)
  then obtain mb' ht' where enc: "dns_rrs_encode al offs s rrs (mb, Some []) = (0, mb', ht')"
    by (rule succeedsD [OF _ assms(6) sz])
  let ?X = "mbuf_content mb"
  have X: "mb_at mb ?X (length ?X)" using assms(3,4) mb_at_start [OF assms(3)] by (simp add: mbuf_ready_def)
  have l: "length ?X = mb_pos mb" using mb_atD(4) [OF X] by simp
  have e: "encodes s {} (dns_rrs_encode al offs s rrs) (\<lambda>_. d_rep (length rrs) (dns_rr_decode al s))
      (list_all2 (\<lambda>rr. rr_like rr offs) rrs)"
    unfolding dns_rrs_encode_def by (rule encodes_rep) (use assms(1,2) dns_rr_encodes in blast)
  have s: "s \<le> length ?X" and t: "tab_ok ?X s {} DNAME_BUF (Some [])" using assms(5) l by (simp_all add: tab_ok_def)
  obtain E where E: "mb_at mb' (?X @ E) (length (?X @ E))"
    "\<And>c. matches {} (?X @ E) c \<Longrightarrow> reads c (d_rep (length rrs) (dns_rr_decode al s)) (length ?X)
        (list_all2 (\<lambda>rr. rr_like rr offs) rrs) (length (?X @ E))"
    using encodesD [OF e X s _ t enc] by blast
  have m: "mbuf_wf (mb'\<lparr>mb_pos := length ?X\<rparr>)" "mbuf_content (mb'\<lparr>mb_pos := length ?X\<rparr>) = ?X @ E"
    using mb_at_pos [OF E(1), of "length ?X"] by (auto simp: mb_at_def mbuf_ready_def)
  have same: "mb'\<lparr>mb_pos := length (?X @ E)\<rparr> = mb'" using mb_atD(4) [OF E(1)] by simp
  obtain rrs' where "list_all2 (\<lambda>rr. rr_like rr offs) rrs rrs'"
    "d_rep (length rrs) (dns_rr_decode al s) (mb'\<lparr>mb_pos := length ?X\<rparr>) = (Inr rrs', mb'\<lparr>mb_pos := length (?X @ E)\<rparr>)"
    using E(2) [of "?X @ E"] m unfolding reads_def by fastforce
  then show ?thesis using enc l same unfolding rr_like_def by auto
qed

definition rr_wit1 :: dnsrr where
  "rr_wit1 = \<lparr>rr_name = [0x61, 0x2e, 0x62], rr_dnsclass = 1, rr_ttl = 300, rr_rdlen = 0, rr_rdata = DNS_CNAME [0x63, 0x2e, 0x62]\<rparr>"

definition rr_wit2 :: dnsrr where
  "rr_wit2 = \<lparr>rr_name = [0x43, 0x2e, 0x62], rr_dnsclass = 1, rr_ttl = 300, rr_rdlen = 0, rr_rdata = DNS_A 0x7f000001\<rparr>"

lemma dname_ok_wit: "x \<noteq> 0 \<Longrightarrow> x \<noteq> 0x2e \<Longrightarrow> dname_ok [x, 0x2e, 0x62]"
  unfolding dname_ok_def by (intro conjI exI [of _ "[[x], [0x62]]"]) (auto simp: label_ok_def DNAME_BUF_def)

theorem dns_rrs_roundtrip_witness:
  "\<exists>mb' ht' a b. dns_rrs_encode al_all 100 0 [rr_wit1, rr_wit2] (mbuf_empty, Some []) = (0, mb', ht') \<and>
    d_rep 2 (dns_rr_decode al_all 0) (mb'\<lparr>mb_pos := 0\<rparr>) = (Inr [a, b], mb') \<and>
    dns_rr_cmp rr_wit1 a True \<and> dns_rr_cmp rr_wit2 b True \<and> rr_ttl a = 200"
proof -
  have ok: "\<forall>rr\<in>set [rr_wit1, rr_wit2]. rr_ok rr"
    by (simp add: rr_ok_def rr_wit1_def rr_wit2_def dname_ok_wit)
  have al: "small_allocs al_all" by (simp add: small_allocs_def mem_alloc_def malloc_def MEM_SIZE_MAX_def)
  have room: "mb_pos mbuf_empty + sum_list (map rr_room [rr_wit1, rr_wit2]) \<le> mb_size mbuf_empty"
    by (simp add: rr_room_def rr_wit1_def rr_wit2_def mbuf_empty_ready)
  have ttl: "int (unat (ttl_sent rr_wit1 100)) = 200" by (simp add: ttl_sent_def rr_wit1_def)
  have two: "length [rr_wit1, rr_wit2] = 2" by simp
  obtain mb' ht' rrs' where r: "dns_rrs_encode al_all 100 0 [rr_wit1, rr_wit2] (mbuf_empty, Some []) = (0, mb', ht')"
    "d_rep 2 (dns_rr_decode al_all 0) (mb'\<lparr>mb_pos := 0\<rparr>) = (Inr rrs', mb')"
    "list_all2 (\<lambda>rr rr'. dns_rr_cmp rr rr' True \<and> rr_ttl rr' = int (unat (ttl_sent rr 100))) [rr_wit1, rr_wit2] rrs'"
    using dns_rrs_roundtrip [OF ok al mbuf_empty_ready(1) _ _ room, of 0 100]
    unfolding two mbuf_empty_ready(2,3) by auto
  obtain a b where "rrs' = [a, b]" "dns_rr_cmp rr_wit1 a True" "dns_rr_cmp rr_wit2 b True"
    "rr_ttl a = int (unat (ttl_sent rr_wit1 100))"
    using r(3) unfolding list_all2_Cons1 list_all2_Nil by blast
  then show ?thesis using r(1,2) unfolding ttl by blast
qed

text \<open>C15: encoding a TXT record whose text has 256 bytes or more never returns: the string length
  is computed as the text length modulo 256, so the loop ends up writing empty strings.\<close>

theorem dns_rr_encode_txt_diverges:
  assumes "256 \<le> length data" "rr_rdata rr = DNS_TXT data"
  shows "dns_rr_encode al rr ttl_offs start st = None"
proof -
  have "txt_loop al data r = None" for r using txt_loop_not_long [of al data r] assms(1) by (cases "txt_loop al data r") auto
  then show ?thesis unfolding dns_rr_encode_def Let_def assms(2) by (simp split: prod.split)
qed

theorem dns_rr_encode_txt_diverges_witness:
  "dns_rr_encode al_all \<lparr>rr_name = [0x61], rr_dnsclass = 1, rr_ttl = 0, rr_rdlen = 0,
     rr_rdata = DNS_TXT (replicate 256 0x61)\<rparr> 0 0 (mbuf_empty, None) = None"
  by (rule dns_rr_encode_txt_diverges) simp_all

text \<open>C16: a DNS header is decoded to what was encoded, in any buffer with 12 bytes of room.\<close>

theorem dns_hdr_roundtrip:
  assumes "dh_opcode h < 16" "dh_z h < 8" "dh_rcode h < 16" "mbuf_ready mb" "mb_pos mb = mb_end mb"
    "mb_pos mb + DNS_HEADER_SIZE \<le> mb_size mb"
  shows "\<exists>mb'. dns_hdr_encode al mb h = (0, mb') \<and> dns_hdr_decode (mb'\<lparr>mb_pos := mb_pos mb\<rparr>) = (Inr h, mb')"
proof (rule dnshdr.roundtrip_total [OF _ assms(4,5)])
  show "dnshdr_ok h" using assms(1-3) by (simp add: dnshdr_ok_def)
  show "mb_pos mb + length (dnshdr_img h) \<le> mb_size mb" using assms(6) by (simp add: dnshdr_img_def DNS_HEADER_SIZE_def)
qed

theorem dns_hdr_roundtrip_witness:
  "\<exists>h mb'. dh_qr h \<and> dh_rcode h = 3 \<and> dns_hdr_encode al_all mbuf_empty h = (0, mb') \<and>
     dns_hdr_decode (mb'\<lparr>mb_pos := 0\<rparr>) = (Inr h, mb')"
proof -
  let ?h = "\<lparr>dh_id = 0x1234, dh_qr = True, dh_opcode = 0, dh_aa = False, dh_tc = False, dh_rd = True, dh_ra = True,
    dh_z = 0, dh_rcode = 3, dh_nq = 1, dh_nans = 0, dh_nauth = 1, dh_nadd = 0\<rparr>"
  from dns_hdr_roundtrip [of ?h mbuf_empty al_all] obtain mb' where
    "dns_hdr_encode al_all mbuf_empty ?h = (0, mb')" "dns_hdr_decode (mb'\<lparr>mb_pos := 0\<rparr>) = (Inr ?h, mb')"
    by (auto simp: mbuf_empty_ready DNS_HEADER_SIZE_def)
  then show ?thesis by (intro exI [of _ ?h] exI [of _ mb']) simp
qed

text \<open>C14: sorting a list of records for a type terminates and leaves a permutation of the list,
  well linked, in order: records of the type first, MX by preference, SRV by priority and then by
  decreasing weighted index, NAPTR by order and preference.\<close>

theorem dns_rrlist_sort_correct:
  assumes "is_list h l xs" "\<forall>d. rr_known (rrs d)"
  shows "\<exists>h' ys. dns_rrlist_sort rrs l type key h = Some h' \<and> is_list h' l ys \<and> mset ys = mset xs \<and>
    sorted_wrt (\<lambda>a b. rank_le (rr_rank \<lparr>so_type = type, so_key = drop_bit 5 (ucast key)\<rparr> (rrs (le_data (les h a))))
      (rr_rank \<lparr>so_type = type, so_key = drop_bit 5 (ucast key)\<rparr> (rrs (le_data (les h b))))) ys"
  using rrlist_sort_ranked [OF assms(1), of rrs type key] assms(2) by fastforce

theorem dns_rrlist_sort_correct_witness:
  "\<exists>h' ys. dns_rrlist_sort (\<lambda>d. rr_wit1\<lparr>rr_rdata := DNS_MX (if d = Some 9 then 20 else 10) [0x62]\<rparr>) 0 0xf 0 (heap2 9 4)
     = Some h' \<and> is_list h' 0 ys \<and> mset ys = {#1, 2#}"
  using dns_rrlist_sort_correct [OF heap2_is_list [of 9 4],
      of "\<lambda>d. rr_wit1\<lparr>rr_rdata := DNS_MX (if d = Some 9 then 20 else 10) [0x62]\<rparr>" "0xf" 0]
  by (simp add: rr_known_def) blast

text \<open>Without alias recursion the search is the first record that passes the filters.\<close>

lemma rrlist_loop_plain:
  "rrlist_loop rrl type type dnsclass False (Some (find_handler type)) name depth rest () =
     (find (\<lambda>rr. rr_selected name type type dnsclass False rr \<and> rr_type (rr_rdata rr) = type) rest, ())"
  by (induction rest) (simp_all add: find_handler_def)

text \<open>C13: \<^verbatim>\<open>dns_rrlist_find\<close> terminates on every list, however its aliases are chained. Without
  recursion it returns the first record that matches name, type and class. With recursion a record it returns is in the
  list, has the type and class, and its name is reached from the name asked for over at most 16
  CNAME records of the list.\<close>

theorem dns_rrlist_find_correct:
  assumes "type \<noteq> DNS_QTYPE_ANY"
  shows "dns_rrlist_find rrl name type dnsclass False =
      find (\<lambda>rr. (name = None \<or> str_casecmp name (Some (rr_name rr)) = 0) \<and> rr_type (rr_rdata rr) = type \<and>
        (dnsclass = DNS_QCLASS_ANY \<or> rr_dnsclass rr = dnsclass)) rrl \<and>
    (dns_rrlist_find rrl name type dnsclass True = Some rr \<longrightarrow>
      rr \<in> set rrl \<and> rr_type (rr_rdata rr) = type \<and> (dnsclass = DNS_QCLASS_ANY \<or> rr_dnsclass rr = dnsclass) \<and>
      (\<exists>m. cname_path rrl dnsclass name 16 m \<and> (m = None \<or> str_casecmp m (Some (rr_name rr)) = 0)))"
proof (intro conjI impI)
  have "(rr_selected name type type dnsclass False r \<and> rr_type (rr_rdata r) = type) =
     ((name = None \<or> str_casecmp name (Some (rr_name r)) = 0) \<and> rr_type (rr_rdata r) = type \<and>
        (dnsclass = DNS_QCLASS_ANY \<or> rr_dnsclass r = dnsclass))" for r
    using assms by (auto simp: rr_selected_iff class_fits_def)
  then show "dns_rrlist_find rrl name type dnsclass False =
      find (\<lambda>rr. (name = None \<or> str_casecmp name (Some (rr_name rr)) = 0) \<and> rr_type (rr_rdata rr) = type \<and>
        (dnsclass = DNS_QCLASS_ANY \<or> rr_dnsclass rr = dnsclass)) rrl"
    by (simp add: dns_rrlist_find_def rrlist_apply_def rrlist_loop_plain)
next
  assume "dns_rrlist_find rrl name type dnsclass True = Some rr"
  then have "rrlist_loop rrl type type dnsclass True (Some (find_handler type)) name 0 rrl () = (Some rr, ())"
    by (simp add: dns_rrlist_find_def rrlist_apply_def prod_eq_iff)
  from rrlist_loop_sound [OF this order.refl]
  show "rr \<in> set rrl" "rr_type (rr_rdata rr) = type" "dnsclass = DNS_QCLASS_ANY \<or> rr_dnsclass rr = dnsclass"
    "\<exists>m. cname_path rrl dnsclass name 16 m \<and> (m = None \<or> str_casecmp m (Some (rr_name rr)) = 0)"
    by (auto simp: find_handler_def class_fits_def CNAME_RECURSE_MAX_def)
qed

theorem dns_rrlist_find_correct_witness:
  "dns_rrlist_find [rr_wit1, rr_wit2] (Some [0x41, 0x2e, 0x62]) 1 1 True = Some rr_wit2 \<and>
   (\<exists>m. cname_path [rr_wit1, rr_wit2] 1 (Some [0x41, 0x2e, 0x62]) 16 m \<and> (m = None \<or> str_casecmp m (Some (rr_name rr_wit2)) = 0)) \<and>
   dns_rrlist_find [rr_wit1, rr_wit2] (Some [0x41, 0x2e, 0x62]) 1 1 False = None"
proof -
  have f: "dns_rrlist_find [rr_wit1, rr_wit2] (Some [0x41, 0x2e, 0x62]) 1 1 True = Some rr_wit2"
    by (simp add: dns_rrlist_find_def rrlist_apply_def rr_selected_def rr_wit1_def rr_wit2_def find_handler_def
        str_casecmp_def strcasecmp_def tolower_def DNS_QTYPE_ANY_def DNS_TYPE_CNAME_def DNS_QCLASS_ANY_def
        CNAME_RECURSE_MAX_def rr_cname_def)
  have 1: "(1 :: u16) \<noteq> DNS_QTYPE_ANY" by (simp add: DNS_QTYPE_ANY_def)
  from dns_rrlist_find_correct [OF 1, of "[rr_wit1, rr_wit2]" "Some [0x41, 0x2e, 0x62]" 1 rr_wit2] f
  show ?thesis by (simp add: rr_wit1_def rr_wit2_def str_casecmp_def strcasecmp_def tolower_def)
qed

text \<open>Asked for any type, \<^verbatim>\<open>dns_rrlist_find\<close> finds nothing: its handler still compares the
  type of the record with the one asked for.\<close>

theorem dns_rrlist_find_any:
  assumes "\<forall>rr\<in>set rrl. rr_type (rr_rdata rr) \<noteq> DNS_QTYPE_ANY"
  shows "dns_rrlist_find rrl name DNS_QTYPE_ANY dnsclass recurse = None"
proof (cases "dns_rrlist_find rrl name DNS_QTYPE_ANY dnsclass recurse")
  case (Some rr)
  then have "rrlist_loop rrl DNS_QTYPE_ANY DNS_QTYPE_ANY dnsclass recurse (Some (find_handler DNS_QTYPE_ANY)) name 0 rrl () =
      (Some rr, ())"
    by (simp add: dns_rrlist_find_def rrlist_apply_def prod_eq_iff)
  from rrlist_loop_sound [OF this order.refl] have "rr \<in> set rrl" "rr_type (rr_rdata rr) = DNS_QTYPE_ANY"
    by (auto simp: find_handler_def)
  with assms show ?thesis by blast
qed

theorem dns_rrlist_find_any_witness:
  "dns_rrlist_find [rr_wit1, rr_wit2] None DNS_QTYPE_ANY 1 False = None \<and> rr_selected None DNS_QTYPE_ANY DNS_QTYPE_ANY 1 False rr_wit2"
  using dns_rrlist_find_any [of "[rr_wit1, rr_wit2]" None 1 False]
  by (simp add: rr_wit1_def rr_wit2_def DNS_QTYPE_ANY_def rr_selected_def)

end
