(* ===== verification/Crc32.thy ===== *)
theory Crc32
  imports Prelude
begin

text \<open>
  The CRC-32 of \<^verbatim>\<open>src/src/crc32/crc32.c\<close> as it is built without zlib: a table of feedback terms
  indexed by the low byte of the register. The specification is the shift register of the
  polynomial that the comment in the source names, fed one bit at a time, least significant bit
  of each byte first; the table, its lookup and the serial register are shown to agree.
\<close>

section \<open>Code\<close>

definition crc32_tab :: "u32 list" where
  "crc32_tab =
    [0x00000000, 0x77073096, 0xee0e612c, 0x990951ba, 0x076dc419, 0x706af48f, 0xe963a535, 0x9e6495a3,
     0x0edb8832, 0x79dcb8a4, 0xe0d5e91e, 0x97d2d988, 0x09b64c2b, 0x7eb17cbd, 0xe7b82d07, 0x90bf1d91,
     0x1db71064, 0x6ab020f2, 0xf3b97148, 0x84be41de, 0x1adad47d, 0x6ddde4eb, 0xf4d4b551, 0x83d385c7,
     0x136c9856, 0x646ba8c0, 0xfd62f97a, 0x8a65c9ec, 0x14015c4f, 0x63066cd9, 0xfa0f3d63, 0x8d080df5,
     0x3b6e20c8, 0x4c69105e, 0xd56041e4, 0xa2677172, 0x3c03e4d1, 0x4b04d447, 0xd20d85fd, 0xa50ab56b,
     0x35b5a8fa, 0x42b2986c, 0xdbbbc9d6, 0xacbcf940, 0x32d86ce3, 0x45df5c75, 0xdcd60dcf, 0xabd13d59,
     0x26d930ac, 0x51de003a, 0xc8d75180, 0xbfd06116, 0x21b4f4b5, 0x56b3c423, 0xcfba9599, 0xb8bda50f,
     0x2802b89e, 0x5f058808, 0xc60cd9b2, 0xb10be924, 0x2f6f7c87, 0x58684c11, 0xc1611dab, 0xb6662d3d,
     0x76dc4190, 0x01db7106, 0x98d220bc, 0xefd5102a, 0x71b18589, 0x06b6b51f, 0x9fbfe4a5, 0xe8b8d433,
     0x7807c9a2, 0x0f00f934, 0x9609a88e, 0xe10e9818, 0x7f6a0dbb, 0x086d3d2d, 0x91646c97, 0xe6635c01,
     0x6b6b51f4, 0x1c6c6162, 0x856530d8, 0xf262004e, 0x6c0695ed, 0x1b01a57b, 0x8208f4c1, 0xf50fc457,
     0x65b0d9c6, 0x12b7e950, 0x8bbeb8ea, 0xfcb9887c, 0x62dd1ddf, 0x15da2d49, 0x8cd37cf3, 0xfbd44c65,
     0x4db26158, 0x3ab551ce, 0xa3bc0074, 0xd4bb30e2, 0x4adfa541, 0x3dd895d7, 0xa4d1c46d, 0xd3d6f4fb,
     0x4369e96a, 0x346ed9fc, 0xad678846, 0xda60b8d0, 0x44042d73, 0x33031de5, 0xaa0a4c5f, 0xdd0d7cc9,
     0x5005713c, 0x270241aa, 0xbe0b1010, 0xc90c2086, 0x5768b525, 0x206f85b3, 0xb966d409, 0xce61e49f,
     0x5edef90e, 0x29d9c998, 0xb0d09822, 0xc7d7a8b4, 0x59b33d17, 0x2eb40d81, 0xb7bd5c3b, 0xc0ba6cad,
     0xedb88320, 0x9abfb3b6, 0x03b6e20c, 0x74b1d29a, 0xead54739, 0x9dd277af, 0x04db2615, 0x73dc1683,
     0xe3630b12, 0x94643b84, 0x0d6d6a3e, 0x7a6a5aa8, 0xe40ecf0b, 0x9309ff9d, 0x0a00ae27, 0x7d079eb1,
     0xf00f9344, 0x8708a3d2, 0x1e01f268, 0x6906c2fe, 0xf762575d, 0x806567cb, 0x196c3671, 0x6e6b06e7,
     0xfed41b76, 0x89d32be0, 0x10da7a5a, 0x67dd4acc, 0xf9b9df6f, 0x8ebeeff9, 0x17b7be43, 0x60b08ed5,
     0xd6d6a3e8, 0xa1d1937e, 0x38d8c2c4, 0x4fdff252, 0xd1bb67f1, 0xa6bc5767, 0x3fb506dd, 0x48b2364b,
     0xd80d2bda, 0xaf0a1b4c, 0x36034af6, 0x41047a60, 0xdf60efc3, 0xa867df55, 0x316e8eef, 0x4669be79,
     0xcb61b38c, 0xbc66831a, 0x256fd2a0, 0x5268e236, 0xcc0c7795, 0xbb0b4703, 0x220216b9, 0x5505262f,
     0xc5ba3bbe, 0xb2bd0b28, 0x2bb45a92, 0x5cb36a04, 0xc2d7ffa7, 0xb5d0cf31, 0x2cd99e8b, 0x5bdeae1d,
     0x9b64c2b0, 0xec63f226, 0x756aa39c, 0x026d930a, 0x9c0906a9, 0xeb0e363f, 0x72076785, 0x05005713,
     0x95bf4a82, 0xe2b87a14, 0x7bb12bae, 0x0cb61b38, 0x92d28e9b, 0xe5d5be0d, 0x7cdcefb7, 0x0bdbdf21,
     0x86d3d2d4, 0xf1d4e242, 0x68ddb3f8, 0x1fda836e, 0x81be16cd, 0xf6b9265b, 0x6fb077e1, 0x18b74777,
     0x88085ae6, 0xff0f6a70, 0x66063bca, 0x11010b5c, 0x8f659eff, 0xf862ae69, 0x616bffd3, 0x166ccf45,
     0xa00ae278, 0xd70dd2ee, 0x4e048354, 0x3903b3c2, 0xa7672661, 0xd06016f7, 0x4969474d, 0x3e6e77db,
     0xaed16a4a, 0xd9d65adc, 0x40df0b66, 0x37d83bf0, 0xa9bcae53, 0xdebb9ec5, 0x47b2cf7f, 0x30b5ffe9,
     0xbdbdf21c, 0xcabac28a, 0x53b39330, 0x24b4a3a6, 0xbad03605, 0xcdd70693, 0x54de5729, 0x23d967bf,
     0xb3667a2e, 0xc4614ab8, 0x5d681b02, 0x2a6f2b94, 0xb40bbe37, 0xc30c8ea1, 0x5a05df1b, 0x2d02ef8d]"

definition re_crc32 :: "u32 \<Rightarrow> bytes \<Rightarrow> u32 \<Rightarrow> u32" where
  "re_crc32 crc buf n =
     foldl (\<lambda>crc p. crc32_tab ! unat ((crc XOR ucast p) AND 0xff) XOR drop_bit 8 crc)
       (NOT crc) (take (unat n) buf) XOR NOT 0"

section \<open>The shift register\<close>

definition crc_poly :: u32 where
  "crc_poly = 0xedb88320"

definition crc_serial :: "u32 \<Rightarrow> bool \<Rightarrow> u32" where
  "crc_serial c d = drop_bit 1 c XOR (if bit c 0 \<noteq> d then crc_poly else 0)"

definition crc_bits :: "u8 \<Rightarrow> bool list" where
  "crc_bits b = map (bit b) [0..<8]"

definition crc_spec :: "u32 \<Rightarrow> bytes \<Rightarrow> u32" where
  "crc_spec crc buf = NOT (foldl crc_serial (NOT crc) (concat (map crc_bits buf)))"

section \<open>Table and register\<close>

text \<open>A step without input, on words and on the integers they stand for.\<close>

definition crc_shift :: "u32 \<Rightarrow> u32" where
  "crc_shift c = crc_serial c False"

definition crc_shift_int :: "int \<Rightarrow> int" where
  "crc_shift_int n = (if odd n then (n div 2) XOR 0xedb88320 else n div 2)"

fun crc_tab_from :: "int \<Rightarrow> u32 list \<Rightarrow> bool" where
  "crc_tab_from n [] = True"
| "crc_tab_from n (t # ts) =
     (if crc_shift_int (crc_shift_int (crc_shift_int (crc_shift_int (crc_shift_int (crc_shift_int
           (crc_shift_int (crc_shift_int n))))))) = uint t then crc_tab_from (n + 1) ts else False)"

lemma crc_tab_from_0: "crc_tab_from 0 crc32_tab"
  by code_simp

lemma crc_tab_from_nth: "crc_tab_from n ts \<Longrightarrow> i < length ts \<Longrightarrow> uint (ts ! i) = (crc_shift_int ^^ 8) (n + int i)"
proof (induction ts arbitrary: n i)
  case (Cons t ts)
  show ?case
  proof (cases i)
    case (Suc j)
    then show ?thesis using Cons.IH [of "n + 1" j] Cons.prems by (simp add: ac_simps split: if_splits)
  qed (use Cons.prems in \<open>simp add: eval_nat_numeral split: if_splits\<close>)
qed simp

lemma uint_crc_shift: "uint (crc_shift c) = crc_shift_int (uint c)"
proof -
  have h: "uint (drop_bit 1 c) = uint c div 2"
    by (simp add: uint_nat unat_drop_bit zdiv_int del: of_nat_unat)
  have o: "bit c 0 \<longleftrightarrow> odd (uint c)"
    using bit_uint_iff [of c 0] by (simp only: bit_0) simp
  show ?thesis
    unfolding crc_shift_def crc_serial_def crc_shift_int_def crc_poly_def o by (simp add: unsigned_xor_eq h [simplified])
qed

lemma uint_crc_shifts: "uint ((crc_shift ^^ k) c) = (crc_shift_int ^^ k) (uint c)"
  by (induction k) (simp_all add: uint_crc_shift)

lemma crc32_tab_nth: "i < 256 \<Longrightarrow> crc32_tab ! i = (crc_shift ^^ 8) (word_of_nat i)"
proof -
  assume i: "i < 256"
  moreover have "length crc32_tab = 256" by (simp add: crc32_tab_def)
  ultimately have "uint (crc32_tab ! i) = (crc_shift_int ^^ 8) (int i)"
    using crc_tab_from_nth [OF crc_tab_from_0, of i] by simp
  moreover have "uint (word_of_nat i :: u32) = int i" using i by (simp add: unsigned_of_nat take_bit_nat_eq_self)
  ultimately show ?thesis by (intro word_uint_eqI) (simp add: uint_crc_shifts)
qed

text \<open>The step is linear, and eight of them move a register with a clear low byte down.\<close>

lemma crc_shift_xor: "crc_shift (a XOR b) = crc_shift a XOR crc_shift b"
  by (simp add: crc_shift_def crc_serial_def drop_bit_xor bit_xor_iff ac_simps)

lemma crc_shifts_xor: "(crc_shift ^^ k) (a XOR b) = (crc_shift ^^ k) a XOR (crc_shift ^^ k) b"
  by (induction k) (simp_all add: crc_shift_xor)

lemma crc_shifts_high: "(\<And>j. j < k \<Longrightarrow> \<not> bit c j) \<Longrightarrow> (crc_shift ^^ k) c = drop_bit k c"
proof (induction k)
  case (Suc k)
  have "\<not> bit (drop_bit k c) 0" using Suc.prems [of k] by (simp add: bit_drop_bit_eq)
  then show ?case using Suc by (simp add: crc_shift_def crc_serial_def)
qed simp

lemma crc_table_step: "crc32_tab ! unat (c AND 0xff) XOR drop_bit 8 c = (crc_shift ^^ 8) c"
proof -
  let ?lo = "take_bit 8 c" and ?hi = "push_bit 8 (drop_bit 8 c)"
  have c: "c = ?lo XOR ?hi"
    by (rule bit_word_eqI) (auto simp: bit_xor_iff bit_take_bit_iff bit_push_bit_iff bit_drop_bit_eq)
  have m: "c AND 0xff = ?lo" by (rule and_masks)
  have "unat ?lo < 256" by (simp add: unat_take_bit)
  then have "crc32_tab ! unat (c AND 0xff) = (crc_shift ^^ 8) ?lo" by (simp only: m crc32_tab_nth) simp
  moreover have "(crc_shift ^^ 8) ?hi = drop_bit 8 c"
  proof -
    have "drop_bit 8 ?hi = drop_bit 8 c"
    proof (rule bit_word_eqI)
      fix n assume "n < LENGTH(32)"
      then show "bit (drop_bit 8 ?hi) n = bit (drop_bit 8 c) n"
        using bit_imp_le_length [of c "8 + n"] by (auto simp: bit_simps)
    qed
    then show ?thesis by (simp add: crc_shifts_high bit_push_bit_iff)
  qed
  ultimately show ?thesis by (metis c crc_shifts_xor)
qed

lemma crc_serial_bits:
  "foldl crc_serial c (map (bit b) [0..<k]) = (crc_shift ^^ k) (c XOR ucast (take_bit k b))" for b :: u8
proof (induction k)
  case (Suc k)
  let ?x = "c XOR ucast (take_bit k b) :: u32" and ?y = "of_bool (bit b k) :: u32"
  have t: "ucast (take_bit (Suc k) b) = (ucast (take_bit k b) XOR push_bit k ?y :: u32)"
    by (rule bit_word_eqI) (auto simp: bit_simps less_Suc_eq)
  have y: "(crc_shift ^^ k) (push_bit k ?y) = ?y"
  proof (cases "bit b k")
    case True
    then have "k < 8" using bit_imp_le_length by fastforce
    then show ?thesis by (subst crc_shifts_high) (auto simp: bit_simps intro!: bit_word_eqI)
  qed (simp add: crc_shifts_high)
  have "foldl crc_serial c (map (bit b) [0..<Suc k]) = crc_serial ((crc_shift ^^ k) ?x) (bit b k)"
    by (simp add: Suc)
  also have "\<dots> = crc_shift ((crc_shift ^^ k) ?x XOR ?y)"
    by (simp add: crc_shift_def crc_serial_def bit_simps drop_bit_xor)
  also have "\<dots> = (crc_shift ^^ Suc k) (c XOR ucast (take_bit (Suc k) b))"
    by (simp add: t y crc_shifts_xor xor.assoc [symmetric])
  finally show ?case .
qed simp

lemma crc_byte_step:
  "crc32_tab ! unat ((c XOR ucast p) AND 0xff) XOR drop_bit 8 c = foldl crc_serial c (crc_bits p)"
proof -
  have d: "drop_bit 8 (c XOR ucast p) = drop_bit 8 c"
    by (rule bit_word_eqI) (auto simp: bit_simps dest: bit_imp_le_length)
  have "take_bit 8 p = p" by (simp add: take_bit_word_eq_self)
  then show ?thesis using crc_table_step [of "c XOR ucast p"]
    by (simp only: crc_bits_def crc_serial_bits d)
qed

section \<open>Properties\<close>

text \<open>C18: the table driven \<^verbatim>\<open>re_crc32\<close> computes what the bit serial shift register of the polynomial
  0xedb88320 computes over the first \<open>n\<close> bytes of the buffer, for every start value: the 256
  constants of the table are the right ones and the lookup combines them correctly.\<close>

theorem re_crc32_correct: "re_crc32 crc buf n = crc_spec crc (take (unat n) buf)"
proof -
  have "foldl (\<lambda>crc p. crc32_tab ! unat ((crc XOR ucast p) AND 0xff) XOR drop_bit 8 crc) c bs =
      foldl crc_serial c (concat (map crc_bits bs))" for c bs
    by (induction bs arbitrary: c) (simp_all only: foldl.simps crc_byte_step list.map concat.simps foldl_append)
  then show ?thesis by (simp add: re_crc32_def crc_spec_def)
qed

end
