(* ===== verification/Sa.thy ===== *)
theory Sa
  imports Str
begin

text \<open>
  Socket addresses: \<^verbatim>\<open>src/src/sa/sa.c\<close> without the text conversions. The union of
  \<^verbatim>\<open>struct sa\<close> is kept as what it is in memory, a block of bytes that \<^verbatim>\<open>sockaddr_in\<close>,
  \<^verbatim>\<open>sockaddr_in6\<close> and \<^verbatim>\<open>sockaddr_un\<close> overlay (Linux layout): the family at offset 0, the port at 2, the
  IPv4 address at 4, the IPv6 address at 8, the scope at 24, the path of a local socket at 2.
  Integers in it are in the byte order the code stores them in.
\<close>

section \<open>Fields of a block\<close>

definition blk :: "nat \<Rightarrow> nat \<Rightarrow> 'a list \<Rightarrow> 'a list" where
  "blk off n xs = take n (drop off xs)"

lemma length_blk [simp]: "off + n \<le> length xs \<Longrightarrow> length (blk off n xs) = n"
  by (simp add: blk_def)

lemma blk_mem_put_same [simp]:
  "n = length src \<Longrightarrow> off + length src \<le> length dst \<Longrightarrow> blk off n (mem_put off src dst) = src"
  by (simp add: blk_def slice_mem_put)

lemma blk_mem_put_other [simp]:
  assumes "off + n \<le> off' \<or> off' + length src \<le> off" "off' + length src \<le> length dst"
  shows "blk off n (mem_put off' src dst) = blk off n dst"
proof (rule nth_equalityI)
  show "length (blk off n (mem_put off' src dst)) = length (blk off n dst)"
    using assms(2) by (simp add: blk_def)
  fix i assume "i < length (blk off n (mem_put off' src dst))"
  then have i: "i < n" "off + i < length dst" using assms(2) by (auto simp: blk_def)
  have "mem_put off' src dst ! (off + i) = dst ! (off + i)"
    using assms i by (auto simp: mem_put_def nth_append)
  then show "blk off n (mem_put off' src dst) ! i = blk off n dst ! i"
    using i assms(2) by (simp add: blk_def)
qed

lemma blk_replicate [simp]: "off + n \<le> k \<Longrightarrow> blk off n (replicate k x) = replicate n x"
  by (simp add: blk_def min_def)

section \<open>The structure\<close>

record sa =
  sa_u :: bytes
  sa_len :: nat

definition AF_UNSPEC :: u16 where "AF_UNSPEC = 0"
definition AF_UNIX :: u16 where "AF_UNIX = 1"
definition AF_INET :: u16 where "AF_INET = 2"
definition AF_INET6 :: u16 where "AF_INET6 = 10"

lemmas af_defs = AF_UNSPEC_def AF_UNIX_def AF_INET_def AF_INET6_def

lemma af_distinct [simp]: "AF_INET \<noteq> AF_INET6" "AF_INET6 \<noteq> AF_INET" "AF_UNIX \<noteq> AF_INET" "AF_INET \<noteq> AF_UNIX"
  "AF_UNIX \<noteq> AF_INET6" "AF_INET6 \<noteq> AF_UNIX"
  by (simp_all add: af_defs)

definition sizeof_sa_u :: nat where
  "sizeof_sa_u = 112"

definition sizeof_sockaddr_in :: nat where
  "sizeof_sockaddr_in = 16"

definition sizeof_sockaddr_in6 :: nat where
  "sizeof_sockaddr_in6 = 28"

definition SA_ADDR :: int where "SA_ADDR = 1"
definition SA_PORT :: int where "SA_PORT = 2"
definition SA_ALL :: int where "SA_ALL = SA_ADDR OR SA_PORT"

definition sa_family :: "sa \<Rightarrow> u16" where
  "sa_family sa = word_of_le (blk 0 2 (sa_u sa))"

definition sin_port :: "sa \<Rightarrow> u16" where
  "sin_port sa = word_of_le (blk 2 2 (sa_u sa))"

definition sin_addr :: "sa \<Rightarrow> u32" where
  "sin_addr sa = word_of_le (blk 4 4 (sa_u sa))"

definition sin6_addr :: "sa \<Rightarrow> bytes" where
  "sin6_addr sa = blk 8 16 (sa_u sa)"

definition sin6_scope_id :: "sa \<Rightarrow> u32" where
  "sin6_scope_id sa = word_of_le (blk 24 4 (sa_u sa))"

definition sun_path :: "sa \<Rightarrow> bytes" where
  "sun_path sa = takeWhile (\<lambda>c. c \<noteq> 0) (blk 2 108 (sa_u sa))"

definition sa_poke :: "nat \<Rightarrow> bytes \<Rightarrow> sa \<Rightarrow> sa" where
  "sa_poke off bs sa = sa\<lparr>sa_u := mem_put off bs (sa_u sa)\<rparr>"

definition sa_zero :: sa where
  "sa_zero = \<lparr>sa_u = replicate sizeof_sa_u 0, sa_len = 0\<rparr>"

definition sa_wf :: "sa \<Rightarrow> bool" where
  "sa_wf sa \<longleftrightarrow> length (sa_u sa) = sizeof_sa_u"

section \<open>Setting\<close>

definition sa_init :: "sa \<Rightarrow> u16 \<Rightarrow> sa" where
  "sa_init sa af = (sa_poke 0 (word_to_le 2 af) sa_zero)\<lparr>sa_len := sizeof_sa_u\<rparr>"

definition sa_set_in :: "sa \<Rightarrow> u32 \<Rightarrow> u16 \<Rightarrow> sa" where
  "sa_set_in sa addr port =
     (sa_poke 2 (word_to_le 2 (htons port))
       (sa_poke 4 (word_to_le 4 (htonl addr))
         (sa_poke 0 (word_to_le 2 AF_INET) sa_zero)))\<lparr>sa_len := sizeof_sockaddr_in\<rparr>"

definition sa_set_in6 :: "sa \<Rightarrow> bytes \<Rightarrow> u16 \<Rightarrow> sa" where
  "sa_set_in6 sa addr port =
     (sa_poke 2 (word_to_le 2 (htons port))
       (sa_poke 8 (take 16 addr)
         (sa_poke 0 (word_to_le 2 AF_INET6) sa_zero)))\<lparr>sa_len := sizeof_sockaddr_in6\<rparr>"

text \<open>The argument is the memory of the \<^verbatim>\<open>struct sockaddr\<close>. An unsupported family leaves a
  cleared structure behind.\<close>

definition sa_set_sa :: "sa \<Rightarrow> bytes \<Rightarrow> errno \<times> sa" where
  "sa_set_sa sa s =
     (let family = word_of_le (blk 0 2 s) :: u16 in
      if family = AF_INET then
        (0, sa_poke 0 (word_to_le 2 family)
              ((sa_poke 0 (take sizeof_sockaddr_in s) sa_zero)\<lparr>sa_len := sizeof_sockaddr_in\<rparr>))
      else if family = AF_INET6 then
        (0, sa_poke 0 (word_to_le 2 family)
              ((sa_poke 0 (take sizeof_sockaddr_in6 s) sa_zero)\<lparr>sa_len := sizeof_sockaddr_in6\<rparr>))
      else (EAFNOSUPPORT, sa_zero))"

definition sa_set_port :: "sa \<Rightarrow> u16 \<Rightarrow> sa" where
  "sa_set_port sa port =
     (if sa_family sa = AF_INET then sa_poke 2 (word_to_le 2 (htons port)) sa
      else if sa_family sa = AF_INET6 then sa_poke 2 (word_to_le 2 (htons port)) sa
      else sa)"

definition sa_cpy :: "sa \<Rightarrow> sa \<Rightarrow> sa" where
  "sa_cpy dst src = src"

definition sa_set_scopeid :: "sa \<Rightarrow> u32 \<Rightarrow> sa" where
  "sa_set_scopeid sa scopeid =
     (if sa_family sa \<noteq> AF_INET6 then sa else sa_poke 24 (word_to_le 4 scopeid) sa)"

section \<open>Reading\<close>

definition sa_af :: "sa option \<Rightarrow> u16" where
  "sa_af sap = (case sap of Some sa \<Rightarrow> sa_family sa | None \<Rightarrow> AF_UNSPEC)"

definition sa_in :: "sa option \<Rightarrow> u32" where
  "sa_in sap = (case sap of Some sa \<Rightarrow> ntohl (sin_addr sa) | None \<Rightarrow> 0)"

definition sa_in6 :: "sa \<Rightarrow> bytes" where
  "sa_in6 sa = sin6_addr sa"

definition sa_port :: "sa option \<Rightarrow> u16" where
  "sa_port sap =
     (case sap of None \<Rightarrow> 0
      | Some sa \<Rightarrow>
         if sa_family sa = AF_INET then ntohs (sin_port sa)
         else if sa_family sa = AF_INET6 then ntohs (sin_port sa)
         else 0)"

definition sa_scopeid :: "sa option \<Rightarrow> u32" where
  "sa_scopeid sap =
     (case sap of None \<Rightarrow> 0
      | Some sa \<Rightarrow> if sa_family sa \<noteq> AF_INET6 then 0 else sin6_scope_id sa)"

definition sa_isset :: "sa option \<Rightarrow> int \<Rightarrow> bool" where
  "sa_isset sap flag =
     (case sap of None \<Rightarrow> False
      | Some sa \<Rightarrow>
         if sa_family sa = AF_UNIX then str_isset (Some (sun_path sa))
         else if sa_family sa = AF_INET then
           \<not> (flag AND SA_ADDR \<noteq> 0 \<and> sin_addr sa = 0) \<and> \<not> (flag AND SA_PORT \<noteq> 0 \<and> sin_port sa = 0)
         else if sa_family sa = AF_INET6 then
           \<not> (flag AND SA_ADDR \<noteq> 0 \<and> sin6_addr sa = replicate 16 0) \<and>
           \<not> (flag AND SA_PORT \<noteq> 0 \<and> sin_port sa = 0)
         else False)"

definition sa_hash :: "sa option \<Rightarrow> int \<Rightarrow> u32" where
  "sa_hash sap flag =
     (case sap of None \<Rightarrow> 0
      | Some sa \<Rightarrow>
         if sa_family sa = AF_INET then
           (if flag AND SA_ADDR \<noteq> 0 then ntohl (sin_addr sa) else 0) +
           (if flag AND SA_PORT \<noteq> 0 then ucast (ntohs (sin_port sa)) else 0)
         else if sa_family sa = AF_INET6 then
           (if flag AND SA_ADDR \<noteq> 0 then
              (let a = (\<lambda>i. word_of_le (blk (4 * i) 4 (sin6_addr sa)) :: u32) in
               a 0 XOR a 1 XOR a 2 XOR a 3)
            else 0) +
           (if flag AND SA_PORT \<noteq> 0 then ucast (ntohs (sin_port sa)) else 0)
         else 0)"

text \<open>\<open>same\<close>: the two arguments are the same object, which the code tests first.\<close>

definition sa_cmp :: "bool \<Rightarrow> sa option \<Rightarrow> sa option \<Rightarrow> int \<Rightarrow> bool" where
  "sa_cmp same lp rp flag =
     (case (lp, rp) of
        (Some l, Some r) \<Rightarrow>
          if same then True
          else if sa_family l \<noteq> sa_family r then False
          else if sa_family l = AF_UNIX then str_cmp (Some (sun_path l)) (Some (sun_path r)) = 0
          else if sa_family l = AF_INET then
            \<not> (flag AND SA_ADDR \<noteq> 0 \<and> sin_addr l \<noteq> sin_addr r) \<and>
            \<not> (flag AND SA_PORT \<noteq> 0 \<and> sin_port l \<noteq> sin_port r)
          else if sa_family l = AF_INET6 then
            \<not> (flag AND SA_ADDR \<noteq> 0 \<and> sin6_addr l \<noteq> sin6_addr r) \<and>
            \<not> (flag AND SA_PORT \<noteq> 0 \<and> sin_port l \<noteq> sin_port r)
          else False
      | _ \<Rightarrow> False)"

definition sa_is_linklocal :: "sa option \<Rightarrow> bool" where
  "sa_is_linklocal sap =
     (case sap of None \<Rightarrow> False
      | Some sa \<Rightarrow>
         if sa_family sa = AF_INET then sin_addr sa AND htonl 0xffff0000 = htonl 0xa9fe0000
         else if sa_family sa = AF_INET6 then
           ntohl (word_of_le (blk 0 4 (sin6_addr sa))) AND 0xffc00000 = 0xfe800000
         else False)"

definition sa_is_loopback :: "sa option \<Rightarrow> bool" where
  "sa_is_loopback sap =
     (case sap of None \<Rightarrow> False
      | Some sa \<Rightarrow>
         if sa_family sa = AF_INET then ntohl (sin_addr sa) AND 0xff000000 = 0x7f000000
         else if sa_family sa = AF_INET6 then sin6_addr sa = replicate 15 0 @ [1]
         else False)"

definition sa_is_multicast :: "sa option \<Rightarrow> bool" where
  "sa_is_multicast sap =
     (case sap of None \<Rightarrow> False
      | Some sa \<Rightarrow>
         if sa_family sa = AF_INET then ntohl (sin_addr sa) AND 0xf0000000 = 0xe0000000
         else if sa_family sa = AF_INET6 then hd (sin6_addr sa) = 0xff
         else False)"

definition sa_is_any :: "sa option \<Rightarrow> bool" where
  "sa_is_any sap =
     (case sap of None \<Rightarrow> False
      | Some sa \<Rightarrow>
         if sa_family sa = AF_INET then ntohl (sin_addr sa) = 0
         else if sa_family sa = AF_INET6 then sin6_addr sa = replicate 16 0
         else False)"

section \<open>What is set is read\<close>

lemma sa_poke_simps [simp]:
  "sa_u (sa_poke off bs sa) = mem_put off bs (sa_u sa)" "sa_len (sa_poke off bs sa) = sa_len sa"
  by (simp_all add: sa_poke_def)

lemma sa_zero_u [simp]: "sa_u sa_zero = replicate 112 0"
  by (simp add: sa_zero_def sizeof_sa_u_def)

lemmas sa_fields = sa_family_def sin_port_def sin_addr_def sin6_addr_def sin6_scope_id_def

lemma sa_set_in_fields [simp]:
  "sa_family (sa_set_in sa a p) = AF_INET" "sin_addr (sa_set_in sa a p) = htonl a"
  "sin_port (sa_set_in sa a p) = htons p" "sa_wf (sa_set_in sa a p)"
  by (simp_all add: sa_fields sa_set_in_def sa_wf_def sizeof_sa_u_def htonl_def htons_def be16_def be32_def)

lemma sa_set_in6_fields [simp]:
  assumes "length a = 16"
  shows "sa_family (sa_set_in6 sa a p) = AF_INET6" "sin6_addr (sa_set_in6 sa a p) = a"
    "sin_port (sa_set_in6 sa a p) = htons p" "sa_wf (sa_set_in6 sa a p)"
  using assms by (simp_all add: sa_fields sa_set_in6_def sa_wf_def sizeof_sa_u_def htons_def be16_def)

lemma sa_set_in_read [simp]:
  "sa_af (Some (sa_set_in sa a p)) = AF_INET" "sa_in (Some (sa_set_in sa a p)) = a"
  "sa_port (Some (sa_set_in sa a p)) = p"
  by (simp_all add: sa_af_def sa_in_def sa_port_def)

lemma sa_set_in6_read [simp]:
  assumes "length a = 16"
  shows "sa_af (Some (sa_set_in6 sa a p)) = AF_INET6" "sa_in6 (sa_set_in6 sa a p) = a"
    "sa_port (Some (sa_set_in6 sa a p)) = p"
  using assms by (simp_all add: sa_af_def sa_in6_def sa_port_def af_defs)

lemma sa_set_port_read:
  assumes "sa_wf sa" "sa_family sa \<in> {AF_INET, AF_INET6}"
  shows "sa_port (Some (sa_set_port sa p)) = p" "sa_in (Some (sa_set_port sa p)) = sa_in (Some sa)"
    "sa_in6 (sa_set_port sa p) = sa_in6 sa" "sa_af (Some (sa_set_port sa p)) = sa_af (Some sa)"
proof -
  have s: "sa_set_port sa p = sa_poke 2 (word_to_le 2 (htons p)) sa" using assms(2) by (auto simp: sa_set_port_def)
  have l: "length (sa_u sa) = 112" using assms(1) by (simp add: sa_wf_def sizeof_sa_u_def)
  have f: "sa_family (sa_set_port sa p) = sa_family sa" by (simp add: s sa_family_def l)
  have "ntohs (sin_port (sa_set_port sa p)) = p" by (simp add: s sin_port_def l)
  then show "sa_port (Some (sa_set_port sa p)) = p" using assms(2) f by (auto simp: sa_port_def)
  show "sa_in (Some (sa_set_port sa p)) = sa_in (Some sa)" "sa_in6 (sa_set_port sa p) = sa_in6 sa"
    "sa_af (Some (sa_set_port sa p)) = sa_af (Some sa)"
    using f by (simp_all add: sa_in_def sa_in6_def sa_af_def, simp_all add: s sin_addr_def sin6_addr_def l)
qed

text \<open>Copying the memory of an address of a known family gives back its fields.\<close>

lemma sa_set_sa_read:
  assumes "sa_wf sa" "sa_family sa \<in> {AF_INET, AF_INET6}"
  shows "fst (sa_set_sa x (sa_u sa)) = 0" "sa_cmp False (Some (snd (sa_set_sa x (sa_u sa)))) (Some sa) SA_ALL"
proof -
  have l: "length (sa_u sa) = 112" using assms(1) by (simp add: sa_wf_def sizeof_sa_u_def)
  have f: "word_of_le (blk 0 2 (sa_u sa)) = sa_family sa" by (simp add: sa_family_def)
  have sl: "blk off n (mem_put 0 (take k (sa_u sa)) (replicate 112 0)) = blk off n (sa_u sa)"
    if "off + n \<le> k" "k \<le> 112" for off n k
    using that l by (simp add: mem_put_def blk_def min_def take_drop)
  let ?r = "snd (sa_set_sa x (sa_u sa))"
  show "fst (sa_set_sa x (sa_u sa)) = 0" using assms(2) by (auto simp: sa_set_sa_def f Let_def)
  have r: "sa_u ?r = mem_put 0 (word_to_le 2 (sa_family sa)) (mem_put 0 (take k (sa_u sa)) (replicate 112 0))"
    if "k = (if sa_family sa = AF_INET then 16 else 28)" for k
    using assms(2) that by (auto simp: sa_set_sa_def f Let_def sizeof_sockaddr_in_def sizeof_sockaddr_in6_def af_defs)
  show "sa_cmp False (Some ?r) (Some sa) SA_ALL"
  proof (cases "sa_family sa = AF_INET")
    case True
    then have "sa_u ?r = mem_put 0 (word_to_le 2 (sa_family sa)) (mem_put 0 (take 16 (sa_u sa)) (replicate 112 0))"
      using r [of 16] by simp
    then show ?thesis using True l by (simp add: sa_cmp_def sa_family_def sin_addr_def sin_port_def sl af_defs)
  next
    case False
    then have "sa_u ?r = mem_put 0 (word_to_le 2 (sa_family sa)) (mem_put 0 (take 28 (sa_u sa)) (replicate 112 0))"
      "sa_family sa = AF_INET6"
      using r [of 28] assms(2) by simp_all
    then show ?thesis using l by (simp add: sa_cmp_def sa_family_def sin6_addr_def sin_port_def sl af_defs)
  qed
qed

section \<open>Properties\<close>

lemma sun_path_cmp: "str_cmp (Some (sun_path l)) (Some (sun_path r)) = 0 \<longleftrightarrow> sun_path l = sun_path r"
proof -
  have "0 \<notin> set (sun_path x)" for x by (auto simp: sun_path_def dest: set_takeWhileD)
  then show ?thesis by (simp add: str_cmp_def strcmp_eq_iff)
qed

text \<open>C27: for every choice of flags \<^verbatim>\<open>sa_cmp\<close> is an equivalence between the addresses of the supported
  families, and \<^verbatim>\<open>sa_hash\<close> respects it: equal addresses are found in the same bucket of a hash
  table.\<close>

theorem sa_cmp_equivalence:
  "(sa_family l \<in> {AF_UNIX, AF_INET, AF_INET6} \<longrightarrow> sa_cmp False (Some l) (Some l) flag) \<and>
   (sa_cmp False (Some l) (Some r) flag \<longrightarrow> sa_cmp False (Some r) (Some l) flag) \<and>
   (sa_cmp False (Some l) (Some r) flag \<longrightarrow> sa_cmp False (Some r) (Some t) flag \<longrightarrow>
      sa_cmp False (Some l) (Some t) flag) \<and>
   (sa_cmp False (Some l) (Some r) flag \<longrightarrow> sa_hash (Some l) flag = sa_hash (Some r) flag)"
proof (intro conjI)
  show "sa_cmp False (Some l) (Some r) flag \<longrightarrow> sa_hash (Some l) flag = sa_hash (Some r) flag"
    by (auto simp: sa_cmp_def sa_hash_def sun_path_cmp split: if_splits)
qed (auto simp: sa_cmp_def sun_path_cmp split: if_splits)

theorem sa_cmp_equivalence_witness:
  "sa_cmp False (Some (sa_set_in sa_zero 1 2)) (Some (sa_set_in sa_zero 1 3)) SA_ADDR \<and>
   \<not> sa_cmp False (Some (sa_set_in sa_zero 1 2)) (Some (sa_set_in sa_zero 1 3)) SA_ALL \<and>
   sa_hash (Some (sa_set_in sa_zero 1 2)) SA_ADDR = sa_hash (Some (sa_set_in sa_zero 1 3)) SA_ADDR"
proof -
  have 1: "sa_cmp False (Some (sa_set_in sa_zero 1 2)) (Some (sa_set_in sa_zero 1 3)) SA_ADDR"
    by (simp add: sa_cmp_def SA_ADDR_def SA_PORT_def af_defs)
  have "htons 2 \<noteq> htons 3"
  proof
    assume "htons 2 = htons 3"
    then have "htons (htons 2) = htons (htons 3)" by simp
    then show False by simp
  qed
  then have 2: "\<not> sa_cmp False (Some (sa_set_in sa_zero 1 2)) (Some (sa_set_in sa_zero 1 3)) SA_ALL"
    by (simp add: sa_cmp_def SA_ADDR_def SA_PORT_def SA_ALL_def af_defs)
  show ?thesis using 1 2 sa_cmp_equivalence [of "sa_set_in sa_zero 1 2" SA_ADDR "sa_set_in sa_zero 1 3"] by blast
qed

end
