(* ===== verification/Layout.thy ===== *)
theory Layout
  imports Mbuf
begin

text \<open>
  Writing into reserved space. Several encoders move the cursor over a header they have not
  written yet, encode what follows it, and come back; for a while the cursor is behind the end of
  the data. \<open>lay mb P X\<close> describes such a buffer: the block begins with \<open>P @ X\<close>, and the
  data ends somewhere in \<open>X\<close>. \<open>lays bs f\<close> is what a writer does to it: it replaces the bytes
  at the cursor by \<open>bs\<close>, succeeds, and moves the end behind them when it was not there.
\<close>

definition lay :: "mbuf \<Rightarrow> bytes \<Rightarrow> bytes \<Rightarrow> bool" where
  "lay mb P X \<longleftrightarrow> mbuf_wf mb \<and> take (length P + length X) (mbuf_bytes mb) = P @ X \<and>
     length P + length X \<le> mb_size mb \<and> length P \<le> mb_end mb \<and> mb_end mb \<le> length P + length X"

lemma layD:
  assumes "lay mb P X"
  shows "mbuf_wf mb" "take (length P + length X) (mbuf_bytes mb) = P @ X" "length P + length X \<le> mb_size mb"
    "length P \<le> mb_end mb" "mb_end mb \<le> length P + length X" "mb_size mb < 2 ^ 32"
    "mb_size mb \<le> length (mbuf_bytes mb)"
  using assms by (auto simp: lay_def mbuf_wf_def MEM_SIZE_MAX_def)

lemma lay_pos: "lay mb P X \<Longrightarrow> p < 2 ^ 64 \<Longrightarrow> lay (mb\<lparr>mb_pos := p\<rparr>) P X"
  by (simp add: lay_def mbuf_wf_def mbuf_bytes_def)

text \<open>The block behind the data can be counted in.\<close>

lemma lay_extend:
  assumes "lay mb P X" "length P + length X + n \<le> mb_size mb"
  obtains J where "length J = n" "lay mb P (X @ J)"
proof
  note d = layD [OF assms(1)]
  let ?J = "take n (drop (length P + length X) (mbuf_bytes mb))"
  show l: "length ?J = n" using d(7) assms(2) by simp
  have "take (length P + length X + n) (mbuf_bytes mb) = (P @ X) @ ?J"
    by (subst take_add) (simp only: d(2))
  then show "lay mb P (X @ ?J)" using d assms(2) l by (simp add: lay_def add.assoc)
qed

lemma lay_start:
  assumes "mbuf_ready mb" "mb_pos mb = mb_end mb"
  shows "lay mb (mbuf_content mb) []" "length (mbuf_content mb) = mb_pos mb"
  using assms by (auto simp: lay_def mbuf_ready_def mbuf_content_def mbuf_wf_def)

text \<open>A buffer whose data ends with the layout, read from the start of it.\<close>

lemma lay_read:
  assumes "lay mb P X" "mb_end mb = length P + length X" "mb_pos mb = length P"
  shows "mbuf_left mb = X" "mbuf_ready mb" "mbuf_content mb = P @ X" "mbuf_get_left mb = length X"
proof -
  note d = layD [OF assms(1)]
  show c: "mbuf_content mb = P @ X" using d(2) assms(2) by (simp add: mbuf_content_def)
  show l: "mbuf_left mb = X" by (simp add: mbuf_left_content c assms(3))
  show "mbuf_ready mb" using d assms by (simp add: mbuf_ready_def)
  show "mbuf_get_left mb = length X" using length_mbuf_left [OF d(1)] l by simp
qed

definition lays :: "bytes \<Rightarrow> (mbuf \<Rightarrow> errno \<times> mbuf) \<Rightarrow> bool" where
  "lays bs f \<longleftrightarrow> (\<forall>mb P A B C. lay mb P (A @ B @ C) \<longrightarrow> mb_pos mb = length P + length A \<longrightarrow>
     length B = length bs \<longrightarrow>
     (\<exists>mb'. f mb = (0, mb') \<and> lay mb' P (A @ bs @ C) \<and> mb_pos mb' = length P + length A + length bs \<and>
        mb_size mb' = mb_size mb \<and>
        (mb_end mb' = max (mb_end mb) (mb_pos mb') \<or> bs = [] \<and> mb_end mb' = mb_end mb)))"

lemma laysD:
  assumes "lays bs f" "lay mb P (A @ B @ C)" "mb_pos mb = length P + length A" "length B = length bs"
  obtains mb' where "f mb = (0, mb')" "lay mb' P (A @ bs @ C)" "mb_pos mb' = length P + length A + length bs"
    "mb_size mb' = mb_size mb" "mb_end mb' = max (mb_end mb) (mb_pos mb') \<or> bs = [] \<and> mb_end mb' = mb_end mb"
  using assms unfolding lays_def by blast

named_theorems lays_intros \<open>writers into reserved space\<close>

lemma lays_write [lays_intros]: "lays bs (\<lambda>mb. mbuf_write_mem al mb (Some bs))"
  unfolding lays_def
proof (intro allI impI)
  fix mb P A B C
  assume l: "lay mb P (A @ B @ C)" and p: "mb_pos mb = length P + length A" and b: "length B = length bs"
  note d = layD [OF l]
  have room: "mb_pos mb + length bs \<le> mb_size mb" using d(3) p b by simp
  then have lt: "mb_pos mb + length bs < 2 ^ 64" using d(6) by simp
  obtain mb' where w: "mbuf_write_mem al mb (Some bs) = (0, mb')" and s: "mb_size mb' = mb_size mb"
  proof -
    have "mb_size mb < 2 ^ 64" using d(6) by simp
    from fitsD [OF fits_write [OF refl] room this] that show thesis .
  qed
  note r = mbuf_write_mem_ok [OF w d(1) lt]
  let ?p = "mb_pos mb" and ?q = "mb_pos mb + length bs" and ?k = "length P + length (A @ B @ C)"
  define m where "m = length C"
  have k: "?k = ?p + (length bs + m)" using p b by (simp add: m_def)
  have "take ?k (mbuf_bytes mb') = take ?p (mbuf_bytes mb') @ take (length bs) (drop ?p (mbuf_bytes mb')) @
      take m (drop ?q (mbuf_bytes mb'))"
    unfolding k by (subst take_add, subst take_add) (simp add: add.commute)
  moreover have "take ?p (mbuf_bytes mb') = P @ A"
  proof -
    have "take ?p (mbuf_bytes mb) = take ?p (take ?k (mbuf_bytes mb))" using p by simp
    also have "\<dots> = P @ A" unfolding d(2) using p by simp
    finally show ?thesis using r(5) [of ?p] room by simp
  qed
  moreover have "take m (drop ?q (mbuf_bytes mb')) = C"
  proof -
    have m: "m = ?k - ?q" using p b by (simp add: m_def)
    have "take m (drop ?q (mbuf_bytes mb)) = drop ?q (take ?k (mbuf_bytes mb))"
      unfolding m by (simp add: drop_take)
    then show ?thesis using r(7) [of ?k] d(2,3) p b m by simp
  qed
  ultimately have t: "take ?k (mbuf_bytes mb') = P @ A @ bs @ C" using r(6) by simp
  have "lay mb' P (A @ bs @ C)" using r(1) t d(3-5) s p b r(3) by (simp add: lay_def)
  then show "\<exists>mb'. mbuf_write_mem al mb (Some bs) = (0, mb') \<and> lay mb' P (A @ bs @ C) \<and>
      mb_pos mb' = length P + length A + length bs \<and> mb_size mb' = mb_size mb \<and>
      (mb_end mb' = max (mb_end mb) (mb_pos mb') \<or> bs = [] \<and> mb_end mb' = mb_end mb)"
    using w s r(2,3) p by auto
qed

lemma lays_nil [lays_intros]: "lays [] (\<lambda>mb. (0, mb))"
  by (simp add: lays_def)

lemma lays_seq [lays_intros]:
  assumes "lays xs f" "lays ys g"
  shows "lays (xs @ ys) (\<lambda>mb. err_or (f mb) g)"
  unfolding lays_def
proof (intro allI impI)
  fix mb P A B C
  assume l: "lay mb P (A @ B @ C)" and p: "mb_pos mb = length P + length A" and b: "length B = length (xs @ ys)"
  let ?B1 = "take (length xs) B" and ?B2 = "drop (length xs) B"
  have l1: "lay mb P (A @ ?B1 @ (?B2 @ C))" using l by (simp add: append_assoc [symmetric] del: append_assoc)
  from laysD [OF assms(1) l1 p] b obtain mb1 where 1: "f mb = (0, mb1)" "lay mb1 P (A @ xs @ ?B2 @ C)"
    "mb_pos mb1 = length P + length A + length xs" "mb_size mb1 = mb_size mb"
    "mb_end mb1 = max (mb_end mb) (mb_pos mb1) \<or> xs = [] \<and> mb_end mb1 = mb_end mb" by auto
  have l2: "lay mb1 P ((A @ xs) @ ?B2 @ C)" "mb_pos mb1 = length P + length (A @ xs)" using 1(2,3) by simp_all
  from laysD [OF assms(2) l2] b obtain mb2 where 2: "g mb1 = (0, mb2)" "lay mb2 P ((A @ xs) @ ys @ C)"
    "mb_pos mb2 = length P + length (A @ xs) + length ys" "mb_size mb2 = mb_size mb1"
    "mb_end mb2 = max (mb_end mb1) (mb_pos mb2) \<or> ys = [] \<and> mb_end mb2 = mb_end mb1" by auto
  have "mb_end mb2 = max (mb_end mb) (mb_pos mb2) \<or> xs @ ys = [] \<and> mb_end mb2 = mb_end mb"
    using 1(3,5) 2(3,5) by auto
  then show "\<exists>mb'. err_or (f mb) g = (0, mb') \<and> lay mb' P (A @ (xs @ ys) @ C) \<and>
      mb_pos mb' = length P + length A + length (xs @ ys) \<and> mb_size mb' = mb_size mb \<and>
      (mb_end mb' = max (mb_end mb) (mb_pos mb') \<or> xs @ ys = [] \<and> mb_end mb' = mb_end mb)"
    using 1(1,4) 2(1-4) by (simp add: err_or_def)
qed

lemma lays_ints [lays_intros]:
  "lays [a] (\<lambda>mb. mbuf_write_u8 al mb a)"
  "lays (be16 b) (\<lambda>mb. mbuf_write_u16 al mb (htons b))"
  "lays (be32 c) (\<lambda>mb. mbuf_write_u32 al mb (htonl c))"
  "lays (be64 d) (\<lambda>mb. mbuf_write_u64 al mb (sys_htonll d))"
  "lays s (\<lambda>mb. mbuf_write_str al mb (Some s))"
  using lays_write [of "[a]"] lays_write [of "be16 b"] lays_write [of "be32 c"] lays_write [of "be64 d"]
    lays_write [of s]
  by (simp_all add: mbuf_write_u8_def mbuf_write_u16_def mbuf_write_u32_def mbuf_write_u64_def mbuf_write_str_def)

lemma lays_fold [lays_intros]:
  assumes "lays bs f0" "\<And>x. x \<in> set xs \<Longrightarrow> lays (img x) (f x)"
  shows "lays (bs @ concat (map img xs)) (\<lambda>mb. foldl (\<lambda>r x. err_or r (f x)) (f0 mb) xs)"
  using assms
proof (induction xs arbitrary: bs f0)
  case (Cons x xs)
  have "lays (bs @ img x) (\<lambda>mb. err_or (f0 mb) (f x))" using Cons.prems by (simp add: lays_seq)
  from Cons.IH [OF this] Cons.prems(2) show ?case by simp
qed simp

end
