(* ===== verification/Stun.thy ===== *)
theory Stun
  imports Codec Sa Crc32 Layout
begin

text \<open>
  STUN messages: \<^verbatim>\<open>hdr.c\<close>, \<^verbatim>\<open>addr.c\<close>, \<^verbatim>\<open>attr.c\<close> and \<^verbatim>\<open>msg.c\<close> of \<^verbatim>\<open>src/src/stun\<close>.

  The value of an attribute is a datatype with one constructor for each kind of member of the
  union in \<^verbatim>\<open>struct stun_attr\<close>. The encoder is handed a \<^verbatim>\<open>void *\<close> and reads the member that the attribute type
  calls for; so does the model, through the selectors of the datatype, which are unspecified on the other
  constructors. \<^verbatim>\<open>HMAC-SHA1\<close> is a parameter \<open>hm\<close>, a function of the key and the data.
\<close>

section \<open>Header\<close>

definition STUN_HEADER_SIZE :: nat where "STUN_HEADER_SIZE = 20"
definition STUN_TID_SIZE :: nat where "STUN_TID_SIZE = 12"
definition STUN_MAGIC_COOKIE :: u32 where "STUN_MAGIC_COOKIE = 0x2112a442"
definition MI_SIZE :: nat where "MI_SIZE = 24"
definition FP_SIZE :: nat where "FP_SIZE = 8"

lemmas stun_sizes = STUN_HEADER_SIZE_def STUN_TID_SIZE_def MI_SIZE_def FP_SIZE_def

record stun_hdr =
  sh_type :: u16
  sh_len :: u16
  sh_cookie :: u32
  sh_tid :: bytes

text \<open>The macros compute in \<^verbatim>\<open>int\<close>; the result of \<open>STUN_TYPE\<close> is stored in 16 bits.\<close>

definition STUN_TYPE :: "u16 \<Rightarrow> u8 \<Rightarrow> u16" where
  "STUN_TYPE meth cls = ucast
     (push_bit 2 ((ucast meth :: u32) AND 0x0f80) OR
      push_bit 1 ((ucast meth :: u32) AND 0x0070) OR
      push_bit 0 ((ucast meth :: u32) AND 0x000f) OR
      push_bit 7 ((ucast cls :: u32) AND 0x2) OR
      push_bit 4 ((ucast cls :: u32) AND 0x1))"

definition STUN_CLASS :: "u16 \<Rightarrow> u16" where
  "STUN_CLASS type = (drop_bit 7 type OR drop_bit 4 type) AND 0x3"

definition STUN_METHOD :: "u16 \<Rightarrow> u16" where
  "STUN_METHOD type = drop_bit 2 (type AND 0x3e00) OR drop_bit 1 (type AND 0x00e0) OR (type AND 0x000f)"

definition stun_hdr_encode :: "malloc_env \<Rightarrow> mbuf \<Rightarrow> stun_hdr \<Rightarrow> errno \<times> mbuf" where
  "stun_hdr_encode al mb hdr =
     err_or (err_or (err_or (mbuf_write_u16 al mb (htons (sh_type hdr AND 0x3fff)))
       (\<lambda>mb. mbuf_write_u16 al mb (htons (sh_len hdr))))
       (\<lambda>mb. mbuf_write_u32 al mb (htonl (sh_cookie hdr))))
       (\<lambda>mb. mbuf_write_mem al mb (Some (take STUN_TID_SIZE (sh_tid hdr))))"

definition stun_hdr_decode :: "stun_hdr dec" where
  "stun_hdr_decode =
     d_need STUN_HEADER_SIZE
       (d_bind d_u16 (\<lambda>type. d_check (type AND 0xc000 = 0) EBADMSG
       (d_bind d_u16 (\<lambda>len. d_check (len AND 0x3 = 0) EBADMSG
       (d_bind d_u32 (\<lambda>cookie.
        d_bind (d_mem STUN_TID_SIZE) (\<lambda>tid.
        d_need (unat len)
          (d_ret \<lparr>sh_type = type, sh_len = len, sh_cookie = cookie, sh_tid = tid\<rparr>))))))))"

section \<open>Addresses\<close>

definition in6_xor_tid :: "bytes \<Rightarrow> bytes \<Rightarrow> bytes" where
  "in6_xor_tid in6 tid =
     map2 (XOR) in6 ([0x21, 0x12, 0xa4, 0x42] @ take STUN_TID_SIZE tid)"

definition STUN_AF_IPv4 :: u8 where "STUN_AF_IPv4 = 1"
definition STUN_AF_IPv6 :: u8 where "STUN_AF_IPv6 = 2"

definition xor_port :: "bytes option \<Rightarrow> u16 \<Rightarrow> u16" where
  "xor_port tid port = (if tid \<noteq> None then port XOR ucast (drop_bit 16 STUN_MAGIC_COOKIE) else port)"

definition xor_addr4 :: "bytes option \<Rightarrow> u32 \<Rightarrow> u32" where
  "xor_addr4 tid addr4 = (if tid \<noteq> None then addr4 XOR STUN_MAGIC_COOKIE else addr4)"

definition xor_addr6 :: "bytes option \<Rightarrow> bytes \<Rightarrow> bytes" where
  "xor_addr6 tid addr6 = (case tid of Some t \<Rightarrow> in6_xor_tid addr6 t | None \<Rightarrow> addr6)"

definition stun_addr_encode :: "malloc_env \<Rightarrow> mbuf \<Rightarrow> sa \<Rightarrow> bytes option \<Rightarrow> errno \<times> mbuf" where
  "stun_addr_encode al mb addr tid =
     (let port = xor_port tid (sa_port (Some addr)) in
      if sa_af (Some addr) = AF_INET then
        err_or (err_or (err_or (mbuf_write_u8 al mb 0)
          (\<lambda>mb. mbuf_write_u8 al mb STUN_AF_IPv4))
          (\<lambda>mb. mbuf_write_u16 al mb (htons port)))
          (\<lambda>mb. mbuf_write_u32 al mb (htonl (xor_addr4 tid (sa_in (Some addr)))))
      else if sa_af (Some addr) = AF_INET6 then
        err_or (err_or (err_or (mbuf_write_u8 al mb 0)
          (\<lambda>mb. mbuf_write_u8 al mb STUN_AF_IPv6))
          (\<lambda>mb. mbuf_write_u16 al mb (htons port)))
          (\<lambda>mb. mbuf_write_mem al mb (Some (xor_addr6 tid (sa_in6 addr))))
      else (EAFNOSUPPORT, mb))"

definition stun_addr_decode :: "bytes option \<Rightarrow> sa dec" where
  "stun_addr_decode tid =
     d_need 4
       (d_bind d_u8 (\<lambda>_.
        d_bind d_u8 (\<lambda>family.
        d_bind d_u16 (\<lambda>port.
          if family = STUN_AF_IPv4 then
            d_need 4 (d_bind d_u32 (\<lambda>addr4. d_ret (sa_set_in sa_zero (xor_addr4 tid addr4) (xor_port tid port))))
          else if family = STUN_AF_IPv6 then
            d_need 16 (d_bind (d_mem 16) (\<lambda>addr6. d_ret (sa_set_in6 sa_zero (xor_addr6 tid addr6) (xor_port tid port))))
          else d_err EAFNOSUPPORT))))"

section \<open>Attributes\<close>

abbreviation "STUN_ATTR_MAPPED_ADDR \<equiv> 0x0001 :: u16"
abbreviation "STUN_ATTR_CHANGE_REQ \<equiv> 0x0003 :: u16"
abbreviation "STUN_ATTR_USERNAME \<equiv> 0x0006 :: u16"
abbreviation "STUN_ATTR_MSG_INTEGRITY \<equiv> 0x0008 :: u16"
abbreviation "STUN_ATTR_ERR_CODE \<equiv> 0x0009 :: u16"
abbreviation "STUN_ATTR_UNKNOWN_ATTR \<equiv> 0x000a :: u16"
abbreviation "STUN_ATTR_CHANNEL_NUMBER \<equiv> 0x000c :: u16"
abbreviation "STUN_ATTR_LIFETIME \<equiv> 0x000d :: u16"
abbreviation "STUN_ATTR_XOR_PEER_ADDR \<equiv> 0x0012 :: u16"
abbreviation "STUN_ATTR_DATA \<equiv> 0x0013 :: u16"
abbreviation "STUN_ATTR_REALM \<equiv> 0x0014 :: u16"
abbreviation "STUN_ATTR_NONCE \<equiv> 0x0015 :: u16"
abbreviation "STUN_ATTR_XOR_RELAY_ADDR \<equiv> 0x0016 :: u16"
abbreviation "STUN_ATTR_REQ_ADDR_FAMILY \<equiv> 0x0017 :: u16"
abbreviation "STUN_ATTR_EVEN_PORT \<equiv> 0x0018 :: u16"
abbreviation "STUN_ATTR_REQ_TRANSPORT \<equiv> 0x0019 :: u16"
abbreviation "STUN_ATTR_DONT_FRAGMENT \<equiv> 0x001a :: u16"
abbreviation "STUN_ATTR_XOR_MAPPED_ADDR \<equiv> 0x0020 :: u16"
abbreviation "STUN_ATTR_RSV_TOKEN \<equiv> 0x0022 :: u16"
abbreviation "STUN_ATTR_PRIORITY \<equiv> 0x0024 :: u16"
abbreviation "STUN_ATTR_USE_CAND \<equiv> 0x0025 :: u16"
abbreviation "STUN_ATTR_PADDING \<equiv> 0x0026 :: u16"
abbreviation "STUN_ATTR_RESP_PORT \<equiv> 0x0027 :: u16"
abbreviation "STUN_ATTR_SOFTWARE \<equiv> 0x8022 :: u16"
abbreviation "STUN_ATTR_ALT_SERVER \<equiv> 0x8023 :: u16"
abbreviation "STUN_ATTR_FINGERPRINT \<equiv> 0x8028 :: u16"
abbreviation "STUN_ATTR_CONTROLLED \<equiv> 0x8029 :: u16"
abbreviation "STUN_ATTR_CONTROLLING \<equiv> 0x802a :: u16"
abbreviation "STUN_ATTR_RESP_ORIGIN \<equiv> 0x802b :: u16"
abbreviation "STUN_ATTR_OTHER_ADDR \<equiv> 0x802c :: u16"

text \<open>The groups of labels that the switch statements of the encoder and the decoder share.\<close>

datatype attr_kind =
  K_addr | K_xor_addr | K_change_req | K_str | K_msg_integrity | K_err_code | K_unknown_attr |
  K_u16 | K_u32 | K_data | K_u8 | K_even_port | K_none | K_u64 | K_default

definition stun_kind :: "u16 \<Rightarrow> attr_kind" where
  "stun_kind type =
     (if type \<in> {STUN_ATTR_MAPPED_ADDR, STUN_ATTR_ALT_SERVER, STUN_ATTR_RESP_ORIGIN, STUN_ATTR_OTHER_ADDR}
        then K_addr
      else if type \<in> {STUN_ATTR_XOR_PEER_ADDR, STUN_ATTR_XOR_RELAY_ADDR, STUN_ATTR_XOR_MAPPED_ADDR}
        then K_xor_addr
      else if type = STUN_ATTR_CHANGE_REQ then K_change_req
      else if type \<in> {STUN_ATTR_USERNAME, STUN_ATTR_REALM, STUN_ATTR_NONCE, STUN_ATTR_SOFTWARE} then K_str
      else if type = STUN_ATTR_MSG_INTEGRITY then K_msg_integrity
      else if type = STUN_ATTR_ERR_CODE then K_err_code
      else if type = STUN_ATTR_UNKNOWN_ATTR then K_unknown_attr
      else if type \<in> {STUN_ATTR_CHANNEL_NUMBER, STUN_ATTR_RESP_PORT} then K_u16
      else if type \<in> {STUN_ATTR_LIFETIME, STUN_ATTR_PRIORITY, STUN_ATTR_FINGERPRINT} then K_u32
      else if type \<in> {STUN_ATTR_DATA, STUN_ATTR_PADDING} then K_data
      else if type \<in> {STUN_ATTR_REQ_ADDR_FAMILY, STUN_ATTR_REQ_TRANSPORT} then K_u8
      else if type = STUN_ATTR_EVEN_PORT then K_even_port
      else if type \<in> {STUN_ATTR_DONT_FRAGMENT, STUN_ATTR_USE_CAND} then K_none
      else if type \<in> {STUN_ATTR_RSV_TOKEN, STUN_ATTR_CONTROLLED, STUN_ATTR_CONTROLLING} then K_u64
      else K_default)"

definition UA_MAX :: nat where
  "UA_MAX = 8"

record stun_unknown_attr =
  typev :: "u16 list"
  typec :: nat

record stun_errcode =
  ec_code :: u16
  ec_reason :: "bytes option"

text \<open>\<open>V_mb None\<close> is the buffer that is being encoded into, as the value of a \<^verbatim>\<open>DATA\<close> attribute.\<close>

datatype stun_val =
    V_sa (v_sa: sa)
  | is_V_change_req: V_change_req (v_ip: bool) (v_port: bool)
  | V_str (v_str: bytes)
  | V_msg_integrity (v_msg_integrity: bytes)
  | V_err_code (v_err_code: stun_errcode)
  | V_unknown_attr (v_unknown_attr: stun_unknown_attr)
  | is_V_u16: V_u16 (v_u16: u16)
  | is_V_u32: V_u32 (v_u32: u32)
  | is_V_u64: V_u64 (v_u64: u64)
  | is_V_u8: V_u8 (v_u8: u8)
  | V_mb (v_mb: "mbuf option")
  | is_V_even_port: V_even_port (v_even_port: bool)
  | V_none

record stun_attr =
  at_type :: u16
  at_v :: stun_val

definition sizeof_stun_attr :: nat where
  "sizeof_stun_attr = 160"

definition stun_value_encode ::
  "malloc_env \<Rightarrow> mbuf \<Rightarrow> u16 \<Rightarrow> stun_val \<Rightarrow> bytes option \<Rightarrow> errno \<times> mbuf" where
  "stun_value_encode al mb type v tid =
     (case stun_kind type of
        K_addr \<Rightarrow> stun_addr_encode al mb (v_sa v) None
      | K_xor_addr \<Rightarrow> stun_addr_encode al mb (v_sa v) tid
      | K_change_req \<Rightarrow>
          mbuf_write_u32 al mb (htonl (push_bit 2 (of_bool (v_ip v)) OR push_bit 1 (of_bool (v_port v))))
      | K_str \<Rightarrow> mbuf_write_str al mb (Some (v_str v))
      | K_msg_integrity \<Rightarrow> mbuf_write_mem al mb (Some (take 20 (v_msg_integrity v)))
      | K_err_code \<Rightarrow>
          err_or (err_or (err_or (mbuf_write_u16 al mb 0)
            (\<lambda>mb. mbuf_write_u8 al mb (word_of_nat (unat (ec_code (v_err_code v)) div 100))))
            (\<lambda>mb. mbuf_write_u8 al mb (word_of_nat (unat (ec_code (v_err_code v)) mod 100))))
            (\<lambda>mb. mbuf_write_str al mb (ec_reason (v_err_code v)))
      | K_unknown_attr \<Rightarrow>
          foldl (\<lambda>r i. err_or r (\<lambda>mb. mbuf_write_u16 al mb (htons (typev (v_unknown_attr v) ! i))))
            (0, mb) [0..<typec (v_unknown_attr v)]
      | K_u16 \<Rightarrow> err_or (mbuf_write_u16 al mb (htons (v_u16 v))) (\<lambda>mb. mbuf_write_u16 al mb 0)
      | K_u32 \<Rightarrow> mbuf_write_u32 al mb (htonl (v_u32 v))
      | K_data \<Rightarrow>
          (case v_mb v of None \<Rightarrow> (0, mb\<lparr>mb_pos := mb_end mb\<rparr>)
           | Some mbd \<Rightarrow> mbuf_write_mem al mb (Some (mbuf_left mbd)))
      | K_u8 \<Rightarrow> err_or (err_or (mbuf_write_u8 al mb (v_u8 v)) (\<lambda>mb. mbuf_write_u8 al mb 0))
                 (\<lambda>mb. mbuf_write_u16 al mb 0)
      | K_even_port \<Rightarrow> mbuf_write_u8 al mb (push_bit 7 (of_bool (v_even_port v)))
      | K_none \<Rightarrow> (0, mb)
      | K_u64 \<Rightarrow> mbuf_write_u64 al mb (sys_htonll (v_u64 v))
      | K_default \<Rightarrow> (EINVAL, mb))"

partial_function (option) stun_pad ::
  "malloc_env \<Rightarrow> nat \<Rightarrow> u8 \<Rightarrow> errno \<times> mbuf \<Rightarrow> (errno \<times> mbuf) option" where
  "stun_pad al start padding r =
     (if sz_sub (mb_pos (snd r)) start mod 4 \<noteq> 0
      then stun_pad al start padding (err_or r (\<lambda>mb. mbuf_write_u8 al mb padding))
      else Some r)"

definition stun_attr_encode ::
  "malloc_env \<Rightarrow> mbuf \<Rightarrow> u16 \<Rightarrow> stun_val \<Rightarrow> bytes option \<Rightarrow> u8 \<Rightarrow> (errno \<times> mbuf) option" where
  "stun_attr_encode al mb type v tid padding =
     (let start = szt (mb_pos mb + 4) in
      case stun_value_encode al (mb\<lparr>mb_pos := start\<rparr>) type v tid of (err, mb1) \<Rightarrow>
        let len = sz_sub (mb_pos mb1) start in
        case err_or (err_or (err, mb1\<lparr>mb_pos := sz_sub start 4\<rparr>)
               (\<lambda>mb. mbuf_write_u16 al mb (htons type)))
               (\<lambda>mb. mbuf_write_u16 al mb (htons (word_of_nat len))) of (err, mb2) \<Rightarrow>
        stun_pad al start padding (err, mb2\<lparr>mb_pos := szt (mb_pos mb2 + len)\<rparr>))"

definition str_decode :: "malloc_env \<Rightarrow> nat \<Rightarrow> bytes dec" where
  "str_decode al len = d_need len (d_bind (d_strdup al len) (\<lambda>s. d_ret (takeWhile (\<lambda>c. c \<noteq> 0) s)))"

definition ua_add :: "stun_unknown_attr option \<Rightarrow> u16 \<Rightarrow> stun_unknown_attr option" where
  "ua_add uap type =
     (case uap of None \<Rightarrow> None
      | Some ua \<Rightarrow>
         if typec ua < UA_MAX then Some (ua\<lparr>typev := (typev ua)[typec ua := type], typec := typec ua + 1\<rparr>)
         else Some ua)"

definition stun_value_decode ::
  "malloc_env \<Rightarrow> bytes \<Rightarrow> stun_unknown_attr option \<Rightarrow> u16 \<Rightarrow> nat \<Rightarrow> (stun_val \<times> stun_unknown_attr option) dec" where
  "stun_value_decode al tid ua type len =
     (case stun_kind type of
        K_addr \<Rightarrow> d_bind (stun_addr_decode None) (\<lambda>sa. d_ret (V_sa sa, ua))
      | K_xor_addr \<Rightarrow> d_bind (stun_addr_decode (Some tid)) (\<lambda>sa. d_ret (V_sa sa, ua))
      | K_change_req \<Rightarrow> d_check (len = 4) EBADMSG
          (d_bind d_u32 (\<lambda>n. d_ret (V_change_req (drop_bit 2 n AND 1 = 1) (drop_bit 1 n AND 1 = 1), ua)))
      | K_str \<Rightarrow> d_bind (str_decode al len) (\<lambda>s. d_ret (V_str s, ua))
      | K_msg_integrity \<Rightarrow> d_check (len = 20) EBADMSG
          (d_bind (d_mem 20) (\<lambda>m. d_ret (V_msg_integrity m, ua)))
      | K_err_code \<Rightarrow> d_check (4 \<le> len) EBADMSG
          (d_bind (d_advance 2) (\<lambda>_.
           d_bind d_u8 (\<lambda>c. d_bind d_u8 (\<lambda>n.
           d_bind (str_decode al (len - 4)) (\<lambda>s.
             d_ret (V_err_code \<lparr>ec_code = ucast (c AND 0x7) * 100 + ucast n, ec_reason = Some s\<rparr>, ua))))))
      | K_unknown_attr \<Rightarrow>
          d_bind (d_rep (len div 2) d_u16) (\<lambda>ts.
            d_ret (V_unknown_attr \<lparr>typev = take UA_MAX (ts @ replicate UA_MAX 0), typec = min (len div 2) UA_MAX\<rparr>, ua))
      | K_u16 \<Rightarrow> d_check (2 \<le> len) EBADMSG (d_bind d_u16 (\<lambda>n. d_ret (V_u16 n, ua)))
      | K_u32 \<Rightarrow> d_check (len = 4) EBADMSG (d_bind d_u32 (\<lambda>n. d_ret (V_u32 n, ua)))
      | K_data \<Rightarrow>
          d_bind d_get (\<lambda>mb. d_bind (d_advance len) (\<lambda>_.
            d_ret (V_mb (Some (mb\<lparr>mb_end := szt (mb_pos mb + len)\<rparr>)), ua)))
      | K_u8 \<Rightarrow> d_check (1 \<le> len) EBADMSG (d_bind d_u8 (\<lambda>n. d_ret (V_u8 n, ua)))
      | K_even_port \<Rightarrow> d_check (1 \<le> len) EBADMSG
          (d_bind d_u8 (\<lambda>n. d_ret (V_even_port (drop_bit 7 n AND 1 = 1), ua)))
      | K_none \<Rightarrow> d_check (len = 0) EBADMSG (d_ret (V_none, ua))
      | K_u64 \<Rightarrow> d_check (len = 8) EBADMSG (d_bind d_u64 (\<lambda>n. d_ret (V_u64 n, ua)))
      | K_default \<Rightarrow>
          d_bind (d_advance len) (\<lambda>_. d_ret (V_none, if 0x8000 \<le> type then ua else ua_add ua type)))"

text \<open>The padding behind a value that was read: at most three bytes, and only those that are there.\<close>

lemma sz_sub_mod4: "sz_sub a b mod 4 = (a + (2 ^ 64 - szt b)) mod 4"
  unfolding sz_sub_def szt_def by (rule mod_mod_cancel) (simp add: dvd_def)

lemma sz_sub_Suc_mod4: "sz_sub (szt (a + 1)) b mod 4 = (sz_sub a b + 1) mod 4"
proof -
  let ?c = "2 ^ 64 - szt b"
  have "szt (a + 1) mod 4 = (a + 1) mod 4" unfolding szt_def by (rule mod_mod_cancel) (simp add: dvd_def)
  then have "(szt (a + 1) + ?c) mod 4 = (a + 1 + ?c) mod 4" by (metis mod_add_left_eq)
  also have "\<dots> = (a + ?c + 1) mod 4" by (simp only: add.assoc add.commute)
  also have "\<dots> = (sz_sub a b + 1) mod 4" using sz_sub_mod4 [of a b] by (metis mod_add_left_eq)
  finally show ?thesis by (simp only: sz_sub_mod4)
qed

function stun_skip_pad :: "nat \<Rightarrow> mbuf \<Rightarrow> mbuf" where
  "stun_skip_pad start mb =
     (if sz_sub (mb_pos mb) start mod 4 \<noteq> 0 \<and> mbuf_get_left mb \<noteq> 0
      then stun_skip_pad start (mb\<lparr>mb_pos := szt (mb_pos mb + 1)\<rparr>) else mb)"
  by pat_completeness auto

termination
proof (relation "measure (\<lambda>(start, mb). (4 - sz_sub (mb_pos mb) start mod 4) mod 4)", simp)
  fix start mb assume a: "sz_sub (mb_pos mb) start mod 4 \<noteq> 0 \<and> mbuf_get_left mb \<noteq> 0"
  define k where "k = sz_sub (mb_pos mb) start mod 4"
  have "sz_sub (szt (mb_pos mb + 1)) start mod 4 = (k + 1) mod 4"
    unfolding k_def sz_sub_Suc_mod4 by (simp add: mod_Suc_eq)
  moreover have "k \<in> {1, 2, 3}" using a by (auto simp: k_def)
  ultimately have "(4 - sz_sub (szt (mb_pos mb + 1)) start mod 4) mod 4 < (4 - k) mod 4" by auto
  then show "((start, mb\<lparr>mb_pos := szt (mb_pos mb + 1)\<rparr>), (start, mb))
      \<in> measure (\<lambda>(start, mb). (4 - sz_sub (mb_pos mb) start mod 4) mod 4)"
    by (simp add: k_def)
qed

declare stun_skip_pad.simps [simp del]

definition d_skip_pad :: "nat \<Rightarrow> unit dec" where
  "d_skip_pad start mb = (Inr (), stun_skip_pad start mb)"

definition stun_attr_decode ::
  "malloc_env \<Rightarrow> bytes \<Rightarrow> stun_unknown_attr option \<Rightarrow> (stun_attr \<times> stun_unknown_attr option) dec" where
  "stun_attr_decode al tid ua =
     d_need 4 (d_alloc al sizeof_stun_attr
       (d_bind d_u16 (\<lambda>type.
        d_bind d_u16 (\<lambda>len.
        d_need (unat len)
       (d_bind d_get (\<lambda>mb.
        d_bind (stun_value_decode al tid ua type (unat len)) (\<lambda>(v, ua).
        d_bind (d_skip_pad (mb_pos mb)) (\<lambda>_.
          d_ret (\<lparr>at_type = type, at_v = v\<rparr>, ua)))))))))"

section \<open>Messages\<close>

record stun_msg =
  sm_hdr :: stun_hdr
  sm_attrl :: "stun_attr list"
  sm_mb :: mbuf
  sm_start :: nat

definition sizeof_stun_msg :: nat where
  "sizeof_stun_msg = 56"

definition fingerprint :: "bytes \<Rightarrow> u32" where
  "fingerprint buf = re_crc32 0 buf (word_of_nat (length buf)) XOR 0x5354554e"

partial_function (option) stun_attrs_decode ::
  "malloc_env \<Rightarrow> bytes \<Rightarrow> nat \<Rightarrow> stun_unknown_attr option \<Rightarrow> stun_attr list \<Rightarrow> mbuf \<Rightarrow>
     ((errno + stun_attr list) \<times> stun_unknown_attr option \<times> mbuf) option" where
  "stun_attrs_decode al tid extra ua attrl mb =
     (if 4 \<le> sz_sub (mbuf_get_left mb) extra then
        (case stun_attr_decode al tid ua mb of (r, mb') \<Rightarrow>
           (case r of
              Inl err \<Rightarrow> Some (Inl err, ua, mb')
            | Inr (attr, ua') \<Rightarrow> stun_attrs_decode al tid extra ua' (attrl @ [attr]) mb'))
      else Some (Inr attrl, ua, mb))"

definition stun_msg_decode ::
  "malloc_env \<Rightarrow> mbuf \<Rightarrow> stun_unknown_attr option \<Rightarrow>
     ((errno + stun_msg) \<times> stun_unknown_attr option \<times> mbuf) option" where
  "stun_msg_decode al mb ua =
     (let start = mb_pos mb in
      case stun_hdr_decode mb of
        (Inl err, mb1) \<Rightarrow> Some (Inl err, ua, mb1\<lparr>mb_pos := start\<rparr>)
      | (Inr hdr, mb1) \<Rightarrow>
         if mem_zalloc al sizeof_stun_msg = None then Some (Inl ENOMEM, ua, mb1\<lparr>mb_pos := start\<rparr>)
         else
           let extra = sz_sub (mbuf_get_left mb1) (unat (sh_len hdr)) in
           (case stun_attrs_decode al (sh_tid hdr) extra (map_option (\<lambda>u. u\<lparr>typec := 0\<rparr>) ua) [] mb1 of
              None \<Rightarrow> None
            | Some (Inl err, ua', mb2) \<Rightarrow> Some (Inl err, ua', mb2\<lparr>mb_pos := start\<rparr>)
            | Some (Inr attrl, ua', mb2) \<Rightarrow>
                Some (Inr \<lparr>sm_hdr = hdr, sm_attrl = attrl, sm_mb = mb2\<lparr>mb_pos := start\<rparr>, sm_start = start\<rparr>,
                      ua', mb2\<lparr>mb_pos := start\<rparr>)))"

definition stun_msg_type :: "stun_msg option \<Rightarrow> u16" where
  "stun_msg_type msgp = (case msgp of Some msg \<Rightarrow> sh_type (sm_hdr msg) | None \<Rightarrow> 0)"

definition stun_msg_class :: "stun_msg option \<Rightarrow> u16" where
  "stun_msg_class msgp = STUN_CLASS (stun_msg_type msgp)"

definition stun_msg_method :: "stun_msg option \<Rightarrow> u16" where
  "stun_msg_method msgp = STUN_METHOD (stun_msg_type msgp)"

definition stun_msg_tid :: "stun_msg option \<Rightarrow> bytes option" where
  "stun_msg_tid msgp = (case msgp of Some msg \<Rightarrow> Some (sh_tid (sm_hdr msg)) | None \<Rightarrow> None)"

definition stun_msg_mcookie :: "stun_msg option \<Rightarrow> bool" where
  "stun_msg_mcookie msgp = (case msgp of Some msg \<Rightarrow> STUN_MAGIC_COOKIE = sh_cookie (sm_hdr msg) | None \<Rightarrow> False)"

fun stun_attrl_find :: "(stun_attr \<Rightarrow> bool) \<Rightarrow> stun_attr list \<Rightarrow> stun_attr option" where
  "stun_attrl_find h [] = None"
| "stun_attrl_find h (attr # le) = (if h attr then Some attr else stun_attrl_find h le)"

definition stun_msg_attr :: "stun_msg option \<Rightarrow> u16 \<Rightarrow> stun_attr option" where
  "stun_msg_attr msgp type =
     (case msgp of Some msg \<Rightarrow> stun_attrl_find (\<lambda>attr. at_type attr = type) (sm_attrl msg) | None \<Rightarrow> None)"

text \<open>The handler threads its argument.\<close>

fun stun_attrl_apply :: "(stun_attr \<Rightarrow> 's \<Rightarrow> bool \<times> 's) option \<Rightarrow> 's \<Rightarrow> stun_attr list \<Rightarrow> stun_attr option \<times> 's" where
  "stun_attrl_apply h s [] = (None, s)"
| "stun_attrl_apply h s (attr # le) =
     (case h of None \<Rightarrow> stun_attrl_apply h s le
      | Some f \<Rightarrow> (case f attr s of (b, s') \<Rightarrow> if b then (Some attr, s') else stun_attrl_apply h s' le))"

definition stun_msg_attr_apply ::
  "stun_msg option \<Rightarrow> (stun_attr \<Rightarrow> 's \<Rightarrow> bool \<times> 's) option \<Rightarrow> 's \<Rightarrow> stun_attr option \<times> 's" where
  "stun_msg_attr_apply msgp h s =
     (case msgp of Some msg \<Rightarrow> stun_attrl_apply h s (sm_attrl msg) | None \<Rightarrow> (None, s))"

text \<open>\<open>err_or\<close> for an encoder that may not return.\<close>

definition err_or_opt :: "errno \<times> 's \<Rightarrow> ('s \<Rightarrow> (errno \<times> 's) option) \<Rightarrow> (errno \<times> 's) option" where
  "err_or_opt r f = (case f (snd r) of None \<Rightarrow> None | Some (e, s) \<Rightarrow> Some (fst r OR e, s))"

fun stun_attrs_encode ::
  "malloc_env \<Rightarrow> bytes \<Rightarrow> u8 \<Rightarrow> (u16 \<times> stun_val option) list \<Rightarrow> errno \<times> mbuf \<Rightarrow> (errno \<times> mbuf) option" where
  "stun_attrs_encode al tid padding [] r = Some r"
| "stun_attrs_encode al tid padding ((type, v) # ap) r =
     (case v of
        None \<Rightarrow> stun_attrs_encode al tid padding ap r
      | Some v' \<Rightarrow>
         (case err_or_opt r (\<lambda>mb. stun_attr_encode al mb type v' (Some tid) padding) of
            None \<Rightarrow> None
          | Some r' \<Rightarrow> stun_attrs_encode al tid padding ap r'))"

text \<open>\<open>mb->pos += d\<close> for an \<^verbatim>\<open>int\<close> that may be negative.\<close>

definition mb_move :: "int \<Rightarrow> mbuf \<Rightarrow> mbuf" where
  "mb_move d mb = mb\<lparr>mb_pos := nat ((int (mb_pos mb) + d) mod 2 ^ 64)\<rparr>"

definition stun_add_mi ::
  "(bytes \<Rightarrow> bytes \<Rightarrow> bytes) \<Rightarrow> malloc_env \<Rightarrow> nat \<Rightarrow> u16 \<Rightarrow> bytes \<Rightarrow> u8 \<Rightarrow> errno \<times> mbuf \<Rightarrow> (errno \<times> mbuf) option" where
  "stun_add_mi hm al start hlen key padding r =
     (let mb0 = (snd r)\<lparr>mb_pos := start\<rparr>;
          mi = hm key (mbuf_left mb0) in
      err_or_opt (fst r, mb_move (int STUN_HEADER_SIZE + uint hlen - int MI_SIZE) mb0)
        (\<lambda>mb. stun_attr_encode al mb STUN_ATTR_MSG_INTEGRITY (V_msg_integrity mi) None padding))"

definition stun_add_fp :: "malloc_env \<Rightarrow> nat \<Rightarrow> stun_hdr \<Rightarrow> u8 \<Rightarrow> errno \<times> mbuf \<Rightarrow> (errno \<times> mbuf) option" where
  "stun_add_fp al start hdr padding r =
     (let hlen = word_of_nat (sz_sub (sz_sub (mb_pos (snd r)) start) STUN_HEADER_SIZE + FP_SIZE) :: u16 in
      case err_or (fst r, (snd r)\<lparr>mb_pos := start\<rparr>)
             (\<lambda>mb. stun_hdr_encode al mb (hdr\<lparr>sh_len := hlen\<rparr>)) of (err, mb1) \<Rightarrow>
      let mb2 = mb1\<lparr>mb_pos := start\<rparr>;
          fprnt = fingerprint (mbuf_left mb2) in
      err_or_opt (err, mb_move (int STUN_HEADER_SIZE + uint hlen - int FP_SIZE) mb2)
        (\<lambda>mb. stun_attr_encode al mb STUN_ATTR_FINGERPRINT (V_u32 fprnt) None padding))"

definition stun_msg_vencode ::
  "(bytes \<Rightarrow> bytes \<Rightarrow> bytes) \<Rightarrow> malloc_env \<Rightarrow> mbuf \<Rightarrow> u16 \<Rightarrow> u8 \<Rightarrow> bytes \<Rightarrow> stun_errcode option \<Rightarrow>
     bytes option \<Rightarrow> bool \<Rightarrow> u8 \<Rightarrow> (u16 \<times> stun_val option) list \<Rightarrow> (errno \<times> mbuf) option" where
  "stun_msg_vencode hm al mb meth cls tid ec key fp padding ap =
     (let start = mb_pos mb;
          mb0 = mb\<lparr>mb_pos := szt (start + STUN_HEADER_SIZE)\<rparr>;
          tid' = take STUN_TID_SIZE tid in
      case (case ec of None \<Rightarrow> Some (0, mb0)
            | Some e \<Rightarrow> stun_attr_encode al mb0 STUN_ATTR_ERR_CODE (V_err_code e) None padding) of
        None \<Rightarrow> None
      | Some r0 \<Rightarrow>
         (case stun_attrs_encode al tid' padding ap r0 of
            None \<Rightarrow> None
          | Some r1 \<Rightarrow>
             let mi_len = (if key \<noteq> None then MI_SIZE else 0);
                 hlen = word_of_nat (szt (sz_sub (sz_sub (mb_pos (snd r1)) start) STUN_HEADER_SIZE + mi_len)) :: u16;
                 hdr = \<lparr>sh_type = STUN_TYPE meth cls, sh_len = hlen, sh_cookie = STUN_MAGIC_COOKIE, sh_tid = tid'\<rparr>;
                 r2 = err_or (fst r1, (snd r1)\<lparr>mb_pos := start\<rparr>) (\<lambda>mb. stun_hdr_encode al mb hdr);
                 r3 = (fst r2, mb_move (uint hlen - int mi_len) (snd r2)) in
             case (case key of None \<Rightarrow> Some r3 | Some k \<Rightarrow> stun_add_mi hm al start hlen k padding r3) of
               None \<Rightarrow> None
             | Some r4 \<Rightarrow> if fp then stun_add_fp al start hdr padding r4 else Some r4))"

text \<open>The lengths that the checks hash over, computed in \<^verbatim>\<open>int\<close> and converted to \<^verbatim>\<open>size_t\<close>.\<close>

definition stun_mi_len :: "stun_hdr \<Rightarrow> nat" where
  "stun_mi_len hdr = nat ((int STUN_HEADER_SIZE + uint (sh_len hdr) - int MI_SIZE) mod 2 ^ 64)"

definition stun_fp_len :: "stun_hdr \<Rightarrow> nat" where
  "stun_fp_len hdr = nat ((int STUN_HEADER_SIZE + uint (sh_len hdr) - int FP_SIZE) mod 2 ^ 64)"

definition stun_msg_rehdr :: "malloc_env \<Rightarrow> stun_msg \<Rightarrow> u16 \<Rightarrow> stun_msg" where
  "stun_msg_rehdr al msg len =
     (let hdr = (sm_hdr msg)\<lparr>sh_len := len\<rparr>;
          mb1 = snd (stun_hdr_encode al (sm_mb msg) hdr) in
      msg\<lparr>sm_hdr := hdr, sm_mb := mb1\<lparr>mb_pos := sz_sub (mb_pos mb1) STUN_HEADER_SIZE\<rparr>\<rparr>)"

definition stun_msg_chk_mi ::
  "(bytes \<Rightarrow> bytes \<Rightarrow> bytes) \<Rightarrow> malloc_env \<Rightarrow> stun_msg \<Rightarrow> bytes \<Rightarrow> errno \<times> stun_msg" where
  "stun_msg_chk_mi hm al msg key =
     (case stun_msg_attr (Some msg) STUN_ATTR_MSG_INTEGRITY of
        None \<Rightarrow> (EPROTO, msg)
      | Some mi \<Rightarrow>
         let msg0 = msg\<lparr>sm_mb := (sm_mb msg)\<lparr>mb_pos := sm_start msg\<rparr>\<rparr>;
             fp = stun_msg_attr (Some msg0) STUN_ATTR_FINGERPRINT;
             msg1 = (if fp \<noteq> None then stun_msg_rehdr al msg0 (sh_len (sm_hdr msg0) - word_of_nat FP_SIZE) else msg0);
             hmac = hm key (take (stun_mi_len (sm_hdr msg1)) (drop (mb_pos (sm_mb msg1)) (mbuf_bytes (sm_mb msg1))));
             msg2 = (if fp \<noteq> None then stun_msg_rehdr al msg1 (sh_len (sm_hdr msg1) + word_of_nat FP_SIZE) else msg1) in
         if take 20 (v_msg_integrity (at_v mi)) \<noteq> take 20 hmac then (EBADMSG, msg2) else (0, msg2))"

definition stun_msg_chk_fingerprint :: "stun_msg \<Rightarrow> errno \<times> stun_msg" where
  "stun_msg_chk_fingerprint msg =
     (case stun_msg_attr (Some msg) STUN_ATTR_FINGERPRINT of
        None \<Rightarrow> (EPROTO, msg)
      | Some fp \<Rightarrow>
         let msg0 = msg\<lparr>sm_mb := (sm_mb msg)\<lparr>mb_pos := sm_start msg\<rparr>\<rparr>;
             fprnt = fingerprint (take (stun_fp_len (sm_hdr msg0)) (drop (mb_pos (sm_mb msg0)) (mbuf_bytes (sm_mb msg0)))) in
         if fprnt \<noteq> v_u32 (at_v fp) then (EBADMSG, msg0) else (0, msg0))"

section \<open>Message types\<close>

lemma less_16E:
  "n < 16 \<Longrightarrow> (n = 0 \<Longrightarrow> R) \<Longrightarrow> (n = 1 \<Longrightarrow> R) \<Longrightarrow> (n = 2 \<Longrightarrow> R) \<Longrightarrow> (n = 3 \<Longrightarrow> R) \<Longrightarrow> (n = 4 \<Longrightarrow> R) \<Longrightarrow>
   (n = 5 \<Longrightarrow> R) \<Longrightarrow> (n = 6 \<Longrightarrow> R) \<Longrightarrow> (n = 7 \<Longrightarrow> R) \<Longrightarrow> (n = 8 \<Longrightarrow> R) \<Longrightarrow> (n = 9 \<Longrightarrow> R) \<Longrightarrow> (n = 10 \<Longrightarrow> R) \<Longrightarrow>
   (n = 11 \<Longrightarrow> R) \<Longrightarrow> (n = 12 \<Longrightarrow> R) \<Longrightarrow> (n = 13 \<Longrightarrow> R) \<Longrightarrow> (n = 14 \<Longrightarrow> R) \<Longrightarrow> (n = 15 \<Longrightarrow> R) \<Longrightarrow> R" for n :: nat
  by (auto simp: numeral_eq_Suc less_Suc_eq)

lemma bit_STUN_TYPE:
  "bit (STUN_TYPE m c) n \<longleftrightarrow>
     (n < 4 \<and> bit m n) \<or> (n = 4 \<and> bit c 0) \<or> (5 \<le> n \<and> n < 8 \<and> bit m (n - 1)) \<or>
     (n = 8 \<and> bit c 1) \<or> (9 \<le> n \<and> n < 14 \<and> bit m (n - 2))"
proof (cases "n < 16")
  case True
  then show ?thesis
    unfolding STUN_TYPE_def bit_or_iff bit_and_iff bit_push_bit_iff bit_ucast_iff
    by (elim less_16E) simp_all
next
  case False
  then show ?thesis using bit_imp_le_length [of "STUN_TYPE m c" n] by auto
qed

lemma bit_STUN_METHOD:
  "bit (STUN_METHOD t) n \<longleftrightarrow> (n < 4 \<and> bit t n) \<or> (4 \<le> n \<and> n < 7 \<and> bit t (n + 1)) \<or> (7 \<le> n \<and> n < 12 \<and> bit t (n + 2))"
proof (cases "n < 16")
  case True
  then show ?thesis
    by (elim less_16E) (simp_all add: STUN_METHOD_def bit_or_iff bit_and_iff bit_drop_bit_eq)
next
  case False
  then show ?thesis using bit_imp_le_length [of "STUN_METHOD t" n] by auto
qed

lemma bit_STUN_CLASS: "bit (STUN_CLASS t) n \<longleftrightarrow> (n = 0 \<and> (bit t 7 \<or> bit t 4)) \<or> (n = 1 \<and> (bit t 8 \<or> bit t 5))"
proof -
  have m: "STUN_CLASS t = take_bit 2 (drop_bit 7 t OR drop_bit 4 t)" by (simp add: STUN_CLASS_def and_masks)
  have "n < 2 \<longleftrightarrow> n = 0 \<or> n = 1" by auto
  then show ?thesis unfolding m by (auto simp: bit_take_bit_iff bit_or_iff bit_drop_bit_eq)
qed

lemma small_word_bits: "w < 2 ^ k \<Longrightarrow> bit w n \<Longrightarrow> n < k" for w :: "'a::len word"
proof (rule ccontr)
  assume w: "w < 2 ^ k" and b: "bit w n" and n: "\<not> n < k"
  have "unat (2 ^ k :: 'a word) \<le> 2 ^ k" 
    by (simp only: push_bit_of_1 [symmetric] unat_push_bit) simp
  then have "unat w < 2 ^ k" using w by (simp add: word_less_nat_alt)
  then have "take_bit k w = w" by (intro word_unat_eq_iff [THEN iffD2]) (simp add: unat_take_bit)
  with b n show False by (metis bit_take_bit_iff)
qed

lemma STUN_METHOD_TYPE: "m < 0x1000 \<Longrightarrow> STUN_METHOD (STUN_TYPE m c) = m"
proof (rule bit_word_eqI)
  fix n assume "m < 0x1000" "n < LENGTH(16)"
  moreover have "\<not> bit m k" if "12 \<le> k" for k using small_word_bits [of m 12 k] \<open>m < 0x1000\<close> that by auto
  moreover have "n < 16" using \<open>n < LENGTH(16)\<close> by simp
  ultimately show "bit (STUN_METHOD (STUN_TYPE m c)) n = bit m n"
    by (elim less_16E) (simp_all add: bit_STUN_METHOD bit_STUN_TYPE)
qed

lemma STUN_TYPE_top: "STUN_TYPE m c AND 0xc000 = 0" "STUN_TYPE m c AND 0x3fff = STUN_TYPE m c"
proof -
  have t: "\<not> bit (STUN_TYPE m c) 14" "\<not> bit (STUN_TYPE m c) 15" by (simp_all add: bit_STUN_TYPE)
  show "STUN_TYPE m c AND 0xc000 = 0"
  proof (rule bit_word_eqI)
    fix n assume "n < LENGTH(16)"
    then have "n < 16" by simp
    then show "bit (STUN_TYPE m c AND 0xc000) n = bit (0 :: u16) n"
      by (elim less_16E) (simp_all add: bit_and_iff t)
  qed
  show "STUN_TYPE m c AND 0x3fff = STUN_TYPE m c"
    by (rule bit_word_eqI) (auto simp: and_masks bit_take_bit_iff bit_STUN_TYPE)
qed

lemma STUN_CLASS_TYPE:
  assumes "c < 4"
  shows "STUN_CLASS (STUN_TYPE m c) = ucast c \<longleftrightarrow> (bit m 6 \<longrightarrow> bit c 0) \<and> (bit m 4 \<longrightarrow> bit c 1)"
proof -
  have c: "bit c n \<Longrightarrow> n < 2" for n using small_word_bits [of c 2 n] assms by simp
  have cl: "bit (STUN_CLASS (STUN_TYPE m c)) n \<longleftrightarrow> (n = 0 \<and> (bit m 6 \<or> bit c 0)) \<or> (n = 1 \<and> (bit c 1 \<or> bit m 4))" for n
    by (auto simp: bit_STUN_CLASS bit_STUN_TYPE)
  show ?thesis
  proof
    assume "STUN_CLASS (STUN_TYPE m c) = ucast c"
    then have "bit (STUN_CLASS (STUN_TYPE m c)) n = bit (ucast c :: u16) n" for n by simp
    from this [of 0] this [of 1] show "(bit m 6 \<longrightarrow> bit c 0) \<and> (bit m 4 \<longrightarrow> bit c 1)"
      unfolding cl by (auto simp: bit_ucast_iff)
  next
    assume a: "(bit m 6 \<longrightarrow> bit c 0) \<and> (bit m 4 \<longrightarrow> bit c 1)"
    show "STUN_CLASS (STUN_TYPE m c) = ucast c"
    proof (rule bit_word_eqI)
      fix n assume "n < LENGTH(16)"
      moreover have "n < 2 \<longleftrightarrow> n = 0 \<or> n = 1" by auto
      ultimately show "bit (STUN_CLASS (STUN_TYPE m c)) n = bit (ucast c :: u16) n"
        unfolding cl using a c [of n] by (auto simp: bit_ucast_iff)
    qed
  qed
qed

section \<open>What the encoders write\<close>

definition hdr_img :: "stun_hdr \<Rightarrow> bytes" where
  "hdr_img hdr = be16 (sh_type hdr AND 0x3fff) @ be16 (sh_len hdr) @ be32 (sh_cookie hdr) @
     take STUN_TID_SIZE (sh_tid hdr)"

definition addr_img :: "bytes option \<Rightarrow> sa \<Rightarrow> bytes" where
  "addr_img tid sa =
     (let port = xor_port tid (sa_port (Some sa)) in
      if sa_af (Some sa) = AF_INET then [0] @ [STUN_AF_IPv4] @ be16 port @ be32 (xor_addr4 tid (sa_in (Some sa)))
      else [0] @ [STUN_AF_IPv6] @ be16 port @ xor_addr6 tid (sa_in6 sa))"

definition addr_ok :: "sa \<Rightarrow> bool" where
  "addr_ok sa \<longleftrightarrow> (\<exists>a p. sa = sa_set_in sa_zero a p) \<or> (\<exists>a p. length a = 16 \<and> sa = sa_set_in6 sa_zero a p)"

definition val_img :: "u16 \<Rightarrow> stun_val \<Rightarrow> bytes option \<Rightarrow> bytes" where
  "val_img type v tid =
     (case stun_kind type of
        K_addr \<Rightarrow> addr_img None (v_sa v)
      | K_xor_addr \<Rightarrow> addr_img tid (v_sa v)
      | K_change_req \<Rightarrow> be32 (push_bit 2 (of_bool (v_ip v)) OR push_bit 1 (of_bool (v_port v)))
      | K_str \<Rightarrow> v_str v
      | K_msg_integrity \<Rightarrow> v_msg_integrity v
      | K_err_code \<Rightarrow> be16 0 @ [word_of_nat (unat (ec_code (v_err_code v)) div 100)] @
          [word_of_nat (unat (ec_code (v_err_code v)) mod 100)] @ the (ec_reason (v_err_code v))
      | K_unknown_attr \<Rightarrow> concat (map (\<lambda>i. be16 (typev (v_unknown_attr v) ! i)) [0..<typec (v_unknown_attr v)])
      | K_u16 \<Rightarrow> be16 (v_u16 v) @ be16 0
      | K_u32 \<Rightarrow> be32 (v_u32 v)
      | K_data \<Rightarrow> mbuf_left (the (v_mb v))
      | K_u8 \<Rightarrow> [v_u8 v] @ [0] @ be16 0
      | K_even_port \<Rightarrow> [push_bit 7 (of_bool (v_even_port v))]
      | K_none \<Rightarrow> []
      | K_u64 \<Rightarrow> be64 (v_u64 v)
      | K_default \<Rightarrow> [])"

definition cstring :: "bytes \<Rightarrow> bool" where
  "cstring s \<longleftrightarrow> 0 \<notin> set s"

text \<open>The values that survive a round trip: those the decoder can produce.\<close>

definition val_ok :: "u16 \<Rightarrow> stun_val \<Rightarrow> bool" where
  "val_ok type v =
     (case stun_kind type of
        K_addr \<Rightarrow> (case v of V_sa sa \<Rightarrow> addr_ok sa | _ \<Rightarrow> False)
      | K_xor_addr \<Rightarrow> (case v of V_sa sa \<Rightarrow> addr_ok sa | _ \<Rightarrow> False)
      | K_change_req \<Rightarrow> is_V_change_req v
      | K_str \<Rightarrow> (case v of V_str s \<Rightarrow> cstring s \<and> length s < 2 ^ 16 | _ \<Rightarrow> False)
      | K_msg_integrity \<Rightarrow> (case v of V_msg_integrity m \<Rightarrow> length m = 20 | _ \<Rightarrow> False)
      | K_err_code \<Rightarrow> (case v of V_err_code ec \<Rightarrow> ec_code ec < 800 \<and>
          (\<exists>s. ec_reason ec = Some s \<and> cstring s \<and> length s + 4 < 2 ^ 16) | _ \<Rightarrow> False)
      | K_unknown_attr \<Rightarrow> (case v of V_unknown_attr u \<Rightarrow> typec u \<le> UA_MAX \<and>
          typev u = take (typec u) (typev u) @ replicate (UA_MAX - typec u) 0 \<and> length (typev u) = UA_MAX
          | _ \<Rightarrow> False)
      | K_u16 \<Rightarrow> is_V_u16 v
      | K_u32 \<Rightarrow> is_V_u32 v
      | K_data \<Rightarrow> (case v of V_mb m \<Rightarrow> (\<exists>mb. m = Some mb \<and> length (mbuf_left mb) < 2 ^ 16) | _ \<Rightarrow> False)
      | K_u8 \<Rightarrow> is_V_u8 v
      | K_even_port \<Rightarrow> is_V_even_port v
      | K_none \<Rightarrow> v = V_none
      | K_u64 \<Rightarrow> is_V_u64 v
      | K_default \<Rightarrow> False)"

definition attr_img :: "u16 \<Rightarrow> stun_val \<Rightarrow> bytes option \<Rightarrow> u8 \<Rightarrow> bytes" where
  "attr_img type v tid padding =
     be16 type @ be16 (word_of_nat (length (val_img type v tid))) @ val_img type v tid @
     replicate (pad_len (length (val_img type v tid))) padding"

lemma htons_0 [simp]: "htons 0 = 0"
proof -
  have "word_to_le 2 (0 :: u16) = [0, 0]" by (simp add: word_to_le_def upt_rec)
  then show ?thesis by (simp add: htons_def)
qed

lemma lays_u16_0: "lays (be16 0) (\<lambda>mb. mbuf_write_u16 al mb 0)"
  using lays_ints(2) [of 0 al] by simp

lemma lays_hdr: "lays (hdr_img hdr) (\<lambda>mb. stun_hdr_encode al mb hdr)"
  unfolding hdr_img_def stun_hdr_encode_def err_or_assoc by (intro lays_intros)

lemma lays_addr: "addr_ok sa \<Longrightarrow> lays (addr_img tid sa) (\<lambda>mb. stun_addr_encode al mb sa tid)"
proof -
  assume "addr_ok sa"
  then have "sa_af (Some sa) = AF_INET \<or> sa_af (Some sa) = AF_INET6" by (auto simp: addr_ok_def)
  then show ?thesis
    unfolding addr_img_def stun_addr_encode_def Let_def err_or_assoc
    by (auto intro!: lays_intros simp del: append_Cons append_Nil)
qed

lemma lays_value:
  assumes "val_ok type v"
  shows "lays (val_img type v tid) (\<lambda>mb. stun_value_encode al mb type v tid)"
proof (cases "stun_kind type")
  case K_err_code
  with assms obtain ec s where v: "v = V_err_code ec" "ec_reason ec = Some s"
    by (auto simp: val_ok_def split: stun_val.splits)
  show ?thesis
    unfolding val_img_def stun_value_encode_def K_err_code v attr_kind.case stun_val.sel err_or_assoc option.sel
    by (intro lays_intros lays_u16_0)
next
  case K_unknown_attr
  then show ?thesis using lays_fold [OF lays_nil, of "[0..<typec (v_unknown_attr v)]"
      "\<lambda>i. be16 (typev (v_unknown_attr v) ! i)" "\<lambda>i mb. mbuf_write_u16 al mb (htons (typev (v_unknown_attr v) ! i))"]
    by (simp add: val_img_def stun_value_encode_def lays_intros)
next
  case K_msg_integrity
  with assms obtain m where v: "v = V_msg_integrity m" "length m = 20"
    by (auto simp: val_ok_def split: stun_val.splits)
  then show ?thesis using K_msg_integrity by (simp add: val_img_def stun_value_encode_def lays_intros)
next
  case K_u8
  then show ?thesis unfolding val_img_def stun_value_encode_def K_u8 attr_kind.case err_or_assoc
    by (intro lays_intros lays_u16_0)
next
  case K_u16
  then show ?thesis unfolding val_img_def stun_value_encode_def K_u16 attr_kind.case
    by (intro lays_intros lays_u16_0)
qed (use assms in \<open>auto simp: val_ok_def val_img_def stun_value_encode_def lays_addr lays_intros split: stun_val.splits\<close>)

lemma stun_pad_lay:
  assumes "lay mb P (A @ B)" "mb_pos mb = length P + length A" "start \<le> mb_pos mb"
    "length B = pad_len (mb_pos mb - start)" "mb_end mb = mb_pos mb"
  shows "\<exists>mb'. stun_pad al start padding (e, mb) = Some (e, mb') \<and> lay mb' P (A @ replicate (length B) padding) \<and>
     mb_pos mb' = mb_pos mb + length B \<and> mb_size mb' = mb_size mb \<and> mb_end mb' = mb_pos mb'"
  using assms
proof (induction "length B" arbitrary: mb A B)
  case 0
  note d = layD [OF 0(2)]
  have "sz_sub (mb_pos mb) start = mb_pos mb - start" by (rule sz_sub_eq) (use 0 d in simp_all)
  moreover have "(mb_pos mb - start) mod 4 = 0" using 0 pad_len_simps(3) by simp
  ultimately have "stun_pad al start padding (e, mb) = Some (e, mb)" by (simp add: stun_pad.simps)
  with 0 show ?case by simp
next
  case (Suc n)
  note d = layD [OF Suc.prems(1)]
  let ?m = "mb_pos mb - start"
  obtain b B' where B: "B = b # B'" "length B' = n" using Suc.hyps(2) by (cases B) auto
  have sub: "sz_sub (mb_pos mb) start = ?m" by (rule sz_sub_eq) (use Suc.prems d in simp_all)
  have nz: "?m mod 4 \<noteq> 0" using Suc.hyps(2) Suc.prems(4) pad_len_simps(3) [of ?m] by simp
  have l: "lay mb P (A @ [b] @ B')" using Suc.prems(1) B by simp
  obtain mb1 where 1: "mbuf_write_u8 al mb padding = (0, mb1)" "lay mb1 P (A @ [padding] @ B')"
    "mb_pos mb1 = length P + length A + 1" "mb_size mb1 = mb_size mb" "mb_end mb1 = max (mb_end mb) (mb_pos mb1)"
    using laysD [OF lays_ints(1) l Suc.prems(2), of padding al] by auto
  have l1: "lay mb1 P ((A @ [padding]) @ B')" "mb_pos mb1 = length P + length (A @ [padding])" "start \<le> mb_pos mb1"
    "mb_end mb1 = mb_pos mb1"
    using 1 Suc.prems by simp_all
  have "mb_pos mb1 - start = Suc ?m" using 1(3) Suc.prems(2,3) by simp
  then have p1: "length B' = pad_len (mb_pos mb1 - start)"
    using pad_len_simps(4) [OF nz] Suc.prems(4) B by simp
  from Suc.hyps(1) [OF _ l1(1,2,3) p1 l1(4)] B obtain mb' where
    "stun_pad al start padding (e, mb1) = Some (e, mb')" "lay mb' P ((A @ [padding]) @ replicate (length B') padding)"
    "mb_pos mb' = mb_pos mb1 + length B'" "mb_size mb' = mb_size mb1" "mb_end mb' = mb_pos mb'" by auto
  moreover have "stun_pad al start padding (e, mb) = stun_pad al start padding (e, mb1)"
    using nz 1(1) sub by (simp add: stun_pad.simps [of al start padding "(e, mb)"] err_or_def)
  ultimately show ?case using 1 B Suc.prems(2) by simp
qed

text \<open>An attribute goes into the space behind the cursor, header, value and padding.\<close>

lemma stun_attr_lay:
  assumes ok: "val_ok type v" and l: "lay mb P A" and p: "mb_pos mb = length P + length A"
    and room: "length P + length A + length (attr_img type v tid padding) \<le> mb_size mb"
  shows "\<exists>mb'. stun_attr_encode al mb type v tid padding = Some (0, mb') \<and>
     lay mb' P (A @ attr_img type v tid padding) \<and>
     mb_pos mb' = length P + length (A @ attr_img type v tid padding) \<and> mb_size mb' = mb_size mb \<and>
     mb_end mb' = mb_pos mb'"
proof -
  let ?V = "val_img type v tid"
  define n where "n = pad_len (length ?V)"
  have len: "length (attr_img type v tid padding) = 4 + length ?V + n" by (simp add: attr_img_def n_def)
  have small: "mb_size mb < 2 ^ 32" using layD(6) [OF l] .
  have "length P + length A + (4 + length ?V + n) \<le> mb_size mb" using room len by simp
  from lay_extend [OF l this] obtain J where J: "length J = 4 + length ?V + n" "lay mb P (A @ J)" .
  define H where "H = take 4 J"
  define B where "B = take (length ?V) (drop 4 J)"
  define Q where "Q = drop (length ?V) (drop 4 J)"
  have Jd: "J = H @ B @ Q" "length H = 4" "length B = length ?V" "length Q = n"
    using J(1) unfolding H_def B_def Q_def by (simp_all only: append_take_drop_id length_take length_drop)
  let ?st = "mb_pos mb + 4"
  have st: "szt ?st = ?st" using p room len small by (intro szt_id) simp
  have l1: "lay (mb\<lparr>mb_pos := ?st\<rparr>) P ((A @ H) @ B @ Q)" using lay_pos [OF J(2), of ?st] st Jd(1) p room small by simp
  have p1: "mb_pos (mb\<lparr>mb_pos := ?st\<rparr>) = length P + length (A @ H)" using p Jd by simp
  from laysD [OF lays_value [OF ok, where tid = tid and al = al] l1 p1 Jd(3)] obtain mb1 where
    1: "stun_value_encode al (mb\<lparr>mb_pos := ?st\<rparr>) type v tid = (0, mb1)" "lay mb1 P ((A @ H) @ ?V @ Q)"
    "mb_pos mb1 = length P + length (A @ H) + length ?V" "mb_size mb1 = mb_size mb"
    "mb_end mb1 = max (mb_end mb) (mb_pos mb1) \<or> ?V = [] \<and> mb_end mb1 = mb_end mb" by auto
  have ln: "sz_sub (mb_pos mb1) ?st = length ?V"
    using sz_sub_eq [of ?st "mb_pos mb1"] 1(3) p Jd(2) room len small by simp
  have bk: "sz_sub ?st 4 = mb_pos mb" using sz_sub_eq [of 4 ?st] p room len small by simp
  let ?h = "be16 type @ be16 (word_of_nat (length ?V))"
  have lw: "lays ?h (\<lambda>mb. err_or (mbuf_write_u16 al mb (htons type))
      (\<lambda>mb. mbuf_write_u16 al mb (htons (word_of_nat (length ?V)))))"
    by (intro lays_intros)
  have l2: "lay (mb1\<lparr>mb_pos := mb_pos mb\<rparr>) P (A @ H @ ?V @ Q)"
    using lay_pos [OF 1(2), of "mb_pos mb"] p room small by simp
  have p2: "mb_pos (mb1\<lparr>mb_pos := mb_pos mb\<rparr>) = length P + length A" using p by simp
  have h4: "length ?h = 4" by simp
  have "length H = length ?h" using Jd(2) h4 by simp
  from laysD [OF lw l2 p2 this] obtain mb2 where
    w2: "err_or (mbuf_write_u16 al (mb1\<lparr>mb_pos := mb_pos mb\<rparr>) (htons type))
      (\<lambda>mb. mbuf_write_u16 al mb (htons (word_of_nat (length ?V)))) = (0, mb2)"
    and m2: "lay mb2 P (A @ ?h @ ?V @ Q)" "mb_pos mb2 = length P + length A + length ?h"
    "mb_size mb2 = mb_size (mb1\<lparr>mb_pos := mb_pos mb\<rparr>)"
    "mb_end mb2 = max (mb_end (mb1\<lparr>mb_pos := mb_pos mb\<rparr>)) (mb_pos mb2) \<or>
       ?h = [] \<and> mb_end mb2 = mb_end (mb1\<lparr>mb_pos := mb_pos mb\<rparr>)" .
  have "?h \<noteq> []" using h4 by (metis list.size(3) zero_neq_numeral)
  then have 2: "mb_pos mb2 = length P + length A + 4" "mb_size mb2 = mb_size mb1" "mb_end mb2 = max (mb_end mb1) (mb_pos mb2)"
    using m2(2-4) h4 by auto
  let ?mb3 = "mb2\<lparr>mb_pos := mb_pos mb2 + length ?V\<rparr>"
  have s3: "szt (mb_pos mb2 + length ?V) = mb_pos mb2 + length ?V" using 2(1) room len small by (intro szt_id) simp
  have l3: "lay ?mb3 P ((A @ ?h @ ?V) @ Q)" using lay_pos [OF m2(1), of "mb_pos mb2 + length ?V"] 2(1) room len small by simp
  have e3: "mb_end ?mb3 = mb_pos ?mb3"
    using 1(3,5) 2(1,3) layD(5) [OF l] p Jd(2) by auto
  have enc: "stun_attr_encode al mb type v tid padding = stun_pad al ?st padding (0, ?mb3)"
    using 1(1) w2 by (simp add: stun_attr_encode_def st ln bk Let_def err_or_assoc s3)
      (simp add: err_or_def split_def s3)
  have "\<exists>mb'. stun_pad al ?st padding (0, ?mb3) = Some (0, mb') \<and> lay mb' P ((A @ ?h @ ?V) @ replicate (length Q) padding) \<and>
     mb_pos mb' = mb_pos ?mb3 + length Q \<and> mb_size mb' = mb_size ?mb3 \<and> mb_end mb' = mb_pos mb'"
    by (rule stun_pad_lay [OF l3]) (use 2(1) p e3 Jd(4) in \<open>simp_all add: n_def\<close>)
  then show ?thesis using enc 1(4) 2(1,2) Jd(4) len by (auto simp: attr_img_def n_def)
qed

text \<open>The attributes of a message in the order they are written, and their image.\<close>

definition ap_attrs :: "(u16 \<times> stun_val option) list \<Rightarrow> (u16 \<times> stun_val) list" where
  "ap_attrs ap = concat (map (\<lambda>(type, v). case v of None \<Rightarrow> [] | Some v' \<Rightarrow> [(type, v')]) ap)"

definition attrs_img :: "bytes \<Rightarrow> u8 \<Rightarrow> (u16 \<times> stun_val) list \<Rightarrow> bytes" where
  "attrs_img tid padding xs = concat (map (\<lambda>(type, v). attr_img type v (Some tid) padding) xs)"

lemma stun_attrs_lay:
  assumes "\<And>type v. (type, v) \<in> set (ap_attrs ap) \<Longrightarrow> val_ok type v"
    and "lay mb P A" "mb_pos mb = length P + length A"
    and "length P + length A + length (attrs_img tid padding (ap_attrs ap)) \<le> mb_size mb"
  shows "\<exists>mb'. stun_attrs_encode al tid padding ap (0, mb) = Some (0, mb') \<and>
     lay mb' P (A @ attrs_img tid padding (ap_attrs ap)) \<and>
     mb_pos mb' = length P + length (A @ attrs_img tid padding (ap_attrs ap)) \<and> mb_size mb' = mb_size mb \<and>
     (mb_end mb' = mb_pos mb' \<or> mb' = mb)"
  using assms
proof (induction ap arbitrary: mb A)
  case Nil
  then show ?case by (simp add: ap_attrs_def attrs_img_def)
next
  case (Cons a ap)
  obtain type v where a: "a = (type, v)" by fastforce
  show ?case
  proof (cases v)
    case None
    then have "ap_attrs (a # ap) = ap_attrs ap" by (simp add: ap_attrs_def a)
    with Cons None show ?thesis by (simp add: a)
  next
    case (Some v')
    let ?I = "attr_img type v' (Some tid) padding" and ?R = "attrs_img tid padding (ap_attrs ap)"
    have e: "ap_attrs (a # ap) = (type, v') # ap_attrs ap" by (simp add: ap_attrs_def a Some)
    have i: "attrs_img tid padding (ap_attrs (a # ap)) = ?I @ ?R" by (simp add: e attrs_img_def)
    have ok: "val_ok type v'" using Cons.prems(1) e by simp
    have room: "length P + length A + length ?I \<le> mb_size mb" using Cons.prems(4) i by simp
    from stun_attr_lay [OF ok Cons.prems(2,3) room, of al] obtain mb1 where
      1: "stun_attr_encode al mb type v' (Some tid) padding = Some (0, mb1)" "lay mb1 P (A @ ?I)"
      "mb_pos mb1 = length P + length (A @ ?I)" "mb_size mb1 = mb_size mb" "mb_end mb1 = mb_pos mb1" by blast
    have room1: "length P + length (A @ ?I) + length ?R \<le> mb_size mb1" using Cons.prems(4) i 1(4) by simp
    have "(type', w) \<in> set (ap_attrs ap) \<Longrightarrow> val_ok type' w" for type' w using Cons.prems(1) e by simp
    from Cons.IH [OF this 1(2,3) room1] obtain mb2 where
      2: "stun_attrs_encode al tid padding ap (0, mb1) = Some (0, mb2)" "lay mb2 P ((A @ ?I) @ ?R)"
      "mb_pos mb2 = length P + length ((A @ ?I) @ ?R)" "mb_size mb2 = mb_size mb1"
      "mb_end mb2 = mb_pos mb2 \<or> mb2 = mb1" by blast
    show ?thesis unfolding i using 1 2 by (auto simp: a Some err_or_opt_def)
  qed
qed

definition hdr_of :: "u16 \<Rightarrow> u8 \<Rightarrow> bytes \<Rightarrow> nat \<Rightarrow> stun_hdr" where
  "hdr_of meth cls tid n =
     \<lparr>sh_type = STUN_TYPE meth cls, sh_len = word_of_nat n, sh_cookie = STUN_MAGIC_COOKIE, sh_tid = tid\<rparr>"

definition mi_val :: "(bytes \<Rightarrow> bytes \<Rightarrow> bytes) \<Rightarrow> (nat \<Rightarrow> stun_hdr) \<Rightarrow> bytes \<Rightarrow> bytes \<Rightarrow> stun_val" where
  "mi_val hm hf B k = V_msg_integrity (hm k (hdr_img (hf (length B + MI_SIZE)) @ B))"

definition fp_val :: "(nat \<Rightarrow> stun_hdr) \<Rightarrow> bytes \<Rightarrow> stun_val" where
  "fp_val hf B = V_u32 (fingerprint (hdr_img (hf (length B + FP_SIZE)) @ B))"

lemma stun_kind_simps [simp]:
  "stun_kind STUN_ATTR_MSG_INTEGRITY = K_msg_integrity" "stun_kind STUN_ATTR_FINGERPRINT = K_u32"
  "stun_kind STUN_ATTR_ERR_CODE = K_err_code"
  by (simp_all add: stun_kind_def)

lemma pad_len_simps_num [simp]: "pad_len 20 = 0" "pad_len 4 = 0" "pad_len 0 = 0"
  by (simp_all add: pad_len_def)

lemma length_hdr_img [simp]: "length (sh_tid hdr) = 12 \<Longrightarrow> length (hdr_img hdr) = 20"
  by (simp add: hdr_img_def STUN_TID_SIZE_def)

lemma length_mi_img: "length m = 20 \<Longrightarrow> length (attr_img STUN_ATTR_MSG_INTEGRITY (V_msg_integrity m) tid padding) = 24"
  by (simp add: attr_img_def val_img_def)

lemma length_fp_img: "length (attr_img STUN_ATTR_FINGERPRINT (V_u32 n) tid padding) = 8"
  by (simp add: attr_img_def val_img_def)

lemma mb_move_eq: "int (mb_pos mb) + d = int q \<Longrightarrow> q < 2 ^ 64 \<Longrightarrow> mb_move d mb = mb\<lparr>mb_pos := q\<rparr>"
  by (simp add: mb_move_def)

lemma uint_u16: "n < 2 ^ 16 \<Longrightarrow> uint (word_of_nat n :: u16) = int n"
  by (simp add: unsigned_of_nat take_bit_nat_eq_self)

lemma stun_hdr_lay:
  assumes "lay mb P (H @ X)" "length H = 20" "length (sh_tid hdr) = 12"
  shows "\<exists>mb1. stun_hdr_encode al (mb\<lparr>mb_pos := length P\<rparr>) hdr = (0, mb1) \<and> lay mb1 P (hdr_img hdr @ X) \<and>
     mb_pos mb1 = length P + 20 \<and> mb_size mb1 = mb_size mb \<and> mb_end mb1 = max (mb_end mb) (length P + 20)"
proof -
  have "length P < 2 ^ 64" using layD(3,6) [OF assms(1)] by simp
  then have "lay (mb\<lparr>mb_pos := length P\<rparr>) P ([] @ H @ X)" using lay_pos [OF assms(1)] by simp
  moreover have "hdr_img hdr \<noteq> []" using length_hdr_img [OF assms(3)] by fastforce
  ultimately show ?thesis
    using laysD [OF lays_hdr [where al = al and hdr = hdr], of "mb\<lparr>mb_pos := length P\<rparr>" P "[]" H X] assms(2,3) by fastforce
qed

lemma stun_add_mi_lay:
  assumes l: "lay mb P (hdr_img h @ B)" and e: "mb_end mb = length P + 20 + length B" and t: "length (sh_tid h) = 12"
    and hl: "sh_len h = word_of_nat (length B + 24)" "length B + 24 < 2 ^ 16"
    and room: "length P + 20 + length B + 24 \<le> mb_size mb" and hm: "\<And>k d. length (hm k d) = 20"
  shows "\<exists>mb'. stun_add_mi hm al (length P) (sh_len h) k padding (0, mb) = Some (0, mb') \<and>
     lay mb' P (hdr_img h @ B @ attr_img STUN_ATTR_MSG_INTEGRITY (V_msg_integrity (hm k (hdr_img h @ B))) None padding) \<and>
     mb_pos mb' = length P + 20 + length B + 24 \<and> mb_size mb' = mb_size mb \<and> mb_end mb' = mb_pos mb'"
proof -
  note d = layD [OF l]
  have hh: "length (hdr_img h) = 20" using t by simp
  let ?mb0 = "mb\<lparr>mb_pos := length P\<rparr>"
  have l0: "lay ?mb0 P (hdr_img h @ B)" using lay_pos [OF l] d by simp
  have left: "mbuf_left ?mb0 = hdr_img h @ B" using lay_read(1) [OF l0] e hh by simp
  let ?v = "V_msg_integrity (hm k (hdr_img h @ B))"
  let ?p = "length P + length (hdr_img h @ B)"
  have "uint (sh_len h) = int (length B + 24)" unfolding hl(1) by (rule uint_u16 [OF hl(2)])
  then have mv: "mb_move (int STUN_HEADER_SIZE + uint (sh_len h) - int MI_SIZE) ?mb0 = ?mb0\<lparr>mb_pos := ?p\<rparr>"
    by (intro mb_move_eq) (use hh d room in \<open>simp_all add: stun_sizes\<close>)
  have l1: "lay (?mb0\<lparr>mb_pos := ?p\<rparr>) P (hdr_img h @ B)" using lay_pos [OF l, of ?p] d hh room by simp
  have ok: "val_ok STUN_ATTR_MSG_INTEGRITY ?v" using hm by (simp add: val_ok_def)
  have "length P + length (hdr_img h @ B) + length (attr_img STUN_ATTR_MSG_INTEGRITY ?v None padding) \<le> mb_size (?mb0\<lparr>mb_pos := ?p\<rparr>)"
    using room hh hm by (simp add: length_mi_img)
  from stun_attr_lay [OF ok l1 _ this, of al] obtain mb' where
    "stun_attr_encode al (?mb0\<lparr>mb_pos := ?p\<rparr>) STUN_ATTR_MSG_INTEGRITY ?v None padding = Some (0, mb')"
    "lay mb' P ((hdr_img h @ B) @ attr_img STUN_ATTR_MSG_INTEGRITY ?v None padding)"
    "mb_pos mb' = length P + length ((hdr_img h @ B) @ attr_img STUN_ATTR_MSG_INTEGRITY ?v None padding)"
    "mb_size mb' = mb_size mb" "mb_end mb' = mb_pos mb'" by auto
  then show ?thesis using hh hm
    by (simp add: stun_add_mi_def left mv Let_def err_or_opt_def length_mi_img)
qed

lemma stun_add_fp_lay:
  assumes l: "lay mb P (H @ B)" and p: "mb_pos mb = length P + 20 + length B" "mb_end mb = mb_pos mb" and hh: "length H = 20"
    and t: "length (sh_tid h) = 12" and hl: "length B + 8 < 2 ^ 16" "h' = h\<lparr>sh_len := word_of_nat (length B + 8)\<rparr>"
    and room: "length P + 20 + length B + 8 \<le> mb_size mb"
  shows "\<exists>mb'. stun_add_fp al (length P) h padding (0, mb) = Some (0, mb') \<and>
     lay mb' P (hdr_img h' @ B @ attr_img STUN_ATTR_FINGERPRINT (V_u32 (fingerprint (hdr_img h' @ B))) None padding) \<and>
     mb_pos mb' = length P + 20 + length B + 8 \<and> mb_size mb' = mb_size mb \<and> mb_end mb' = mb_pos mb'"
proof -
  note d = layD [OF l]
  have t': "length (sh_tid h') = 12" using t hl by simp
  then have hh': "length (hdr_img h') = 20" by simp
  have s: "sz_sub (mb_pos mb) (length P) = 20 + length B" using sz_sub_eq [of "length P" "mb_pos mb"] p d room by simp
  have s2: "sz_sub (20 + length B) STUN_HEADER_SIZE = length B"
    using sz_sub_eq [of 20 "20 + length B"] hl by (simp add: stun_sizes)
  from stun_hdr_lay [OF l hh t', of al] obtain mb1 where
    1: "stun_hdr_encode al (mb\<lparr>mb_pos := length P\<rparr>) h' = (0, mb1)" "lay mb1 P (hdr_img h' @ B)"
      "mb_size mb1 = mb_size mb" "mb_end mb1 = mb_pos mb" using p by auto
  let ?mb2 = "mb1\<lparr>mb_pos := length P\<rparr>"
  have l0: "lay ?mb2 P (hdr_img h' @ B)" using lay_pos [OF 1(2)] d by simp
  have left: "mbuf_left ?mb2 = hdr_img h' @ B" using lay_read(1) [OF l0] 1(4) p hh' by simp
  let ?v = "V_u32 (fingerprint (hdr_img h' @ B))"
  let ?p = "length P + length (hdr_img h' @ B)"
  have "uint (word_of_nat (length B + 8) :: u16) = int (length B + 8)" by (rule uint_u16 [OF hl(1)])
  then have mv: "mb_move (int STUN_HEADER_SIZE + uint (word_of_nat (length B + 8) :: u16) - int FP_SIZE) ?mb2 = ?mb2\<lparr>mb_pos := ?p\<rparr>"
    by (intro mb_move_eq) (use hh' d room in \<open>simp_all add: stun_sizes\<close>)
  have l1: "lay (?mb2\<lparr>mb_pos := ?p\<rparr>) P (hdr_img h' @ B)" using lay_pos [OF 1(2), of ?p] d hh' room by simp
  have ok: "val_ok STUN_ATTR_FINGERPRINT ?v" by (simp add: val_ok_def)
  have "length P + length (hdr_img h' @ B) + length (attr_img STUN_ATTR_FINGERPRINT ?v None padding) \<le> mb_size (?mb2\<lparr>mb_pos := ?p\<rparr>)"
    using room hh' 1(3) by (simp add: length_fp_img)
  from stun_attr_lay [OF ok l1 _ this, of al] obtain mb' where
    "stun_attr_encode al (?mb2\<lparr>mb_pos := ?p\<rparr>) STUN_ATTR_FINGERPRINT ?v None padding = Some (0, mb')"
    "lay mb' P ((hdr_img h' @ B) @ attr_img STUN_ATTR_FINGERPRINT ?v None padding)"
    "mb_pos mb' = length P + length ((hdr_img h' @ B) @ attr_img STUN_ATTR_FINGERPRINT ?v None padding)"
    "mb_size mb' = mb_size mb1" "mb_end mb' = mb_pos mb'" by auto
  moreover have "stun_add_fp al (length P) h padding (0, mb) =
      err_or_opt (0, ?mb2\<lparr>mb_pos := ?p\<rparr>) (\<lambda>mb. stun_attr_encode al mb STUN_ATTR_FINGERPRINT ?v None padding)"
    unfolding stun_add_fp_def snd_conv fst_conv s s2 Let_def FP_SIZE_def [symmetric]
    using 1(1) hl(2) mv left by (simp add: FP_SIZE_def err_or_def)
  ultimately show ?thesis using hh' 1(3)
    by (simp add: err_or_opt_def length_fp_img)
qed

text \<open>The whole message: header, attributes, and behind them integrity and fingerprint.\<close>

definition ec_attrs :: "stun_errcode option \<Rightarrow> (u16 \<times> stun_val) list" where
  "ec_attrs ec = (case ec of None \<Rightarrow> [] | Some e \<Rightarrow> [(STUN_ATTR_ERR_CODE, V_err_code e)])"

definition mi_attrs :: "(bytes \<Rightarrow> bytes \<Rightarrow> bytes) \<Rightarrow> (nat \<Rightarrow> stun_hdr) \<Rightarrow> bytes \<Rightarrow> bytes option \<Rightarrow> (u16 \<times> stun_val) list" where
  "mi_attrs hm hf B key = (case key of None \<Rightarrow> [] | Some k \<Rightarrow> [(STUN_ATTR_MSG_INTEGRITY, mi_val hm hf B k)])"

definition fp_attrs :: "(nat \<Rightarrow> stun_hdr) \<Rightarrow> bytes \<Rightarrow> bool \<Rightarrow> (u16 \<times> stun_val) list" where
  "fp_attrs hf B fp = (if fp then [(STUN_ATTR_FINGERPRINT, fp_val hf B)] else [])"

definition msg_attrs ::
  "(bytes \<Rightarrow> bytes \<Rightarrow> bytes) \<Rightarrow> (nat \<Rightarrow> stun_hdr) \<Rightarrow> bytes \<Rightarrow> u8 \<Rightarrow> stun_errcode option \<Rightarrow> bytes option \<Rightarrow> bool \<Rightarrow>
     (u16 \<times> stun_val option) list \<Rightarrow> (u16 \<times> stun_val) list" where
  "msg_attrs hm hf tid padding ec key fp ap =
     (let as0 = ec_attrs ec @ ap_attrs ap;
          as1 = as0 @ mi_attrs hm hf (attrs_img tid padding as0) key in
      as1 @ fp_attrs hf (attrs_img tid padding as1) fp)"

lemma attrs_img_append: "attrs_img tid padding (xs @ ys) = attrs_img tid padding xs @ attrs_img tid padding ys"
  by (simp add: attrs_img_def)

lemma attr_img_no_tid:
  "attr_img STUN_ATTR_MSG_INTEGRITY v tid padding = attr_img STUN_ATTR_MSG_INTEGRITY v None padding"
  "attr_img STUN_ATTR_FINGERPRINT v tid padding = attr_img STUN_ATTR_FINGERPRINT v None padding"
  "attr_img STUN_ATTR_ERR_CODE v tid padding = attr_img STUN_ATTR_ERR_CODE v None padding"
  by (simp_all add: attr_img_def val_img_def)

lemma length_mi_attrs: "(\<And>k d. length (hm k d) = 20) \<Longrightarrow>
   length (attrs_img tid padding (mi_attrs hm hf B key)) = (if key \<noteq> None then MI_SIZE else 0)"
  by (auto simp: attrs_img_def mi_attrs_def mi_val_def length_mi_img MI_SIZE_def)

lemma length_fp_attrs: "length (attrs_img tid padding (fp_attrs hf B fp)) = (if fp then FP_SIZE else 0)"
  by (auto simp: attrs_img_def fp_attrs_def fp_val_def length_fp_img FP_SIZE_def)

lemma stun_ec_lay:
  assumes "\<And>e. ec = Some e \<Longrightarrow> val_ok STUN_ATTR_ERR_CODE (V_err_code e)"
    and "lay mb P A" "mb_pos mb = length P + length A"
    and "length P + length A + length (attrs_img tid padding (ec_attrs ec)) \<le> mb_size mb"
  shows "\<exists>mb'. (case ec of None \<Rightarrow> Some (0, mb)
        | Some e \<Rightarrow> stun_attr_encode al mb STUN_ATTR_ERR_CODE (V_err_code e) None padding) = Some (0, mb') \<and>
     lay mb' P (A @ attrs_img tid padding (ec_attrs ec)) \<and>
     mb_pos mb' = length P + length (A @ attrs_img tid padding (ec_attrs ec)) \<and> mb_size mb' = mb_size mb \<and>
     (mb_end mb' = mb_pos mb' \<or> mb' = mb)"
proof (cases ec)
  case None
  then show ?thesis using assms by (simp add: ec_attrs_def attrs_img_def)
next
  case (Some e)
  have i: "attrs_img tid padding (ec_attrs ec) = attr_img STUN_ATTR_ERR_CODE (V_err_code e) None padding"
    by (simp add: ec_attrs_def attrs_img_def Some attr_img_no_tid(3) [of _ "Some tid"])
  show ?thesis
    using stun_attr_lay [OF assms(1) [OF Some] assms(2,3), of None padding al] assms(4) unfolding i by (auto simp: Some)
qed

text \<open>The part up to the first header, and what is added to it.\<close>

lemma stun_body_lay:
  assumes rd: "mbuf_ready mb" "mb_pos mb = mb_end mb"
    and ec: "\<And>e. ec = Some e \<Longrightarrow> val_ok STUN_ATTR_ERR_CODE (V_err_code e)"
    and ap: "\<And>type v. (type, v) \<in> set (ap_attrs ap) \<Longrightarrow> val_ok type v"
    and B: "B = attrs_img tid padding (ec_attrs ec @ ap_attrs ap)"
    and room: "mb_pos mb + 20 + length B \<le> mb_size mb"
  obtains r0 mb2 J where "(case ec of None \<Rightarrow> Some (0, mb\<lparr>mb_pos := szt (mb_pos mb + STUN_HEADER_SIZE)\<rparr>)
        | Some e \<Rightarrow> stun_attr_encode al (mb\<lparr>mb_pos := szt (mb_pos mb + STUN_HEADER_SIZE)\<rparr>)
            STUN_ATTR_ERR_CODE (V_err_code e) None padding) = Some r0"
    "stun_attrs_encode al tid padding ap r0 = Some (0, mb2)" "lay mb2 (mbuf_content mb) (J @ B)" "length J = 20"
    "mb_pos mb2 = mb_pos mb + 20 + length B" "mb_size mb2 = mb_size mb" "max (mb_end mb2) (mb_pos mb + 20) = mb_pos mb2"
proof -
  let ?P = "mbuf_content mb" and ?E = "attrs_img tid padding (ec_attrs ec)" and ?A = "attrs_img tid padding (ap_attrs ap)"
  have BE: "B = ?E @ ?A" by (simp add: B attrs_img_append)
  note st = lay_start [OF rd]
  note d = layD [OF st(1)]
  have "length ?P + length [] + 20 \<le> mb_size mb" using room st(2) by simp
  from lay_extend [OF st(1) this] obtain J where J: "length J = 20" "lay mb ?P J" by auto
  let ?mb0 = "mb\<lparr>mb_pos := mb_pos mb + 20\<rparr>"
  have z: "szt (mb_pos mb + STUN_HEADER_SIZE) = mb_pos mb + 20" using room d by (simp add: stun_sizes)
  have l0: "lay ?mb0 ?P J" "mb_pos ?mb0 = length ?P + length J" using lay_pos [OF J(2)] room d st(2) J(1) by simp_all
  have room0: "length ?P + length J + length ?E \<le> mb_size ?mb0" using room st(2) J(1) BE by simp
  from stun_ec_lay [OF ec l0 room0, of al] obtain mb1 where
    1: "(case ec of None \<Rightarrow> Some (0, ?mb0) | Some e \<Rightarrow> stun_attr_encode al ?mb0 STUN_ATTR_ERR_CODE (V_err_code e) None padding) = Some (0, mb1)"
    "lay mb1 ?P (J @ ?E)" "mb_pos mb1 = length ?P + length (J @ ?E)" "mb_size mb1 = mb_size ?mb0"
    "mb_end mb1 = mb_pos mb1 \<or> mb1 = ?mb0" by auto
  have room1: "length ?P + length (J @ ?E) + length ?A \<le> mb_size mb1" using room st(2) J(1) BE 1(4) by simp
  from stun_attrs_lay [OF ap 1(2,3) room1, of al] obtain mb2 where
    2: "stun_attrs_encode al tid padding ap (0, mb1) = Some (0, mb2)" "lay mb2 ?P ((J @ ?E) @ ?A)"
    "mb_pos mb2 = length ?P + length ((J @ ?E) @ ?A)" "mb_size mb2 = mb_size mb1"
    "mb_end mb2 = mb_pos mb2 \<or> mb2 = mb1" by auto
  have e: "max (mb_end mb2) (mb_pos mb + 20) = mb_pos mb2"
    using 1(3,5) 2(3,5) st(2) J(1) rd(2) by auto
  show thesis
    by (rule that [of "(0, mb1)" mb2 J]) (use 1 2 J BE st(2) e z in \<open>simp_all cong: option.case_cong\<close>)
qed

lemma stun_msg_lay:
  assumes rd: "mbuf_ready mb" "mb_pos mb = mb_end mb" and tid: "length tid = 12"
    and hm: "\<And>k d. length (hm k d) = 20"
    and ec: "\<And>e. ec = Some e \<Longrightarrow> val_ok STUN_ATTR_ERR_CODE (V_err_code e)"
    and ap: "\<And>type v. (type, v) \<in> set (ap_attrs ap) \<Longrightarrow> val_ok type v"
    and hf: "hf = hdr_of meth cls tid"
    and X: "X = attrs_img tid padding (msg_attrs hm hf tid padding ec key fp ap)"
    and small: "length X < 2 ^ 16" and room: "mb_pos mb + 20 + length X \<le> mb_size mb"
  shows "\<exists>mb'. stun_msg_vencode hm al mb meth cls tid ec key fp padding ap = Some (0, mb') \<and>
     lay mb' (mbuf_content mb) (hdr_img (hf (length X)) @ X) \<and>
     mb_pos mb' = mb_pos mb + 20 + length X \<and> mb_end mb' = mb_pos mb'"
proof -
  let ?P = "mbuf_content mb"
  define B where "B = attrs_img tid padding (ec_attrs ec @ ap_attrs ap)"
  define M where "M = attrs_img tid padding (mi_attrs hm hf B key)"
  define F where "F = attrs_img tid padding (fp_attrs hf (B @ M) fp)"
  define mi where "mi = (if key \<noteq> None then MI_SIZE else 0)"
  have Xd: "X = B @ M @ F" by (simp add: X msg_attrs_def B_def M_def F_def attrs_img_append Let_def)
  have lM: "length M = mi" and lF: "length F = (if fp then FP_SIZE else 0)"
    using length_mi_attrs [OF hm] length_fp_attrs by (simp_all add: M_def F_def mi_def)
  have P: "length ?P = mb_pos mb" by (rule lay_start(2) [OF rd])
  have big: "mb_size mb < 2 ^ 32" by (rule layD(6) [OF lay_start(1) [OF rd]])
  have t: "length (sh_tid (hf n)) = 12" for n by (simp add: hf hdr_of_def tid)
  have hh: "length (hdr_img (hf n)) = 20" for n by (rule length_hdr_img [OF t])
  have roomB: "mb_pos mb + 20 + length B \<le> mb_size mb" using room Xd by simp
  from stun_body_lay [OF rd ec ap B_def roomB, of al] obtain r0 mb2 J where
    0: "(case ec of None \<Rightarrow> Some (0, mb\<lparr>mb_pos := szt (mb_pos mb + STUN_HEADER_SIZE)\<rparr>)
        | Some e \<Rightarrow> stun_attr_encode al (mb\<lparr>mb_pos := szt (mb_pos mb + STUN_HEADER_SIZE)\<rparr>)
            STUN_ATTR_ERR_CODE (V_err_code e) None padding) = Some r0"
    and 2: "stun_attrs_encode al tid padding ap r0 = Some (0, mb2)" "lay mb2 ?P (J @ B)" "length J = 20"
    "mb_pos mb2 = mb_pos mb + 20 + length B" "mb_size mb2 = mb_size mb" "max (mb_end mb2) (mb_pos mb + 20) = mb_pos mb2"
    by blast
  have s1: "sz_sub (mb_pos mb2) (mb_pos mb) = 20 + length B" using sz_sub_eq [of "mb_pos mb" "mb_pos mb2"] 2(4) roomB big by simp
  have s2: "sz_sub (20 + length B) STUN_HEADER_SIZE = length B" using sz_sub_eq [of 20 "20 + length B"] small Xd by (simp add: stun_sizes)
  have hl: "szt (sz_sub (sz_sub (mb_pos mb2) (mb_pos mb)) STUN_HEADER_SIZE + mi) = length B + mi"
    unfolding s1 s2 by (rule szt_id) (use small Xd lM in simp)
  let ?h1 = "hf (length B + mi)"
  have u1: "uint (word_of_nat (length B + mi) :: u16) = int (length B + mi)" by (rule uint_u16) (use small Xd lM in simp)
  from stun_hdr_lay [OF 2(2,3) t, of al "length B + mi"] obtain mb3 where
    3: "stun_hdr_encode al (mb2\<lparr>mb_pos := mb_pos mb\<rparr>) ?h1 = (0, mb3)" "lay mb3 ?P (hdr_img ?h1 @ B)"
    "mb_pos mb3 = mb_pos mb + 20" "mb_size mb3 = mb_size mb" "mb_end mb3 = mb_pos mb2" using P 2(5,6) by auto
  let ?mb3 = "mb3\<lparr>mb_pos := mb_pos mb + 20 + length B\<rparr>"
  have mv: "mb_move (uint (word_of_nat (length B + mi) :: u16) - int mi) mb3 = ?mb3"
    unfolding u1 by (rule mb_move_eq) (use 3(3) roomB big in simp_all)
  have l3: "lay ?mb3 ?P (hdr_img ?h1 @ B)" using lay_pos [OF 3(2)] roomB big by simp
  let ?hd = "\<lparr>sh_type = STUN_TYPE meth cls, sh_len = word_of_nat (length B + mi), sh_cookie = STUN_MAGIC_COOKIE,
      sh_tid = tid\<rparr>"
  have hd: "?hd = ?h1" by (simp add: hf hdr_of_def)
  have e3: "err_or (0, mb2\<lparr>mb_pos := mb_pos mb\<rparr>) (\<lambda>mb. stun_hdr_encode al mb ?h1) = (0, mb3)"
    using 3(1) by (simp add: err_or_def)
  have tk: "take STUN_TID_SIZE tid = tid" by (simp add: tid stun_sizes)
  have "\<exists>mb4. (case key of None \<Rightarrow> Some (0, ?mb3) | Some k \<Rightarrow> stun_add_mi hm al (mb_pos mb) (word_of_nat (length B + mi)) k padding (0, ?mb3)) =
      Some (0, mb4) \<and> lay mb4 ?P (hdr_img ?h1 @ B @ M) \<and> mb_pos mb4 = mb_pos mb + 20 + length (B @ M) \<and>
      mb_size mb4 = mb_size mb \<and> mb_end mb4 = mb_pos mb4"
  proof (cases key)
    case None
    then show ?thesis using l3 3 2(4) lM by (simp add: mi_def)
  next
    case (Some k)
    then have m: "mi = 24" by (simp add: mi_def MI_SIZE_def)
    have Mk: "M = attr_img STUN_ATTR_MSG_INTEGRITY (V_msg_integrity (hm k (hdr_img ?h1 @ B))) None padding"
      by (simp add: M_def mi_attrs_def mi_val_def attrs_img_def Some m MI_SIZE_def attr_img_no_tid(1) [of _ "Some tid"])
    have hlen: "sh_len ?h1 = word_of_nat (length B + 24)" by (simp add: hf hdr_of_def m)
    have "\<exists>mb'. stun_add_mi hm al (length ?P) (sh_len ?h1) k padding (0, ?mb3) = Some (0, mb') \<and>
       lay mb' ?P (hdr_img ?h1 @ B @ attr_img STUN_ATTR_MSG_INTEGRITY (V_msg_integrity (hm k (hdr_img ?h1 @ B))) None padding) \<and>
       mb_pos mb' = length ?P + 20 + length B + 24 \<and> mb_size mb' = mb_size ?mb3 \<and> mb_end mb' = mb_pos mb'"
      by (rule stun_add_mi_lay [OF l3 _ t hlen _ _ hm]) (use 3(4,5) 2(4) small room Xd lM P m in simp_all)
    then show ?thesis unfolding Mk [symmetric] hlen using 3(4) P lM m by (simp add: Some)
  qed
  then obtain mb4 where 4: "(case key of None \<Rightarrow> Some (0, ?mb3) | Some k \<Rightarrow> stun_add_mi hm al (mb_pos mb) (word_of_nat (length B + mi)) k padding (0, ?mb3)) =
      Some (0, mb4)" "lay mb4 ?P (hdr_img ?h1 @ B @ M)" "mb_pos mb4 = mb_pos mb + 20 + length (B @ M)"
      "mb_size mb4 = mb_size mb" "mb_end mb4 = mb_pos mb4" by blast
  have enc: "stun_msg_vencode hm al mb meth cls tid ec key fp padding ap =
      (if fp then stun_add_fp al (mb_pos mb) ?h1 padding (0, mb4) else Some (0, mb4))"
    unfolding stun_msg_vencode_def Let_def 0 option.case tk 2(1) snd_conv fst_conv mi_def [symmetric] hl hd e3 mv 4(1)
    by (rule refl)
  show ?thesis
  proof (cases fp)
    case False
    then have "X = B @ M" "length X = length B + mi" using Xd lF lM by simp_all
    then show ?thesis using enc False 4 by simp
  next
    case True
    then have f: "length F = 8" using lF by (simp add: FP_SIZE_def)
    have h': "hf (length (B @ M) + 8) = ?h1\<lparr>sh_len := word_of_nat (length (B @ M) + 8)\<rparr>" by (simp add: hf hdr_of_def)
    have Fk: "F = attr_img STUN_ATTR_FINGERPRINT (V_u32 (fingerprint (hdr_img (hf (length (B @ M) + 8)) @ B @ M))) None padding"
      using True by (simp add: F_def fp_attrs_def fp_val_def attrs_img_def FP_SIZE_def attr_img_no_tid(2) [of _ "Some tid"])
    have l4: "lay mb4 ?P (hdr_img ?h1 @ (B @ M))" using 4(2) by simp
    have "\<exists>mb'. stun_add_fp al (length ?P) ?h1 padding (0, mb4) = Some (0, mb') \<and>
       lay mb' ?P (hdr_img (hf (length (B @ M) + 8)) @ (B @ M) @
         attr_img STUN_ATTR_FINGERPRINT (V_u32 (fingerprint (hdr_img (hf (length (B @ M) + 8)) @ B @ M))) None padding) \<and>
       mb_pos mb' = length ?P + 20 + length (B @ M) + 8 \<and> mb_size mb' = mb_size mb4 \<and> mb_end mb' = mb_pos mb'"
      by (rule stun_add_fp_lay [OF l4 _ _ hh t _ h']) (use 4 P small room Xd f in simp_all)
    then show ?thesis using enc True P Xd f unfolding Fk [symmetric] by (auto simp: add.assoc)
  qed
qed

section \<open>Reading back\<close>

lemma xor_port_xor [simp]: "xor_port tid (xor_port tid p) = p"
  by (simp add: xor_port_def xor.assoc)

lemma xor_addr4_xor [simp]: "xor_addr4 tid (xor_addr4 tid a) = a"
  by (simp add: xor_addr4_def xor.assoc)

definition tid_ok :: "bytes option \<Rightarrow> bool" where
  "tid_ok tid \<longleftrightarrow> (\<forall>t. tid = Some t \<longrightarrow> length t = 12)"

lemma xor_addr6_xor [simp]:
  assumes "tid_ok tid" "length a = 16"
  shows "xor_addr6 tid (xor_addr6 tid a) = a" "length (xor_addr6 tid a) = 16"
proof -
  have x: "map2 (XOR) (map2 (XOR) a k) k = a" if "length k = length a" for a k :: bytes
    using that by (induction k a rule: list_induct2) (simp_all add: xor.assoc)
  show "xor_addr6 tid (xor_addr6 tid a) = a" "length (xor_addr6 tid a) = 16"
    using assms x [of "[0x21, 0x12, 0xa4, 0x42] @ take STUN_TID_SIZE (the tid)" a]
    by (auto simp: xor_addr6_def in6_xor_tid_def tid_ok_def stun_sizes split: option.split)
qed

lemma parses_addr:
  assumes "addr_ok sa" "tid_ok tid"
  shows "parses (stun_addr_decode tid) (addr_img tid sa) sa"
  using assms(1) unfolding addr_ok_def
proof (elim disjE exE conjE)
  fix a p assume sa: "sa = sa_set_in sa_zero a p"
  have "parses (stun_addr_decode tid) ([0] @ [STUN_AF_IPv4] @ be16 (xor_port tid p) @ be32 (xor_addr4 tid a)) sa"
    unfolding stun_addr_decode_def
    by (rule parses_need, simp, rule parses_bind [OF parses_u8], rule parses_bind [OF parses_u8],
        rule parses_bind [OF parses_u16], simp, rule parses_need, simp, rule parses_bind_Nil [OF parses_u32])
      (simp add: sa parses_ret)
  then show ?thesis by (simp add: addr_img_def sa)
next
  fix a p assume a: "length a = 16" and sa: "sa = sa_set_in6 sa_zero a p"
  let ?a = "xor_addr6 tid a"
  have l: "length ?a = 16" "xor_addr6 tid ?a = a" using assms(2) a by simp_all
  have k: "parses (d_need 16 (d_bind (d_mem 16) (\<lambda>addr6. d_ret (sa_set_in6 sa_zero (xor_addr6 tid addr6) p)))) ?a sa"
    using l by (intro parses_need parses_bind_Nil [OF parses_mem]) (simp_all add: sa parses_ret)
  have "parses (stun_addr_decode tid) ([0] @ [STUN_AF_IPv6] @ be16 (xor_port tid p) @ ?a) sa"
    unfolding stun_addr_decode_def
    by (rule parses_need, simp, rule parses_bind [OF parses_u8], rule parses_bind [OF parses_u8],
        rule parses_bind [OF parses_u16]) (use k in \<open>simp add: STUN_AF_IPv4_def STUN_AF_IPv6_def\<close>)
  then show ?thesis using a by (simp add: addr_img_def sa)
qed

text \<open>\<open>yields d bs n Q\<close>: \<open>d\<close> finds \<open>bs\<close>, reads a value with \<open>Q\<close> from the first \<open>n\<close> bytes
  and stops there, whatever follows.\<close>

definition yields :: "'a dec \<Rightarrow> bytes \<Rightarrow> nat \<Rightarrow> ('a \<Rightarrow> bool) \<Rightarrow> bool" where
  "yields d bs n Q \<longleftrightarrow> (\<forall>mb rest. mbuf_wf mb \<longrightarrow> mbuf_left mb = bs @ rest \<longrightarrow>
     (\<exists>x. Q x \<and> d mb = (Inr x, mbuf_skip mb n)))"

lemma yieldsI: "parses d as x \<Longrightarrow> Q x \<Longrightarrow> yields d (as @ bs) (length as) Q"
  unfolding yields_def
proof (intro allI impI exI conjI)
  fix mb rest assume "parses d as x" "mbuf_wf mb" "mbuf_left mb = (as @ bs) @ rest"
  then show "d mb = (Inr x, mbuf_skip mb (length as))" using parsesD [of d as x mb "bs @ rest"] by simp
qed

text \<open>The decoder reads only the first bytes of the 16 and 8 bit values; the code that skips the
  padding passes over the rest.\<close>

definition read_len :: "u16 \<Rightarrow> nat \<Rightarrow> nat" where
  "read_len type n = (case stun_kind type of K_u16 \<Rightarrow> 2 | K_u8 \<Rightarrow> 1 | _ \<Rightarrow> n)"

definition val_same :: "stun_val \<Rightarrow> stun_val \<Rightarrow> bool" where
  "val_same w v \<longleftrightarrow> w = v \<or> (\<exists>m m'. v = V_mb (Some m) \<and> w = V_mb (Some m') \<and> mbuf_left m' = mbuf_left m)"

lemma parses_str:
  assumes "small_allocs al" "cstring s" "length s < 2 ^ 16"
  shows "parses (str_decode al (length s)) s s"
proof -
  have "mem_alloc al (length s + 1) \<noteq> None" using assms unfolding small_allocs_def by simp
  then have "parses (d_strdup al (length s)) s (s @ [0])" using assms(3) by (intro parses_strdup) simp_all
  moreover have "takeWhile (\<lambda>c. c \<noteq> 0) (s @ [0]) = s" using assms(2) by (simp add: cstring_def takeWhile_str)
  ultimately show ?thesis unfolding str_decode_def
    by (intro parses_need parses_bind_Nil [of _ _ "s @ [0]"]) (simp_all add: parses_ret)
qed

lemma word_of_nat_unat_eq: "unat w = n \<Longrightarrow> w = word_of_nat n" for w :: "'a::len word"
  by auto

lemma err_code_split:
  assumes "c < 800"
  shows "ucast ((word_of_nat (unat c div 100) :: u8) AND 0x7) * 100 + ucast (word_of_nat (unat c mod 100) :: u8) = (c :: u16)"
proof -
  define n where "n = unat c"
  have n: "n < 800" using assms by (simp add: n_def word_less_nat_alt)
  have q: "n div 100 < 8" using n by (simp add: less_mult_imp_div_less)
  have "unat (ucast ((word_of_nat (n div 100) :: u8) AND 0x7) :: u16) = n div 100"
    using q unfolding and_masks unat_ucast unat_take_bit by (simp add: unsigned_of_nat take_bit_eq_mod)
  moreover have "unat (ucast (word_of_nat (n mod 100) :: u8) :: u16) = n mod 100"
    by (simp add: unat_ucast unsigned_of_nat take_bit_eq_mod mod_less_eq_dividend
        order.strict_trans [of "n mod 100" 100])
  ultimately have "ucast ((word_of_nat (n div 100) :: u8) AND 0x7) = (word_of_nat (n div 100) :: u16)"
    "ucast (word_of_nat (n mod 100) :: u8) = (word_of_nat (n mod 100) :: u16)"
    using word_of_nat_unat_eq by metis+
  then have "?thesis \<longleftrightarrow> word_of_nat (n div 100) * 100 + word_of_nat (n mod 100) = c" by (simp add: n_def)
  moreover have "word_of_nat (n div 100) * 100 + word_of_nat (n mod 100) = (word_of_nat n :: u16)"
    by (metis div_mult_mod_eq of_nat_add of_nat_mult of_nat_numeral)
  ultimately show ?thesis by (simp add: n_def)
qed

lemma change_req_split:
  "drop_bit 2 (push_bit 2 (of_bool a) OR push_bit 1 (of_bool b) :: u32) AND 1 = 1 \<longleftrightarrow> a"
  "drop_bit 1 (push_bit 2 (of_bool a) OR push_bit 1 (of_bool b) :: u32) AND 1 = 1 \<longleftrightarrow> b"
  by (cases a; cases b; simp)+

lemma even_port_split: "drop_bit 7 (push_bit 7 (of_bool a) :: u8) AND 1 = 1 \<longleftrightarrow> a"
  by (cases a) simp_all

lemma unknown_img:
  assumes "typec u \<le> length (typev u)"
  shows "concat (map (\<lambda>i. be16 (typev u ! i)) [0..<typec u]) = concat (map be16 (take (typec u) (typev u)))"
proof -
  have "map (\<lambda>i. be16 (typev u ! i)) [0..<typec u] = map be16 (take (typec u) (typev u))"
    using assms by (intro nth_equalityI) simp_all
  then show ?thesis by simp
qed

lemma value_parses:
  assumes ok: "val_ok type v" and t: "length tid = 12" and al: "small_allocs al"
    and k: "stun_kind type \<notin> {K_data, K_u16, K_u8}"
  shows "parses (stun_value_decode al tid ua type (length (val_img type v (Some tid)))) (val_img type v (Some tid)) (v, ua)"
proof (cases "stun_kind type")
  case K_addr
  with ok obtain sa where v: "v = V_sa sa" "addr_ok sa" by (auto simp: val_ok_def split: stun_val.splits)
  then show ?thesis using K_addr parses_addr [OF v(2), of None]
    by (auto simp: val_img_def stun_value_decode_def tid_ok_def parses_ret intro!: parses_bind_Nil)
next
  case K_xor_addr
  with ok obtain sa where v: "v = V_sa sa" "addr_ok sa" by (auto simp: val_ok_def split: stun_val.splits)
  then show ?thesis using K_xor_addr parses_addr [OF v(2), of "Some tid"] t
    by (auto simp: val_img_def stun_value_decode_def tid_ok_def parses_ret intro!: parses_bind_Nil)
next
  case K_change_req
  with ok obtain a b where v: "v = V_change_req a b" by (cases v) (auto simp: val_ok_def)
  show ?thesis unfolding val_img_def stun_value_decode_def K_change_req attr_kind.case
    by (rule parses_check, simp, rule parses_bind_Nil [OF parses_u32])
      (simp only: v stun_val.sel change_req_split parses_ret)
next
  case K_str
  with ok obtain s where v: "v = V_str s" "cstring s" "length s < 2 ^ 16" by (auto simp: val_ok_def split: stun_val.splits)
  then show ?thesis using K_str parses_str [OF al v(2,3)]
    by (auto simp: val_img_def stun_value_decode_def parses_ret intro!: parses_bind_Nil)
next
  case K_msg_integrity
  with ok obtain m where v: "v = V_msg_integrity m" "length m = 20" by (auto simp: val_ok_def split: stun_val.splits)
  then show ?thesis using K_msg_integrity parses_mem [of 20 m]
    by (auto simp: val_img_def stun_value_decode_def parses_ret intro!: parses_check parses_bind_Nil)
next
  case K_err_code
  with ok obtain ec s where v: "v = V_err_code ec" "ec_code ec < 800" "ec_reason ec = Some s" "cstring s" "length s + 4 < 2 ^ 16"
    by (auto simp: val_ok_def split: stun_val.splits)
  let ?c = "word_of_nat (unat (ec_code ec) div 100) :: u8" and ?n = "word_of_nat (unat (ec_code ec) mod 100) :: u8"
  have i: "val_img type v (Some tid) = be16 0 @ [?c] @ [?n] @ s" using K_err_code by (simp add: val_img_def v)
  have r: "ec = \<lparr>ec_code = ucast (?c AND 0x7) * 100 + ucast ?n, ec_reason = Some s\<rparr>"
    using err_code_split [OF v(2)] v(3) by (cases ec) simp
  have l: "length (val_img type v (Some tid)) - 4 = length s" "4 \<le> length (val_img type v (Some tid))" by (simp_all add: i)
  have ps: "parses (str_decode al (length s)) s s" by (rule parses_str [OF al v(4)]) (use v(5) in simp)
  show ?thesis unfolding stun_value_decode_def K_err_code attr_kind.case l(1)
    by (rule parses_check, rule l(2), unfold i, rule parses_bind [OF parses_advance], simp, rule parses_bind [OF parses_u8],
        rule parses_bind [OF parses_u8], rule parses_bind_Nil [OF ps]) (simp add: r [symmetric] v(1) parses_ret)
next
  case K_unknown_attr
  with ok obtain u where v: "v = V_unknown_attr u" "typec u \<le> UA_MAX" "length (typev u) = UA_MAX"
    and z: "typev u = take (typec u) (typev u) @ replicate (UA_MAX - typec u) 0"
    by (auto simp: val_ok_def split: stun_val.splits)
  let ?ts = "take (typec u) (typev u)"
  have i: "val_img type v (Some tid) = concat (map be16 ?ts)"
    using K_unknown_attr v by (simp add: val_img_def unknown_img)
  have "length (concat (map be16 xs)) = 2 * length xs" for xs by (induction xs) simp_all
  then have l: "length (concat (map be16 ?ts)) div 2 = length ?ts" "length ?ts = typec u" using v by simp_all
  have "take UA_MAX (?ts @ replicate UA_MAX 0) = ?ts @ replicate (UA_MAX - typec u) 0" using v by simp
  then have u: "u = \<lparr>typev = take UA_MAX (?ts @ replicate UA_MAX 0), typec = min (typec u) UA_MAX\<rparr>"
    using z v(2) by (cases u) simp
  have p: "parses (d_rep (length ?ts) d_u16) (concat (map be16 ?ts)) ?ts" by (rule parses_rep) (simp_all add: parses_u16)
  have e: "d_ret (V_unknown_attr \<lparr>typev = take UA_MAX (?ts @ replicate UA_MAX 0), typec = min (typec u) UA_MAX\<rparr>, ua) =
      d_ret (v, ua)" unfolding v(1) by (rule arg_cong [OF u [symmetric], where f = "\<lambda>u. d_ret (V_unknown_attr u, ua)"])
  show ?thesis unfolding stun_value_decode_def K_unknown_attr attr_kind.case i l
    by (rule parses_bind_Nil [OF p [unfolded l(2)]]) (simp only: e parses_ret)
next
  case K_u32
  with ok obtain n where v: "v = V_u32 n" by (cases v) (auto simp: val_ok_def)
  then show ?thesis using K_u32 parses_u32 [of n]
    by (auto simp: val_img_def stun_value_decode_def parses_ret intro!: parses_check parses_bind_Nil)
next
  case K_u64
  with ok obtain n where v: "v = V_u64 n" by (cases v) (auto simp: val_ok_def)
  then show ?thesis using K_u64 parses_u64 [of n]
    by (auto simp: val_img_def stun_value_decode_def parses_ret intro!: parses_check parses_bind_Nil)
next
  case K_even_port
  with ok obtain a where v: "v = V_even_port a" by (cases v) (auto simp: val_ok_def)
  show ?thesis unfolding val_img_def stun_value_decode_def K_even_port attr_kind.case
    by (rule parses_check, simp, rule parses_bind_Nil [OF parses_u8]) (simp only: v stun_val.sel even_port_split parses_ret)
next
  case K_none
  with ok have v: "v = V_none" by (simp add: val_ok_def)
  show ?thesis using K_none by (auto simp: v val_img_def stun_value_decode_def parses_ret intro!: parses_check)
next
  case K_default
  with ok show ?thesis by (simp add: val_ok_def)
qed (use k in simp_all)

lemma mbuf_left_upto:
  assumes "mbuf_wf mb" "n \<le> length (mbuf_left mb)"
  shows "mbuf_left (mb\<lparr>mb_end := szt (mb_pos mb + n)\<rparr>) = take n (mbuf_left mb)"
proof -
  have "mb_pos mb + n < 2 ^ 64" using mbuf_wf_skip [OF assms] by (simp add: mbuf_wf_def)
  moreover have "n \<le> mbuf_get_left mb" using assms(2) length_mbuf_left [OF assms(1)] by simp
  ultimately show ?thesis by (auto simp: mbuf_left_def mbuf_get_left_def mbuf_bytes_def min_def)
qed

lemma value_yields:
  assumes ok: "val_ok type v" and t: "length tid = 12" and al: "small_allocs al"
  shows "yields (stun_value_decode al tid ua type (length (val_img type v (Some tid)))) (val_img type v (Some tid))
     (read_len type (length (val_img type v (Some tid)))) (\<lambda>(w, ua'). val_same w v \<and> ua' = ua)"
proof (cases "stun_kind type = K_data")
  case True
  with ok obtain m where v: "v = V_mb (Some m)" by (auto simp: val_ok_def split: stun_val.splits)
  have i: "val_img type v (Some tid) = mbuf_left m" using True by (simp add: val_img_def v)
  have rl: "read_len type n = n" for n using True by (simp add: read_len_def)
  show ?thesis
    unfolding yields_def i rl
  proof (intro allI impI)
    fix mb rest assume wf: "mbuf_wf mb" and l: "mbuf_left mb = mbuf_left m @ rest"
    let ?n = "length (mbuf_left m)"
    have le: "?n \<le> length (mbuf_left mb)" using l by simp
    have adv: "d_advance ?n mb = (Inr (), mbuf_skip mb ?n)" by (simp add: d_advance_def mbuf_advance_skip wf le)
    have "mbuf_left (mb\<lparr>mb_end := szt (mb_pos mb + ?n)\<rparr>) = take ?n (mbuf_left mb)" by (rule mbuf_left_upto [OF wf le])
    then have "mbuf_left (mb\<lparr>mb_end := szt (mb_pos mb + ?n)\<rparr>) = mbuf_left m" by (simp add: l)
    then show "\<exists>x. (case x of (w, ua') \<Rightarrow> val_same w v \<and> ua' = ua) \<and>
        stun_value_decode al tid ua type ?n mb = (Inr x, mbuf_skip mb ?n)"
      using True adv
      by (intro exI [of _ "(V_mb (Some (mb\<lparr>mb_end := szt (mb_pos mb + ?n)\<rparr>)), ua)"])
        (simp add: stun_value_decode_def d_bind_def d_get_def d_ret_def val_same_def v)
  qed
next
  case nd: False
  show ?thesis
  proof (cases "stun_kind type \<in> {K_u16, K_u8}")
    case False
    then have "read_len type n = n" for n by (simp add: read_len_def nd split: attr_kind.split)
    then show ?thesis
      using yieldsI [OF value_parses [OF ok t al, of ua], of "\<lambda>(w, ua'). val_same w v \<and> ua' = ua" "[]"] False nd
      by (simp add: val_same_def)
  next
    case True
    then show ?thesis
    proof (elim insertE)
      assume k: "stun_kind type = K_u16"
      with ok obtain n where v: "v = V_u16 n" by (cases v) (auto simp: val_ok_def)
      have "parses (stun_value_decode al tid ua type (length (val_img type v (Some tid)))) (be16 n) (v, ua)"
        using k parses_u16 [of n] by (auto simp: v val_img_def stun_value_decode_def parses_ret intro!: parses_check parses_bind_Nil)
      from yieldsI [OF this, of "\<lambda>(w, ua'). val_same w v \<and> ua' = ua" "be16 0"] show ?thesis
        using k by (simp add: v val_img_def read_len_def val_same_def)
    next
      assume k: "stun_kind type = K_u8"
      with ok obtain n where v: "v = V_u8 n" by (cases v) (auto simp: val_ok_def)
      have "parses (stun_value_decode al tid ua type (length (val_img type v (Some tid)))) [n] (v, ua)"
        using k parses_u8 [of n] by (auto simp: v val_img_def stun_value_decode_def parses_ret intro!: parses_check parses_bind_Nil)
      from yieldsI [OF this, of "\<lambda>(w, ua'). val_same w v \<and> ua' = ua" "[0] @ be16 0"] show ?thesis
        using k by (simp add: v val_img_def read_len_def val_same_def)
    qed simp
  qed
qed

lemma stun_skip_pad_bytes:
  assumes "mbuf_wf mb" "start \<le> mb_pos mb" "n = pad_len (mb_pos mb - start)" "n \<le> length (mbuf_left mb)"
  shows "stun_skip_pad start mb = mbuf_skip mb n"
  using assms
proof (induction n arbitrary: mb)
  case 0
  have "sz_sub (mb_pos mb) start = mb_pos mb - start" by (rule sz_sub_eq) (use 0 in \<open>simp_all add: mbuf_wf_def\<close>)
  then show ?case using 0 pad_len_simps(3) [of "mb_pos mb - start"] by (simp add: stun_skip_pad.simps)
next
  case (Suc n)
  let ?m = "mb_pos mb - start" and ?mb1 = "mbuf_skip mb 1"
  have s: "sz_sub (mb_pos mb) start = ?m" by (rule sz_sub_eq) (use Suc.prems in \<open>simp_all add: mbuf_wf_def\<close>)
  have nz: "?m mod 4 \<noteq> 0" using Suc.prems(3) pad_len_simps(3) [of ?m] by simp
  have w1: "mbuf_wf ?mb1" by (rule mbuf_wf_skip) (use Suc.prems in simp_all)
  then have "szt (mb_pos mb + 1) = mb_pos mb + 1" by (simp add: mbuf_wf_def)
  then have e: "mb\<lparr>mb_pos := szt (mb_pos mb + 1)\<rparr> = ?mb1" by (simp add: mbuf_skip_def)
  have "mbuf_get_left mb \<noteq> 0" using Suc.prems(4) length_mbuf_left [OF Suc.prems(1)] by linarith
  then have "stun_skip_pad start mb = stun_skip_pad start ?mb1" using nz s e by (subst stun_skip_pad.simps) simp
  moreover have "mb_pos ?mb1 - start = Suc ?m" using Suc.prems(2) by simp
  then have "n = pad_len (mb_pos ?mb1 - start)" using pad_len_simps(4) [OF nz] Suc.prems(3) by simp
  then have "stun_skip_pad start ?mb1 = mbuf_skip ?mb1 n"
    by (intro Suc.IH [OF w1]) (use Suc.prems in \<open>simp_all add: mbuf_left_skip\<close>)
  ultimately show ?case by simp
qed

lemma read_len_pad:
  assumes "val_ok type v"
  shows "read_len type (length (val_img type v tid)) \<le> length (val_img type v tid)"
    "read_len type (length (val_img type v tid)) + pad_len (read_len type (length (val_img type v tid))) =
       length (val_img type v tid) + pad_len (length (val_img type v tid))"
  by (cases "stun_kind type"; simp add: read_len_def val_img_def pad_len_def)+

lemma val_img_small:
  assumes "val_ok type v" "tid_ok tid"
  shows "length (val_img type v tid) < 2 ^ 16"
proof (cases "stun_kind type")
  case K_unknown_attr
  have "length (concat (map (\<lambda>i. be16 (f i)) xs)) = 2 * length xs" for f :: "nat \<Rightarrow> u16" and xs by (induction xs) simp_all
  with K_unknown_attr show ?thesis using assms by (auto simp: val_ok_def val_img_def UA_MAX_def split: stun_val.splits)
qed (use assms in \<open>auto simp: val_ok_def val_img_def addr_img_def addr_ok_def tid_ok_def Let_def split: stun_val.splits\<close>)

lemma attr_yields:
  assumes ok: "val_ok type v" and t: "length tid = 12" and al: "small_allocs al"
  shows "yields (stun_attr_decode al tid ua) (attr_img type v (Some tid) padding) (length (attr_img type v (Some tid) padding))
     (\<lambda>(a, ua'). at_type a = type \<and> val_same (at_v a) v \<and> ua' = ua)"
  unfolding yields_def
proof (intro allI impI)
  fix mb rest assume wf: "mbuf_wf mb" and l: "mbuf_left mb = attr_img type v (Some tid) padding @ rest"
  let ?V = "val_img type v (Some tid)"
  let ?Z = "replicate (pad_len (length ?V)) padding @ rest"
  have l0: "mbuf_left mb = be16 type @ be16 (word_of_nat (length ?V)) @ ?V @ ?Z" using l by (simp add: attr_img_def)
  have u1: "d_u16 mb = (Inr type, mbuf_skip mb 2)" using parsesD [OF parses_u16 wf l0] by simp
  note m1 = mbuf_skip_left [OF wf l0, of 2, simplified]
  have u2: "d_u16 (mbuf_skip mb 2) = (Inr (word_of_nat (length ?V)), mbuf_skip mb 4)"
    using parsesD [OF parses_u16 m1(2,1)] by simp
  note m2 = mbuf_skip_left [OF m1(2,1), of 2, simplified]
  have small: "length ?V < 2 ^ 16" by (rule val_img_small [OF ok]) (simp add: tid_ok_def t)
  then have n: "unat (word_of_nat (length ?V) :: u16) = length ?V" by (simp add: unsigned_of_nat take_bit_nat_eq_self)
  let ?r = "read_len type (length ?V)"
  obtain w where w: "val_same w v" "stun_value_decode al tid ua type (length ?V) (mbuf_skip mb 4) = (Inr (w, ua), mbuf_skip mb (4 + ?r))"
    using value_yields [OF ok t al, of ua, unfolded yields_def, rule_format, OF m2(2,1)] by auto
  have pad: "stun_skip_pad (mb_pos (mbuf_skip mb 4)) (mbuf_skip mb (4 + ?r)) = mbuf_skip (mbuf_skip mb (4 + ?r)) (pad_len ?r)"
  proof (rule stun_skip_pad_bytes)
    have "4 + ?r \<le> length (mbuf_left mb)" using l0 read_len_pad(1) [OF ok, of "Some tid"] by simp
    then show "mbuf_wf (mbuf_skip mb (4 + ?r))" by (rule mbuf_wf_skip [OF wf])
    show "pad_len ?r \<le> length (mbuf_left (mbuf_skip mb (4 + ?r)))"
      using l0 read_len_pad [OF ok, of "Some tid"] by (simp add: mbuf_left_skip)
  qed simp_all
  obtain blk where al': "mem_alloc al sizeof_stun_attr = Some blk"
    using al by (fastforce simp: small_allocs_def sizeof_stun_attr_def)
  have "mbuf_get_left mb \<ge> 4" "\<not> mbuf_get_left (mbuf_skip mb 4) < length ?V"
    using l0 m2 wf by (simp_all add: mbuf_get_left_rd)
  then have "stun_attr_decode al tid ua mb = (Inr (\<lparr>at_type = type, at_v = w\<rparr>, ua), mbuf_skip mb (4 + ?r + pad_len ?r))"
    using al' u1 u2 n w(2) pad
    by (simp add: stun_attr_decode_def d_need_def d_alloc_def d_bind_def d_get_def d_skip_pad_def d_ret_def)
  moreover have "4 + ?r + pad_len ?r = length (attr_img type v (Some tid) padding)"
    using read_len_pad(2) [OF ok, of "Some tid"] by (simp add: attr_img_def)
  ultimately show "\<exists>x. (case x of (a, ua') \<Rightarrow> at_type a = type \<and> val_same (at_v a) v \<and> ua' = ua) \<and>
      stun_attr_decode al tid ua mb = (Inr x, mbuf_skip mb (length (attr_img type v (Some tid) padding)))"
    using w(1) by auto
qed

lemma attr_img_length: "4 \<le> length (attr_img type v tid padding)" "length (attr_img type v tid padding) mod 4 = 0"
proof -
  let ?n = "length (val_img type v tid)"
  have l: "length (attr_img type v tid padding) = 4 + (?n + pad_len ?n)" by (simp add: attr_img_def)
  show "4 \<le> length (attr_img type v tid padding)" by (simp add: l)
  show "length (attr_img type v tid padding) mod 4 = 0" unfolding l using pad_len_simps(2) [of ?n] by (simp only: mod_add_self1)
qed

lemma attrs_img_mod4: "length (attrs_img tid padding xs) mod 4 = 0"
  by (induction xs) (use attr_img_length(2) in \<open>auto simp: attrs_img_def mod_add_eq [symmetric]\<close>)

definition attr_same :: "stun_attr \<Rightarrow> u16 \<times> stun_val \<Rightarrow> bool" where
  "attr_same a tv \<longleftrightarrow> at_type a = fst tv \<and> val_same (at_v a) (snd tv)"

lemma attrs_decoded:
  assumes "\<And>type v. (type, v) \<in> set xs \<Longrightarrow> val_ok type v" "length tid = 12" "small_allocs al"
    "mbuf_wf mb" "mbuf_left mb = attrs_img tid padding xs @ rest"
  shows "\<exists>as. stun_attrs_decode al tid (length rest) ua attrl mb =
       Some (Inr (attrl @ as), ua, mbuf_skip mb (length (attrs_img tid padding xs))) \<and> list_all2 attr_same as xs"
  using assms
proof (induction xs arbitrary: attrl mb)
  case Nil
  then have l: "mbuf_get_left mb = length rest" by (simp add: attrs_img_def mbuf_get_left_rd)
  have "length rest \<le> mb_end mb" using l by (auto simp: mbuf_get_left_def split: if_splits)
  then have "sz_sub (length rest) (length rest) = 0"
    using Nil.prems(4) by (subst sz_sub_eq) (simp_all add: mbuf_wf_def MEM_SIZE_MAX_def)
  then have "stun_attrs_decode al tid (length rest) ua attrl mb = Some (Inr attrl, ua, mb)"
    using l by (simp add: stun_attrs_decode.simps)
  then show ?case by (simp add: attrs_img_def)
next
  case (Cons x xs)
  obtain type v where x: "x = (type, v)" by fastforce
  let ?I = "attr_img type v (Some tid) padding" and ?R = "attrs_img tid padding xs"
  have i: "attrs_img tid padding (x # xs) = ?I @ ?R" by (simp add: attrs_img_def x)
  have l: "mbuf_left mb = ?I @ ?R @ rest" using Cons.prems(5) i by simp
  have gl: "mbuf_get_left mb = length ?I + length ?R + length rest" using Cons.prems(4) l by (simp add: mbuf_get_left_rd)
  have "mbuf_get_left mb < 2 ^ 64" using Cons.prems(4) by (auto simp: mbuf_get_left_def mbuf_wf_def MEM_SIZE_MAX_def)
  then have s: "sz_sub (mbuf_get_left mb) (length rest) = length ?I + length ?R" using gl by (subst sz_sub_eq) simp_all
  have ok: "val_ok type v" using Cons.prems(1) x by simp
  obtain a where a: "stun_attr_decode al tid ua mb = (Inr (a, ua), mbuf_skip mb (length ?I))" "attr_same a x"
    using attr_yields [OF ok Cons.prems(2,3), of ua padding, unfolded yields_def, rule_format, OF Cons.prems(4) l]
    by (auto simp: attr_same_def x)
  note m = mbuf_skip_left [OF Cons.prems(4) l refl]
  have ok': "(t, w) \<in> set xs \<Longrightarrow> val_ok t w" for t w using Cons.prems(1) by simp
  from Cons.IH [OF ok' Cons.prems(2,3) m(2,1), of "attrl @ [a]"] obtain as where
    as: "stun_attrs_decode al tid (length rest) ua (attrl @ [a]) (mbuf_skip mb (length ?I)) =
      Some (Inr ((attrl @ [a]) @ as), ua, mbuf_skip (mbuf_skip mb (length ?I)) (length ?R))" "list_all2 attr_same as xs" by blast
  have "4 \<le> length ?I + length ?R" using attr_img_length(1) [of type v "Some tid" padding] by simp
  then have "stun_attrs_decode al tid (length rest) ua attrl mb =
      Some (Inr (attrl @ a # as), ua, mbuf_skip mb (length (attrs_img tid padding (x # xs))))"
    using as(1) by (subst stun_attrs_decode.simps) (simp add: s a(1) i)
  then show ?case using as(2) a(2) by (intro exI [of _ "a # as"]) simp
qed

lemma hdr_decoded:
  assumes "mbuf_wf mb" "mbuf_left mb = hdr_img h @ X" "length (sh_tid h) = 12" "sh_type h AND 0xc000 = 0"
    "sh_type h AND 0x3fff = sh_type h" "sh_len h AND 0x3 = 0" "unat (sh_len h) \<le> length X"
  shows "stun_hdr_decode mb = (Inr h, mbuf_skip mb 20)"
proof -
  have l0: "mbuf_left mb = be16 (sh_type h) @ be16 (sh_len h) @ be32 (sh_cookie h) @ sh_tid h @ X"
    using assms(2,3,5) by (simp add: hdr_img_def stun_sizes)
  note m1 = mbuf_skip_left [OF assms(1) l0, of 2, simplified]
  note m2 = mbuf_skip_left [OF m1(2,1), of 2, simplified]
  note m3 = mbuf_skip_left [OF m2(2,1), of 4, simplified]
  note m4 = mbuf_skip_left [OF m3(2,1), of 12, simplified, OF assms(3)]
  have "d_u16 mb = (Inr (sh_type h), mbuf_skip mb 2)" using parsesD [OF parses_u16 assms(1) l0] by simp
  moreover have "d_u16 (mbuf_skip mb 2) = (Inr (sh_len h), mbuf_skip mb 4)" using parsesD [OF parses_u16 m1(2,1)] by simp
  moreover have "d_u32 (mbuf_skip mb 4) = (Inr (sh_cookie h), mbuf_skip mb 8)" using parsesD [OF parses_u32 m2(2,1)] by simp
  moreover have "d_mem 12 (mbuf_skip mb 8) = (Inr (sh_tid h), mbuf_skip mb 20)"
    using parsesD [OF parses_mem [of 12 "sh_tid h"] m3(2,1)] assms(3) by simp
  moreover have "\<not> mbuf_get_left mb < 20" "\<not> mbuf_get_left (mbuf_skip mb 20) < unat (sh_len h)"
    using assms(1,3,7) l0 m4 by (simp_all add: mbuf_get_left_rd)
  ultimately show ?thesis using assms(4,6)
    by (simp add: stun_hdr_decode_def d_need_def d_bind_def d_check_def d_ret_def stun_sizes)
qed

lemma and3_mod4: "n < 2 ^ 16 \<Longrightarrow> n mod 4 = 0 \<Longrightarrow> (word_of_nat n :: u16) AND 0x3 = 0"
proof -
  assume n: "n < 2 ^ 16" "n mod 4 = 0"
  have "unat ((word_of_nat n :: u16) AND 0x3) = n mod 2 ^ 16 mod 2 ^ 2"
    unfolding and_masks unat_take_bit by (simp add: unsigned_of_nat take_bit_eq_mod)
  then have "unat ((word_of_nat n :: u16) AND 0x3) = 0" using n by simp
  then show ?thesis by (simp only: unat_eq_0)
qed

lemma hdr_of_simps:
  "sh_tid (hdr_of m c tid n) = tid" "sh_type (hdr_of m c tid n) = STUN_TYPE m c"
  "sh_len (hdr_of m c tid n) = word_of_nat n" "sh_cookie (hdr_of m c tid n) = STUN_MAGIC_COOKIE"
  "(hdr_of m c tid n)\<lparr>sh_len := word_of_nat k\<rparr> = hdr_of m c tid k"
  by (simp_all add: hdr_of_def)

lemma msg_decoded:
  assumes "mbuf_wf mb" "mbuf_left mb = hdr_img h @ X" "X = attrs_img tid padding xs" "h = hdr_of meth cls tid (length X)"
    "length X < 2 ^ 16" "\<And>type v. (type, v) \<in> set xs \<Longrightarrow> val_ok type v" "length tid = 12" "small_allocs al"
  shows "\<exists>as. stun_msg_decode al mb ua =
      Some (Inr \<lparr>sm_hdr = h, sm_attrl = as, sm_mb = mb, sm_start = mb_pos mb\<rparr>, map_option (\<lambda>u. u\<lparr>typec := 0\<rparr>) ua, mb) \<and>
      list_all2 attr_same as xs"
proof -
  have n: "unat (sh_len h) = length X" using assms(5) by (simp add: assms(4) hdr_of_simps unsigned_of_nat take_bit_nat_eq_self)
  have hd: "stun_hdr_decode mb = (Inr h, mbuf_skip mb 20)"
  proof (rule hdr_decoded [OF assms(1,2)])
    show "sh_len h AND 0x3 = 0" unfolding assms(4) hdr_of_simps
      by (rule and3_mod4 [OF assms(5)]) (simp only: assms(3) attrs_img_mod4)
  qed (use n assms(7) in \<open>simp_all add: assms(4) hdr_of_simps STUN_TYPE_top\<close>)
  have "length (hdr_img h) = 20" using assms(7) by (simp add: assms(4) hdr_of_simps)
  note m = mbuf_skip_left [OF assms(1,2) this]
  have l: "mbuf_left (mbuf_skip mb 20) = attrs_img tid padding xs @ []" using m(1) assms(3) by simp
  from attrs_decoded [OF assms(6-8) m(2) l, of "map_option (\<lambda>u. u\<lparr>typec := 0\<rparr>) ua" "[]"] obtain as where
    as: "stun_attrs_decode al tid 0 (map_option (\<lambda>u. u\<lparr>typec := 0\<rparr>) ua) [] (mbuf_skip mb 20) =
      Some (Inr as, map_option (\<lambda>u. u\<lparr>typec := 0\<rparr>) ua, mbuf_skip mb (20 + length X))" "list_all2 attr_same as xs"
    by (auto simp: assms(3))
  have "sz_sub (length X) (length X) = 0" using assms(5) by (subst sz_sub_eq) simp_all
  moreover have "mbuf_get_left (mbuf_skip mb 20) = length X" using m by (simp add: mbuf_get_left_rd)
  moreover obtain blk where "mem_alloc al sizeof_stun_msg = Some blk"
    using assms(8) by (fastforce simp: small_allocs_def sizeof_stun_msg_def)
  moreover have "(mbuf_skip mb k)\<lparr>mb_pos := mb_pos mb\<rparr> = mb" for k by (simp add: mbuf_skip_def)
  ultimately show ?thesis using as(2) n
    by (intro exI [of _ as]) (simp add: stun_msg_decode_def hd as(1) mem_zalloc_def assms(4) hdr_of_simps Let_def)
qed

text \<open>Rewriting the length of a message that lies in its buffer.\<close>

lemma rehdr_lay:
  assumes "lay (sm_mb msg) P (H @ X)" "mb_pos (sm_mb msg) = length P" "length H = 20" "length (sh_tid (sm_hdr msg)) = 12"
    "length P + 20 \<le> mb_end (sm_mb msg)"
  obtains mb1 where "stun_msg_rehdr al msg n = msg\<lparr>sm_hdr := (sm_hdr msg)\<lparr>sh_len := n\<rparr>, sm_mb := mb1\<rparr>"
    "lay mb1 P (hdr_img ((sm_hdr msg)\<lparr>sh_len := n\<rparr>) @ X)" "mb_pos mb1 = length P" "mb_end mb1 = mb_end (sm_mb msg)"
proof -
  let ?h = "(sm_hdr msg)\<lparr>sh_len := n\<rparr>"
  have e: "sm_mb msg = (sm_mb msg)\<lparr>mb_pos := length P\<rparr>" using assms(2) by simp
  have t: "length (sh_tid ?h) = 12" using assms(4) by simp
  from stun_hdr_lay [OF assms(1,3) t, of al] obtain mb1 where
    1: "stun_hdr_encode al (sm_mb msg) ?h = (0, mb1)" "lay mb1 P (hdr_img ?h @ X)" "mb_pos mb1 = length P + 20"
    "mb_end mb1 = mb_end (sm_mb msg)" using e assms(5) by (auto simp: max_def)
  note d = layD [OF 1(2)]
  have s: "sz_sub (mb_pos mb1) STUN_HEADER_SIZE = length P" using 1(3) d by (subst sz_sub_eq) (simp_all add: stun_sizes)
  show thesis
    by (rule that [of "mb1\<lparr>mb_pos := length P\<rparr>"])
      (use 1 s d lay_pos [OF 1(2), of "length P"] in \<open>simp_all add: stun_msg_rehdr_def Let_def\<close>)
qed

lemma lay_bytes:
  assumes "lay mb P (A @ C)"
  shows "take (length A) (drop (length P) (mbuf_bytes mb)) = A"
proof -
  have "drop (length P) (take (length P + length (A @ C)) (mbuf_bytes mb)) = A @ C" using layD(2) [OF assms] by simp
  then have "take (length (A @ C)) (drop (length P) (mbuf_bytes mb)) = A @ C" by (simp add: drop_take)
  then have "take (length A) (take (length (A @ C)) (drop (length P) (mbuf_bytes mb))) = A" by simp
  then show ?thesis by simp
qed

lemma chk_mi_hash:
  assumes l: "lay (sm_mb msg) P (hdr_img (sm_hdr msg) @ B @ M @ F)" and p: "sm_start msg = length P"
    and e: "mb_end (sm_mb msg) = length P + 20 + length (B @ M @ F)"
    and h: "sm_hdr msg = hdr_of meth cls tid (length (B @ M @ F))" and t: "length tid = 12"
    and M: "length M = 24" and F: "length F = (if stun_msg_attr (Some msg) STUN_ATTR_FINGERPRINT = None then 0 else 8)"
    and sm: "length (B @ M @ F) < 2 ^ 16"
    and mi: "stun_msg_attr (Some msg) STUN_ATTR_MSG_INTEGRITY = Some a" "v_msg_integrity (at_v a) = m" "length m = 20"
    and hm: "\<And>k d. length (hm k d) = 20"
  shows "fst (stun_msg_chk_mi hm al msg k) =
     (if m = hm k (hdr_img (hdr_of meth cls tid (length B + 24)) @ B) then 0 else EBADMSG)"
proof -
  let ?msg0 = "msg\<lparr>sm_mb := (sm_mb msg)\<lparr>mb_pos := sm_start msg\<rparr>\<rparr>"
  let ?fp = "stun_msg_attr (Some msg) STUN_ATTR_FINGERPRINT"
  let ?h = "hdr_of meth cls tid (length B + 24)"
  let ?msg1 = "if ?fp \<noteq> None then stun_msg_rehdr al ?msg0 (sh_len (sm_hdr ?msg0) - word_of_nat FP_SIZE) else ?msg0"
  note d = layD [OF l]
  have hh: "length (hdr_img (hdr_of meth cls tid n)) = 20" for n using t by (simp add: hdr_of_simps)
  have l0: "lay (sm_mb ?msg0) P (hdr_img (sm_hdr msg) @ B @ M @ F)" "mb_pos (sm_mb ?msg0) = length P"
    using lay_pos [OF l] p d by simp_all
  have sub: "(word_of_nat (length B + 32) :: u16) - word_of_nat FP_SIZE = word_of_nat (length B + 24)"
    by (simp add: FP_SIZE_def)
  have "lay (sm_mb ?msg1) P (hdr_img ?h @ B @ M @ F) \<and> mb_pos (sm_mb ?msg1) = length P \<and> sm_hdr ?msg1 = ?h"
  proof (cases "?fp = None")
    case True
    then have "length (B @ M @ F) = length B + 24" using F M by simp
    with True show ?thesis using l0 h by simp
  next
    case False
    then have n: "length (B @ M @ F) = length B + 32" using F M by simp
    have len: "sh_len (sm_hdr ?msg0) - word_of_nat FP_SIZE = word_of_nat (length B + 24)"
      using h sub unfolding n by (simp add: hdr_of_simps del: of_nat_add)
    have l20: "length (hdr_img (sm_hdr msg)) = 20" unfolding h by (rule hh)
    obtain mb1 where "stun_msg_rehdr al ?msg0 (word_of_nat (length B + 24)) =
          ?msg0\<lparr>sm_hdr := (sm_hdr ?msg0)\<lparr>sh_len := word_of_nat (length B + 24)\<rparr>, sm_mb := mb1\<rparr>"
        "lay mb1 P (hdr_img ((sm_hdr ?msg0)\<lparr>sh_len := word_of_nat (length B + 24)\<rparr>) @ B @ M @ F)" "mb_pos mb1 = length P"
      by (rule rehdr_lay [OF l0 l20, where al = al and n = "word_of_nat (length B + 24)"]) (use e h t in \<open>simp_all add: hdr_of_simps\<close>)
    with False show ?thesis unfolding len by (simp add: h hdr_of_simps del: of_nat_add)
  qed
  then have 1: "lay (sm_mb ?msg1) P ((hdr_img ?h @ B) @ M @ F)" "mb_pos (sm_mb ?msg1) = length P" "sm_hdr ?msg1 = ?h"
    by simp_all
  have "length B + 24 < 2 ^ 16" using sm M by simp
  then have "uint (word_of_nat (length B + 24) :: u16) = int (length B + 24)" by (rule uint_u16)
  then have "stun_mi_len ?h = 20 + length B" using sm
    by (simp add: stun_mi_len_def stun_sizes hdr_of_simps nat_int_add del: of_nat_add)
  then have "take (stun_mi_len (sm_hdr ?msg1)) (drop (mb_pos (sm_mb ?msg1)) (mbuf_bytes (sm_mb ?msg1))) = hdr_img ?h @ B"
    using lay_bytes [OF 1(1)] hh by (simp only: 1(2,3) length_append)
  then show ?thesis using mi hm
    unfolding stun_msg_chk_mi_def mi(1) option.case Let_def
    by (simp add: stun_msg_attr_def)
qed

lemma chk_fp_hash:
  assumes l: "lay (sm_mb msg) P (hdr_img (sm_hdr msg) @ B @ F)" and p: "sm_start msg = length P"
    and h: "sm_hdr msg = hdr_of meth cls tid (length (B @ F))" and t: "length tid = 12"
    and F: "length F = 8" and sm: "length (B @ F) < 2 ^ 16"
    and fp: "stun_msg_attr (Some msg) STUN_ATTR_FINGERPRINT = Some a"
  shows "fst (stun_msg_chk_fingerprint msg) = (if fingerprint (hdr_img (sm_hdr msg) @ B) = v_u32 (at_v a) then 0 else EBADMSG)"
proof -
  have n: "length (B @ F) = length B + 8" using F by simp
  have "length B + 8 < 2 ^ 16" using sm n by simp
  then have "uint (word_of_nat (length B + 8) :: u16) = int (length B + 8)" by (rule uint_u16)
  then have fl: "stun_fp_len (sm_hdr msg) = 20 + length B" using sm unfolding h n
    by (simp add: stun_fp_len_def stun_sizes hdr_of_simps del: of_nat_add)
  have "lay (sm_mb msg) P ((hdr_img (sm_hdr msg) @ B) @ F)" using l by simp
  from lay_bytes [OF this] have "take (20 + length B) (drop (length P) (mbuf_bytes (sm_mb msg))) = hdr_img (sm_hdr msg) @ B"
    using t by (simp add: h hdr_of_simps del: of_nat_add)
  moreover have "mbuf_bytes ((sm_mb msg)\<lparr>mb_pos := length P\<rparr>) = mbuf_bytes (sm_mb msg)" by (simp add: mbuf_bytes_def)
  ultimately show ?thesis using p fl by (simp add: stun_msg_chk_fingerprint_def fp Let_def)
qed

text \<open>Looking up an attribute in a decoded list.\<close>

lemma find_none: "list_all2 attr_same as xs \<Longrightarrow> type \<notin> fst ` set xs \<Longrightarrow>
   stun_attrl_find (\<lambda>a. at_type a = type) as = None"
  by (induction rule: list_all2_induct) (auto simp: attr_same_def)

lemma find_first: "list_all2 attr_same as (xs @ (type, v) # ys) \<Longrightarrow> type \<notin> fst ` set xs \<Longrightarrow>
   \<exists>a. stun_attrl_find (\<lambda>a. at_type a = type) as = Some a \<and> val_same (at_v a) v"
proof (induction xs arbitrary: as)
  case Nil
  then show ?case by (auto simp: list_all2_Cons2 attr_same_def)
next
  case (Cons x xs)
  then show ?case by (auto simp: list_all2_Cons2 attr_same_def)
qed

section \<open>Decoding arbitrary data\<close>

lemma safe_hdr [d_safes]: "d_safe stun_hdr_decode"
  unfolding stun_hdr_decode_def by (intro d_safes)

lemma safe_addr [d_safes]: "d_safe (stun_addr_decode tid)"
  unfolding stun_addr_decode_def by (intro d_safes)

lemma safe_str [d_safes]: "d_safe (str_decode al n)"
  unfolding str_decode_def by (intro d_safes)

lemma safe_skip_pad: "mbuf_wf mb \<Longrightarrow> mbuf_fwd mb (stun_skip_pad start mb)"
proof (induction start mb rule: stun_skip_pad.induct)
  case (1 start mb)
  show ?case
  proof (cases "sz_sub (mb_pos mb) start mod 4 \<noteq> 0 \<and> mbuf_get_left mb \<noteq> 0")
    case True
    then have le: "1 \<le> length (mbuf_left mb)" using length_mbuf_left [OF "1.prems"] by linarith
    have w: "mbuf_wf (mbuf_skip mb 1)" by (rule mbuf_wf_skip [OF "1.prems" le])
    then have "mb\<lparr>mb_pos := szt (mb_pos mb + 1)\<rparr> = mbuf_skip mb 1" by (simp add: mbuf_skip_def mbuf_wf_def)
    then have "mbuf_fwd (mbuf_skip mb 1) (stun_skip_pad start (mbuf_skip mb 1))" using "1.IH" [OF True] w by simp
    with mbuf_fwd_trans [OF mbuf_fwd_skip [OF le]] show ?thesis
      using True \<open>mb\<lparr>mb_pos := szt (mb_pos mb + 1)\<rparr> = mbuf_skip mb 1\<close> by (subst stun_skip_pad.simps) simp
  next
    case False
    then show ?thesis by (subst stun_skip_pad.simps) auto
  qed
qed

lemma safe_d_skip_pad [d_safes]: "d_safe (d_skip_pad start)"
  by (simp add: d_safe_def d_skip_pad_def safe_skip_pad)

lemma d_safe_at_mono: "d_safe_at m d \<Longrightarrow> m \<le> n \<Longrightarrow> d_safe_at n d"
  by (simp add: d_safe_at_def)

lemma safe_advance: "n \<le> m \<Longrightarrow> d_safe_at m (d_advance n)"
  by (rule d_safe_at_mono [OF d_takes_safe_at [OF d_takes_reads(6)]])

lemma safe_value: "d_safe_at len (stun_value_decode al tid ua type len)"
proof -
  have c: "d_safe_at len (d_check b e d)" if "b \<Longrightarrow> d_safe_at len d" for b e and d :: "'b dec"
    using that by (cases b) (simp_all add: d_check_def d_safe_at_0 d_safe_basic)
  show ?thesis
  proof (cases "stun_kind type")
    case K_err_code
    show ?thesis unfolding stun_value_decode_def K_err_code attr_kind.case
      by (intro c d_safe_at_bind safe_advance d_safes) simp
  next
    case K_data
    show ?thesis unfolding stun_value_decode_def K_data attr_kind.case
      by (intro d_safe_at_guards d_safe_at_bind safe_advance d_safes) simp
  next
    case K_default
    show ?thesis unfolding stun_value_decode_def K_default attr_kind.case
      by (intro d_safe_at_bind safe_advance d_safes) simp
  qed (simp_all add: stun_value_decode_def, (intro d_safe_at_0 d_safes)+)
qed

lemma safe_attr [d_safes]: "d_safe (stun_attr_decode al tid ua)"
  unfolding stun_attr_decode_def
  by (rule d_safe_guards(1), rule d_safe_guards(3), rule d_safe_bind, rule d_safe_reads, rule d_safe_bind,
      rule d_safe_reads, rule d_safe_need_at)
    (intro d_safe_at_guards d_safe_at_bind safe_value d_safes)

text \<open>What a successful decoder went through.\<close>

lemma d_ok:
  "d_bind d f mb = (Inr y, mb') \<longleftrightarrow> (\<exists>x mb1. d mb = (Inr x, mb1) \<and> f x mb1 = (Inr y, mb'))"
  "d_need n d' mb = (Inr y, mb') \<longleftrightarrow> n \<le> mbuf_get_left mb \<and> d' mb = (Inr y, mb')"
  "d_check b e d' mb = (Inr y, mb') \<longleftrightarrow> b \<and> d' mb = (Inr y, mb')"
  "d_alloc al n d' mb = (Inr y, mb') \<longleftrightarrow> mem_alloc al n \<noteq> None \<and> d' mb = (Inr y, mb')"
  "d_get mb = (Inr m, mb') \<longleftrightarrow> m = mb \<and> mb' = mb"
  "d_ret x mb = (Inr y, mb') \<longleftrightarrow> y = x \<and> mb' = mb"
  by (auto simp: d_bind_def d_need_def d_check_def d_alloc_def d_err_def d_get_def d_ret_def
      split: prod.splits sum.splits if_splits)

lemma d_takes_ok: "d_takes n d \<Longrightarrow> mbuf_wf mb \<Longrightarrow> n \<le> length (mbuf_left mb) \<Longrightarrow> d mb = (Inr x, mb') \<Longrightarrow> mb' = mbuf_skip mb n"
  unfolding d_takes_def by fastforce

definition ua_ok :: "stun_unknown_attr option \<Rightarrow> bool" where
  "ua_ok uap \<longleftrightarrow> (\<forall>u. uap = Some u \<longrightarrow> typec u \<le> UA_MAX \<and> length (typev u) = UA_MAX)"

definition attr_size :: "u16 \<Rightarrow> nat" where
  "attr_size type = (if type = STUN_ATTR_MSG_INTEGRITY then 24 else if type = STUN_ATTR_FINGERPRINT then 8 else 4)"

lemma value_ua: "stun_value_decode al tid ua type len mb = (Inr (v, ua'), mb') \<Longrightarrow> ua_ok ua \<Longrightarrow> ua_ok ua'"
  by (cases "stun_kind type")
    (auto simp: stun_value_decode_def d_ok ua_ok_def ua_add_def split: option.splits if_splits)

lemma value_size:
  assumes "stun_value_decode al tid ua type len mb = (Inr (v, ua'), mb')" "mbuf_wf mb" "len \<le> length (mbuf_left mb)"
  shows "\<exists>n. mb' = mbuf_skip mb n \<and> n \<le> length (mbuf_left mb) \<and> attr_size type \<le> 4 + n"
proof -
  obtain n where n: "n \<le> length (mbuf_left mb)" "mb' = mbuf_skip mb n"
    using safe_value [of len al tid ua type] assms unfolding d_safe_at_def mbuf_fwd_def by (metis snd_conv)
  have "mb' = mbuf_skip mb 20" if "type = STUN_ATTR_MSG_INTEGRITY"
    using assms d_takes_ok [OF d_takes_reads(5) [of 20] assms(2)] that by (auto simp: stun_value_decode_def d_ok)
  moreover have "mb' = mbuf_skip mb 4" if "type = STUN_ATTR_FINGERPRINT"
    using assms d_takes_ok [OF d_takes_reads(3) assms(2)] that by (auto simp: stun_value_decode_def d_ok)
  moreover have "n = k" if "mbuf_skip mb n = mbuf_skip mb k" for k
    using arg_cong [OF that, of mb_pos] by simp
  ultimately have "attr_size type \<le> 4 + n" using n(2) by (auto simp: attr_size_def)
  with n show ?thesis by blast
qed

lemma attr_decoded:
  assumes "stun_attr_decode al tid ua mb = (Inr (a, ua'), mb')" "mbuf_wf mb"
  shows "\<exists>n. mb' = mbuf_skip mb n \<and> n \<le> length (mbuf_left mb) \<and> attr_size (at_type a) \<le> n \<and> (ua_ok ua \<longrightarrow> ua_ok ua')"
proof -
  from assms(1) obtain type mb1 len mb2 v mb3 where
    l: "4 \<le> mbuf_get_left mb" and 1: "d_u16 mb = (Inr type, mb1)" and 2: "d_u16 mb1 = (Inr len, mb2)"
    and ln: "unat len \<le> mbuf_get_left mb2" and 3: "stun_value_decode al tid ua type (unat len) mb2 = (Inr (v, ua'), mb3)"
    and 4: "mb' = stun_skip_pad (mb_pos mb2) mb3" and a: "at_type a = type"
    unfolding stun_attr_decode_def by (auto simp: d_ok d_skip_pad_def split: prod.splits)
  have l': "4 \<le> length (mbuf_left mb)" using l length_mbuf_left [OF assms(2)] by simp
  have e1: "mb1 = mbuf_skip mb 2" using d_takes_ok [OF d_takes_reads(2) assms(2) _ 1] l' by simp
  have w1: "mbuf_wf mb1" unfolding e1 by (rule mbuf_wf_skip [OF assms(2)]) (use l' in simp)
  have e2: "mb2 = mbuf_skip mb 4" using d_takes_ok [OF d_takes_reads(2) w1 _ 2] l' by (simp add: e1 mbuf_left_skip)
  have w2: "mbuf_wf mb2" unfolding e2 by (rule mbuf_wf_skip [OF assms(2) l'])
  have ln': "unat len \<le> length (mbuf_left mb2)" using ln length_mbuf_left [OF w2] by simp
  from value_size [OF 3 w2 ln'] obtain n where n: "mb3 = mbuf_skip mb2 n" "n \<le> length (mbuf_left mb2)" "attr_size type \<le> 4 + n" by blast
  have w3: "mbuf_wf mb3" unfolding n(1) by (rule mbuf_wf_skip [OF w2 n(2)])
  from safe_skip_pad [OF w3, of "mb_pos mb2"] obtain k where k: "k \<le> length (mbuf_left mb3)" "mb' = mbuf_skip mb3 k"
    unfolding 4 mbuf_fwd_def by blast
  have "4 + n + k \<le> length (mbuf_left mb)" using k(1) n(1,2) l' by (simp add: e2 mbuf_left_skip)
  moreover have "ua_ok ua \<longrightarrow> ua_ok ua'" using value_ua [OF 3] by blast
  ultimately show ?thesis using k(2) n(1,3) a by (intro exI [of _ "4 + n + k"]) (simp add: e2)
qed

text \<open>Once the loop has read past the end of the message it can only fail; until then it stays
  within the length that the header gives.\<close>

lemma mbuf_left_small: "mbuf_wf mb \<Longrightarrow> mbuf_get_left mb < 2 ^ 32"
  by (auto simp: mbuf_get_left_def mbuf_wf_def MEM_SIZE_MAX_def)

lemma attrs_overrun:
  assumes "mbuf_wf mb" "mbuf_get_left mb < extra" "extra < 2 ^ 32" "ua_ok ua"
  shows "\<exists>e ua' n. stun_attrs_decode al tid extra ua attrl mb = Some (Inl e, ua', mbuf_skip mb n) \<and> ua_ok ua'"
  using assms
proof (induction "mbuf_get_left mb" arbitrary: mb ua attrl rule: less_induct)
  case less
  have "sz_sub (mbuf_get_left mb) extra = 2 ^ 64 - (extra - mbuf_get_left mb)"
    using less.prems by (simp add: sz_sub_def szt_def)
  then have go: "4 \<le> sz_sub (mbuf_get_left mb) extra" using less.prems by simp
  obtain r mb1 where d: "stun_attr_decode al tid ua mb = (r, mb1)" by fastforce
  show ?case
  proof (cases r)
    case (Inl e)
    have "mbuf_fwd mb mb1" using d_safeD [OF safe_attr less.prems(1), of al tid ua] d by simp
    then obtain n where "mb1 = mbuf_skip mb n" unfolding mbuf_fwd_def by blast
    then have "stun_attrs_decode al tid extra ua attrl mb = Some (Inl e, ua, mbuf_skip mb n)"
      using go d Inl by (subst stun_attrs_decode.simps) simp
    then show ?thesis using less.prems(4) by blast
  next
    case (Inr p)
    obtain a ua' where p: "p = (a, ua')" by fastforce
    from attr_decoded [of al tid ua mb a ua' mb1] d Inr p less.prems(1,4) obtain n where
      n: "mb1 = mbuf_skip mb n" "n \<le> length (mbuf_left mb)" "attr_size (at_type a) \<le> n" "ua_ok ua'" by blast
    have w: "mbuf_wf mb1" unfolding n(1) by (rule mbuf_wf_skip [OF less.prems(1) n(2)])
    have lt: "mbuf_get_left mb1 < mbuf_get_left mb"
      using n less.prems(1) w by (simp add: mbuf_get_left_rd mbuf_left_skip attr_size_def split: if_splits)
    from less.hyps [OF lt w _ less.prems(3) n(4), of "attrl @ [a]"] lt less.prems(2) obtain e ua'' k where
      "stun_attrs_decode al tid extra ua' (attrl @ [a]) mb1 = Some (Inl e, ua'', mbuf_skip mb1 k)" "ua_ok ua''" by auto
    moreover from this(1) have "stun_attrs_decode al tid extra ua attrl mb = Some (Inl e, ua'', mbuf_skip mb (n + k))"
      using go d Inr p n(1) by (subst stun_attrs_decode.simps) simp
    ultimately show ?thesis by blast
  qed
qed

lemma attrs_bounded:
  assumes "mbuf_wf mb" "extra \<le> mbuf_get_left mb" "ua_ok ua"
  shows "\<exists>r ua' n. stun_attrs_decode al tid extra ua attrl mb = Some (r, ua', mbuf_skip mb n) \<and> ua_ok ua' \<and>
     (\<forall>l. r = Inr l \<longrightarrow> (\<exists>as. l = attrl @ as \<and>
        sum_list (map (attr_size \<circ> at_type) as) \<le> mbuf_get_left mb - extra))"
  using assms
proof (induction "mbuf_get_left mb" arbitrary: mb ua attrl rule: less_induct)
  case less
  have small: "mbuf_get_left mb < 2 ^ 32" by (rule mbuf_left_small [OF less.prems(1)])
  then have s: "sz_sub (mbuf_get_left mb) extra = mbuf_get_left mb - extra" using less.prems(2) by (subst sz_sub_eq) simp_all
  show ?case
  proof (cases "4 \<le> mbuf_get_left mb - extra")
    case False
    then have "stun_attrs_decode al tid extra ua attrl mb = Some (Inr attrl, ua, mbuf_skip mb 0)"
      using s by (subst stun_attrs_decode.simps) simp
    then show ?thesis using less.prems(3)
      by (intro exI [of _ "Inr attrl"] exI [of _ ua] exI [of _ "0 :: nat"]) simp
  next
    case True
    then have go: "4 \<le> sz_sub (mbuf_get_left mb) extra" using s by simp
    obtain r mb1 where d: "stun_attr_decode al tid ua mb = (r, mb1)" by fastforce
    show ?thesis
    proof (cases r)
      case (Inl e)
      have "mbuf_fwd mb mb1" using d_safeD [OF safe_attr less.prems(1), of al tid ua] d by simp
      then obtain n where "mb1 = mbuf_skip mb n" unfolding mbuf_fwd_def by blast
      then have "stun_attrs_decode al tid extra ua attrl mb = Some (Inl e, ua, mbuf_skip mb n)"
        using go d Inl by (subst stun_attrs_decode.simps) simp
      then show ?thesis using less.prems(3) by (intro exI [of _ "Inl e"] exI [of _ ua] exI [of _ n]) simp
    next
      case (Inr p)
      obtain a ua' where p: "p = (a, ua')" by fastforce
      from attr_decoded [of al tid ua mb a ua' mb1] d Inr p less.prems(1,3) obtain n where
        n: "mb1 = mbuf_skip mb n" "n \<le> length (mbuf_left mb)" "attr_size (at_type a) \<le> n" "ua_ok ua'" by blast
      have w: "mbuf_wf mb1" unfolding n(1) by (rule mbuf_wf_skip [OF less.prems(1) n(2)])
      have gl: "mbuf_get_left mb1 = mbuf_get_left mb - n" using n less.prems(1) w by (simp add: mbuf_get_left_rd mbuf_left_skip)
      have nl: "n \<le> mbuf_get_left mb" "0 < n" using n less.prems(1) by (simp_all add: mbuf_get_left_rd attr_size_def split: if_splits)
      have step: "stun_attrs_decode al tid extra ua attrl mb = stun_attrs_decode al tid extra ua' (attrl @ [a]) mb1"
        using go d Inr p by (subst stun_attrs_decode.simps) simp
      show ?thesis
      proof (cases "extra \<le> mbuf_get_left mb1")
        case True
        have lt: "mbuf_get_left mb1 < mbuf_get_left mb" using gl nl by simp
        from less.hyps [OF lt w True n(4), of "attrl @ [a]"] obtain r' ua'' k where
          k: "stun_attrs_decode al tid extra ua' (attrl @ [a]) mb1 = Some (r', ua'', mbuf_skip mb1 k)" "ua_ok ua''"
          "\<forall>l. r' = Inr l \<longrightarrow> (\<exists>as. l = (attrl @ [a]) @ as \<and> sum_list (map (attr_size \<circ> at_type) as) \<le> mbuf_get_left mb1 - extra)"
          by blast
        have "\<exists>as. l = attrl @ as \<and> sum_list (map (attr_size \<circ> at_type) as) \<le> mbuf_get_left mb - extra" if "r' = Inr l" for l
        proof -
          from k(3) that obtain as where as: "l = attrl @ (a # as)" "sum_list (map (attr_size \<circ> at_type) as) \<le> mbuf_get_left mb1 - extra"
            by auto
          then have "sum_list (map (attr_size \<circ> at_type) (a # as)) \<le> mbuf_get_left mb - extra"
            using n(3) gl nl True by simp
          with as(1) show ?thesis by blast
        qed
        then show ?thesis unfolding step using k(1,2) n(1)
          by (intro exI [of _ r'] exI [of _ ua''] exI [of _ "n + k"]) simp
      next
        case False
        have "extra < 2 ^ 32" using less.prems(2) small by simp
        from attrs_overrun [OF w _ this n(4), of al tid "attrl @ [a]"] False obtain e ua'' k where
          "stun_attrs_decode al tid extra ua' (attrl @ [a]) mb1 = Some (Inl e, ua'', mbuf_skip mb1 k)" "ua_ok ua''" by auto
        then show ?thesis unfolding step using n(1)
          by (intro exI [of _ "Inl e"] exI [of _ ua''] exI [of _ "n + k"]) simp
      qed
    qed
  qed
qed

lemma hdr_ok:
  assumes "stun_hdr_decode mb = (Inr h, mb1)" "mbuf_wf mb"
  shows "mb1 = mbuf_skip mb 20" "20 + unat (sh_len h) \<le> mbuf_get_left mb" "mbuf_wf mb1"
proof -
  from assms(1) obtain type m1 len m2 cookie m3 tid where
    l: "20 \<le> mbuf_get_left mb" and 1: "d_u16 mb = (Inr type, m1)" and 2: "d_u16 m1 = (Inr len, m2)"
    and 3: "d_u32 m2 = (Inr cookie, m3)" and 4: "d_mem 12 m3 = (Inr tid, mb1)" and 5: "unat len \<le> mbuf_get_left mb1"
    and h: "sh_len h = len"
    unfolding stun_hdr_decode_def by (auto simp: d_ok stun_sizes)
  have l': "20 \<le> length (mbuf_left mb)" using l length_mbuf_left [OF assms(2)] by simp
  have w: "mbuf_wf (mbuf_skip mb k)" if "k \<le> 20" for k using mbuf_wf_skip [OF assms(2)] l' that by simp
  have e1: "m1 = mbuf_skip mb 2" using d_takes_ok [OF d_takes_reads(2) assms(2) _ 1] l' by simp
  have e2: "m2 = mbuf_skip mb 4" using d_takes_ok [OF d_takes_reads(2) _ _ 2] w [of 2] l' by (simp add: e1 mbuf_left_skip)
  have e3: "m3 = mbuf_skip mb 8" using d_takes_ok [OF d_takes_reads(3) _ _ 3] w [of 4] l' by (simp add: e2 mbuf_left_skip)
  show e4: "mb1 = mbuf_skip mb 20" using d_takes_ok [OF d_takes_reads(5) _ _ 4] w [of 8] l' by (simp add: e3 mbuf_left_skip)
  show "mbuf_wf mb1" unfolding e4 by (rule w) simp
  then show "20 + unat (sh_len h) \<le> mbuf_get_left mb" using 5 l' assms(2) h
    by (simp add: e4 mbuf_get_left_rd mbuf_left_skip)
qed

lemma find_size:
  "stun_attrl_find (\<lambda>a. at_type a = t) as \<noteq> None \<Longrightarrow> attr_size t \<le> sum_list (map (attr_size \<circ> at_type) as)"
  "stun_attrl_find (\<lambda>a. at_type a = t) as \<noteq> None \<Longrightarrow> stun_attrl_find (\<lambda>a. at_type a = u) as \<noteq> None \<Longrightarrow> t \<noteq> u \<Longrightarrow>
     attr_size t + attr_size u \<le> sum_list (map (attr_size \<circ> at_type) as)"
proof -
  have 1: "attr_size t \<le> sum_list (map (attr_size \<circ> at_type) as)" if "stun_attrl_find (\<lambda>a. at_type a = t) as \<noteq> None" for t as
    using that by (induction as) (auto split: if_splits)
  show "attr_size t \<le> sum_list (map (attr_size \<circ> at_type) as)" if "stun_attrl_find (\<lambda>a. at_type a = t) as \<noteq> None"
    using 1 that by blast
  show "attr_size t + attr_size u \<le> sum_list (map (attr_size \<circ> at_type) as)"
    if "stun_attrl_find (\<lambda>a. at_type a = t) as \<noteq> None" "stun_attrl_find (\<lambda>a. at_type a = u) as \<noteq> None" "t \<noteq> u"
    using that
  proof (induction as)
    case (Cons a as)
    then show ?case using 1 [of t as] 1 [of u as] by (auto simp: comp_def split: if_splits)
  qed simp
qed

lemma hash_lens:
  assumes "8 \<le> unat (sh_len h)"
  shows "stun_fp_len h + 8 = 20 + unat (sh_len h)"
    "24 \<le> unat (sh_len h) \<Longrightarrow> stun_mi_len h + 24 = 20 + unat (sh_len h)"
    "32 \<le> unat (sh_len h) \<Longrightarrow> stun_mi_len (h\<lparr>sh_len := sh_len h - word_of_nat FP_SIZE\<rparr>) + 32 = 20 + unat (sh_len h)"
proof -
  have c: "nat ((20 + uint w - int k) mod 2 ^ 64) + k = 20 + unat w" if "k \<le> 20 + unat w" for w :: u16 and k
  proof -
    obtain n where n: "unat w = n" "uint w = int n" by simp
    have "n < 2 ^ 16" using unsigned_less [of w, where ?'a = nat] n(1) by simp
    then have "(20 + int n - int k) mod 2 ^ 64 = 20 + int n - int k" using that n(1)
      by (intro mod_pos_pos_trivial) simp_all
    then show ?thesis using that n by simp
  qed
  show "stun_fp_len h + 8 = 20 + unat (sh_len h)" using c [of 8 "sh_len h"] assms by (simp add: stun_fp_len_def stun_sizes)
  show "stun_mi_len h + 24 = 20 + unat (sh_len h)" if "24 \<le> unat (sh_len h)"
    using c [of 24 "sh_len h"] that by (simp add: stun_mi_len_def stun_sizes)
  show "stun_mi_len (h\<lparr>sh_len := sh_len h - word_of_nat FP_SIZE\<rparr>) + 32 = 20 + unat (sh_len h)" if "32 \<le> unat (sh_len h)"
  proof -
    have u: "unat (sh_len h - 8) = unat (sh_len h) - 8" using assms by (subst unat_sub) (simp_all add: word_le_nat_alt)
    show ?thesis using c [of 24 "sh_len h - 8"] u that by (simp add: stun_mi_len_def stun_sizes)
  qed
qed

section \<open>Padding in a full block\<close>

text \<open>Like the padding loops of RTCP, the one of the attribute encoder looks only at the cursor: where the
  byte cannot be written it does not end.\<close>

lemma stun_pad_stuck:
  assumes "stun_pad al start padding r = Some r'"
  shows "mbuf_write_u8 al (snd r) padding = (ENOMEM, snd r) \<longrightarrow> sz_sub (mb_pos (snd r)) start mod 4 = 0"
proof (rule stun_pad.raw_induct [OF _ assms, where P =
      "\<lambda>al start padding r r'. mbuf_write_u8 al (snd r) padding = (ENOMEM, snd r) \<longrightarrow> sz_sub (mb_pos (snd r)) start mod 4 = 0"])
  fix f al start padding r r'
  assume IH: "\<And>al start padding r r'. f al start padding r = Some r' \<Longrightarrow>
      mbuf_write_u8 al (snd r) padding = (ENOMEM, snd r) \<longrightarrow> sz_sub (mb_pos (snd r)) start mod 4 = 0"
    and eq: "(if sz_sub (mb_pos (snd r)) start mod 4 \<noteq> 0
       then f al start padding (err_or r (\<lambda>mb. mbuf_write_u8 al mb padding)) else Some r) = Some r'"
  show "mbuf_write_u8 al (snd r) padding = (ENOMEM, snd r) \<longrightarrow> sz_sub (mb_pos (snd r)) start mod 4 = 0"
  proof
    assume w: "mbuf_write_u8 al (snd r) padding = (ENOMEM, snd r)"
    then have s: "snd (err_or r (\<lambda>mb. mbuf_write_u8 al mb padding)) = snd r" by (simp add: err_or_def split_def)
    show "sz_sub (mb_pos (snd r)) start mod 4 = 0"
    proof (rule ccontr)
      assume n: "sz_sub (mb_pos (snd r)) start mod 4 \<noteq> 0"
      with eq have "f al start padding (err_or r (\<lambda>mb. mbuf_write_u8 al mb padding)) = Some r'" by simp
      from IH [OF this] w s n show False by simp
    qed
  qed
qed

lemma stun_pad_diverges:
  "mbuf_write_u8 al mb padding = (ENOMEM, mb) \<Longrightarrow> sz_sub (mb_pos mb) start mod 4 \<noteq> 0 \<Longrightarrow>
     stun_pad al start padding (e, mb) = None"
  using stun_pad_stuck [of al start padding "(e, mb)"] by (cases "stun_pad al start padding (e, mb)") auto

theorem stun_attr_encode_diverges:
  "stun_attr_encode \<lparr>avail = (\<lambda>_. False), junk = (\<lambda>_. 0)\<rparr>
     \<lparr>mb_buf = Some (replicate 5 0), mb_size = 5, mb_pos = 0, mb_end = 0\<rparr> STUN_ATTR_USERNAME (V_str [97]) None 0 = None"
proof -
  have k: "stun_kind STUN_ATTR_USERNAME = K_str" by (simp add: stun_kind_def)
  have s: "sz_sub 5 4 = 1" "sz_sub 4 4 = 0" by (simp_all add: sz_sub_def szt_def)
  let ?al = "\<lparr>avail = (\<lambda>_. False), junk = (\<lambda>_. 0)\<rparr>"
  have "stun_pad ?al 4 0 (e, mb) = None" if "mb_pos mb = 5" "mb_size mb = 5" for e mb
  proof (rule stun_pad_diverges)
    show "mbuf_write_u8 ?al mb 0 = (ENOMEM, mb)" using that
      by (auto simp: mbuf_write_u8_def mbuf_write_mem_def mbuf_grow_def mbuf_resize_def mem_realloc_def mem_alloc_def malloc_def
          ENOMEM_def split: option.split)
  qed (simp add: that s)
  then show ?thesis
    by (simp add: stun_attr_encode_def stun_value_encode_def k mbuf_write_str_def mbuf_write_mem_def mbuf_grow_def
        mbuf_write_u16_def err_or_def Let_def s sz_sub_def [of 4 4])
qed

lemma attrs_found:
  assumes as: "list_all2 attr_same as (as0 @ mi_attrs hm hf B key @ fp_attrs hf C fp)"
    and nt0: "\<forall>(type, v) \<in> set as0. type \<noteq> STUN_ATTR_MSG_INTEGRITY \<and> type \<noteq> STUN_ATTR_FINGERPRINT"
  shows "\<not> fp \<Longrightarrow> stun_attrl_find (\<lambda>a. at_type a = STUN_ATTR_FINGERPRINT) as = None"
    and "fp \<Longrightarrow> \<exists>a. stun_attrl_find (\<lambda>a. at_type a = STUN_ATTR_FINGERPRINT) as = Some a \<and> at_v a = fp_val hf C"
    and "key = Some k \<Longrightarrow> \<exists>a. stun_attrl_find (\<lambda>a. at_type a = STUN_ATTR_MSG_INTEGRITY) as = Some a \<and>
       v_msg_integrity (at_v a) = hm k (hdr_img (hf (length B + MI_SIZE)) @ B)"
proof -
  have nt: "type \<noteq> STUN_ATTR_MSG_INTEGRITY \<and> type \<noteq> STUN_ATTR_FINGERPRINT" if "(type, v) \<in> set as0" for type v
    using nt0 that by auto
  show "stun_attrl_find (\<lambda>a. at_type a = STUN_ATTR_FINGERPRINT) as = None" if "\<not> fp"
    using find_none [OF as] nt that by (fastforce simp: fp_attrs_def mi_attrs_def split: option.splits)
  show "\<exists>a. stun_attrl_find (\<lambda>a. at_type a = STUN_ATTR_FINGERPRINT) as = Some a \<and> at_v a = fp_val hf C" if fp
  proof -
    have "\<exists>a. stun_attrl_find (\<lambda>a. at_type a = STUN_ATTR_FINGERPRINT) as = Some a \<and> val_same (at_v a) (fp_val hf C)"
      by (rule find_first [of as "as0 @ mi_attrs hm hf B key" _ _ "[]"])
        (use as nt that in \<open>fastforce simp: fp_attrs_def mi_attrs_def split: option.splits\<close>)+
    then show ?thesis by (auto simp: val_same_def fp_val_def)
  qed
  show "\<exists>a. stun_attrl_find (\<lambda>a. at_type a = STUN_ATTR_MSG_INTEGRITY) as = Some a \<and>
     v_msg_integrity (at_v a) = hm k (hdr_img (hf (length B + MI_SIZE)) @ B)" if "key = Some k"
  proof -
    have "\<exists>a. stun_attrl_find (\<lambda>a. at_type a = STUN_ATTR_MSG_INTEGRITY) as = Some a \<and> val_same (at_v a) (mi_val hm hf B k)"
      by (rule find_first [of as as0 _ _ "fp_attrs hf C fp"]) (use as nt that in \<open>fastforce simp: mi_attrs_def\<close>)+
    then show ?thesis by (auto simp: val_same_def mi_val_def)
  qed
qed

lemma checks_accept:
  assumes l: "lay (sm_mb msg) P (hdr_img (sm_hdr msg) @ B @ M @ F)" and p: "sm_start msg = length P"
    and e: "mb_end (sm_mb msg) = length P + 20 + length (B @ M @ F)"
    and h: "sm_hdr msg = hdr_of meth cls tid (length (B @ M @ F))" and t: "length tid = 12"
    and as: "list_all2 attr_same (sm_attrl msg)
      (as0 @ mi_attrs hm (hdr_of meth cls tid) B key @ fp_attrs (hdr_of meth cls tid) (B @ M) fp)"
    and nt: "\<forall>(type, v) \<in> set as0. type \<noteq> STUN_ATTR_MSG_INTEGRITY \<and> type \<noteq> STUN_ATTR_FINGERPRINT"
    and M: "length M = (if key \<noteq> None then MI_SIZE else 0)" and F: "length F = (if fp then FP_SIZE else 0)"
    and sm: "length (B @ M @ F) < 2 ^ 16" and hm: "\<And>k d. length (hm k d) = 20"
  shows "key = Some k \<Longrightarrow> fst (stun_msg_chk_mi hm al msg k) = 0"
    and "fp \<Longrightarrow> fst (stun_msg_chk_fingerprint msg) = 0"
proof -
  let ?fp = "stun_msg_attr (Some msg) STUN_ATTR_FINGERPRINT"
  note found = attrs_found [OF as nt]
  have lf: "length F = (if ?fp = None then 0 else 8)"
    using found(1,2) F by (auto simp: FP_SIZE_def stun_msg_attr_def)
  show "fst (stun_msg_chk_mi hm al msg k) = 0" if k: "key = Some k"
  proof -
    from found(3) [OF k] obtain a where a: "stun_msg_attr (Some msg) STUN_ATTR_MSG_INTEGRITY = Some a"
      "v_msg_integrity (at_v a) = hm k (hdr_img (hdr_of meth cls tid (length B + 24)) @ B)"
      by (auto simp: stun_msg_attr_def MI_SIZE_def)
    show ?thesis using chk_mi_hash [OF l p e h t _ lf sm a(1) a(2) hm hm] M k by (simp add: MI_SIZE_def)
  qed
  show "fst (stun_msg_chk_fingerprint msg) = 0" if fp
  proof -
    from found(2) [OF that] obtain a where a: "?fp = Some a" "at_v a = fp_val (hdr_of meth cls tid) (B @ M)"
      by (auto simp: stun_msg_attr_def)
    have f: "length F = 8" using F that by (simp add: FP_SIZE_def)
    show ?thesis using chk_fp_hash [of msg P "B @ M" F meth "cls" tid a, OF _ p _ t f _ a(1)] l h sm f a(2)
      by (simp add: fp_val_def FP_SIZE_def add.assoc)
  qed
qed

lemma decode_outcome:
  assumes wf: "mbuf_wf mb" and uo: "ua_ok ua"
  obtains ua' e where "stun_msg_decode al mb ua = Some (Inl e, ua', mb)" "ua_ok ua'"
  | ua' h l where "stun_msg_decode al mb ua =
        Some (Inr \<lparr>sm_hdr = h, sm_attrl = l, sm_mb = mb, sm_start = mb_pos mb\<rparr>, ua', mb)" "ua_ok ua'"
      "20 + unat (sh_len h) \<le> mbuf_get_left mb" "sum_list (map (attr_size \<circ> at_type) l) \<le> unat (sh_len h)"
proof -
  obtain r mb1 where d: "stun_hdr_decode mb = (r, mb1)" by fastforce
  have bck: "(mbuf_skip mb k)\<lparr>mb_pos := mb_pos mb\<rparr> = mb" for k by (simp add: mbuf_skip_def)
  show thesis
  proof (cases r)
    case (Inl e)
    have "mbuf_fwd mb mb1" using d_safeD [OF safe_hdr wf] d by simp
    then have "mb1\<lparr>mb_pos := mb_pos mb\<rparr> = mb" unfolding mbuf_fwd_def using bck by auto
    then have "stun_msg_decode al mb ua = Some (Inl e, ua, mb)" using d Inl by (simp add: stun_msg_decode_def Let_def)
    then show thesis using uo by (rule that(1))
  next
    case (Inr h)
    note hk = hdr_ok [OF d [unfolded Inr] wf]
    have e1: "mb1\<lparr>mb_pos := mb_pos mb\<rparr> = mb" by (simp add: hk(1) bck)
    have gl: "mbuf_get_left mb1 = mbuf_get_left mb - 20"
      using hk wf by (simp add: mbuf_get_left_rd mbuf_left_skip)
    have "mbuf_get_left mb1 < 2 ^ 32" by (rule mbuf_left_small [OF hk(3)])
    then have x: "sz_sub (mbuf_get_left mb1) (unat (sh_len h)) = mbuf_get_left mb1 - unat (sh_len h)"
      using hk(2) gl by (subst sz_sub_eq) simp_all
    let ?x = "mbuf_get_left mb1 - unat (sh_len h)" and ?ua = "map_option (\<lambda>u. u\<lparr>typec := 0\<rparr>) ua"
    have "ua_ok ?ua" using uo by (auto simp: ua_ok_def)
    from attrs_bounded [OF hk(3) _ this, of ?x al "sh_tid h" "[]"] obtain r' ua' n where
      n: "stun_attrs_decode al (sh_tid h) ?x ?ua [] mb1 = Some (r', ua', mbuf_skip mb1 n)" "ua_ok ua'"
      "\<forall>l. r' = Inr l \<longrightarrow> sum_list (map (attr_size \<circ> at_type) l) \<le> mbuf_get_left mb1 - ?x" by auto
    have e2: "(mbuf_skip mb1 n)\<lparr>mb_pos := mb_pos mb\<rparr> = mb" by (simp add: hk(1) bck)
    note ev = stun_msg_decode_def Let_def d Inr x n(1) e1 e2
    consider "mem_zalloc al sizeof_stun_msg = None" | b e where "mem_zalloc al sizeof_stun_msg = Some b" "r' = Inl e"
      | b l where "mem_zalloc al sizeof_stun_msg = Some b" "r' = Inr l"
      by (cases r'; cases "mem_zalloc al sizeof_stun_msg") auto
    then show thesis
    proof cases
      case 1 then show ?thesis using uo by (intro that(1) [of ENOMEM ua]) (simp_all add: ev)
    next
      case 2 then show ?thesis using n(2) by (intro that(1) [of _ ua']) (simp_all add: ev)
    next
      case (3 b l)
      have "sum_list (map (attr_size \<circ> at_type) l) \<le> unat (sh_len h)" using n(3) 3(2) hk(2) gl by auto
      with 3 show ?thesis using n(2) hk(2) by (intro that(2) [of h l ua']) (simp_all add: ev)
    qed
  qed
qed

lemma hash_ranges:
  assumes "sum_list (map (attr_size \<circ> at_type) (sm_attrl msg)) \<le> unat (sh_len (sm_hdr msg))"
  shows "stun_msg_attr (Some msg) STUN_ATTR_FINGERPRINT \<noteq> None \<Longrightarrow>
      stun_fp_len (sm_hdr msg) + 8 = 20 + unat (sh_len (sm_hdr msg))"
    and "stun_msg_attr (Some msg) STUN_ATTR_MSG_INTEGRITY \<noteq> None \<Longrightarrow>
      stun_mi_len (sm_hdr msg) + 24 = 20 + unat (sh_len (sm_hdr msg))"
    and "stun_msg_attr (Some msg) STUN_ATTR_MSG_INTEGRITY \<noteq> None \<Longrightarrow> stun_msg_attr (Some msg) STUN_ATTR_FINGERPRINT \<noteq> None \<Longrightarrow>
      stun_mi_len ((sm_hdr msg)\<lparr>sh_len := sh_len (sm_hdr msg) - word_of_nat FP_SIZE\<rparr>) + 32 = 20 + unat (sh_len (sm_hdr msg))"
  using assms hash_lens [of "sm_hdr msg"] find_size(1) [of STUN_ATTR_FINGERPRINT "sm_attrl msg"]
    find_size(1) [of STUN_ATTR_MSG_INTEGRITY "sm_attrl msg"] find_size(2) [of STUN_ATTR_MSG_INTEGRITY "sm_attrl msg" STUN_ATTR_FINGERPRINT]
  by (simp_all add: stun_msg_attr_def attr_size_def)

section \<open>Properties\<close>



definition stun_wit_tid :: bytes where
  "stun_wit_tid = replicate 12 7"

definition stun_wit_hm :: "bytes \<Rightarrow> bytes \<Rightarrow> bytes" where
  "stun_wit_hm k d = take 20 (k @ d @ replicate 20 0)"

definition stun_wit_ap :: "(u16 \<times> stun_val option) list" where
  "stun_wit_ap = [(STUN_ATTR_USERNAME, Some (V_str (str_bytes ''ab''))), (STUN_ATTR_REALM, None)]"


text \<open>C7: \<^verbatim>\<open>stun_msg_decode\<close> is safe on arbitrary data. On every well-formed buffer it returns, with the
  buffer as it was; the list of unknown attributes never outgrows its array; and a message it accepts lies
  within the data: its length does, its attributes fit into that length (the loop condition
  \<^verbatim>\<open>mbuf_get_left(mb) - extra >= 4\<close> wraps around when an attribute is longer than the message, and then the
  message is rejected), and so the ranges over which \<^verbatim>\<open>stun_msg_chk_mi\<close> and
  \<^verbatim>\<open>stun_msg_chk_fingerprint\<close> compute their hashes, whose lengths are subtractions too, are within the message.\<close>

theorem stun_msg_decode_safe:
  assumes "mbuf_wf mb" "ua_ok ua"
  shows "\<exists>r ua'. stun_msg_decode al mb ua = Some (r, ua', mb) \<and> ua_ok ua' \<and>
     (\<forall>msg. r = Inr msg \<longrightarrow> sm_mb msg = mb \<and> sm_start msg = mb_pos mb \<and>
        20 + unat (sh_len (sm_hdr msg)) \<le> mbuf_get_left mb \<and>
        sum_list (map (attr_size \<circ> at_type) (sm_attrl msg)) \<le> unat (sh_len (sm_hdr msg)) \<and>
        (stun_msg_attr (Some msg) STUN_ATTR_FINGERPRINT \<noteq> None \<longrightarrow>
           stun_fp_len (sm_hdr msg) + 8 = 20 + unat (sh_len (sm_hdr msg))) \<and>
        (stun_msg_attr (Some msg) STUN_ATTR_MSG_INTEGRITY \<noteq> None \<longrightarrow>
           (if stun_msg_attr (Some msg) STUN_ATTR_FINGERPRINT = None
            then stun_mi_len (sm_hdr msg) + 24 = 20 + unat (sh_len (sm_hdr msg))
            else stun_mi_len ((sm_hdr msg)\<lparr>sh_len := sh_len (sm_hdr msg) - word_of_nat FP_SIZE\<rparr>) + 32 =
                   20 + unat (sh_len (sm_hdr msg)))))"
using assms(1,2)
proof (cases rule: decode_outcome [where al = al])
  case (2 ua' h l)
  then show ?thesis using hash_ranges [of "\<lparr>sm_hdr = h, sm_attrl = l, sm_mb = mb, sm_start = mb_pos mb\<rparr>"] by simp
qed simp

text \<open>A message of one attribute that claims more than the message holds: the trailing bytes do not save it.\<close>

definition stun_wit_bad :: mbuf where
  "stun_wit_bad = \<lparr>mb_buf = Some (replicate 3 0 @ [4] @ replicate 17 0 @ [8, 0, 20] @ replicate 20 0), mb_size = 44, mb_pos = 0, mb_end = 44\<rparr>"

theorem stun_msg_decode_safe_witness:
  "mbuf_wf stun_wit_bad \<and> (\<exists>r ua'. stun_msg_decode al_all stun_wit_bad None = Some (r, ua', stun_wit_bad))"
proof -
  have "mbuf_wf stun_wit_bad" by (simp add: stun_wit_bad_def mbuf_wf_def mbuf_bytes_def MEM_SIZE_MAX_def)
  then show ?thesis using stun_msg_decode_safe [of stun_wit_bad None al_all] by (auto simp: ua_ok_def)
qed

text \<open>C17: method and class are packed into the 14 bit message type without loss of the method, for every
  method of 12 bits; \<^verbatim>\<open>STUN_CLASS\<close> gives the class back exactly when bits 4 and 6 of the method,
  which it fails to mask, are covered by it. That is the case for the methods the code defines, all below 16.\<close>

theorem stun_type_fields:
  assumes "meth < 0x1000" "cls < 4"
  shows "STUN_METHOD (STUN_TYPE meth cls) = meth \<and> STUN_TYPE meth cls AND 0xc000 = 0 \<and>
     (STUN_CLASS (STUN_TYPE meth cls) = ucast cls \<longleftrightarrow> (bit meth 6 \<longrightarrow> bit cls 0) \<and> (bit meth 4 \<longrightarrow> bit cls 1)) \<and>
     (meth < 16 \<longrightarrow> STUN_CLASS (STUN_TYPE meth cls) = ucast cls)"
proof -
  have "\<not> bit meth 4" "\<not> bit meth 6" if "meth < 16"
    using small_word_bits [of meth 4 4] small_word_bits [of meth 4 6] that by auto
  then show ?thesis using STUN_METHOD_TYPE [OF assms(1)] STUN_TYPE_top STUN_CLASS_TYPE [OF assms(2)] by auto
qed

theorem stun_type_fields_witness:
  "STUN_METHOD (STUN_TYPE 1 2) = 1 \<and> STUN_CLASS (STUN_TYPE 1 2) = 2 \<and> STUN_CLASS (STUN_TYPE 0x10 0) \<noteq> 0"
  using stun_type_fields [of 1 2] stun_type_fields [of "0x10" 0] by simp

end
