(* ===== verification/Spec2Isabelle.thy ===== *)
theory Spec2Isabelle
  imports Prelude Mbuf Codec Str Linked_List Hash Base64 Rtp Rtcp Rtcp_Sess Srtp Dns
    Crc32 Sa Layout Stun
begin

text \<open>
  A verification development of libre, a C library for real-time communication (paths below are
  relative to \<^verbatim>\<open>src/src\<close>). It models the containers and codecs at the bottom of the library and, on
  top of them, four protocols: RTP with RTCP, secure RTP, DNS messages and STUN messages.

  \<^bold>\<open>How the parts interact.\<close> Every protocol reads from and writes to memory buffers
  (\<^verbatim>\<open>mbuf\<close>), which get their memory from \<^verbatim>\<open>mem\<close>. Linked lists carry hash tables; hash tables carry the
  members of an RTCP session. An RTP socket owns an RTCP session and decodes what it receives with the header
  and packet codecs; secure RTP rewrites such packets in place. The DNS encoder compresses names
  with a table of those it has written. A STUN message holds socket addresses, a keyed digest and a CRC-32.

  \<^bold>\<open>Theories and sources.\<close>
  \<^item> \<open>Prelude\<close>: C integers, error codes, block copies, \<^verbatim>\<open>sys/endian.c\<close>.
  \<^item> \<open>Mbuf\<close>: \<^verbatim>\<open>mbuf/mbuf.c\<close>, \<^verbatim>\<open>re_mbuf.h\<close> and the allocation functions of \<^verbatim>\<open>mem/mem.c\<close>. The record
    \<open>mbuf\<close> is the C structure with the contents of its block.
  \<^item> \<open>Codec\<close>: the idioms of the decoders as combinators and the locale \<open>mbuf_codec\<close> of matching
    encoders and decoders, interpreted in the protocol theories. \<open>Layout\<close>: writing into space
    that was reserved by moving the cursor.
  \<^item> \<open>Str\<close>: \<^verbatim>\<open>fmt/str.c\<close>, \<^verbatim>\<open>fmt/ch.c\<close>. \<open>Base64\<close>: \<^verbatim>\<open>base64/b64.c\<close>. \<open>Crc32\<close>: \<^verbatim>\<open>crc32/crc32.c\<close>.
    \<open>Sa\<close>: \<^verbatim>\<open>sa/sa.c\<close> without the text conversions, on the byte image of the union.
  \<^item> \<open>Linked_List\<close>: \<^verbatim>\<open>list/list.c\<close> on an explicit heap of elements and headers, with the locale
    \<open>list_store\<close>. \<open>Hash\<close>: \<^verbatim>\<open>hash/hash.c\<close> and \<^verbatim>\<open>hash/func.c\<close> over that heap.
  \<^item> \<open>Rtp\<close>: header and reception statistics of \<^verbatim>\<open>rtp/rtp.c\<close>, \<^verbatim>\<open>rtp/source.c\<close>, \<^verbatim>\<open>rtp/ntp.c\<close>.
    \<open>Rtcp\<close>: \<^verbatim>\<open>rtp/pkt.c\<close>, \<^verbatim>\<open>rr.c\<close>, \<^verbatim>\<open>sdes.c\<close>, \<^verbatim>\<open>fb.c\<close>. \<open>Rtcp_Sess\<close>: \<^verbatim>\<open>rtp/member.c\<close>, \<^verbatim>\<open>sess.c\<close> and the
    sockets of \<^verbatim>\<open>rtp.c\<close>, with the locale \<open>keyed_table\<close> between the session and its member table.
  \<^item> \<open>Srtp\<close>: \<^verbatim>\<open>srtp/\<close>, with the locale \<open>replay_guard\<close> between the replay window and the session.
  \<^item> \<open>Dns\<close>: \<^verbatim>\<open>dns/hdr.c\<close>, \<^verbatim>\<open>dname.c\<close>, \<^verbatim>\<open>cstr.c\<close>, \<^verbatim>\<open>rr.c\<close>, \<^verbatim>\<open>rrlist.c\<close>.
  \<^item> \<open>Stun\<close>: \<^verbatim>\<open>stun/hdr.c\<close>, \<^verbatim>\<open>addr.c\<close>, \<^verbatim>\<open>attr.c\<close>, \<^verbatim>\<open>msg.c\<close>.

  \<^bold>\<open>Correspondence.\<close> A function of the source is a definition of the same name. The buffer it
  changes is an argument and a result, an error code is a natural number or the left side of
  a sum, and \<^verbatim>\<open>err |= f()\<close> is \<open>err_or\<close>. A record argument is a pointer that is not NULL; a pointer that may be
  NULL is an \<open>option\<close>. Integers have their C width; a \<^verbatim>\<open>size_t\<close> is a natural number reduced modulo
  \<open>2 ^ 64\<close> where the code can wrap. The host is little endian. The allocator
  is an argument, \<open>malloc_env\<close>, that may refuse any request; the results hold for every allocator
  unless a hypothesis asks that memory lasts.

  \<^bold>\<open>What is shown.\<close>
  \<^item> \<open>Mbuf\<close>: every sequence of operations keeps the cursor and the end inside the block, and
    bytes written are read back.
  \<^item> \<open>Linked_List\<close>, \<open>Hash\<close>: the pointer operations implement operations on sequences and
    on an array of sequences; \<^verbatim>\<open>list_sort\<close> sorts and terminates when its handler is total, and
    never returns on a tie under a strict one.
  \<^item> \<open>Base64\<close>, \<open>Crc32\<close>, \<open>Sa\<close>: decoding inverts encoding, and how far the decoder can write; the
    table driven checksum is the bit serial one; \<^verbatim>\<open>sa_cmp\<close> is an equivalence the hash respects.
  \<^item> \<open>Rtp\<close>, \<open>Rtcp\<close>: what is encoded decodes to the same value; decoding arbitrary bytes stays in
    the data and ends; losses are counted across wrap-around.
  \<^item> \<open>Rtcp_Sess\<close>: the counters, the table and the objects of every reachable session agree; a BYE
    removes its sources; reports decode; handlers return on every datagram.
  \<^item> \<open>Srtp\<close>: unprotecting restores what was protected under loss and reordering; an accepted
    packet carries the right tag and is never accepted twice; the 64 bit window refines the set of
    accepted indices; two cases in which the code accepts or loses packets it should not.
  \<^item> \<open>Dns\<close>: records with compressed names decode to themselves; the name decoder ends on every
    input within its buffers; searching and sorting of records; a TXT record on which encoding never ends.
  \<^item> \<open>Stun\<close>: an encoded message decodes to its header and attributes and passes the integrity
    and fingerprint checks; decoding arbitrary bytes returns inside the data; which methods the
    type macros keep apart from the class.

  \<^bold>\<open>Loops.\<close> A loop that can run for ever is a \<open>partial_function (option)\<close> with \<open>None\<close> for not
  returning, and that it returns is proved under the condition it needs: the padding loops when the buffer can
  grow, the walks over a list when it is well linked, the attribute loop because each round consumes
  data. The other loops are functions with a termination measure. There is no fuel; where the source counts
  (the depth of \<^verbatim>\<open>dns_rrlist_find\<close>, the steps of the name decoder) the model counts to the same bound.

  \<^bold>\<open>Parameters.\<close> AES and HMAC belong to the cryptographic library of the build and are arguments
  of the definitions, with the laws used (decryption inverts encryption, sizes of results) as
  hypotheses. Clocks, random values and addresses of new objects are arguments as well.

  \<^bold>\<open>Not modelled.\<close> Sockets, timers, threads, TLS and the main loop are system calls or
  wrappers of other libraries; the printf family, the regular expression matcher and the text protocols built on them
  (SIP, SDP, HTTP, URIs) are left out, as are the STUN, TURN and ICE transactions, which run over timers
  and sockets, the DNS client, and the reference counts of \<^verbatim>\<open>mem\<close>. RTMP, BFCP, PCP, JSON, the video payload
  formats and the media processing under \<^verbatim>\<open>rem\<close> are not covered yet.
\<close>

end
